(* ===== verification/Engine_Prelude.thy ===== *)
theory Engine_Prelude
  imports Complex_Main "HOL-Library.Word" "HOL-Library.Multiset"
begin

text \<open>
  Shared vocabulary of the development: the type names the components use for the engine's
  machine types, the exceptions its code throws, the fact collections the component proofs
  carry, and the generic lemmas on lists, multisets and options that several components need.

  Conventions. A C++ \<open>int\<close> that is a size or an index is a \<open>nat\<close>; one that can be negative
  in the code (token budgets, configuration fields, computed-token counts) is an \<open>int\<close>; both
  are unbounded, and the components say where a 32-bit overflow would need operands near
  \<open>2^31\<close>. A \<open>uint64_t\<close> used for hashing is a \<open>64 word\<close>, where wrap-around is the point.
  A time point of \<open>steady_clock\<close> is its \<open>int\<close> tick count (nanoseconds); 0 is the
  default-constructed time point the code compares with.
\<close>

type_synonym u64 = "64 word"
type_synonym u32 = "32 word"
type_synonym u16 = "16 word"
type_synonym byte = "8 word"
type_synonym token = int
type_synonym block_id = nat
type_synonym time_point = int

text \<open>The exceptions that leave the modelled code, as values.\<close>

datatype engine_error =
    Length_Error
  | Invalid_Argument string
  | Runtime_Error string
  | Out_Of_Range string
  | Assertion_Failed

type_synonym 'a result = "engine_error + 'a"

named_theorems kv_simps "field lemmas of the KV cache operations"
named_theorems sched_simps "field lemmas of the scheduler operations"

subsection \<open>Lists and multisets\<close>

lemma count_mset_nth_pos: "i < length xs \<Longrightarrow> 0 < count (mset xs) (xs ! i)"
  by (simp add: count_greater_zero_iff)

lemma set_remove1_distinct: "distinct xs \<Longrightarrow> set (remove1 x xs) = set xs - {x}"
  by simp

lemma mem_butlast_distinct:
  "distinct xs \<Longrightarrow> xs \<noteq> [] \<Longrightarrow> set (butlast xs) = set xs - {last xs}"
  by (cases xs rule: rev_cases) auto

lemma count_one_nth_inj:
  assumes "count (mset xs) (xs ! i) = 1" "i < length xs" "j < length xs" "j \<noteq> i"
  shows "xs ! j \<noteq> xs ! i"
proof
  assume e: "xs ! j = xs ! i"
  let ?S = "{k. k < length xs \<and> xs ! i = xs ! k}"
  have "{i, j} \<subseteq> ?S" using assms e by auto
  then have "card {i, j} \<le> card ?S" by (rule card_mono[rotated]) simp
  moreover have "count (mset xs) (xs ! i) = card ?S"
    by (simp add: count_mset count_list_eq_length_filter length_filter_conv_card)
  ultimately show False using assms by simp
qed

lemma card_union_lists:
  "distinct xs \<Longrightarrow> distinct ys \<Longrightarrow> set xs \<inter> set ys = {} \<Longrightarrow>
   card (set xs \<union> set ys) = length xs + length ys"
  by (simp add: card_Un_disjoint distinct_card)

lemma count_list_distinct: "distinct xs \<Longrightarrow> count_list xs x = (if x \<in> set xs then 1 else 0)"
  by (induction xs) auto

subsection \<open>Division\<close>

lemma block_offset_eq:
  fixes a b p q k :: nat
  assumes "a * k + p mod k = b * k + q mod k" "0 < k"
  shows "a = b" "p mod k = q mod k"
proof -
  have "(a * k + p mod k) div k = a" "(b * k + q mod k) div k = b" using assms(2) by simp_all
  then show "a = b" using assms(1) by simp
  then show "p mod k = q mod k" using assms(1) by simp
qed

subsection \<open>Rows of one length\<close>

lemma row_index: "b < B \<Longrightarrow> j < n \<Longrightarrow> b * n + j < B * n" for b :: nat
  by (metis Suc_leI add.commute add_less_cancel_right less_le_trans mult_Suc mult_le_mono1)

text \<open>The elements of a concatenation of rows of one length.\<close>

lemma concat_rows_length: "(\<And>b. b < m \<Longrightarrow> length (f b) = n) \<Longrightarrow> length (concat (map f [0..<m])) = m * n"
  by (induction m) simp_all

lemma concat_rows_nth:
  assumes "\<And>b. b < m \<Longrightarrow> length (f b) = n" "b < m" "j < n"
  shows "concat (map f [0..<m]) ! (b * n + j) = f b ! j"
  using assms
proof (induction m)
  case (Suc m)
  have "length (concat (map f [0..<m])) = m * n" using Suc.prems(1) by (intro concat_rows_length) simp
  then show ?case using Suc row_index[of b m j n] by (cases "b < m") (auto simp: nth_append less_Suc_eq)
qed simp

end
