(* ===== verification/KV_Cache.thy ===== *)
theory KV_Cache
  imports Engine_Prelude
begin

text \<open>
  The paged KV cache bookkeeping of \<open>src/include/engine/kv_cache.h\<close> and
  \<open>src/src/kv_cache/block_allocator.cpp\<close>: block tables, the content hash of a block, and every
  operation of \<open>KVCacheManager\<close> as a function on its state record.

  \<^item> The private member \<open>x_\<close> of the class is the field \<open>kv_x\<close>. \<open>kv_free\<close> is the vector, so \<open>push_back\<close> appends and \<open>back\<close> is \<open>last\<close>; \<open>kv_lru\<close> is the
    \<open>std::list\<close> with the front as head.
  \<^item> \<open>kv_lru_pos\<close> maps a block to the iterator of its node in \<open>kv_lru\<close>. A node is identified by the
    block it holds, so the map is the set of its keys and erasing through the iterator of \<open>b\<close>
    removes \<open>b\<close> from the list; the invariant of theory \<open>KV_Invariant\<close> shows that a block is
    listed at most once and that the key set is exactly the list's content.
  \<^item> \<open>kv_ref_count\<close> holds (signed) ints, as in the code, so a release that ran below zero would
    be visible in the model.
\<close>

unbundle bit_operations_syntax

subsection \<open>Block tables\<close>

record block_table =
  blocks :: "block_id list"
  hashes :: "u64 list"
  num_committed :: nat

definition empty_table :: block_table where
  "empty_table = \<lparr>blocks = [], hashes = [], num_committed = 0\<rparr>"

definition bt_num_blocks :: "block_table \<Rightarrow> nat" where
  "bt_num_blocks bt = length (blocks bt)"

definition bt_empty :: "block_table \<Rightarrow> bool" where
  "bt_empty bt \<longleftrightarrow> blocks bt = []"

text \<open>The physical slot of logical position \<open>pos\<close>.\<close>

definition slot :: "block_table \<Rightarrow> nat \<Rightarrow> nat \<Rightarrow> nat" where
  "slot bt pos bs = (blocks bt ! (pos div bs)) * bs + pos mod bs"

subsection \<open>State of the manager\<close>

record kv_cache_stats =
  prefix_queries :: nat
  prefix_hit_blocks :: nat
  prefix_total_blocks :: nat
  evictions :: nat
  allocation_failures :: nat

record kv_cache =
  kv_num_blocks :: nat
  kv_block_size :: nat
  kv_prefix_caching :: bool
  kv_free :: "block_id list"
  kv_ref_count :: "int list"
  kv_hash_to_block :: "u64 \<rightharpoonup> block_id"
  kv_block_hash :: "u64 list"
  kv_lru :: "block_id list"
  kv_lru_pos :: "block_id set"
  kv_stats :: kv_cache_stats

definition zero_kv_stats :: kv_cache_stats where
  "zero_kv_stats = \<lparr>prefix_queries = 0, prefix_hit_blocks = 0, prefix_total_blocks = 0,
     evictions = 0, allocation_failures = 0\<rparr>"

text \<open>
  The constructor. The member initialisers run before its body, so a negative block count
  makes \<open>std::vector\<close> throw \<open>length_error\<close> before the explicit check is reached.
\<close>

definition kv_init :: "int \<Rightarrow> int \<Rightarrow> bool \<Rightarrow> kv_cache result" where
  "kv_init num_blocks block_size enable =
     (if num_blocks < 0 then Inl Length_Error
      else if num_blocks = 0 \<or> block_size \<le> 0
      then Inl (Invalid_Argument ''num_blocks and block_size must be > 0'')
      else Inr \<lparr>kv_num_blocks = nat num_blocks, kv_block_size = nat block_size,
        kv_prefix_caching = enable, kv_free = rev [0..<nat num_blocks],
        kv_ref_count = replicate (nat num_blocks) 0, kv_hash_to_block = Map.empty,
        kv_block_hash = replicate (nat num_blocks) 0, kv_lru = [], kv_lru_pos = {},
        kv_stats = zero_kv_stats\<rparr>)"

definition capacity_tokens :: "kv_cache \<Rightarrow> nat" where
  "capacity_tokens kv = kv_num_blocks kv * kv_block_size kv"

definition num_free_blocks :: "kv_cache \<Rightarrow> nat" where
  "num_free_blocks kv = length (kv_free kv)"

definition num_cached_blocks :: "kv_cache \<Rightarrow> nat" where
  "num_cached_blocks kv = length (kv_lru kv)"

definition num_available_blocks :: "kv_cache \<Rightarrow> nat" where
  "num_available_blocks kv = num_free_blocks kv + num_cached_blocks kv"

definition num_used_blocks :: "kv_cache \<Rightarrow> int" where
  "num_used_blocks kv = int (kv_num_blocks kv) - int (num_available_blocks kv)"

definition blocks_needed :: "nat \<Rightarrow> nat \<Rightarrow> nat" where
  "blocks_needed num_tokens block_size = (num_tokens + block_size - 1) div block_size"

subsection \<open>Content hash\<close>

definition mix :: "u64 \<Rightarrow> u64" where
  "mix z0 =
     (let z1 = z0 + 0x9E3779B97F4A7C15;
          z2 = (z1 XOR drop_bit 30 z1) * 0xBF58476D1CE4E5B9;
          z3 = (z2 XOR drop_bit 27 z2) * 0x94D049BB133111EB
      in z3 XOR drop_bit 31 z3)"

definition hash_block :: "u64 \<Rightarrow> token list \<Rightarrow> u64" where
  "hash_block prev_hash tokens =
     (let h = foldl (\<lambda>h t. mix (h XOR ucast (word_of_int t :: u32)))
                (prev_hash XOR 0x9E3779B97F4A7C15) tokens
      in if h = 0 then 1 else h)"

text \<open>The \<open>i\<close>-th block of a token vector: \<open>tokens.data() + i * kv_block_size\<close>, \<open>kv_block_size\<close> long.\<close>

definition chunk :: "nat \<Rightarrow> token list \<Rightarrow> nat \<Rightarrow> token list" where
  "chunk bs tokens i = take bs (drop (i * bs) tokens)"

subsection \<open>Taking and releasing single blocks\<close>

definition take_block :: "kv_cache \<Rightarrow> block_id option \<times> kv_cache" where
  "take_block kv =
     (if kv_free kv \<noteq> [] then (Some (last (kv_free kv)), kv\<lparr>kv_free := butlast (kv_free kv)\<rparr>)
      else case kv_lru kv of
        [] \<Rightarrow> (None, kv)
      | b # rest \<Rightarrow>
          (Some b, kv\<lparr>kv_lru := rest, kv_lru_pos := kv_lru_pos kv - {b},
             kv_hash_to_block := (kv_hash_to_block kv)(kv_block_hash kv ! b := None),
             kv_block_hash := (kv_block_hash kv)[b := 0],
             kv_stats := (kv_stats kv)\<lparr>evictions := Suc (evictions (kv_stats kv))\<rparr>\<rparr>))"

definition touch_cached :: "kv_cache \<Rightarrow> block_id \<Rightarrow> kv_cache" where
  "touch_cached kv b =
     (if b \<in> kv_lru_pos kv
      then kv\<lparr>kv_lru := remove1 b (kv_lru kv), kv_lru_pos := kv_lru_pos kv - {b}\<rparr> else kv)"

definition release_block :: "kv_cache \<Rightarrow> block_id \<Rightarrow> u64 \<Rightarrow> kv_cache" where
  "release_block kv b hash =
     (let rc = kv_ref_count kv ! b - 1;
          kv1 = kv\<lparr>kv_ref_count := (kv_ref_count kv)[b := rc]\<rparr>
      in if rc > 0 then kv1
         else if kv_prefix_caching kv \<and> hash \<noteq> 0 \<and> kv_block_hash kv ! b = hash
         then kv1\<lparr>kv_lru := kv_lru kv @ [b], kv_lru_pos := insert b (kv_lru_pos kv)\<rparr>
         else let kv2 = (if kv_block_hash kv ! b \<noteq> 0
                then kv1\<lparr>kv_hash_to_block := (kv_hash_to_block kv)(kv_block_hash kv ! b := None),
                         kv_block_hash := (kv_block_hash kv)[b := 0]\<rparr>
                else kv1)
              in kv2\<lparr>kv_free := kv_free kv @ [b]\<rparr>)"

subsection \<open>Prefix cache\<close>

definition hash_full_block ::
  "kv_cache \<Rightarrow> block_table \<Rightarrow> nat \<Rightarrow> token list \<Rightarrow> kv_cache \<times> block_table" where
  "hash_full_block kv bt i tokens =
     (if \<not> kv_prefix_caching kv then (kv, bt)
      else let prev = (if i = 0 then 0 else hashes bt ! (i - 1))
           in if i > 0 \<and> prev = 0 then (kv, bt)
              else let h = hash_block prev (chunk (kv_block_size kv) tokens i);
                       b = blocks bt ! i
                   in if kv_hash_to_block kv h \<noteq> None then (kv, bt)
                      else (kv\<lparr>kv_hash_to_block := (kv_hash_to_block kv)(h \<mapsto> b),
                               kv_block_hash := (kv_block_hash kv)[b := h]\<rparr>,
                            bt\<lparr>hashes := (hashes bt)[i := h]\<rparr>))"

text \<open>
  The walk over the cached prefix that both \<open>lookup_cached_prefix\<close> and \<open>allocate_prompt\<close> do:
  from block \<open>i\<close>, at most \<open>n\<close> further full blocks, chaining the hashes and stopping at the
  first miss. The result lists the hits with their hashes.
\<close>

fun walk_prefix :: "kv_cache \<Rightarrow> token list \<Rightarrow> u64 \<Rightarrow> nat \<Rightarrow> nat \<Rightarrow> (u64 \<times> block_id) list" where
  "walk_prefix kv tokens prev i 0 = []"
| "walk_prefix kv tokens prev i (Suc n) =
     (let h = hash_block prev (chunk (kv_block_size kv) tokens i)
      in case kv_hash_to_block kv h of
           None \<Rightarrow> []
         | Some b \<Rightarrow> (h, b) # walk_prefix kv tokens h (Suc i) n)"

definition cached_hits :: "kv_cache \<Rightarrow> token list \<Rightarrow> (u64 \<times> block_id) list" where
  "cached_hits kv tokens =
     (if kv_prefix_caching kv then walk_prefix kv tokens 0 0 (length tokens div kv_block_size kv)
      else [])"

definition lookup_cached_prefix :: "kv_cache \<Rightarrow> token list \<Rightarrow> nat" where
  "lookup_cached_prefix kv tokens = length (cached_hits kv tokens) * kv_block_size kv"

subsection \<open>Allocation for a sequence\<close>

text \<open>The loop that takes a reference on each hit and appends it to the table.\<close>

fun take_hits :: "kv_cache \<Rightarrow> block_table \<Rightarrow> (u64 \<times> block_id) list \<Rightarrow> kv_cache \<times> block_table" where
  "take_hits kv bt [] = (kv, bt)"
| "take_hits kv bt ((h, b) # hits) =
     (let kv1 = touch_cached kv b;
          kv2 = kv1\<lparr>kv_ref_count := (kv_ref_count kv1)[b := kv_ref_count kv1 ! b + 1]\<rparr>
      in take_hits kv2 (bt\<lparr>blocks := blocks bt @ [b], hashes := hashes bt @ [h]\<rparr>) hits)"

text \<open>A block taken from the pool, owned once and appended unhashed.\<close>

definition own_block :: "kv_cache \<Rightarrow> block_table \<Rightarrow> block_id \<Rightarrow> kv_cache \<times> block_table" where
  "own_block kv bt b =
     (kv\<lparr>kv_ref_count := (kv_ref_count kv)[b := 1]\<rparr>,
      bt\<lparr>blocks := blocks bt @ [b], hashes := hashes bt @ [0]\<rparr>)"

text \<open>
  The loop that takes \<open>n\<close> fresh blocks. The code asserts that each block is there; \<open>None\<close> is
  the failed assertion (\<open>alloc_fresh_total\<close> shows that it cannot be reached).
\<close>

fun alloc_fresh :: "nat \<Rightarrow> kv_cache \<Rightarrow> block_table \<Rightarrow> (kv_cache \<times> block_table) option" where
  "alloc_fresh 0 kv bt = Some (kv, bt)"
| "alloc_fresh (Suc n) kv bt =
     (case take_block kv of
        (None, _) \<Rightarrow> None
      | (Some b, kv1) \<Rightarrow> (case own_block kv1 bt b of (kv2, bt2) \<Rightarrow> alloc_fresh n kv2 bt2))"

definition lru_hits :: "kv_cache \<Rightarrow> (u64 \<times> block_id) list \<Rightarrow> nat" where
  "lru_hits kv hits = length (filter (\<lambda>(h, b). kv_ref_count kv ! b = 0) hits)"

definition count_query :: "kv_cache \<Rightarrow> nat \<Rightarrow> kv_cache" where
  "count_query kv full =
     kv\<lparr>kv_stats := (kv_stats kv)\<lparr>prefix_queries := Suc (prefix_queries (kv_stats kv)),
          prefix_total_blocks := prefix_total_blocks (kv_stats kv) + full\<rparr>\<rparr>"

definition count_failure :: "kv_cache \<Rightarrow> kv_cache" where
  "count_failure kv = kv\<lparr>kv_stats := (kv_stats kv)\<lparr>allocation_failures :=
     Suc (allocation_failures (kv_stats kv))\<rparr>\<rparr>"

definition count_hits :: "kv_cache \<Rightarrow> nat \<Rightarrow> kv_cache" where
  "count_hits kv cached = kv\<lparr>kv_stats := (kv_stats kv)\<lparr>prefix_hit_blocks :=
     prefix_hit_blocks (kv_stats kv) + cached\<rparr>\<rparr>"

text \<open>
  \<open>allocate_prompt\<close>: the outer option is the failed assertion of the allocation loop, the
  inner one the code's \<open>std::optional<int>\<close>.
\<close>

definition allocate_prompt ::
  "kv_cache \<Rightarrow> block_table \<Rightarrow> token list \<Rightarrow> (nat option \<times> kv_cache \<times> block_table) option" where
  "allocate_prompt kv0 bt tokens =
     (let n = length tokens;
          needed = blocks_needed n (kv_block_size kv0);
          full = n div kv_block_size kv0;
          kv = count_query kv0 full;
          hits = cached_hits kv tokens;
          cached = length hits
      in if int needed - int cached > int (num_available_blocks kv) - int (lru_hits kv hits)
         then Some (None, count_failure kv, bt)
         else case take_hits kv bt hits of (kv1, bt1) \<Rightarrow>
              (case alloc_fresh (needed - cached) (count_hits kv1 cached) bt1 of
                 None \<Rightarrow> None
               | Some (kv2, bt2) \<Rightarrow>
                   Some (Some (cached * kv_block_size kv0), kv2, bt2\<lparr>num_committed := cached\<rparr>)))"

definition ensure_slot :: "kv_cache \<Rightarrow> block_table \<Rightarrow> nat \<Rightarrow> bool \<times> kv_cache \<times> block_table" where
  "ensure_slot kv bt num_tokens =
     (let needed = blocks_needed num_tokens (kv_block_size kv)
      in if needed > bt_num_blocks bt
         then case take_block kv of
                (None, kv1) \<Rightarrow> (False, count_failure kv1, bt)
              | (Some b, kv1) \<Rightarrow> (True, own_block kv1 bt b)
         else (True, kv, bt))"

text \<open>The publication loop of \<open>commit_computed\<close>.\<close>

function commit_loop ::
  "kv_cache \<Rightarrow> block_table \<Rightarrow> token list \<Rightarrow> int \<Rightarrow> kv_cache \<times> block_table" where
  "commit_loop kv bt tokens computed =
     (if num_committed bt < bt_num_blocks bt \<and>
         int (Suc (num_committed bt) * kv_block_size kv) \<le> computed
      then case hash_full_block kv bt (num_committed bt) tokens of (kv1, bt1) \<Rightarrow>
             commit_loop kv1 (bt1\<lparr>num_committed := Suc (num_committed bt1)\<rparr>) tokens computed
      else (kv, bt))"
  by pat_completeness auto
termination
  by (relation "measure (\<lambda>(kv, bt, _). bt_num_blocks bt - num_committed bt)")
    (auto simp: hash_full_block_def bt_num_blocks_def Let_def split: if_splits)

declare commit_loop.simps [simp del]

definition commit_computed ::
  "kv_cache \<Rightarrow> block_table \<Rightarrow> token list \<Rightarrow> int \<Rightarrow> kv_cache \<times> block_table" where
  "commit_computed kv bt tokens computed =
     (if \<not> kv_prefix_caching kv then (kv, bt) else commit_loop kv bt tokens computed)"

text \<open>\<open>free\<close> releases from the last block to the first and clears the table.\<close>

fun release_all :: "kv_cache \<Rightarrow> (block_id \<times> u64) list \<Rightarrow> kv_cache" where
  "release_all kv [] = kv"
| "release_all kv ((b, h) # rest) = release_all (release_block kv b h) rest"

definition free_table :: "kv_cache \<Rightarrow> block_table \<Rightarrow> kv_cache \<times> block_table" where
  "free_table kv bt = (release_all kv (rev (zip (blocks bt) (hashes bt))), empty_table)"

end
