(* ===== verification/Seq_State.thy ===== *)
theory Seq_State
  imports KV_Cache
begin

text \<open>
  Request state shared by the scheduler, the model and the API
  (\<open>src/include/engine/sequence.h\<close>): sampling parameters, sequences, and the step (one forward
  pass) as a list of slices.

  A \<open>SequencePtr\<close> is a reference into an explicit heap (\<open>seq_ref\<close>), because the scheduler, the
  step slices and the callbacks alias the same object. The callback \<open>on_token\<close> is modelled by
  whether one is installed; each call is an entry of an event log with a snapshot of the
  sequence, the token and the finish reason, in call order. Finite single-precision floats are
  rationals.
\<close>

type_synonym seq_ref = nat

record sampling_params =
  max_tokens :: int
  temperature :: rat
  top_p :: rat
  seed :: nat
  stop_ids :: "token list"
  ignore_eos :: bool

definition default_params :: sampling_params where
  "default_params = \<lparr>max_tokens = 128, temperature = 1, top_p = 1, seed = 0, stop_ids = [],
     ignore_eos = False\<rparr>"

definition greedy :: "sampling_params \<Rightarrow> bool" where
  "greedy p \<longleftrightarrow> temperature p \<le> 0"

datatype seq_status = Waiting | Running | Finished

datatype finish_reason = Reason_None | Stop | Length | Abort | Timeout

fun finish_reason_str :: "finish_reason \<Rightarrow> string" where
  "finish_reason_str Stop = ''stop''"
| "finish_reason_str Length = ''length''"
| "finish_reason_str Abort = ''abort''"
| "finish_reason_str Timeout = ''abort''"
| "finish_reason_str Reason_None = ''''"

record seq =
  seq_id :: nat
  tokens :: "token list"
  prompt_len :: int
  num_computed :: int
  block_tab :: block_table
  params :: sampling_params
  status :: seq_status
  finish :: finish_reason
  num_preemptions :: nat
  wait_steps :: int
  t_arrival :: time_point
  t_first_scheduled :: time_point
  t_first_token :: time_point
  t_finish :: time_point
  token_times :: "time_point list"
  on_token :: bool

definition default_seq :: seq where
  "default_seq = \<lparr>seq_id = 0, tokens = [], prompt_len = 0, num_computed = 0,
     block_tab = empty_table, params = default_params, status = Waiting, finish = Reason_None,
     num_preemptions = 0, wait_steps = 0, t_arrival = 0, t_first_scheduled = 0, t_first_token = 0,
     t_finish = 0, token_times = [], on_token = False\<rparr>"

definition num_tokens :: "seq \<Rightarrow> nat" where
  "num_tokens s = length (tokens s)"

definition num_generated :: "seq \<Rightarrow> int" where
  "num_generated s = int (length (tokens s)) - prompt_len s"

definition prefill_done :: "seq \<Rightarrow> bool" where
  "prefill_done s \<longleftrightarrow> int (num_tokens s) - num_computed s \<le> 1"

definition is_finished :: "seq \<Rightarrow> bool" where
  "is_finished s \<longleftrightarrow> status s = Finished"

subsection \<open>Steps\<close>

record step_slice =
  sl_seq :: seq_ref
  sl_start :: int
  sl_len :: int
  needs_logits :: bool
  is_prefill :: bool

record step_input =
  slices :: "step_slice list"
  num_prefill_tokens :: int
  num_decode_tokens :: int
  num_logits :: int

definition empty_step :: step_input where
  "empty_step = \<lparr>slices = [], num_prefill_tokens = 0, num_decode_tokens = 0, num_logits = 0\<rparr>"

definition step_empty :: "step_input \<Rightarrow> bool" where
  "step_empty st \<longleftrightarrow> slices st = []"

definition step_num_tokens :: "step_input \<Rightarrow> int" where
  "step_num_tokens st = num_prefill_tokens st + num_decode_tokens st"

text \<open>One call of a sequence's \<open>on_token\<close> callback.\<close>

record callback =
  cb_ref :: seq_ref
  cb_seq :: seq
  cb_token :: token
  cb_reason :: finish_reason

end
