(* ===== verification/Scheduler.thy ===== *)
theory Scheduler
  imports Seq_State
begin

text \<open>
  The iteration-level scheduler of \<open>src/include/engine/scheduler.h\<close> and
  \<open>src/src/scheduler/scheduler.cpp\<close>, one definition per member function.

  The state holds the manager it works on (\<open>sc_kv\<close>, the reference \<open>kv_\<close>), the heap of
  sequences, the queue and the resident list as references, and the log of callbacks. A clock
  reading is an argument (\<open>now\<close>), one per call of a public operation. Where the code would throw
  or dereference an end iterator the result is \<open>Inl\<close>; the invariant proofs show when that
  cannot happen.
\<close>

record sched_config =
  continuous :: bool
  max_num_seqs :: int
  max_num_batched_tokens :: int
  prefill_chunk_size :: int
  admission_lookahead :: int
  starvation_wait_steps :: int
  max_queue_wait_seconds :: rat
  watermark_blocks :: int

definition default_sched_config :: sched_config where
  "default_sched_config = \<lparr>continuous = True, max_num_seqs = 32, max_num_batched_tokens = 2048,
     prefill_chunk_size = 512, admission_lookahead = 1, starvation_wait_steps = 64,
     max_queue_wait_seconds = 0, watermark_blocks = -1\<rparr>"

record sched_stats =
  steps :: nat
  preemptions :: nat
  admitted :: nat
  finished :: nat
  timed_out :: nat
  recomputed_tokens :: int
  max_wait_steps :: int

definition zero_sched_stats :: sched_stats where
  "zero_sched_stats = \<lparr>steps = 0, preemptions = 0, admitted = 0, finished = 0, timed_out = 0,
     recomputed_tokens = 0, max_wait_steps = 0\<rparr>"

record sched =
  sc_cfg :: sched_config
  sc_kv :: kv_cache
  waiting :: "seq_ref list"
  running :: "seq_ref list"
  static_batch_open :: bool
  sc_stats :: sched_stats
  heap :: "seq_ref \<Rightarrow> seq"
  events :: "callback list"

definition sched_init :: "sched_config \<Rightarrow> kv_cache \<Rightarrow> (seq_ref \<Rightarrow> seq) \<Rightarrow> sched" where
  "sched_init cfg kv h = \<lparr>sc_cfg = cfg, sc_kv = kv, waiting = [], running = [],
     static_batch_open = True, sc_stats = zero_sched_stats, heap = h, events = []\<rparr>"

subsection \<open>Small steps on the state\<close>

definition upd_seq :: "sched \<Rightarrow> seq_ref \<Rightarrow> (seq \<Rightarrow> seq) \<Rightarrow> sched" where
  "upd_seq s r f = s\<lparr>heap := (heap s)(r := f (heap s r))\<rparr>"

definition set_kv_table :: "sched \<Rightarrow> seq_ref \<Rightarrow> kv_cache \<Rightarrow> block_table \<Rightarrow> sched" where
  "set_kv_table s r kv bt = (upd_seq s r (block_tab_update (\<lambda>_. bt)))\<lparr>sc_kv := kv\<rparr>"

definition fire :: "sched \<Rightarrow> seq_ref \<Rightarrow> token \<Rightarrow> finish_reason \<Rightarrow> sched" where
  "fire s r t reason =
     (if on_token (heap s r)
      then s\<lparr>events := events s @ [\<lparr>cb_ref = r, cb_seq = heap s r, cb_token = t, cb_reason = reason\<rparr>]\<rparr>
      else s)"

definition upd_stats :: "sched \<Rightarrow> (sched_stats \<Rightarrow> sched_stats) \<Rightarrow> sched" where
  "upd_stats s f = s\<lparr>sc_stats := f (sc_stats s)\<rparr>"

text \<open>\<open>kv_.free(s->block_table)\<close>.\<close>

definition free_seq :: "sched \<Rightarrow> seq_ref \<Rightarrow> sched" where
  "free_seq s r = (case free_table (sc_kv s) (block_tab (heap s r)) of (kv, bt) \<Rightarrow> set_kv_table s r kv bt)"

text \<open>Erase through an iterator: the first element that satisfies a predicate, and the rest.\<close>

fun find_erase :: "('a \<Rightarrow> bool) \<Rightarrow> 'a list \<Rightarrow> ('a \<times> 'a list) option" where
  "find_erase P [] = None"
| "find_erase P (x # xs) =
     (if P x then Some (x, xs) else map_option (\<lambda>(y, ys). (y, x # ys)) (find_erase P xs))"

definition find_last_erase :: "('a \<Rightarrow> bool) \<Rightarrow> 'a list \<Rightarrow> ('a \<times> 'a list) option" where
  "find_last_erase P xs = map_option (\<lambda>(y, ys). (y, rev ys)) (find_erase P (rev xs))"

subsection \<open>Queue operations\<close>

definition sched_add :: "time_point \<Rightarrow> sched \<Rightarrow> seq_ref \<Rightarrow> sched" where
  "sched_add now s r =
     (let s1 = upd_seq s r (\<lambda>q. q\<lparr>status := Waiting, t_arrival := now\<rparr>)
      in s1\<lparr>waiting := waiting s1 @ [r]\<rparr>)"

definition retire :: "time_point \<Rightarrow> sched \<Rightarrow> seq_ref \<Rightarrow> finish_reason \<Rightarrow> sched" where
  "retire now s r reason =
     (let s1 = upd_seq s r (\<lambda>q. q\<lparr>status := Finished, finish := reason, t_finish := now\<rparr>);
          s2 = free_seq s1 r;
          s3 = upd_stats s2 (\<lambda>t. t\<lparr>finished := Suc (finished t)\<rparr>)
      in fire s3 r (-1) reason)"

definition sched_abort :: "time_point \<Rightarrow> sched \<Rightarrow> nat \<Rightarrow> sched" where
  "sched_abort now s i =
     (case find_erase (\<lambda>r. seq_id (heap s r) = i) (waiting s) of
        Some (r, rest) \<Rightarrow> retire now (s\<lparr>waiting := rest\<rparr>) r Abort
      | None \<Rightarrow>
          (case find_erase (\<lambda>r. seq_id (heap s r) = i) (running s) of
             Some (r, rest) \<Rightarrow> retire now (s\<lparr>running := rest\<rparr>) r Abort
           | None \<Rightarrow> s))"

definition has_work :: "sched \<Rightarrow> bool" where
  "has_work s \<longleftrightarrow> waiting s \<noteq> [] \<or> running s \<noteq> []"

subsection \<open>Admission\<close>

definition add_prefill_slice :: "step_input \<Rightarrow> sched \<Rightarrow> seq_ref \<Rightarrow> int \<Rightarrow> step_input" where
  "add_prefill_slice st s r len =
     (let q = heap s r;
          nl = (num_computed q + len = int (num_tokens q));
          sl = \<lparr>sl_seq = r, sl_start = num_computed q, sl_len = len, needs_logits = nl, is_prefill = True\<rparr>
      in st\<lparr>slices := slices st @ [sl], num_prefill_tokens := num_prefill_tokens st + len,
            num_logits := num_logits st + (if nl then 1 else 0)\<rparr>)"

definition admission_fits :: "sched \<Rightarrow> seq_ref \<Rightarrow> bool" where
  "admission_fits s r =
     (let q = heap s r;
          watermark = (if watermark_blocks (sc_cfg s) \<ge> 0 then watermark_blocks (sc_cfg s)
                       else int (length (running s)));
          bs = kv_block_size (sc_kv s);
          needed = blocks_needed (num_tokens q) bs;
          reused = lookup_cached_prefix (sc_kv s) (tokens q) div bs
      in watermark = 0 \<or>
         int (num_available_blocks (sc_kv s)) - (int needed - int reused) \<ge> watermark)"

text \<open>
  The part of \<open>admit_one\<close> after a candidate has its blocks. \<open>None\<close> is the code's
  \<open>return false\<close>; the candidate at position \<open>i\<close> of the queue is moved to the resident list.
\<close>

definition admit_candidate ::
  "sched \<Rightarrow> step_input \<Rightarrow> int \<Rightarrow> nat \<Rightarrow> seq_ref \<Rightarrow> bool \<times> sched \<times> step_input \<times> int" where
  "admit_candidate s st budget i r =
     (let q = heap s r;
          len = min (min (int (num_tokens q) - num_computed q) budget) (prefill_chunk_size (sc_cfg s))
      in if len \<le> 0 then (False, s, st, budget)
         else let st1 = add_prefill_slice st s r len;
                  s1 = s\<lparr>waiting := take i (waiting s) @ drop (Suc i) (waiting s),
                         running := running s @ [r]\<rparr>;
                  s2 = upd_seq s1 r (status_update (\<lambda>_. Running));
                  s3 = upd_stats s2 (\<lambda>t. t\<lparr>admitted := Suc (admitted t),
                         max_wait_steps := max (max_wait_steps t) (wait_steps (heap s2 r))\<rparr>)
              in (True, s3, st1, budget - len))"

text \<open>
  The blocks of a candidate: \<open>Some (kv, bt, cached)\<close> when its prompt got them, \<open>None\<close> when it is
  not admissible now. \<open>s->num_computed\<close> is left at least one short of the whole prompt, so that
  the last token is always computed.
\<close>

definition start_seq :: "time_point \<Rightarrow> sched \<Rightarrow> seq_ref \<Rightarrow> kv_cache \<Rightarrow> block_table \<Rightarrow> nat \<Rightarrow> sched" where
  "start_seq now s r kv bt cached =
     upd_seq (set_kv_table s r kv bt) r (\<lambda>q. q\<lparr>
        num_computed := min (int cached) (int (num_tokens q) - 1),
        t_first_scheduled := (if t_first_scheduled q = 0 then now else t_first_scheduled q)\<rparr>)"

text \<open>The candidate loop of \<open>admit_one\<close>, over queue positions \<open>i ..< i + n\<close>.\<close>

fun admit_loop ::
  "time_point \<Rightarrow> sched \<Rightarrow> step_input \<Rightarrow> int \<Rightarrow> nat \<Rightarrow> nat \<Rightarrow> (bool \<times> sched \<times> step_input \<times> int) result" where
  "admit_loop now s st budget i 0 = Inr (False, s, st, budget)"
| "admit_loop now s st budget i (Suc n) =
     (let r = waiting s ! i; q = heap s r;
          starving = (wait_steps q \<ge> starvation_wait_steps (sc_cfg s))
      in if bt_empty (block_tab q)
         then if \<not> admission_fits s r
              then (if starving then Inr (False, s, st, budget) else admit_loop now s st budget (Suc i) n)
              else (case allocate_prompt (sc_kv s) (block_tab q) (tokens q) of
                      None \<Rightarrow> Inl Assertion_Failed
                    | Some (None, kv, bt) \<Rightarrow>
                        (let s1 = set_kv_table s r kv bt
                         in if starving then Inr (False, s1, st, budget)
                            else admit_loop now s1 st budget (Suc i) n)
                    | Some (Some cached, kv, bt) \<Rightarrow>
                        Inr (admit_candidate (start_seq now s r kv bt cached) st budget i r))
         else Inr (admit_candidate s st budget i r))"

definition admission_limit :: "sched \<Rightarrow> nat" where
  "admission_limit s =
     (if admission_lookahead (sc_cfg s) \<le> 1 then 1
      else min (length (waiting s)) (nat (admission_lookahead (sc_cfg s))))"

definition admit_one ::
  "time_point \<Rightarrow> sched \<Rightarrow> step_input \<Rightarrow> int \<Rightarrow> (bool \<times> sched \<times> step_input \<times> int) result" where
  "admit_one now s st budget =
     (if waiting s = [] \<or> budget \<le> 0 then Inr (False, s, st, budget)
      else if int (length (running s)) \<ge> max_num_seqs (sc_cfg s) then Inr (False, s, st, budget)
      else admit_loop now s st budget 0 (admission_limit s))"

lemma admit_candidate_shrinks:
  "admit_candidate s st budget i r = (True, s', st', budget') \<Longrightarrow> i < length (waiting s) \<Longrightarrow>
   length (waiting s') < length (waiting s)"
  by (auto simp: admit_candidate_def Let_def upd_stats_def upd_seq_def split: if_splits)

lemma waiting_frame [sched_simps, simp]:
  "waiting (upd_seq s r f) = waiting s" "waiting (set_kv_table s r kv bt) = waiting s"
  "waiting (start_seq now s r kv bt c) = waiting s" "waiting (fire s r t reason) = waiting s"
  "waiting (upd_stats s g) = waiting s" "waiting (free_seq s r) = waiting s"
  "waiting (retire now s r reason) = waiting s"
  by (simp_all add: upd_seq_def set_kv_table_def start_seq_def fire_def upd_stats_def free_seq_def
      retire_def Let_def split: prod.split)

lemma admit_loop_shrinks:
  "admit_loop now s st budget i n = Inr (True, s', st', budget') \<Longrightarrow> i + n \<le> length (waiting s) \<Longrightarrow>
   length (waiting s') < length (waiting s)"
proof (induction now s st budget i n rule: admit_loop.induct)
  case (2 now s st budget i n)
  then show ?case
    by (force simp: Let_def split: if_splits option.splits prod.splits dest: admit_candidate_shrinks)
qed simp

lemma admit_one_shrinks:
  "admit_one now s st budget = Inr (True, s', st', budget') \<Longrightarrow> length (waiting s') < length (waiting s)"
  using admit_loop_shrinks[of now s st budget 0 "admission_limit s" s' st' budget']
  by (auto simp: admit_one_def admission_limit_def Suc_le_eq simp del: admit_loop.simps split: if_splits)

text \<open>\<open>while (admit_one(step, budget)) {}\<close>\<close>

function admit_all ::
  "time_point \<Rightarrow> sched \<Rightarrow> step_input \<Rightarrow> int \<Rightarrow> (sched \<times> step_input \<times> int) result" where
  "admit_all now s st budget =
     (case admit_one now s st budget of
        Inl e \<Rightarrow> Inl e
      | Inr (False, s1, st1, b1) \<Rightarrow> Inr (s1, st1, b1)
      | Inr (True, s1, st1, b1) \<Rightarrow> admit_all now s1 st1 b1)"
  by pat_completeness auto
termination
  by (relation "measure (\<lambda>(now, s, st, b). length (waiting s))") (auto dest: admit_one_shrinks)

declare admit_all.simps [simp del]

subsection \<open>Making room\<close>

definition forget :: "seq_ref \<Rightarrow> seq_ref list \<Rightarrow> seq_ref list" where
  "forget victim xs = filter (\<lambda>r. r \<noteq> victim) xs"

definition preempt :: "sched \<Rightarrow> seq_ref \<Rightarrow> sched" where
  "preempt s r =
     (let s1 = free_seq s r;
          s2 = upd_stats s1 (\<lambda>t. t\<lparr>recomputed_tokens := recomputed_tokens t + num_computed (heap s1 r)\<rparr>);
          s3 = upd_seq s2 r (\<lambda>q. q\<lparr>num_computed := 0, num_preemptions := Suc (num_preemptions q),
                 status := Waiting\<rparr>);
          s4 = s3\<lparr>waiting := r # waiting s3\<rparr>
      in upd_stats s4 (\<lambda>t. t\<lparr>preemptions := Suc (preemptions t)\<rparr>))"

text \<open>
  \<open>evict_for_memory\<close>: a finished member still holding blocks first, otherwise the youngest
  resident sequence, which goes back to the head of the queue.
\<close>

definition evict_for_memory ::
  "sched \<Rightarrow> seq_ref list \<Rightarrow> seq_ref list \<Rightarrow> bool \<times> sched \<times> seq_ref list \<times> seq_ref list" where
  "evict_for_memory s mid_prefill decode =
     (case find_last_erase (\<lambda>r. is_finished (heap s r)) (running s) of
        Some (r, rest) \<Rightarrow>
          (let s1 = free_seq (s\<lparr>running := rest\<rparr>) r;
               s2 = upd_stats s1 (\<lambda>t. t\<lparr>finished := Suc (finished t)\<rparr>)
           in (True, s2, forget r mid_prefill, forget r decode))
      | None \<Rightarrow>
          (if running s = [] then (False, s, mid_prefill, decode)
           else let r = last (running s); s1 = preempt (s\<lparr>running := butlast (running s)\<rparr>) r
                in (True, s1, forget r mid_prefill, forget r decode)))"

lemma running_frame [sched_simps, simp]:
  "running (upd_seq s r f) = running s" "running (set_kv_table s r kv bt) = running s"
  "running (start_seq now s r kv bt c) = running s" "running (fire s r t reason) = running s"
  "running (upd_stats s g) = running s" "running (free_seq s r) = running s"
  "running (retire now s r reason) = running s" "running (preempt s r) = running s"
  by (simp_all add: upd_seq_def set_kv_table_def start_seq_def fire_def upd_stats_def free_seq_def
      retire_def preempt_def Let_def split: prod.split)

lemma find_erase_Some:
  "find_erase P xs = Some (y, ys) \<Longrightarrow>
   \<exists>us vs. xs = us @ y # vs \<and> ys = us @ vs \<and> P y \<and> (\<forall>u\<in>set us. \<not> P u)"
proof (induction xs arbitrary: ys)
  case (Cons x xs)
  show ?case
  proof (cases "P x")
    case True
    then show ?thesis using Cons.prems by (intro exI[of _ "[]"] exI[of _ xs]) simp
  next
    case False
    then obtain zs where zs: "find_erase P xs = Some (y, zs)" "ys = x # zs" using Cons.prems by auto
    from Cons.IH[OF zs(1)] obtain us vs where "xs = us @ y # vs \<and> zs = us @ vs \<and> P y \<and> (\<forall>u\<in>set us. \<not> P u)"
      by blast
    then show ?thesis using False zs(2) by (intro exI[of _ "x # us"] exI[of _ vs]) simp
  qed
qed simp

lemma find_erase_None: "find_erase P xs = None \<longleftrightarrow> (\<forall>x\<in>set xs. \<not> P x)"
  by (induction xs) auto

lemma find_last_erase_Some:
  assumes "find_last_erase P xs = Some (y, ys)"
  shows "\<exists>us vs. xs = us @ y # vs \<and> ys = us @ vs \<and> P y \<and> (\<forall>v\<in>set vs. \<not> P v)"
proof -
  have "find_erase P (rev xs) = Some (y, rev ys)" using assms by (auto simp: find_last_erase_def)
  from find_erase_Some[OF this] obtain us vs where
    "rev xs = us @ y # vs" "rev ys = us @ vs" "P y" "\<forall>u\<in>set us. \<not> P u" by blast
  then show ?thesis by (intro exI[of _ "rev vs"] exI[of _ "rev us"]) (simp add: rev_eq_append_conv)
qed

lemma find_last_erase_None: "find_last_erase P xs = None \<longleftrightarrow> (\<forall>x\<in>set xs. \<not> P x)"
  by (simp add: find_last_erase_def find_erase_None)

lemma evict_shrinks:
  "evict_for_memory s mid dec = (True, s', mid', dec') \<Longrightarrow>
   length (running s) = Suc (length (running s')) \<and> length dec' \<le> length dec"
  by (auto simp: evict_for_memory_def Let_def forget_def dest!: find_last_erase_Some
      split: option.splits if_splits)

lemma evict_fails: "evict_for_memory s mid dec = (False, s', mid', dec') \<Longrightarrow> s' = s \<and> mid' = mid \<and> dec' = dec"
  by (auto simp: evict_for_memory_def Let_def split: option.splits if_splits)

text \<open>
  The placement loop of \<open>schedule\<close>: every decode token gets a slot, evicting when the pool is
  exhausted and retrying the same index.
\<close>

function place_decode ::
  "sched \<Rightarrow> seq_ref list \<Rightarrow> seq_ref list \<Rightarrow> nat \<Rightarrow> sched \<times> seq_ref list \<times> seq_ref list" where
  "place_decode s mid dec i =
     (if i < length dec
      then let r = dec ! i
           in case ensure_slot (sc_kv s) (block_tab (heap s r)) (num_tokens (heap s r)) of
                (True, kv, bt) \<Rightarrow> place_decode (set_kv_table s r kv bt) mid dec (Suc i)
              | (False, kv, bt) \<Rightarrow>
                  (case evict_for_memory (set_kv_table s r kv bt) mid dec of
                     (True, s1, mid1, dec1) \<Rightarrow> place_decode s1 mid1 dec1 i
                   | (False, s1, _, _) \<Rightarrow> place_decode s1 mid (take i dec @ drop (Suc i) dec) i)
      else (s, mid, dec))"
  by pat_completeness auto
termination
  by (relation "measure (\<lambda>(s, mid, dec, i). length (running s) + (length dec - i))")
    (auto dest!: evict_shrinks[OF sym] evict_fails[OF sym])

declare place_decode.simps [simp del]

subsection \<open>Building a step\<close>

fun build_prefill :: "sched \<Rightarrow> step_input \<Rightarrow> int \<Rightarrow> seq_ref list \<Rightarrow> step_input \<times> int" where
  "build_prefill s st budget [] = (st, budget)"
| "build_prefill s st budget (r # rs) =
     (let q = heap s r;
          len = min (min (int (num_tokens q) - num_computed q) budget) (prefill_chunk_size (sc_cfg s))
      in if len > 0 then build_prefill s (add_prefill_slice st s r len) (budget - len) rs
         else build_prefill s st budget rs)"

text \<open>\<open>decode.resize(budget)\<close>: a negative count converts to a huge one and throws.\<close>

definition trim_decode :: "seq_ref list \<Rightarrow> int \<Rightarrow> seq_ref list result" where
  "trim_decode dec budget =
     (if int (length dec) > budget
      then (if budget < 0 then Inl Length_Error else Inr (take (nat budget) dec))
      else Inr dec)"

definition waited_too_long :: "time_point \<Rightarrow> sched \<Rightarrow> seq_ref \<Rightarrow> bool" where
  "waited_too_long now s r \<longleftrightarrow>
     of_int (now - t_arrival (heap s r)) / 10 ^ 9 > max_queue_wait_seconds (sc_cfg s) \<and>
     bt_empty (block_tab (heap s r))"

fun retire_expired :: "time_point \<Rightarrow> sched \<Rightarrow> seq_ref list \<Rightarrow> sched" where
  "retire_expired now s [] = s"
| "retire_expired now s (r # rs) =
     retire_expired now (retire now (upd_stats s (\<lambda>t. t\<lparr>timed_out := Suc (timed_out t)\<rparr>)) r Timeout) rs"

definition expire_waiting :: "time_point \<Rightarrow> sched \<Rightarrow> sched" where
  "expire_waiting now s =
     (if max_queue_wait_seconds (sc_cfg s) > 0 \<and> waiting s \<noteq> []
      then let expired = filter (waited_too_long now s) (waiting s);
               kept = filter (\<lambda>r. \<not> waited_too_long now s r) (waiting s)
           in retire_expired now (s\<lparr>waiting := kept\<rparr>) expired
      else s)"

fun count_wait :: "sched \<Rightarrow> seq_ref list \<Rightarrow> sched" where
  "count_wait s [] = s"
| "count_wait s (r # rs) = count_wait (upd_seq s r (\<lambda>q. q\<lparr>wait_steps := wait_steps q + 1\<rparr>)) rs"

text \<open>Static batching: close the batch when it is full or memory, not the budget, is the limit.\<close>

definition close_batch :: "sched \<Rightarrow> int \<Rightarrow> sched" where
  "close_batch s budget =
     (if \<not> continuous (sc_cfg s) \<and> waiting s \<noteq> [] \<and>
         (int (length (running s)) \<ge> max_num_seqs (sc_cfg s) \<or> (budget > 0 \<and> running s \<noteq> []))
      then s\<lparr>static_batch_open := False\<rparr> else s)"

text \<open>Nothing runs and the head of the queue was not admitted: reject it.\<close>

definition reject_head :: "time_point \<Rightarrow> sched \<Rightarrow> seq_ref list \<Rightarrow> sched" where
  "reject_head now s dec =
     (case waiting s of
        r # rest \<Rightarrow> (if running s = [] \<and> dec = [] then retire now (s\<lparr>waiting := rest\<rparr>) r Abort else s)
      | [] \<Rightarrow> s)"

definition admission_phase ::
  "time_point \<Rightarrow> sched \<Rightarrow> step_input \<Rightarrow> int \<Rightarrow> seq_ref list \<Rightarrow> (sched \<times> step_input) result" where
  "admission_phase now s st budget dec =
     (case admit_all now (count_wait s (waiting s)) st budget of
        Inl e \<Rightarrow> Inl e
      | Inr (s1, st1, b1) \<Rightarrow> Inr (reject_head now (close_batch s1 b1) dec, st1))"

fun add_decode_slices :: "sched \<Rightarrow> step_input \<Rightarrow> seq_ref list \<Rightarrow> step_input" where
  "add_decode_slices s st [] = st"
| "add_decode_slices s st (r # rs) =
     (let sl = \<lparr>sl_seq = r, sl_start = num_computed (heap s r), sl_len = 1, needs_logits = True,
                is_prefill = False\<rparr>
      in add_decode_slices s (st\<lparr>slices := slices st @ [sl],
           num_decode_tokens := num_decode_tokens st + 1, num_logits := num_logits st + 1\<rparr>) rs)"

definition split_mid :: "sched \<Rightarrow> seq_ref list" where
  "split_mid s = filter (\<lambda>r. \<not> is_finished (heap s r) \<and> \<not> prefill_done (heap s r)) (running s)"

definition split_decode :: "sched \<Rightarrow> seq_ref list" where
  "split_decode s = filter (\<lambda>r. \<not> is_finished (heap s r) \<and> prefill_done (heap s r)) (running s)"

definition open_step :: "sched \<Rightarrow> sched" where
  "open_step s =
     (let s1 = upd_stats s (\<lambda>t. t\<lparr>steps := Suc (steps t)\<rparr>)
      in if \<not> continuous (sc_cfg s) \<and> running s = [] then s1\<lparr>static_batch_open := True\<rparr> else s1)"

definition schedule :: "time_point \<Rightarrow> sched \<Rightarrow> (sched \<times> step_input) result" where
  "schedule now s0 =
     (let s = open_step s0;
          may_admit = (continuous (sc_cfg s) \<or> static_batch_open s)
      in case place_decode s (split_mid s) (split_decode s) 0 of (s1, mid, dec) \<Rightarrow>
         (case build_prefill s1 empty_step (max_num_batched_tokens (sc_cfg s)) mid of (st, budget) \<Rightarrow>
         (case trim_decode dec budget of
            Inl e \<Rightarrow> Inl e
          | Inr dec1 \<Rightarrow>
              (let s2 = expire_waiting now s1
               in case (if may_admit
                        then admission_phase now s2 st (budget - int (length dec1)) dec1
                        else Inr (s2, st)) of
                    Inl e \<Rightarrow> Inl e
                  | Inr (s3, st1) \<Rightarrow> Inr (s3, add_decode_slices s3 st1 dec1)))))"

subsection \<open>Applying sampled tokens\<close>

definition advance :: "sched \<Rightarrow> step_slice \<Rightarrow> sched" where
  "advance s sl =
     (let r = sl_seq sl;
          s1 = upd_seq s r (\<lambda>q. q\<lparr>num_computed := num_computed q + sl_len sl\<rparr>);
          q = heap s1 r
      in case commit_computed (sc_kv s1) (block_tab q) (tokens q) (num_computed q) of
           (kv, bt) \<Rightarrow> set_kv_table s1 r kv bt)"

definition append_token :: "time_point \<Rightarrow> token \<Rightarrow> seq \<Rightarrow> seq" where
  "append_token now tok q = q\<lparr>tokens := tokens q @ [tok], token_times := token_times q @ [now],
     t_first_token := (if t_first_token q = 0 then now else t_first_token q)\<rparr>"

definition stop_hit :: "seq \<Rightarrow> token \<Rightarrow> bool" where
  "stop_hit q tok \<longleftrightarrow> \<not> ignore_eos (params q) \<and> tok \<in> set (stop_ids (params q))"

definition finish_check :: "seq \<Rightarrow> token \<Rightarrow> finish_reason" where
  "finish_check q tok =
     (if stop_hit q tok then Stop
      else if num_generated q \<ge> max_tokens (params q) then Length else Reason_None)"

text \<open>One slice of \<open>on_step_done\<close>: the state, the cursor into \<open>sampled\<close> and the list \<open>done\<close>.\<close>

definition on_slice ::
  "time_point \<Rightarrow> token list \<Rightarrow> sched \<Rightarrow> nat \<Rightarrow> seq_ref list \<Rightarrow> step_slice \<Rightarrow>
   (sched \<times> nat \<times> seq_ref list) result" where
  "on_slice now sampled s k dn sl =
     (let r = sl_seq sl; s1 = advance s sl
      in if \<not> needs_logits sl then Inr (s1, k, dn)
         else if k \<ge> length sampled then Inl Assertion_Failed
         else if is_finished (heap s1 r) then Inr (s1, Suc k, dn)
         else let tok = sampled ! k;
                  s2 = upd_seq s1 r (append_token now tok);
                  reason = finish_check (heap s2 r) tok;
                  s3 = (if stop_hit (heap s2 r) tok then s2 else fire s2 r tok Reason_None)
              in if reason = Reason_None then Inr (s3, Suc k, dn)
                 else let s4 = upd_seq s3 r (finish_update (\<lambda>_. reason))
                      in if continuous (sc_cfg s4)
                         then (case find_erase (\<lambda>p. p = r) (running s4) of
                                 None \<Rightarrow> Inl Assertion_Failed
                               | Some (p, rest) \<Rightarrow> Inr (s4\<lparr>running := rest\<rparr>, Suc k, dn @ [p]))
                         else let s5 = upd_seq s4 r (\<lambda>q. q\<lparr>status := Finished, t_finish := now\<rparr>)
                              in Inr (fire s5 r (-1) reason, Suc k, dn))"

fun on_slices ::
  "time_point \<Rightarrow> token list \<Rightarrow> sched \<Rightarrow> nat \<Rightarrow> seq_ref list \<Rightarrow> step_slice list \<Rightarrow>
   (sched \<times> nat \<times> seq_ref list) result" where
  "on_slices now sampled s k dn [] = Inr (s, k, dn)"
| "on_slices now sampled s k dn (sl # sls) =
     (case on_slice now sampled s k dn sl of
        Inl e \<Rightarrow> Inl e
      | Inr (s1, k1, dn1) \<Rightarrow> on_slices now sampled s1 k1 dn1 sls)"

fun retire_done :: "time_point \<Rightarrow> sched \<Rightarrow> seq_ref list \<Rightarrow> sched" where
  "retire_done now s [] = s"
| "retire_done now s (r # rs) = retire_done now (retire now s r (finish (heap s r))) rs"

fun free_members :: "sched \<Rightarrow> seq_ref list \<Rightarrow> sched" where
  "free_members s [] = s"
| "free_members s (r # rs) =
     free_members (upd_stats (free_seq s r) (\<lambda>t. t\<lparr>finished := Suc (finished t)\<rparr>)) rs"

definition drain_static :: "sched \<Rightarrow> sched" where
  "drain_static s =
     (if \<not> continuous (sc_cfg s) \<and> running s \<noteq> [] \<and> list_all (\<lambda>r. is_finished (heap s r)) (running s)
      then (free_members s (running s))\<lparr>running := [], static_batch_open := True\<rparr>
      else s)"

definition on_step_done :: "time_point \<Rightarrow> sched \<Rightarrow> step_input \<Rightarrow> token list \<Rightarrow> sched result" where
  "on_step_done now s st sampled =
     (case on_slices now sampled s 0 [] (slices st) of
        Inl e \<Rightarrow> Inl e
      | Inr (s1, k, dn) \<Rightarrow> Inr (drain_static (retire_done now s1 dn)))"

subsection \<open>Waste gauge\<close>

definition kv_allocated_slots :: "sched \<Rightarrow> nat" where
  "kv_allocated_slots s =
     sum_list (map (\<lambda>r. bt_num_blocks (block_tab (heap s r)) * kv_block_size (sc_kv s)) (running s))"

definition kv_used_slots :: "sched \<Rightarrow> nat" where
  "kv_used_slots s = sum_list (map (\<lambda>r. num_tokens (heap s r)) (running s))"

definition kv_waste_fraction :: "sched \<Rightarrow> rat" where
  "kv_waste_fraction s =
     (if kv_allocated_slots s = 0 then 0
      else 1 - of_nat (kv_used_slots s) / of_nat (kv_allocated_slots s))"

end
