(* ===== verification/KV_Invariant.thy ===== *)
theory KV_Invariant
  imports KV_Cache
begin

text \<open>
  The accounting invariant of the KV cache and its preservation by every operation.

  \<open>pool_inv kv M\<close> says that the manager's own structures agree with each other and with \<open>M\<close>,
  the multiset of block references held by live block tables: a block's reference count is its
  multiplicity in \<open>M\<close>, the blocks nobody owns are exactly the free list plus the LRU list, and
  the hash map is the inverse of the per-block hash. \<open>kv_inv kv ts\<close> adds, for the multiset \<open>ts\<close>
  of live tables, that each table's hashes are those of its blocks and that an unhashed block has
  a single owner (so that no sequence writes into a block another one reads).
\<close>

subsection \<open>Definitions\<close>

definition all_blocks :: "block_table multiset \<Rightarrow> block_id multiset" where
  "all_blocks ts = \<Sum>\<^sub># (image_mset (\<lambda>t. mset (blocks t)) ts)"

definition pool_inv :: "kv_cache \<Rightarrow> block_id multiset \<Rightarrow> bool" where
  "pool_inv kv M \<longleftrightarrow>
     0 < kv_block_size kv \<and>
     length (kv_ref_count kv) = kv_num_blocks kv \<and>
     length (kv_block_hash kv) = kv_num_blocks kv \<and>
     distinct (kv_free kv) \<and> distinct (kv_lru kv) \<and> set (kv_free kv) \<inter> set (kv_lru kv) = {} \<and>
     kv_lru_pos kv = set (kv_lru kv) \<and>
     set_mset M \<subseteq> {..<kv_num_blocks kv} \<and>
     (\<forall>b<kv_num_blocks kv. kv_ref_count kv ! b = int (count M b)) \<and>
     set (kv_free kv) \<union> set (kv_lru kv) = {b. b < kv_num_blocks kv \<and> b \<notin># M} \<and>
     (\<forall>b\<in>set (kv_free kv). kv_block_hash kv ! b = 0) \<and>
     (\<forall>b\<in>set (kv_lru kv). kv_block_hash kv ! b \<noteq> 0) \<and>
     (\<forall>h b. kv_hash_to_block kv h = Some b \<longleftrightarrow>
        b < kv_num_blocks kv \<and> kv_block_hash kv ! b = h \<and> h \<noteq> 0) \<and>
     (\<not> kv_prefix_caching kv \<longrightarrow> kv_hash_to_block kv = Map.empty)"

definition table_ok :: "kv_cache \<Rightarrow> block_id multiset \<Rightarrow> block_table \<Rightarrow> bool" where
  "table_ok kv M t \<longleftrightarrow>
     hashes t = map ((!) (kv_block_hash kv)) (blocks t) \<and>
     num_committed t \<le> length (blocks t) \<and>
     (\<forall>b\<in>set (blocks t). kv_block_hash kv ! b = 0 \<longrightarrow> count M b = 1) \<and>
     (\<forall>b\<in>set (drop (num_committed t) (blocks t)). kv_block_hash kv ! b = 0)"

definition kv_inv :: "kv_cache \<Rightarrow> block_table multiset \<Rightarrow> bool" where
  "kv_inv kv ts \<longleftrightarrow> pool_inv kv (all_blocks ts) \<and> (\<forall>t\<in>#ts. table_ok kv (all_blocks ts) t)"

text \<open>The configuration part of the state, which no operation changes.\<close>

definition same_config :: "kv_cache \<Rightarrow> kv_cache \<Rightarrow> bool" where
  "same_config kv kv' \<longleftrightarrow> kv_num_blocks kv' = kv_num_blocks kv \<and>
     kv_block_size kv' = kv_block_size kv \<and> kv_prefix_caching kv' = kv_prefix_caching kv"

lemma same_config_refl [simp]: "same_config kv kv"
  by (simp add: same_config_def)

lemma same_config_trans: "same_config a b \<Longrightarrow> same_config b c \<Longrightarrow> same_config a c"
  by (simp add: same_config_def)

lemma all_blocks_empty [simp]: "all_blocks {#} = {#}"
  by (simp add: all_blocks_def)

lemma all_blocks_add [simp]: "all_blocks (add_mset t ts) = mset (blocks t) + all_blocks ts"
  by (simp add: all_blocks_def)

lemma empty_table_simps [simp]:
  "blocks empty_table = []" "hashes empty_table = []" "num_committed empty_table = 0"
  by (simp_all add: empty_table_def)

lemma table_ok_empty [simp]: "table_ok kv M empty_table"
  by (simp add: table_ok_def)

lemma kv_inv_add_empty [simp]: "kv_inv kv (add_mset empty_table ts) \<longleftrightarrow> kv_inv kv ts"
  by (auto simp: kv_inv_def)

lemma all_blocks_mem: "t \<in># ts \<Longrightarrow> b \<in> set (blocks t) \<Longrightarrow> b \<in># all_blocks ts"
  by (auto simp: all_blocks_def)

lemma hash_block_nonzero: "hash_block prev ts \<noteq> 0"
  by (simp add: hash_block_def Let_def)

subsection \<open>Projections of the invariant\<close>

lemma pool_inv_bound: "pool_inv kv M \<Longrightarrow> b \<in># M \<Longrightarrow> b < kv_num_blocks kv"
  by (auto simp: pool_inv_def)

lemma pool_inv_ref: "pool_inv kv M \<Longrightarrow> b < kv_num_blocks kv \<Longrightarrow> kv_ref_count kv ! b = int (count M b)"
  by (simp add: pool_inv_def)

lemma pool_inv_lookup:
  "pool_inv kv M \<Longrightarrow> kv_hash_to_block kv h = Some b \<Longrightarrow>
   b < kv_num_blocks kv \<and> kv_block_hash kv ! b = h \<and> h \<noteq> 0"
  unfolding pool_inv_def by blast

lemma pool_inv_hashed:
  "pool_inv kv M \<Longrightarrow> b < kv_num_blocks kv \<Longrightarrow> kv_block_hash kv ! b \<noteq> 0 \<Longrightarrow>
   kv_hash_to_block kv (kv_block_hash kv ! b) = Some b"
  unfolding pool_inv_def by blast

lemma pool_inv_hash_inj:
  "pool_inv kv M \<Longrightarrow> b < kv_num_blocks kv \<Longrightarrow> c < kv_num_blocks kv \<Longrightarrow> kv_block_hash kv ! b \<noteq> 0 \<Longrightarrow>
   kv_block_hash kv ! c = kv_block_hash kv ! b \<Longrightarrow> c = b"
  by (metis option.inject pool_inv_hashed)

lemma pool_inv_unhashed_off:
  assumes "pool_inv kv M" "b < kv_num_blocks kv" "kv_block_hash kv ! b \<noteq> 0"
  shows "kv_prefix_caching kv"
proof (rule ccontr)
  assume "\<not> kv_prefix_caching kv"
  then have "kv_hash_to_block kv = Map.empty" using assms(1) by (simp add: pool_inv_def)
  then show False using pool_inv_hashed[OF assms] by simp
qed

lemma pool_inv_unowned:
  "pool_inv kv M \<Longrightarrow> b < kv_num_blocks kv \<Longrightarrow> b \<notin># M \<longleftrightarrow> b \<in> set (kv_free kv) \<or> b \<in> set (kv_lru kv)"
  unfolding pool_inv_def by blast

text \<open>The number the code reports as available is the number of blocks without an owner.\<close>

lemma pool_inv_available:
  assumes "pool_inv kv M"
  shows "num_available_blocks kv = card {b. b < kv_num_blocks kv \<and> b \<notin># M}"
proof -
  have "num_available_blocks kv = card (set (kv_free kv) \<union> set (kv_lru kv))"
    using assms card_union_lists[of "kv_free kv" "kv_lru kv"]
    by (simp add: pool_inv_def num_available_blocks_def num_free_blocks_def num_cached_blocks_def)
  then show ?thesis using assms by (simp add: pool_inv_def)
qed

subsection \<open>Initial state\<close>

lemma kv_init_inv:
  assumes "kv_init n bs e = Inr kv"
  shows "kv_inv kv {#}"
  using assms by (auto simp: kv_init_def kv_inv_def pool_inv_def split: if_splits)

subsection \<open>Single blocks\<close>

lemma take_block_None:
  "take_block kv = (None, kv') \<longleftrightarrow> kv' = kv \<and> num_available_blocks kv = 0"
  by (auto simp: take_block_def num_available_blocks_def num_free_blocks_def num_cached_blocks_def
      split: list.splits)

lemma take_block_available:
  "take_block kv = (Some b, kv') \<Longrightarrow> num_available_blocks kv = Suc (num_available_blocks kv')"
  by (auto simp: take_block_def num_available_blocks_def num_free_blocks_def num_cached_blocks_def
      split: list.splits if_splits)

lemma take_block_config: "take_block kv = (r, kv') \<Longrightarrow> same_config kv kv'"
  by (auto simp: take_block_def same_config_def split: list.splits if_splits)

text \<open>A taken block was owned by nobody, and leaves every owned block's hash alone.\<close>

lemma take_block_fresh:
  assumes "pool_inv kv M" "take_block kv = (Some b, kv')"
  shows "b < kv_num_blocks kv \<and> b \<notin># M \<and> kv_block_hash kv' ! b = 0 \<and>
    (\<forall>c. c \<noteq> b \<longrightarrow> kv_block_hash kv' ! c = kv_block_hash kv ! c)"
proof (cases "kv_free kv = []")
  case True
  then obtain rest where lru: "kv_lru kv = b # rest" "kv_block_hash kv' = (kv_block_hash kv)[b := 0]"
    using assms(2) by (auto simp: take_block_def split: list.splits)
  then have "b < kv_num_blocks kv \<and> b \<notin># M" using assms(1) unfolding pool_inv_def by auto
  then show ?thesis using lru assms(1) by (simp add: pool_inv_def)
next
  case False
  then have "b \<in> set (kv_free kv)" "kv_block_hash kv' = kv_block_hash kv"
    using assms(2) by (auto simp: take_block_def)
  then show ?thesis using assms(1) unfolding pool_inv_def by auto
qed

definition own_ref :: "kv_cache \<Rightarrow> block_id \<Rightarrow> kv_cache" where
  "own_ref kv b = kv\<lparr>kv_ref_count := (kv_ref_count kv)[b := 1]\<rparr>"

lemma own_block_alt:
  "own_block kv bt b = (own_ref kv b, bt\<lparr>blocks := blocks bt @ [b], hashes := hashes bt @ [0]\<rparr>)"
  by (simp add: own_block_def own_ref_def)

lemma take_block_inv_free:
  assumes "pool_inv kv M" "kv_free kv \<noteq> []" "take_block kv = (Some b, kv')"
  shows "pool_inv (own_ref kv' b) (add_mset b M)"
proof -
  have b: "b = last (kv_free kv)" "kv' = kv\<lparr>kv_free := butlast (kv_free kv)\<rparr>"
    using assms(2,3) by (auto simp: take_block_def)
  have d: "distinct (kv_free kv)" "b \<in> set (kv_free kv)"
    using assms(1,2) b by (auto simp: pool_inv_def)
  have s: "set (butlast (kv_free kv)) = set (kv_free kv) - {b}"
    using mem_butlast_distinct[OF d(1) assms(2)] b(1) by simp
  have nb: "b < kv_num_blocks kv" "b \<notin># M" "b \<notin> set (kv_lru kv)"
    using assms(1) d(2) unfolding pool_inv_def by blast+
  then have c0: "count M b = 0" by (simp add: not_in_iff)
  show ?thesis
    using assms(1) nb c0 d s
    by (auto simp: pool_inv_def own_ref_def b(2) nth_list_update distinct_butlast)
qed

lemma take_block_inv_lru:
  assumes "pool_inv kv M" "kv_free kv = []" "take_block kv = (Some b, kv')"
  shows "pool_inv (own_ref kv' b) (add_mset b M)"
proof -
  obtain rest where lru: "kv_lru kv = b # rest"
    and kv': "kv' = kv\<lparr>kv_lru := rest, kv_lru_pos := kv_lru_pos kv - {b},
             kv_hash_to_block := (kv_hash_to_block kv)(kv_block_hash kv ! b := None),
             kv_block_hash := (kv_block_hash kv)[b := 0],
             kv_stats := (kv_stats kv)\<lparr>evictions := Suc (evictions (kv_stats kv))\<rparr>\<rparr>"
    using assms(2,3) by (auto simp: take_block_def split: list.splits)
  have nb: "b < kv_num_blocks kv" "b \<notin># M" "kv_block_hash kv ! b \<noteq> 0" "b \<notin> set rest"
    using assms(1) lru unfolding pool_inv_def by auto
  then have c0: "count M b = 0" by (simp add: not_in_iff)
  have hb: "kv_hash_to_block kv (kv_block_hash kv ! b) = Some b"
    using pool_inv_hashed[OF assms(1) nb(1,3)] .
  have hinv: "((kv_hash_to_block kv)(kv_block_hash kv ! b := None)) h = Some c \<longleftrightarrow>
      c < kv_num_blocks kv \<and> (kv_block_hash kv)[b := 0] ! c = h \<and> h \<noteq> 0" for h c
    using assms(1) hb nb pool_inv_hash_inj[OF assms(1) nb(1) _ nb(3), of c] unfolding pool_inv_def
    by (auto simp: nth_list_update)
  show ?thesis
    using assms(1,2) nb c0 lru hinv
    by (auto simp: pool_inv_def own_ref_def kv' nth_list_update)
qed

lemma take_block_inv:
  assumes "pool_inv kv M" "take_block kv = (Some b, kv')"
  shows "pool_inv (own_ref kv' b) (add_mset b M)"
  using take_block_inv_free[OF assms(1) _ assms(2)] take_block_inv_lru[OF assms(1) _ assms(2)] by blast

text \<open>Taking a reference on a hashed block, owned or cached.\<close>

definition add_ref :: "kv_cache \<Rightarrow> block_id \<Rightarrow> kv_cache" where
  "add_ref kv b = (let kv1 = touch_cached kv b
     in kv1\<lparr>kv_ref_count := (kv_ref_count kv1)[b := kv_ref_count kv1 ! b + 1]\<rparr>)"

lemma take_hits_Cons:
  "take_hits kv bt ((h, b) # hits) =
     take_hits (add_ref kv b) (bt\<lparr>blocks := blocks bt @ [b], hashes := hashes bt @ [h]\<rparr>) hits"
  by (simp add: add_ref_def Let_def)

lemma add_ref_simps [simp]:
  "kv_block_hash (add_ref kv b) = kv_block_hash kv"
  "kv_hash_to_block (add_ref kv b) = kv_hash_to_block kv"
  "same_config kv (add_ref kv b)"
  "kv_free (add_ref kv b) = kv_free kv"
  "kv_ref_count (add_ref kv b) = (kv_ref_count kv)[b := kv_ref_count kv ! b + 1]"
  by (simp_all add: add_ref_def Let_def touch_cached_def same_config_def)

lemma add_ref_inv:
  assumes "pool_inv kv M" "b < kv_num_blocks kv" "kv_block_hash kv ! b \<noteq> 0"
  shows "pool_inv (add_ref kv b) (add_mset b M)"
proof -
  have "b \<notin> set (kv_free kv)" using assms unfolding pool_inv_def by blast
  then show ?thesis
    using assms
    by (auto simp: pool_inv_def add_ref_def touch_cached_def Let_def nth_list_update)
qed

lemma add_ref_available:
  assumes "pool_inv kv M" "b < kv_num_blocks kv" "kv_block_hash kv ! b \<noteq> 0"
  shows "num_available_blocks kv =
    num_available_blocks (add_ref kv b) + (if kv_ref_count kv ! b = 0 then 1 else 0)"
proof -
  have lru: "b \<in> set (kv_lru kv) \<longleftrightarrow> kv_ref_count kv ! b = 0"
    using assms pool_inv_unowned[OF assms(1,2)] pool_inv_ref[OF assms(1,2)]
    unfolding pool_inv_def by (auto simp: not_in_iff)
  show ?thesis
  proof (cases "b \<in> set (kv_lru kv)")
    case True
    then have "length (kv_lru kv) = Suc (length (remove1 b (kv_lru kv)))"
      by (simp add: length_remove1) (metis Suc_pred length_pos_if_in_set)
    then show ?thesis using True lru assms(1)
      by (simp add: num_available_blocks_def num_free_blocks_def num_cached_blocks_def add_ref_def
          touch_cached_def Let_def pool_inv_def)
  next
    case False
    then show ?thesis using lru assms(1)
      by (simp add: num_available_blocks_def num_free_blocks_def num_cached_blocks_def add_ref_def
          touch_cached_def Let_def pool_inv_def)
  qed
qed

text \<open>Dropping one reference, when the table's hash is the block's.\<close>

lemma release_block_config [simp]: "same_config kv (release_block kv b h)"
  by (auto simp: release_block_def Let_def same_config_def)

lemma release_block_inv:
  assumes "pool_inv kv (add_mset b M)" "h = kv_block_hash kv ! b"
  shows "pool_inv (release_block kv b h) M" "kv_block_hash (release_block kv b h) = kv_block_hash kv"
    "kv_hash_to_block (release_block kv b h) = kv_hash_to_block kv"
proof -
  have b: "b < kv_num_blocks kv" "kv_ref_count kv ! b = int (Suc (count M b))"
    "b \<notin> set (kv_free kv)" "b \<notin> set (kv_lru kv)" "b < length (kv_ref_count kv)"
    using assms(1) unfolding pool_inv_def by auto
  have on: "h \<noteq> 0 \<Longrightarrow> kv_prefix_caching kv"
    using pool_inv_unhashed_off[OF assms(1) b(1)] assms(2) by simp
  show "kv_block_hash (release_block kv b h) = kv_block_hash kv"
    "kv_hash_to_block (release_block kv b h) = kv_hash_to_block kv"
    using on assms(2) by (auto simp: release_block_def Let_def)
  have "pool_inv (release_block kv b h) M" if "b \<in># M"
    using assms(1) b that
    by (auto simp: release_block_def Let_def pool_inv_def nth_list_update)
  moreover have "pool_inv (release_block kv b h) M" if "b \<notin># M"
    using assms b that on
    by (auto simp: release_block_def Let_def pool_inv_def nth_list_update not_in_iff)
  ultimately show "pool_inv (release_block kv b h) M" by blast
qed

subsection \<open>Tables\<close>

text \<open>
  What one operation leaves of another sequence's table: its blocks keep their hashes, and the
  number of owners of its unhashed blocks.
\<close>

lemma table_ok_frame:
  assumes "table_ok kv M t"
    "\<And>b. b \<in> set (blocks t) \<Longrightarrow> kv_block_hash kv' ! b = kv_block_hash kv ! b"
    "\<And>b. b \<in> set (blocks t) \<Longrightarrow> kv_block_hash kv ! b = 0 \<Longrightarrow> count M' b = count M b"
  shows "table_ok kv' M' t"
proof -
  have "\<forall>b\<in>set (drop (num_committed t) (blocks t)). kv_block_hash kv' ! b = 0"
    using assms(1,2) in_set_dropD by (metis table_ok_def)
  then show ?thesis using assms by (auto simp: table_ok_def)
qed

text \<open>The state while a table is being built: everything but the commit mark.\<close>

definition building :: "kv_cache \<Rightarrow> block_id multiset \<Rightarrow> block_table \<Rightarrow> bool" where
  "building kv M bt \<longleftrightarrow> pool_inv kv (mset (blocks bt) + M) \<and>
     hashes bt = map ((!) (kv_block_hash kv)) (blocks bt) \<and>
     (\<forall>b\<in>set (blocks bt). kv_block_hash kv ! b = 0 \<longrightarrow> count (mset (blocks bt) + M) b = 1)"

text \<open>The tables of the other sequences survive a change that keeps the hashes of owned blocks.\<close>

definition keeps_owned :: "kv_cache \<Rightarrow> block_id multiset \<Rightarrow> kv_cache \<Rightarrow> bool" where
  "keeps_owned kv M kv' \<longleftrightarrow> same_config kv kv' \<and>
     (\<forall>b. b \<in># M \<longrightarrow> kv_block_hash kv' ! b = kv_block_hash kv ! b)"

lemma keeps_owned_refl [simp]: "keeps_owned kv M kv"
  by (simp add: keeps_owned_def)

lemma keeps_owned_trans:
  "keeps_owned kv M kv1 \<Longrightarrow> keeps_owned kv1 M' kv2 \<Longrightarrow> set_mset M \<subseteq> set_mset M' \<Longrightarrow> keeps_owned kv M kv2"
  by (auto simp: keeps_owned_def same_config_def)

lemma walk_prefix_hits:
  "pool_inv kv M \<Longrightarrow> (h, b) \<in> set (walk_prefix kv tokens prev i n) \<Longrightarrow>
   b < kv_num_blocks kv \<and> kv_block_hash kv ! b = h \<and> h \<noteq> 0"
proof (induction kv tokens prev i n rule: walk_prefix.induct)
  case (2 kv tokens prev i n)
  let ?h = "hash_block prev (chunk (kv_block_size kv) tokens i)"
  show ?case
  proof (cases "kv_hash_to_block kv ?h")
    case None
    then show ?thesis using "2.prems"(2) by (simp add: Let_def)
  next
    case (Some c)
    then have "(h, b) = (?h, c) \<or> (h, b) \<in> set (walk_prefix kv tokens ?h (Suc i) n)"
      using "2.prems"(2) by (simp add: Let_def)
    then show ?thesis
      using "2.IH"[OF refl Some "2.prems"(1)] pool_inv_lookup[OF "2.prems"(1) Some]
      by (metis Pair_inject)
  qed
qed simp

lemma cached_hits_ok:
  "pool_inv kv M \<Longrightarrow> (h, b) \<in> set (cached_hits kv tokens) \<Longrightarrow>
   b < kv_num_blocks kv \<and> kv_block_hash kv ! b = h \<and> h \<noteq> 0"
  using walk_prefix_hits by (fastforce simp: cached_hits_def split: if_splits)

lemma walk_prefix_length: "length (walk_prefix kv tokens prev i n) \<le> n"
  by (induction kv tokens prev i n rule: walk_prefix.induct) (auto simp: Let_def split: option.splits)

lemma cached_hits_length: "length (cached_hits kv tokens) \<le> length tokens div kv_block_size kv"
  by (simp add: cached_hits_def walk_prefix_length)

lemma take_hits_building:
  assumes "building kv M bt"
    "\<And>h b. (h, b) \<in> set hits \<Longrightarrow> b < kv_num_blocks kv \<and> kv_block_hash kv ! b = h \<and> h \<noteq> 0"
    "take_hits kv bt hits = (kv', bt')"
  shows "building kv' M bt' \<and> kv_block_hash kv' = kv_block_hash kv \<and> same_config kv kv' \<and>
    blocks bt' = blocks bt @ map snd hits \<and> num_committed bt' = num_committed bt \<and>
    num_available_blocks kv \<le> num_available_blocks kv' + lru_hits kv hits"
  using assms
proof (induction hits arbitrary: kv bt)
  case Nil
  then show ?case by simp
next
  case (Cons hb hits)
  obtain h b where hb: "hb = (h, b)" by (cases hb)
  let ?bt = "bt\<lparr>blocks := blocks bt @ [b], hashes := hashes bt @ [h]\<rparr>"
  have b: "b < kv_num_blocks kv" "kv_block_hash kv ! b = h" "h \<noteq> 0"
    using Cons.prems(2)[of h b] hb by auto
  have p: "pool_inv kv (mset (blocks bt) + M)" using Cons.prems(1) by (simp add: building_def)
  have p': "pool_inv (add_ref kv b) (add_mset b (mset (blocks bt) + M))"
    using add_ref_inv[OF p b(1)] b by simp
  have bld: "building (add_ref kv b) M ?bt"
    using Cons.prems(1) p' b by (auto simp: building_def)
  have cfg: "kv_num_blocks (add_ref kv b) = kv_num_blocks kv"
    using add_ref_simps(3)[of kv b] by (simp add: same_config_def)
  have IH: "building kv' M bt' \<and> kv_block_hash kv' = kv_block_hash (add_ref kv b) \<and>
    same_config (add_ref kv b) kv' \<and> blocks bt' = blocks ?bt @ map snd hits \<and>
    num_committed bt' = num_committed ?bt \<and>
    num_available_blocks (add_ref kv b) \<le> num_available_blocks kv' + lru_hits (add_ref kv b) hits"
    by (rule Cons.IH[OF bld]) (use Cons.prems hb cfg take_hits_Cons in auto)
  have nn: "kv_ref_count kv ! c \<ge> 0" if "c < kv_num_blocks kv" for c
    using pool_inv_ref[OF p that] by simp
  have len: "length (kv_ref_count kv) = kv_num_blocks kv" using p by (simp add: pool_inv_def)
  have "length (filter (\<lambda>(h, c). kv_ref_count (add_ref kv b) ! c = 0) hits) \<le>
        length (filter (\<lambda>(h, c). kv_ref_count kv ! c = 0) hits)"
    using nn[OF b(1)] b(1) len
    by (induction hits) (auto simp: nth_list_update split: if_splits)
  then have l1: "lru_hits (add_ref kv b) hits \<le> lru_hits kv hits" by (simp add: lru_hits_def)
  have l2: "lru_hits kv (hb # hits) = lru_hits kv hits + (if kv_ref_count kv ! b = 0 then 1 else 0)"
    by (simp add: lru_hits_def hb)
  have av: "num_available_blocks kv =
    num_available_blocks (add_ref kv b) + (if kv_ref_count kv ! b = 0 then 1 else 0)"
    using add_ref_available[OF p b(1)] b by simp
  have cc: "same_config kv kv'" using IH add_ref_simps(3) same_config_trans by blast
  show ?case using IH l1 l2 av cc by (auto simp: hb)
qed

lemma own_fresh_building:
  assumes "building kv M bt" "take_block kv = (Some b, kv1)"
  shows "building (own_ref kv1 b) M (bt\<lparr>blocks := blocks bt @ [b], hashes := hashes bt @ [0]\<rparr>)"
    "keeps_owned kv (mset (blocks bt) + M) (own_ref kv1 b)"
    "kv_block_hash (own_ref kv1 b) ! b = 0"
proof -
  have p: "pool_inv kv (mset (blocks bt) + M)" using assms(1) by (simp add: building_def)
  note f = take_block_fresh[OF p assms(2)]
  have h: "kv_block_hash (own_ref kv1 b) = kv_block_hash kv1" by (simp add: own_ref_def)
  have nb: "b \<notin> set (blocks bt)" "count M b = 0" "\<And>c. c \<in> set (blocks bt) \<Longrightarrow> c \<noteq> b"
    using f by (auto simp: not_in_iff)
  have m: "map ((!) (kv_block_hash kv1)) (blocks bt) = map ((!) (kv_block_hash kv)) (blocks bt)"
    using f nb by (auto intro!: map_cong)
  show "building (own_ref kv1 b) M (bt\<lparr>blocks := blocks bt @ [b], hashes := hashes bt @ [0]\<rparr>)"
    using assms(1) take_block_inv[OF p assms(2)] f nb m by (auto simp: building_def h)
  show "keeps_owned kv (mset (blocks bt) + M) (own_ref kv1 b)"
    using f take_block_config[OF assms(2)] by (auto simp: keeps_owned_def h own_ref_def same_config_def)
  show "kv_block_hash (own_ref kv1 b) ! b = 0" using f h by simp
qed

lemma own_ref_available [simp]: "num_available_blocks (own_ref kv b) = num_available_blocks kv"
  by (simp add: own_ref_def num_available_blocks_def num_free_blocks_def num_cached_blocks_def)

text \<open>
  The fresh-block loop: with enough blocks available its assertion never fails, and it appends
  exactly \<open>n\<close> unhashed blocks.
\<close>

lemma alloc_fresh_total:
  assumes "building kv M bt" "n \<le> num_available_blocks kv"
  shows "\<exists>kv' bt' new. alloc_fresh n kv bt = Some (kv', bt') \<and> building kv' M bt' \<and>
    keeps_owned kv (mset (blocks bt) + M) kv' \<and> blocks bt' = blocks bt @ new \<and> length new = n \<and>
    num_committed bt' = num_committed bt \<and> (\<forall>b\<in>set new. kv_block_hash kv' ! b = 0) \<and>
    num_available_blocks kv = num_available_blocks kv' + n"
  using assms
proof (induction n arbitrary: kv bt)
  case 0
  then show ?case by auto
next
  case (Suc n)
  obtain b kv1 where tb: "take_block kv = (Some b, kv1)"
    using Suc.prems(2) take_block_None[of kv] by (cases "take_block kv"; cases "fst (take_block kv)") auto
  let ?kv = "own_ref kv1 b" and ?bt = "bt\<lparr>blocks := blocks bt @ [b], hashes := hashes bt @ [0]\<rparr>"
  note o = own_fresh_building[OF Suc.prems(1) tb]
  have av: "n \<le> num_available_blocks ?kv"
    using Suc.prems(2) take_block_available[OF tb] by simp
  from Suc.IH[OF o(1) av] obtain kv' bt' new where IH:
    "alloc_fresh n ?kv ?bt = Some (kv', bt')" "building kv' M bt'"
    "keeps_owned ?kv (mset (blocks ?bt) + M) kv'" "blocks bt' = blocks ?bt @ new" "length new = n"
    "num_committed bt' = num_committed ?bt" "\<forall>b\<in>set new. kv_block_hash kv' ! b = 0"
    "num_available_blocks ?kv = num_available_blocks kv' + n" by blast
  have hb: "kv_block_hash kv' ! b = 0" using IH(3) o(3) by (simp add: keeps_owned_def)
  have k: "keeps_owned kv (mset (blocks bt) + M) kv'"
    by (rule keeps_owned_trans[OF o(2) IH(3)]) auto
  show ?case
    by (rule exI[of _ kv'], rule exI[of _ bt'], rule exI[of _ "b # new"])
      (use IH hb k tb take_block_available[OF tb] in \<open>auto simp: own_block_alt\<close>)
qed

subsection \<open>Statistics do not matter\<close>

lemma pool_inv_stats [simp]: "pool_inv (kv\<lparr>kv_stats := s\<rparr>) M \<longleftrightarrow> pool_inv kv M"
  by (simp add: pool_inv_def)

lemma table_ok_stats [simp]: "table_ok (kv\<lparr>kv_stats := s\<rparr>) M t \<longleftrightarrow> table_ok kv M t"
  by (simp add: table_ok_def)

lemma kv_inv_stats [simp]: "kv_inv (kv\<lparr>kv_stats := s\<rparr>) ts \<longleftrightarrow> kv_inv kv ts"
  by (simp add: kv_inv_def)

lemma building_stats [simp]: "building (kv\<lparr>kv_stats := s\<rparr>) M bt \<longleftrightarrow> building kv M bt"
  by (simp add: building_def)

lemma keeps_owned_stats [simp]:
  "keeps_owned (kv\<lparr>kv_stats := s\<rparr>) M kv' \<longleftrightarrow> keeps_owned kv M kv'"
  "keeps_owned kv M (kv'\<lparr>kv_stats := s\<rparr>) \<longleftrightarrow> keeps_owned kv M kv'"
  by (simp_all add: keeps_owned_def same_config_def)

lemma walk_prefix_stats [simp]:
  "walk_prefix (kv\<lparr>kv_stats := s\<rparr>) tokens prev i n = walk_prefix kv tokens prev i n"
  by (induction n arbitrary: prev i) (simp_all add: Let_def split: option.split)

lemma stats_queries [simp]:
  "cached_hits (kv\<lparr>kv_stats := s\<rparr>) tokens = cached_hits kv tokens"
  "num_available_blocks (kv\<lparr>kv_stats := s\<rparr>) = num_available_blocks kv"
  "lru_hits (kv\<lparr>kv_stats := s\<rparr>) hits = lru_hits kv hits"
  "same_config kv (kv'\<lparr>kv_stats := s\<rparr>) = same_config kv kv'"
  "same_config (kv\<lparr>kv_stats := s\<rparr>) kv' = same_config kv kv'"
  by (simp_all add: cached_hits_def num_available_blocks_def num_free_blocks_def
      num_cached_blocks_def lru_hits_def same_config_def)

subsection \<open>Operations of a sequence\<close>

lemma kv_inv_others:
  assumes "kv_inv kv (add_mset bt ts)" "t \<in># ts"
  shows "table_ok kv (all_blocks ts) t"
proof -
  have t: "table_ok kv (mset (blocks bt) + all_blocks ts) t" using assms by (simp add: kv_inv_def)
  have "count (all_blocks ts) b = 1" if "b \<in> set (blocks t)" "kv_block_hash kv ! b = 0" for b
  proof -
    have "count (mset (blocks bt) + all_blocks ts) b = 1" using t that by (simp add: table_ok_def)
    moreover have "count (all_blocks ts) b \<noteq> 0" using all_blocks_mem[OF assms(2) that(1)] by simp
    ultimately show ?thesis by (simp only: count_union)
  qed
  then show ?thesis using t by (simp add: table_ok_def)
qed

lemma kv_inv_building: "kv_inv kv (add_mset bt ts) \<Longrightarrow> building kv (all_blocks ts) bt"
  by (auto simp: kv_inv_def building_def table_ok_def)

lemma kv_inv_remove_pool: "kv_inv kv (add_mset bt ts) \<Longrightarrow> pool_inv kv (mset (blocks bt) + all_blocks ts)"
  by (simp add: kv_inv_def)

text \<open>A finished build, with the other tables' blocks untouched, is a good state again.\<close>

lemma building_done:
  assumes "building kv' (all_blocks ts) bt" "keeps_owned kv (all_blocks ts) kv'"
    "\<And>t. t \<in># ts \<Longrightarrow> table_ok kv (all_blocks ts) t"
    "num_committed bt \<le> length (blocks bt)"
    "\<And>b. b \<in> set (drop (num_committed bt) (blocks bt)) \<Longrightarrow> kv_block_hash kv' ! b = 0"
  shows "kv_inv kv' (add_mset bt ts)"
proof -
  let ?M = "all_blocks ts"
  have "table_ok kv' (mset (blocks bt) + ?M) bt"
    using assms(1,4,5) by (simp add: building_def table_ok_def)
  moreover have "table_ok kv' (mset (blocks bt) + ?M) t" if "t \<in># ts" for t
  proof (rule table_ok_frame[OF assms(3)[OF that]])
    fix b assume b: "b \<in> set (blocks t)"
    then show h: "kv_block_hash kv' ! b = kv_block_hash kv ! b"
      using assms(2) all_blocks_mem[OF that] by (simp add: keeps_owned_def)
    assume z: "kv_block_hash kv ! b = 0"
    then have "count ?M b = 1" using assms(3)[OF that] b by (simp add: table_ok_def)
    moreover have "b \<notin> set (blocks bt)"
    proof
      assume "b \<in> set (blocks bt)"
      then have "count (mset (blocks bt) + ?M) b = 1" "count (mset (blocks bt)) b > 0"
        using assms(1) z h by (auto simp: building_def)
      then show False using \<open>count ?M b = 1\<close> by simp
    qed
    ultimately show "count (mset (blocks bt) + ?M) b = count ?M b" by (simp add: not_in_iff)
  qed
  ultimately show ?thesis using assms(1) by (auto simp: kv_inv_def building_def)
qed

lemma blocks_needed_full: "0 < bs \<Longrightarrow> n div bs \<le> blocks_needed n bs"
  by (simp add: blocks_needed_def div_le_mono)

text \<open>
  \<open>allocate_prompt\<close> never trips its assertion. It either fails, leaving the table empty, or
  gives the table exactly the blocks the prompt needs, the reused prefix first.
\<close>

lemma allocate_prompt_cases:
  assumes inv: "kv_inv kv ts"
  obtains (fail) kv' where
    "allocate_prompt kv empty_table tokens = Some (None, kv', empty_table)" "kv_inv kv' ts"
    "same_config kv kv'"
    "num_available_blocks kv < blocks_needed (length tokens) (kv_block_size kv)
       - length (cached_hits kv tokens) + lru_hits kv (cached_hits kv tokens)"
    "num_available_blocks kv' = num_available_blocks kv"
  | (ok) kv' bt' new where
    "allocate_prompt kv empty_table tokens = Some (Some (lookup_cached_prefix kv tokens), kv', bt')"
    "kv_inv kv' (add_mset bt' ts)" "same_config kv kv'"
    "blocks bt' = map snd (cached_hits kv tokens) @ new"
    "length (blocks bt') = blocks_needed (length tokens) (kv_block_size kv)"
    "num_committed bt' = length (cached_hits kv tokens)"
    "blocks_needed (length tokens) (kv_block_size kv) - length (cached_hits kv tokens)
       + lru_hits kv (cached_hits kv tokens) \<le> num_available_blocks kv"
proof -
  let ?n = "length tokens" and ?bs = "kv_block_size kv" and ?hits = "cached_hits kv tokens"
  let ?kv = "count_query kv (?n div ?bs)" and ?need = "blocks_needed ?n ?bs" and ?c = "length ?hits"
  have pool: "pool_inv kv (all_blocks ts)" "0 < ?bs" using inv by (simp_all add: kv_inv_def pool_inv_def)
  have c: "?c \<le> ?need" using cached_hits_length[of kv tokens] blocks_needed_full[OF pool(2)] by (meson le_trans)
  have defs: "num_available_blocks ?kv = num_available_blocks kv" "lru_hits ?kv ?hits = lru_hits kv ?hits"
    "cached_hits ?kv tokens = ?hits" by (simp_all add: count_query_def)
  show thesis
  proof (cases "int ?need - int ?c > int (num_available_blocks kv) - int (lru_hits kv ?hits)")
    case True
    then have "allocate_prompt kv empty_table tokens = Some (None, count_failure ?kv, empty_table)"
      using defs by (simp add: allocate_prompt_def Let_def)
    then show thesis
      by (rule fail) (use inv True c in \<open>auto simp: count_failure_def count_query_def\<close>)
  next
    case False
    obtain kv1 bt1 where th: "take_hits ?kv empty_table ?hits = (kv1, bt1)" by fastforce
    have b0: "building ?kv (all_blocks ts) empty_table"
      using pool by (simp add: building_def count_query_def)
    have t: "building kv1 (all_blocks ts) bt1" "kv_block_hash kv1 = kv_block_hash ?kv" "same_config ?kv kv1"
      "blocks bt1 = map snd ?hits" "num_committed bt1 = 0"
      "num_available_blocks ?kv \<le> num_available_blocks kv1 + lru_hits ?kv ?hits"
      using take_hits_building[OF b0 _ th] cached_hits_ok[OF pool(1)]
      by (auto simp: count_query_def)
    have av: "?need - ?c \<le> num_available_blocks (count_hits kv1 ?c)"
      using t(6) False defs by (simp add: count_hits_def)
    have b1: "building (count_hits kv1 ?c) (all_blocks ts) bt1" using t(1) by (simp add: count_hits_def)
    from alloc_fresh_total[OF b1 av] obtain kv2 bt2 new where f:
      "alloc_fresh (?need - ?c) (count_hits kv1 ?c) bt1 = Some (kv2, bt2)" "building kv2 (all_blocks ts) bt2"
      "keeps_owned (count_hits kv1 ?c) (mset (blocks bt1) + all_blocks ts) kv2" "blocks bt2 = blocks bt1 @ new"
      "length new = ?need - ?c" "num_committed bt2 = num_committed bt1" "\<forall>b\<in>set new. kv_block_hash kv2 ! b = 0"
      by blast
    have k: "keeps_owned kv (all_blocks ts) kv2" "same_config kv kv2"
      using f(3) t(2,3) by (auto simp: keeps_owned_def same_config_def count_query_def count_hits_def)
    let ?bt = "bt2\<lparr>num_committed := ?c\<rparr>"
    have "building kv2 (all_blocks ts) ?bt" using f(2) by (simp add: building_def)
    then have i2: "kv_inv kv2 (add_mset ?bt ts)"
      by (rule building_done[OF _ k(1)]) (use inv f t(4) in \<open>auto simp: kv_inv_def\<close>)
    have "allocate_prompt kv empty_table tokens = Some (Some (lookup_cached_prefix kv tokens), kv2, ?bt)"
      using False defs th f(1) by (simp add: allocate_prompt_def Let_def lookup_cached_prefix_def)
    then show thesis by (rule ok[OF _ i2]) (use k f t(4) c False in auto)
  qed
qed

text \<open>\<open>ensure_slot\<close> keeps the invariant and grows the table by at most one block.\<close>

lemma ensure_slot_spec:
  assumes inv: "kv_inv kv (add_mset bt ts)" and es: "ensure_slot kv bt n = (r, kv', bt')"
  shows "kv_inv kv' (add_mset bt' ts)" "same_config kv kv'" "num_committed bt' = num_committed bt"
    "r \<Longrightarrow> blocks_needed n (kv_block_size kv) \<le> Suc (bt_num_blocks bt) \<Longrightarrow>
       bt_num_blocks bt' = max (bt_num_blocks bt) (blocks_needed n (kv_block_size kv))"
    "\<not> r \<Longrightarrow> bt' = bt \<and> num_available_blocks kv = 0 \<and>
       bt_num_blocks bt < blocks_needed n (kv_block_size kv)"
    "take (bt_num_blocks bt) (blocks bt') = blocks bt"
proof -
  consider (enough) "blocks_needed n (kv_block_size kv) \<le> bt_num_blocks bt" "r" "kv' = kv" "bt' = bt"
    | (oom) "bt_num_blocks bt < blocks_needed n (kv_block_size kv)" "\<not> r" "take_block kv = (None, kv)"
        "kv' = count_failure kv" "bt' = bt"
    | (grow) b kv1 where "bt_num_blocks bt < blocks_needed n (kv_block_size kv)" "r"
        "take_block kv = (Some b, kv1)" "kv' = own_ref kv1 b"
        "bt' = bt\<lparr>blocks := blocks bt @ [b], hashes := hashes bt @ [0]\<rparr>"
    using es take_block_None
    by (fastforce simp: ensure_slot_def Let_def own_block_alt split: if_splits prod.splits option.splits)
  then have "kv_inv kv' (add_mset bt' ts) \<and> same_config kv kv' \<and> num_committed bt' = num_committed bt \<and>
    (r \<longrightarrow> blocks_needed n (kv_block_size kv) \<le> Suc (bt_num_blocks bt) \<longrightarrow>
       bt_num_blocks bt' = max (bt_num_blocks bt) (blocks_needed n (kv_block_size kv))) \<and>
    (\<not> r \<longrightarrow> bt' = bt \<and> num_available_blocks kv = 0 \<and>
       bt_num_blocks bt < blocks_needed n (kv_block_size kv)) \<and>
    take (bt_num_blocks bt) (blocks bt') = blocks bt"
  proof cases
    case enough
    then show ?thesis using inv by (simp add: bt_num_blocks_def)
  next
    case oom
    then show ?thesis using inv take_block_None[of kv kv] by (simp add: count_failure_def bt_num_blocks_def)
  next
    case grow
    note o = own_fresh_building[OF kv_inv_building[OF inv] grow(3)]
    have k: "keeps_owned kv (all_blocks ts) kv'" "same_config kv kv'"
      using o(2) grow(4) by (simp_all add: keeps_owned_def)
    have bt: "num_committed bt \<le> length (blocks bt)"
      "\<And>b. b \<in> set (drop (num_committed bt) (blocks bt)) \<Longrightarrow> kv_block_hash kv ! b = 0"
      using inv by (simp_all add: kv_inv_def table_ok_def)
    have "kv_block_hash kv' ! c = 0" if "c \<in> set (drop (num_committed bt') (blocks bt'))" for c
      using that grow(4,5) bt o(2,3) by (auto simp: keeps_owned_def dest: in_set_dropD)
    then have "kv_inv kv' (add_mset bt' ts)"
      using building_done[OF _ k(1) kv_inv_others[OF inv], of bt'] o(1) grow(4,5) bt(1) by simp
    then show ?thesis using grow k(2) by (auto simp: bt_num_blocks_def)
  qed
  then show "kv_inv kv' (add_mset bt' ts)" "same_config kv kv'" "num_committed bt' = num_committed bt"
    "r \<Longrightarrow> blocks_needed n (kv_block_size kv) \<le> Suc (bt_num_blocks bt) \<Longrightarrow>
       bt_num_blocks bt' = max (bt_num_blocks bt) (blocks_needed n (kv_block_size kv))"
    "\<not> r \<Longrightarrow> bt' = bt \<and> num_available_blocks kv = 0 \<and>
       bt_num_blocks bt < blocks_needed n (kv_block_size kv)"
    "take (bt_num_blocks bt) (blocks bt') = blocks bt"
    by blast+
qed

text \<open>
  Publishing one block. The published block is unhashed, hence owned once, hence in no other
  table: no other sequence sees its hash change.
\<close>

lemma hash_full_block_cases:
  assumes "hash_full_block kv bt i tokens = (kv', bt')"
  obtains (skip) "kv' = kv" "bt' = bt"
  | (publish) h where "kv_prefix_caching kv" "kv_hash_to_block kv h = None"
      "h = hash_block (if i = 0 then 0 else hashes bt ! (i - 1)) (chunk (kv_block_size kv) tokens i)"
      "i = 0 \<or> hashes bt ! (i - 1) \<noteq> 0"
      "kv' = kv\<lparr>kv_hash_to_block := (kv_hash_to_block kv)(h \<mapsto> blocks bt ! i),
               kv_block_hash := (kv_block_hash kv)[blocks bt ! i := h]\<rparr>"
      "bt' = bt\<lparr>hashes := (hashes bt)[i := h]\<rparr>"
proof -
  define prev where "prev = (if i = 0 then 0 else hashes bt ! (i - 1))"
  define h where "h = hash_block prev (chunk (kv_block_size kv) tokens i)"
  have eq: "(kv', bt') = (if \<not> kv_prefix_caching kv \<or> (i > 0 \<and> prev = 0) \<or> kv_hash_to_block kv h \<noteq> None
     then (kv, bt)
     else (kv\<lparr>kv_hash_to_block := (kv_hash_to_block kv)(h \<mapsto> blocks bt ! i),
               kv_block_hash := (kv_block_hash kv)[blocks bt ! i := h]\<rparr>,
           bt\<lparr>hashes := (hashes bt)[i := h]\<rparr>))"
    using assms unfolding hash_full_block_def Let_def prev_def[symmetric] h_def[symmetric]
    by (auto split: if_splits)
  show thesis
  proof (cases "\<not> kv_prefix_caching kv \<or> (i > 0 \<and> prev = 0) \<or> kv_hash_to_block kv h \<noteq> None")
    case True
    then show thesis using eq skip by simp
  next
    case False
    show thesis
    proof (rule publish[of h])
      show "h = hash_block (if i = 0 then 0 else hashes bt ! (i - 1)) (chunk (kv_block_size kv) tokens i)"
        by (simp add: h_def prev_def)
      show "i = 0 \<or> hashes bt ! (i - 1) \<noteq> 0" using False by (auto simp: prev_def)
    qed (use False eq in \<open>auto split: if_splits\<close>)
  qed
qed

lemma publish_pool_inv:
  assumes "pool_inv kv M" "b \<in># M" "kv_block_hash kv ! b = 0" "kv_hash_to_block kv h = None"
    "h \<noteq> 0" "kv_prefix_caching kv"
  shows "pool_inv (kv\<lparr>kv_hash_to_block := (kv_hash_to_block kv)(h \<mapsto> b),
    kv_block_hash := (kv_block_hash kv)[b := h]\<rparr>) M"
proof -
  have b: "b < kv_num_blocks kv" "b \<notin> set (kv_free kv)" "b \<notin> set (kv_lru kv)"
    using assms(1,2) unfolding pool_inv_def by blast+
  have new: "kv_block_hash kv ! c \<noteq> h" if "c < kv_num_blocks kv" for c
    using pool_inv_hashed[OF assms(1) that] assms(4,5) by fastforce
  have hinv: "((kv_hash_to_block kv)(h \<mapsto> b)) g = Some c \<longleftrightarrow>
      c < kv_num_blocks kv \<and> (kv_block_hash kv)[b := h] ! c = g \<and> g \<noteq> 0" for g c
  proof -
    have H: "kv_hash_to_block kv g = Some c \<longleftrightarrow>
      c < kv_num_blocks kv \<and> kv_block_hash kv ! c = g \<and> g \<noteq> 0"
      using assms(1) unfolding pool_inv_def by blast
    have l: "length (kv_block_hash kv) = kv_num_blocks kv" using assms(1) by (simp add: pool_inv_def)
    show ?thesis
      using H l b(1) assms(3,5) new[of c] by (cases "c = b"; cases "g = h") auto
  qed
  show ?thesis
    using assms(1,6) b hinv by (auto simp: pool_inv_def nth_list_update)
qed

lemma publish_inv:
  assumes inv: "kv_inv kv (add_mset bt ts)" and i: "i = num_committed bt" "i < length (blocks bt)"
    and h: "kv_hash_to_block kv h = None" "h \<noteq> 0" "kv_prefix_caching kv"
  shows "kv_inv (kv\<lparr>kv_hash_to_block := (kv_hash_to_block kv)(h \<mapsto> blocks bt ! i),
      kv_block_hash := (kv_block_hash kv)[blocks bt ! i := h]\<rparr>)
    (add_mset (bt\<lparr>hashes := (hashes bt)[i := h], num_committed := Suc i\<rparr>) ts)"
    (is "kv_inv ?kv (add_mset ?bt ts)")
proof -
  let ?b = "blocks bt ! i" and ?M = "all_blocks ts"
  have t: "table_ok kv (mset (blocks bt) + ?M) bt" and p: "pool_inv kv (mset (blocks bt) + ?M)"
    using inv by (simp_all add: kv_inv_def)
  have dr: "drop i (blocks bt) = ?b # drop (Suc i) (blocks bt)" using i(2) by (simp add: Cons_nth_drop_Suc)
  have z: "kv_block_hash kv ! ?b = 0" using t i(1) dr by (simp add: table_ok_def)
  have mem: "?b \<in> set (blocks bt)" using i(2) by simp
  have "count (mset (blocks bt) + ?M) ?b = 1" using t z mem by (simp add: table_ok_def)
  moreover have "count (mset (blocks bt)) ?b \<noteq> 0" using mem by simp
  ultimately have cnt: "count (mset (blocks bt)) ?b = 1" "count ?M ?b = 0"
    by (simp_all only: count_union)
  note only = count_one_nth_inj[OF cnt(1) i(2)]
  have bnd: "?b < length (kv_block_hash kv)" using pool_inv_bound[OF p] mem p by (simp add: pool_inv_def)
  have hs: "hashes ?bt = map ((!) (kv_block_hash ?kv)) (blocks ?bt)"
  proof (rule nth_equalityI)
    show "length (hashes ?bt) = length (map ((!) (kv_block_hash ?kv)) (blocks ?bt))"
      using t by (simp add: table_ok_def)
  next
    fix j assume "j < length (hashes ?bt)"
    then show "hashes ?bt ! j = map ((!) (kv_block_hash ?kv)) (blocks ?bt) ! j"
      using t only[of j] i(2) bnd by (cases "j = i") (simp_all add: table_ok_def)
  qed
  have "pool_inv ?kv (mset (blocks bt) + ?M)" using publish_pool_inv[OF p _ z h] mem by simp
  then have "building ?kv ?M ?bt" unfolding building_def
    using hs t bnd h(2) by (auto simp: table_ok_def nth_list_update)
  moreover have "keeps_owned kv ?M ?kv"
    unfolding keeps_owned_def
  proof (intro conjI allI impI)
    fix b assume "b \<in># ?M"
    then have "b \<noteq> ?b" using cnt(2) by (metis not_in_iff)
    then show "kv_block_hash ?kv ! b = kv_block_hash kv ! b" by simp
  qed (simp add: same_config_def)
  moreover have "kv_block_hash ?kv ! c = 0" if "c \<in> set (drop (Suc i) (blocks bt))" for c
  proof -
    obtain j where j: "j < length (drop (Suc i) (blocks bt))" "c = drop (Suc i) (blocks bt) ! j"
      using \<open>c \<in> set (drop (Suc i) (blocks bt))\<close> by (metis in_set_conv_nth)
    then have "c \<noteq> ?b" using only[of "Suc i + j"] by simp
    moreover have "kv_block_hash kv ! c = 0" using t i(1) that dr by (simp add: table_ok_def)
    ultimately show ?thesis by simp
  qed
  ultimately show ?thesis
    using i(2) by (intro building_done[OF _ _ kv_inv_others[OF inv]]) auto
qed

lemma skip_publish_inv:
  assumes inv: "kv_inv kv (add_mset bt ts)" and i: "i = num_committed bt" "i < length (blocks bt)"
  shows "kv_inv kv (add_mset (bt\<lparr>num_committed := Suc i\<rparr>) ts)"
proof -
  have "set (drop (Suc i) (blocks bt)) \<subseteq> set (drop i (blocks bt))"
    using i(2) by (metis Cons_nth_drop_Suc set_subset_Cons)
  moreover have "table_ok kv (all_blocks (add_mset bt ts)) bt" using inv by (simp add: kv_inv_def)
  ultimately have "table_ok kv (all_blocks (add_mset bt ts)) (bt\<lparr>num_committed := Suc i\<rparr>)"
    using i by (auto simp: table_ok_def)
  then show ?thesis using inv by (simp add: kv_inv_def)
qed

lemma hash_full_block_inv:
  assumes inv: "kv_inv kv (add_mset bt ts)" and i: "i = num_committed bt" "i < bt_num_blocks bt"
    and hf: "hash_full_block kv bt i tokens = (kv', bt')"
  shows "kv_inv kv' (add_mset (bt'\<lparr>num_committed := Suc i\<rparr>) ts) \<and> same_config kv kv' \<and>
    blocks bt' = blocks bt \<and> num_committed bt' = num_committed bt"
  using hf
proof (cases rule: hash_full_block_cases)
  case skip
  then show ?thesis using skip_publish_inv[OF inv i(1)] i(2) by (simp add: bt_num_blocks_def)
next
  case (publish h)
  then show ?thesis
    using publish_inv[OF inv i(1) _ publish(2) _ publish(1)] i(2) hash_block_nonzero
    by (auto simp: bt_num_blocks_def same_config_def)
qed

lemma commit_loop_inv:
  assumes "kv_inv kv (add_mset bt ts)" "commit_loop kv bt tokens computed = (kv', bt')"
  shows "kv_inv kv' (add_mset bt' ts) \<and> same_config kv kv' \<and> blocks bt' = blocks bt \<and>
    num_committed bt \<le> num_committed bt' \<and>
    (num_committed bt' < bt_num_blocks bt \<longrightarrow> computed < int (Suc (num_committed bt') * kv_block_size kv)) \<and>
    (num_committed bt < num_committed bt' \<longrightarrow> int (num_committed bt' * kv_block_size kv) \<le> computed)"
  using assms
proof (induction kv bt tokens computed rule: commit_loop.induct)
  case (1 kv bt tokens computed)
  let ?go = "num_committed bt < bt_num_blocks bt \<and> int (Suc (num_committed bt) * kv_block_size kv) \<le> computed"
  show ?case
  proof (cases ?go)
    case False
    then show ?thesis using "1.prems" by (auto simp: commit_loop.simps[of kv bt])
  next
    case True
    obtain kv1 bt1 where hf: "hash_full_block kv bt (num_committed bt) tokens = (kv1, bt1)" by fastforce
    note h = hash_full_block_inv[OF "1.prems"(1) refl conjunct1[OF True] hf]
    have nc: "num_committed bt1 = num_committed bt" using h by blast
    let ?bt = "bt1\<lparr>num_committed := Suc (num_committed bt1)\<rparr>"
    have eq: "commit_loop kv1 ?bt tokens computed = (kv', bt')"
      using "1.prems"(2) True hf by (simp add: commit_loop.simps[of kv bt])
    have i1: "kv_inv kv1 (add_mset ?bt ts)" using h nc by simp
    have cfg: "same_config kv kv1" "blocks ?bt = blocks bt" using h by simp_all
    have bs: "kv_block_size kv1 = kv_block_size kv" using cfg by (simp add: same_config_def)
    have IH: "kv_inv kv' (add_mset bt' ts)" "same_config kv1 kv'" "blocks bt' = blocks ?bt"
      "num_committed ?bt \<le> num_committed bt'"
      "num_committed bt' < bt_num_blocks ?bt \<longrightarrow> computed < int (Suc (num_committed bt') * kv_block_size kv1)"
      "num_committed ?bt < num_committed bt' \<longrightarrow> int (num_committed bt' * kv_block_size kv1) \<le> computed"
      using "1.IH"[OF True hf[symmetric] i1 eq] by blast+
    have "int (num_committed bt' * kv_block_size kv) \<le> computed"
    proof (cases "num_committed ?bt < num_committed bt'")
      case False
      then have "num_committed bt' = Suc (num_committed bt)" using IH(4) nc by simp
      then show ?thesis using True by (simp only:)
    qed (use IH(6) bs in simp)
    then show ?thesis
      using IH cfg same_config_trans[OF cfg(1) IH(2)] nc bs by (auto simp: bt_num_blocks_def)
  qed
qed

lemma commit_computed_spec:
  assumes "kv_inv kv (add_mset bt ts)" "commit_computed kv bt tokens computed = (kv', bt')"
  shows "kv_inv kv' (add_mset bt' ts)" "same_config kv kv'" "blocks bt' = blocks bt"
    "num_committed bt \<le> num_committed bt'"
    "num_committed bt < num_committed bt' \<Longrightarrow> int (num_committed bt' * kv_block_size kv) \<le> computed"
  using assms commit_loop_inv[OF assms(1), of tokens computed kv' bt']
  by (auto simp: commit_computed_def split: if_splits)

lemma release_all_inv:
  assumes "pool_inv kv (mset (map fst l) + M)" "\<And>b h. (b, h) \<in> set l \<Longrightarrow> h = kv_block_hash kv ! b"
  shows "pool_inv (release_all kv l) M \<and> kv_block_hash (release_all kv l) = kv_block_hash kv \<and>
    same_config kv (release_all kv l)"
  using assms
proof (induction l arbitrary: kv)
  case Nil
  then show ?case by simp
next
  case (Cons bh l)
  obtain b h where bh: "bh = (b, h)" by (cases bh)
  have p: "pool_inv kv (add_mset b (mset (map fst l) + M))" using Cons.prems(1) bh by simp
  have h: "h = kv_block_hash kv ! b" using Cons.prems(2) bh by simp
  note r = release_block_inv[OF p h]
  have "pool_inv (release_all (release_block kv b h) l) M \<and>
    kv_block_hash (release_all (release_block kv b h) l) = kv_block_hash (release_block kv b h) \<and>
    same_config (release_block kv b h) (release_all (release_block kv b h) l)"
    using r(2) Cons.prems(2) by (intro Cons.IH[OF r(1)]) auto
  then show ?case using r(2) bh same_config_trans[OF release_block_config] by auto
qed

text \<open>\<open>free\<close> returns exactly the table's references and touches no hash.\<close>

lemma free_table_spec:
  assumes "kv_inv kv (add_mset bt ts)" "free_table kv bt = (kv', bt')"
  shows "kv_inv kv' ts" "same_config kv kv'" "bt' = empty_table"
proof -
  let ?l = "rev (zip (blocks bt) (hashes bt))"
  have t: "hashes bt = map ((!) (kv_block_hash kv)) (blocks bt)"
    using assms(1) by (simp add: kv_inv_def table_ok_def)
  have eq: "kv' = release_all kv ?l" "bt' = empty_table" using assms(2) by (simp_all add: free_table_def)
  have "mset (map fst ?l) = mset (blocks bt)" using t by (simp add: rev_map[symmetric])
  then have p: "pool_inv kv (mset (map fst ?l) + all_blocks ts)"
    using assms(1) by (simp add: kv_inv_def)
  have hs: "h = kv_block_hash kv ! b" if "(b, h) \<in> set ?l" for b h
    using that t by (auto simp: set_zip)
  note r = release_all_inv[OF p hs, simplified eq(1)[symmetric]]
  show "same_config kv kv'" "bt' = empty_table" using r eq by simp_all
  have "table_ok kv' (all_blocks ts) x" if "x \<in># ts" for x
    by (rule table_ok_frame[OF kv_inv_others[OF assms(1) that]]) (use r in simp_all)
  then show "kv_inv kv' ts" using r by (simp add: kv_inv_def)
qed

end
