(* ===== verification/Pool_Interface.thy ===== *)
theory Pool_Interface
  imports KV_Invariant
begin

text \<open>
  The contract between the scheduler and the KV cache, as a locale: an invariant over the manager
  and the multiset of live block tables, and what each of the four operations the scheduler calls
  does to it. The client lemmas lift the contract from one table to a store of tables indexed by
  owners (the scheduler's heap of sequences), where an operation changes one owner's table and
  leaves the others alone. The interpretation at the end discharges the laws for the model of
  \<open>KVCacheManager\<close>.
\<close>

locale paged_pool =
  fixes inv :: "'k \<Rightarrow> 't multiset \<Rightarrow> bool"
    and vacant :: 't
    and release :: "'k \<Rightarrow> 't \<Rightarrow> 'k \<times> 't"
    and grow :: "'k \<Rightarrow> 't \<Rightarrow> nat \<Rightarrow> bool \<times> 'k \<times> 't"
    and publish :: "'k \<Rightarrow> 't \<Rightarrow> token list \<Rightarrow> int \<Rightarrow> 'k \<times> 't"
    and alloc :: "'k \<Rightarrow> 't \<Rightarrow> token list \<Rightarrow> (nat option \<times> 'k \<times> 't) option"
  assumes inv_vacant: "inv k (add_mset vacant ts) \<longleftrightarrow> inv k ts"
    and inv_release: "inv k (add_mset t ts) \<Longrightarrow> release k t = (k', t') \<Longrightarrow> inv k' ts \<and> t' = vacant"
    and inv_grow: "inv k (add_mset t ts) \<Longrightarrow> grow k t n = (ok, k', t') \<Longrightarrow> inv k' (add_mset t' ts)"
    and inv_publish: "inv k (add_mset t ts) \<Longrightarrow> publish k t toks c = (k', t') \<Longrightarrow> inv k' (add_mset t' ts)"
    and inv_alloc: "inv k ts \<Longrightarrow> alloc k vacant toks = Some (hit, k', t') \<Longrightarrow> inv k' (add_mset t' ts)"
    and alloc_total: "inv k ts \<Longrightarrow> alloc k vacant toks \<noteq> None"
begin

lemma owners_update:
  assumes "distinct rs" "r \<in> set rs"
  shows "image_mset f (mset rs) = add_mset (f r) (image_mset f (mset (remove1 r rs)))"
    "image_mset (f(r := x)) (mset rs) = add_mset x (image_mset f (mset (remove1 r rs)))"
proof -
  have m: "mset rs = add_mset r (mset (remove1 r rs))" using assms(2) by simp
  show "image_mset f (mset rs) = add_mset (f r) (image_mset f (mset (remove1 r rs)))"
    by (subst m) simp
  have "r \<notin> set (remove1 r rs)" using assms(1) by simp
  then have "image_mset (f(r := x)) (mset (remove1 r rs)) = image_mset f (mset (remove1 r rs))"
    by (intro image_mset_cong) (metis fun_upd_other set_mset_mset)
  then show "image_mset (f(r := x)) (mset rs) = add_mset x (image_mset f (mset (remove1 r rs)))"
    by (subst m) simp
qed

text \<open>The invariant over a store of tables, seen from one owner.\<close>

lemma owners_focus:
  assumes "distinct rs" "r \<in> set rs"
  shows "inv k (image_mset f (mset rs)) \<longleftrightarrow> inv k (add_mset (f r) (image_mset f (mset (remove1 r rs))))"
    "inv k (image_mset (f(r := x)) (mset rs)) \<longleftrightarrow> inv k (add_mset x (image_mset f (mset (remove1 r rs))))"
  by (rule arg_cong2[of _ _ _ _ inv, OF refl owners_update(1)[OF assms]],
      rule arg_cong2[of _ _ _ _ inv, OF refl owners_update(2)[OF assms]])

lemma owners_release:
  assumes "distinct rs" "r \<in> set rs" "inv k (image_mset f (mset rs))" "release k (f r) = (k', t')"
  shows "inv k' (image_mset (f(r := t')) (mset rs))" "inv k' (image_mset f (mset (remove1 r rs)))"
proof -
  have "inv k' (image_mset f (mset (remove1 r rs))) \<and> t' = vacant"
    using inv_release[OF _ assms(4)] assms(3) owners_focus(1)[OF assms(1,2)] by blast
  then show "inv k' (image_mset (f(r := t')) (mset rs))" "inv k' (image_mset f (mset (remove1 r rs)))"
    using inv_vacant owners_focus(2)[OF assms(1,2)] by metis+
qed

lemma owners_grow:
  assumes "distinct rs" "r \<in> set rs" "inv k (image_mset f (mset rs))" "grow k (f r) n = (ok, k', t')"
  shows "inv k' (image_mset (f(r := t')) (mset rs))"
  using inv_grow[OF _ assms(4)] assms(3) owners_focus[OF assms(1,2)] by blast

lemma owners_publish:
  assumes "distinct rs" "r \<in> set rs" "inv k (image_mset f (mset rs))" "publish k (f r) toks c = (k', t')"
  shows "inv k' (image_mset (f(r := t')) (mset rs))"
  using inv_publish[OF _ assms(4)] assms(3) owners_focus[OF assms(1,2)] by blast

lemma owners_alloc:
  assumes "distinct rs" "r \<in> set rs" "inv k (image_mset f (mset rs))" "f r = vacant"
    "alloc k vacant toks = Some (hit, k', t')"
  shows "inv k' (image_mset (f(r := t')) (mset rs))"
proof -
  have "inv k (image_mset f (mset (remove1 r rs)))"
    using assms(3,4) inv_vacant owners_focus(1)[OF assms(1,2)] by metis
  then show ?thesis using inv_alloc[OF _ assms(5)] owners_focus(2)[OF assms(1,2)] by blast
qed

lemma owners_alloc_total:
  assumes "distinct rs" "r \<in> set rs" "inv k (image_mset f (mset rs))" "f r = vacant"
  shows "\<exists>hit k' t'. alloc k vacant toks = Some (hit, k', t') \<and>
    inv k' (image_mset (f(r := t')) (mset rs))"
proof -
  have "alloc k vacant toks \<noteq> None" using alloc_total[OF assms(3)] .
  then obtain hit k' t' where "alloc k vacant toks = Some (hit, k', t')" by (metis option.exhaust prod_cases3)
  then show ?thesis using owners_alloc[OF assms] by blast
qed

end

interpretation pool: paged_pool kv_inv empty_table free_table ensure_slot commit_computed allocate_prompt
proof unfold_locales
  fix k ts
  show "kv_inv k (add_mset empty_table ts) \<longleftrightarrow> kv_inv k ts" by simp
next
  fix k t ts k' t'
  assume "kv_inv k (add_mset t ts)" "free_table k t = (k', t')"
  then show "kv_inv k' ts \<and> t' = empty_table" by (blast intro: free_table_spec)
next
  fix k t ts n ok k' t'
  assume "kv_inv k (add_mset t ts)" "ensure_slot k t n = (ok, k', t')"
  then show "kv_inv k' (add_mset t' ts)" by (rule ensure_slot_spec)
next
  fix k t ts toks c k' t'
  assume "kv_inv k (add_mset t ts)" "commit_computed k t toks c = (k', t')"
  then show "kv_inv k' (add_mset t' ts)" by (rule commit_computed_spec)
next
  fix k ts toks hit k' t'
  assume "kv_inv k ts" "allocate_prompt k empty_table toks = Some (hit, k', t')"
  then show "kv_inv k' (add_mset t' ts)" by (cases rule: allocate_prompt_cases[of k ts toks]) auto
next
  fix k ts toks
  assume "kv_inv k ts"
  then show "allocate_prompt k empty_table toks \<noteq> None"
    by (cases rule: allocate_prompt_cases[of k ts toks]) auto
qed

end
