(* ===== verification/Scheduler_Inv.thy ===== *)
theory Scheduler_Inv
  imports Scheduler Pool_Interface
begin

text \<open>
  The scheduler's invariant: the queue and the resident list hold each sequence at most once, the
  block tables of exactly these sequences account for the KV pool, a queued sequence holds no
  blocks, and a resident one has at least one token left to compute and blocks for it. This
  theory shows that the queue operations, eviction, admission and the placement loop keep it;
  \<open>Scheduler_Step\<close> composes them to \<open>schedule\<close> and \<open>on_step_done\<close>.
\<close>

subsection \<open>Definitions\<close>

definition tabs :: "sched \<Rightarrow> seq_ref \<Rightarrow> block_table" where
  "tabs s r = block_tab (heap s r)"

definition owners_inv :: "sched \<Rightarrow> seq_ref list \<Rightarrow> bool" where
  "owners_inv s rs \<longleftrightarrow> distinct rs \<and> kv_inv (sc_kv s) (image_mset (tabs s) (mset rs))"

text \<open>The cap a sequence generates to: \<open>max_tokens\<close>, but the check comes after the first token.\<close>

definition gen_cap :: "seq \<Rightarrow> int" where
  "gen_cap q = max 1 (max_tokens (params q))"

definition wait_ok :: "seq \<Rightarrow> bool" where
  "wait_ok q \<longleftrightarrow> status q = Waiting \<and> tokens q \<noteq> [] \<and> block_tab q = empty_table \<and>
     0 \<le> num_generated q \<and> num_generated q < gen_cap q"

text \<open>
  The blocks of a resident sequence: exactly what its tokens need, or one token less while its
  next decode slot has not been taken.
\<close>

definition blocks_ok :: "nat \<Rightarrow> seq \<Rightarrow> bool" where
  "blocks_ok bs q \<longleftrightarrow>
     bt_num_blocks (block_tab q) = blocks_needed (num_tokens q) bs \<or>
     (bt_num_blocks (block_tab q) = blocks_needed (num_tokens q - 1) bs \<and>
      num_computed q = int (num_tokens q) - 1)"

text \<open>
  The published prefix ends at or before the computed tokens, except for a prompt that was
  cached completely and whose last token is computed once more.
\<close>

definition committed_ok :: "nat \<Rightarrow> seq \<Rightarrow> bool" where
  "committed_ok bs q \<longleftrightarrow>
     int (num_committed (block_tab q) * bs) \<le> num_computed q \<or>
     (num_committed (block_tab q) * bs = num_tokens q \<and> num_computed q = int (num_tokens q) - 1)"

definition run_ok :: "bool \<Rightarrow> nat \<Rightarrow> seq \<Rightarrow> bool" where
  "run_ok cont bs q \<longleftrightarrow> tokens q \<noteq> [] \<and> 0 \<le> num_computed q \<and> num_computed q < int (num_tokens q) \<and>
     blocks_ok bs q \<and> committed_ok bs q \<and> 0 \<le> num_generated q \<and>
     (status q = Running \<and> num_generated q < gen_cap q \<or>
      status q = Finished \<and> \<not> cont \<and> num_generated q \<le> gen_cap q)"

definition seqs_inv :: "sched \<Rightarrow> seq_ref list \<Rightarrow> seq_ref list \<Rightarrow> bool" where
  "seqs_inv s W R \<longleftrightarrow> (\<forall>r\<in>set W. wait_ok (heap s r)) \<and>
     (\<forall>r\<in>set R. run_ok (continuous (sc_cfg s)) (kv_block_size (sc_kv s)) (heap s r))"

definition sched_inv :: "sched \<Rightarrow> bool" where
  "sched_inv s \<longleftrightarrow> owners_inv s (waiting s @ running s) \<and> seqs_inv s (waiting s) (running s)"

text \<open>The configurations the command line's defaults belong to.\<close>

definition sane_cfg :: "sched_config \<Rightarrow> bool" where
  "sane_cfg c \<longleftrightarrow> 0 \<le> max_num_batched_tokens c \<and> 1 \<le> prefill_chunk_size c"

text \<open>The number of requests the scheduler holds.\<close>

definition load :: "sched \<Rightarrow> nat" where
  "load s = length (waiting s) + length (running s)"

subsection \<open>Field lemmas\<close>

lemma heap_simps [simp]:
  "heap (upd_seq s r f) = (heap s)(r := f (heap s r))"
  "heap (set_kv_table s r kv bt) = (heap s)(r := (heap s r)\<lparr>block_tab := bt\<rparr>)"
  "heap (fire s r t reason) = heap s"
  "heap (upd_stats s g) = heap s"
  "heap (free_seq s r) = (heap s)(r := (heap s r)\<lparr>block_tab := empty_table\<rparr>)"
  by (simp_all add: upd_seq_def set_kv_table_def fire_def upd_stats_def free_seq_def free_table_def)

lemma kv_field_simps [simp]:
  "sc_kv (upd_seq s r f) = sc_kv s"
  "sc_kv (set_kv_table s r kv bt) = kv"
  "sc_kv (fire s r t reason) = sc_kv s"
  "sc_kv (upd_stats s g) = sc_kv s"
  "sc_kv (free_seq s r) = fst (free_table (sc_kv s) (block_tab (heap s r)))"
  by (simp_all add: upd_seq_def set_kv_table_def fire_def upd_stats_def free_seq_def free_table_def)

lemma cfg_simps [simp]:
  "sc_cfg (upd_seq s r f) = sc_cfg s"
  "sc_cfg (set_kv_table s r kv bt) = sc_cfg s"
  "sc_cfg (fire s r t reason) = sc_cfg s"
  "sc_cfg (upd_stats s g) = sc_cfg s"
  "sc_cfg (free_seq s r) = sc_cfg s"
  by (simp_all add: upd_seq_def set_kv_table_def fire_def upd_stats_def free_seq_def free_table_def)

lemma static_open_simps [simp]:
  "static_batch_open (upd_seq s r f) = static_batch_open s"
  "static_batch_open (set_kv_table s r kv bt) = static_batch_open s"
  "static_batch_open (fire s r t reason) = static_batch_open s"
  "static_batch_open (upd_stats s g) = static_batch_open s"
  "static_batch_open (free_seq s r) = static_batch_open s"
  by (simp_all add: upd_seq_def set_kv_table_def fire_def upd_stats_def free_seq_def free_table_def)

lemma retire_simps [simp]:
  "heap (retire now s r reason) = (heap s)(r := (heap s r)\<lparr>status := Finished, finish := reason,
     t_finish := now, block_tab := empty_table\<rparr>)"
  "sc_kv (retire now s r reason) = fst (free_table (sc_kv s) (block_tab (heap s r)))"
  "sc_cfg (retire now s r reason) = sc_cfg s"
  "static_batch_open (retire now s r reason) = static_batch_open s"
  by (simp_all add: retire_def Let_def)

lemma preempt_simps [simp]:
  "heap (preempt s r) = (heap s)(r := (heap s r)\<lparr>block_tab := empty_table, num_computed := 0,
     num_preemptions := Suc (num_preemptions (heap s r)), status := Waiting\<rparr>)"
  "sc_kv (preempt s r) = fst (free_table (sc_kv s) (block_tab (heap s r)))"
  "sc_cfg (preempt s r) = sc_cfg s"
  "waiting (preempt s r) = r # waiting s"
  "static_batch_open (preempt s r) = static_batch_open s"
  by (simp_all add: preempt_def Let_def)

subsection \<open>Frames\<close>

text \<open>The fields of a sequence the invariant reads.\<close>

definition core_eq :: "seq \<Rightarrow> seq \<Rightarrow> bool" where
  "core_eq p q \<longleftrightarrow> tokens p = tokens q \<and> prompt_len p = prompt_len q \<and>
     num_computed p = num_computed q \<and> block_tab p = block_tab q \<and> params p = params q \<and>
     status p = status q"

lemma core_eq_refl [simp]: "core_eq q q"
  by (simp add: core_eq_def)

lemma core_eq_ok:
  assumes "core_eq p q"
  shows "wait_ok p \<longleftrightarrow> wait_ok q" "run_ok cont bs p \<longleftrightarrow> run_ok cont bs q"
  using assms
  by (simp_all add: core_eq_def wait_ok_def run_ok_def blocks_ok_def committed_ok_def gen_cap_def
      num_generated_def num_tokens_def)

lemma owners_inv_cong:
  assumes "\<And>r. r \<in> set rs \<Longrightarrow> tabs s' r = tabs s r" "sc_kv s' = sc_kv s"
  shows "owners_inv s' rs \<longleftrightarrow> owners_inv s rs"
proof -
  have "image_mset (tabs s') (mset rs) = image_mset (tabs s) (mset rs)"
    using assms(1) by (intro image_mset_cong) simp
  then show ?thesis using assms(2) by (simp add: owners_inv_def)
qed

lemma owners_inv_mset: "mset rs = mset rs' \<Longrightarrow> owners_inv s rs \<longleftrightarrow> owners_inv s rs'"
  by (auto simp: owners_inv_def dest: mset_eq_imp_distinct_iff)

lemma seqs_inv_cong:
  assumes "\<And>r. r \<in> set W \<union> set R \<Longrightarrow> core_eq (heap s' r) (heap s r)"
    "sc_cfg s' = sc_cfg s" "kv_block_size (sc_kv s') = kv_block_size (sc_kv s)"
  shows "seqs_inv s' W R \<longleftrightarrow> seqs_inv s W R"
  using assms(2,3) core_eq_ok[OF assms(1)] by (auto simp: seqs_inv_def)

lemma sched_inv_frame:
  assumes "sched_inv s" "waiting s' = waiting s" "running s' = running s"
    "\<And>r. r \<in> set (waiting s) \<union> set (running s) \<Longrightarrow> core_eq (heap s' r) (heap s r)"
    "sc_cfg s' = sc_cfg s" "sc_kv s' = sc_kv s"
  shows "sched_inv s'"
proof -
  have "owners_inv s' (waiting s @ running s) \<longleftrightarrow> owners_inv s (waiting s @ running s)"
    using assms(4,6) by (intro owners_inv_cong) (auto simp: tabs_def core_eq_def)
  moreover have "seqs_inv s' (waiting s) (running s) \<longleftrightarrow> seqs_inv s (waiting s) (running s)"
    using assms(4,5,6) by (intro seqs_inv_cong) auto
  ultimately show ?thesis using assms(1,2,3) by (simp add: sched_inv_def)
qed

lemma sched_inv_D:
  assumes "sched_inv s"
  shows "distinct (waiting s @ running s)"
    "kv_inv (sc_kv s) (image_mset (tabs s) (mset (waiting s @ running s)))"
    "\<And>r. r \<in> set (waiting s) \<Longrightarrow> wait_ok (heap s r)"
    "\<And>r. r \<in> set (running s) \<Longrightarrow> run_ok (continuous (sc_cfg s)) (kv_block_size (sc_kv s)) (heap s r)"
  using assms by (auto simp: sched_inv_def owners_inv_def seqs_inv_def)

lemma tabs_set_kv_table [simp]: "tabs (set_kv_table s r kv bt) = (tabs s)(r := bt)"
  by (auto simp: tabs_def fun_eq_iff)

lemma tabs_free_seq [simp]: "tabs (free_seq s r) = (tabs s)(r := empty_table)"
  by (auto simp: tabs_def fun_eq_iff)

lemma blocks_needed_mono: "m \<le> n \<Longrightarrow> blocks_needed m bs \<le> blocks_needed n bs"
  by (simp add: blocks_needed_def div_le_mono)

lemma blocks_needed_Suc: "0 < bs \<Longrightarrow> blocks_needed (Suc n) bs \<le> Suc (blocks_needed n bs)"
proof -
  assume "0 < bs"
  then have "(Suc n + bs - 1) div bs \<le> (n + bs - 1 + bs) div bs" by (intro div_le_mono) simp
  also have "\<dots> = Suc ((n + bs - 1) div bs)" using div_add_self2[of bs "n + bs - 1"] \<open>0 < bs\<close> by linarith
  finally show ?thesis by (simp add: blocks_needed_def)
qed

lemma blocks_needed_covers: "0 < bs \<Longrightarrow> n \<le> blocks_needed n bs * bs"
proof -
  assume bs: "0 < bs"
  have "n + bs - 1 = (n + bs - 1) div bs * bs + (n + bs - 1) mod bs" by simp
  moreover have "(n + bs - 1) mod bs < bs" using bs by simp
  ultimately show ?thesis unfolding blocks_needed_def by linarith
qed

lemma blocks_needed_tight: "0 < bs \<Longrightarrow> blocks_needed n bs * bs < n + bs"
proof -
  assume bs: "0 < bs"
  have "blocks_needed n bs * bs \<le> n + bs - 1" by (simp add: blocks_needed_def)
  then show ?thesis using bs by linarith
qed

lemma kv_inv_bs: "kv_inv kv ts \<Longrightarrow> 0 < kv_block_size kv"
  by (simp add: kv_inv_def pool_inv_def)

subsection \<open>A sequence leaves\<close>

lemma free_table_config: "same_config kv (fst (free_table kv bt))"
proof -
  have "same_config kv (release_all kv l)" for l
    by (induction kv l rule: release_all.induct)
      (auto intro: same_config_trans[OF release_block_config])
  then show ?thesis by (simp add: free_table_def)
qed

lemma free_table_bs [simp]: "kv_block_size (fst (free_table kv bt)) = kv_block_size kv"
  using free_table_config by (simp add: same_config_def)

lemma owners_free:
  assumes "owners_inv s rs" "r \<in> set rs"
  shows "owners_inv (free_seq s r) rs" "mset rs' = mset rs - {#r#} \<Longrightarrow> owners_inv (free_seq s r) rs'"
proof -
  obtain kv bt where f: "free_table (sc_kv s) (tabs s r) = (kv, bt)" by fastforce
  then have fb: "bt = empty_table" "sc_kv (free_seq s r) = kv" by (auto simp: free_table_def tabs_def)
  have d: "distinct rs" and k: "kv_inv (sc_kv s) (image_mset (tabs s) (mset rs))"
    using assms(1) by (simp_all add: owners_inv_def)
  note o = pool.owners_release[OF d assms(2) k f]
  show "owners_inv (free_seq s r) rs" using o(1) d fb by (simp add: owners_inv_def)
  assume m: "mset rs' = mset rs - {#r#}"
  then have mm: "mset rs' = mset (remove1 r rs)" by simp
  then have d': "distinct rs'" using d distinct_remove1 mset_eq_imp_distinct_iff by metis
  have "r \<notin> set rs'" using mm d by (metis in_multiset_in_set set_remove1_distinct Diff_iff singletonI)
  then have "owners_inv (free_seq s r) rs' \<longleftrightarrow> kv_inv kv (image_mset (tabs s) (mset rs'))"
    using d' fb(2) by (auto simp: owners_inv_def intro!: arg_cong2[of _ _ _ _ kv_inv] image_mset_cong)
  then show "owners_inv (free_seq s r) rs'" using o(2) mm by simp
qed

text \<open>
  A sequence that has been taken off its list and whose blocks are freed: what is left satisfies
  the invariant, whatever happens to the leaver's own record.
\<close>

lemma sched_inv_leave:
  assumes inv: "sched_inv s" and r: "r \<in> set (waiting s @ running s)"
    and lists: "mset (waiting s' @ running s') = mset (waiting s @ running s) - {#r#}"
      "set (waiting s') \<subseteq> set (waiting s)" "set (running s') \<subseteq> set (running s)"
    and kv: "sc_kv s' = fst (free_table (sc_kv s) (block_tab (heap s r)))" and cfg: "sc_cfg s' = sc_cfg s"
    and heap: "\<And>p. p \<noteq> r \<Longrightarrow> heap s' p = heap s p"
  shows "sched_inv s'"
proof -
  let ?L = "waiting s' @ running s'"
  have own: "owners_inv s (waiting s @ running s)" using inv by (simp add: sched_inv_def)
  have o1: "owners_inv (free_seq s r) ?L" using owners_free(2)[OF own r lists(1)] .
  have d: "distinct (waiting s @ running s)" using sched_inv_D(1)[OF inv] .
  have mm: "mset ?L = mset (remove1 r (waiting s @ running s))" using lists(1) by simp
  then have nr: "r \<notin> set ?L" using d by (metis in_multiset_in_set set_remove1_distinct Diff_iff singletonI)
  have "owners_inv s' ?L \<longleftrightarrow> owners_inv (free_seq s r) ?L"
    using nr heap kv by (intro owners_inv_cong) (auto simp: tabs_def)
  moreover have "seqs_inv s' (waiting s') (running s')"
    unfolding seqs_inv_def
  proof (intro conjI ballI)
    fix p assume p: "p \<in> set (waiting s')"
    then have "p \<noteq> r" using nr by auto
    then show "wait_ok (heap s' p)" using p lists(2) heap sched_inv_D(3)[OF inv, of p] by auto
  next
    fix p assume p: "p \<in> set (running s')"
    then have "p \<noteq> r" using nr by auto
    then show "run_ok (continuous (sc_cfg s')) (kv_block_size (sc_kv s')) (heap s' p)"
      using p lists(3) heap sched_inv_D(4)[OF inv, of p] kv cfg by auto
  qed
  ultimately show ?thesis using o1 by (simp add: sched_inv_def)
qed

lemma retire_waiting_inv:
  assumes "sched_inv s" "waiting s = us @ r # vs"
  shows "sched_inv (retire now (s\<lparr>waiting := us @ vs\<rparr>) r reason)"
  by (rule sched_inv_leave[OF assms(1), of r]) (use assms(2) in auto)

lemma retire_running_inv:
  assumes "sched_inv s" "running s = us @ r # vs"
  shows "sched_inv (retire now (s\<lparr>running := us @ vs\<rparr>) r reason)"
  by (rule sched_inv_leave[OF assms(1), of r]) (use assms(2) in auto)

lemma sched_abort_inv:
  assumes "sched_inv s"
  shows "sched_inv (sched_abort now s i)"
  using assms
  by (auto simp: sched_abort_def split: option.split dest!: find_erase_Some
      intro: retire_waiting_inv retire_running_inv)

lemma sched_add_inv:
  assumes inv: "sched_inv s" and r: "r \<notin> set (waiting s @ running s)"
    and q: "tokens (heap s r) \<noteq> []" "block_tab (heap s r) = empty_table"
      "0 \<le> num_generated (heap s r)" "num_generated (heap s r) < gen_cap (heap s r)"
  shows "sched_inv (sched_add now s r)"
proof -
  let ?s = "sched_add now s r"
  have w: "waiting ?s = waiting s @ [r]" "running ?s = running s" "sc_kv ?s = sc_kv s" "sc_cfg ?s = sc_cfg s"
    "heap ?s = (heap s)(r := (heap s r)\<lparr>status := Waiting, t_arrival := now\<rparr>)"
    by (simp_all add: sched_add_def Let_def)
  have t: "tabs ?s r = empty_table" "\<And>p. p \<noteq> r \<Longrightarrow> tabs ?s p = tabs s p"
    using q(2) w(5) by (simp_all add: tabs_def)
  have "image_mset (tabs ?s) (mset (waiting s @ running s)) = image_mset (tabs s) (mset (waiting s @ running s))"
    using r t(2) by (intro image_mset_cong) (metis set_mset_mset)
  then have "owners_inv ?s (waiting ?s @ running ?s)"
    using sched_inv_D(1,2)[OF inv] r t(1) w by (simp add: owners_inv_def)
  moreover have "seqs_inv ?s (waiting ?s) (running ?s)"
    using sched_inv_D(3,4)[OF inv] r q w
    by (auto simp: seqs_inv_def wait_ok_def num_generated_def gen_cap_def)
  ultimately show ?thesis by (simp add: sched_inv_def)
qed

subsection \<open>Eviction\<close>

lemma run_ok_running: "run_ok cont bs q \<Longrightarrow> \<not> is_finished q \<Longrightarrow> status q = Running \<and> num_generated q < gen_cap q"
  by (auto simp: run_ok_def is_finished_def)

lemma preempt_inv:
  assumes inv: "sched_inv s" and r: "running s = us @ [r]" and nf: "\<not> is_finished (heap s r)"
  shows "sched_inv (preempt (s\<lparr>running := us\<rparr>) r)"
proof -
  let ?s = "preempt (s\<lparr>running := us\<rparr>) r"
  have own: "owners_inv s (waiting s @ running s)" using inv by (simp add: sched_inv_def)
  have mem: "r \<in> set (waiting s @ running s)" using r by simp
  have o1: "owners_inv (free_seq s r) (waiting s @ running s)" using owners_free(1)[OF own mem] .
  have "owners_inv ?s (waiting s @ running s) \<longleftrightarrow> owners_inv (free_seq s r) (waiting s @ running s)"
    by (intro owners_inv_cong) (auto simp: tabs_def)
  moreover have "owners_inv ?s (waiting ?s @ running ?s) \<longleftrightarrow> owners_inv ?s (waiting s @ running s)"
    using r by (intro owners_inv_mset) simp
  ultimately have o2: "owners_inv ?s (waiting ?s @ running ?s)" using o1 by blast
  have q: "run_ok (continuous (sc_cfg s)) (kv_block_size (sc_kv s)) (heap s r)"
    using sched_inv_D(4)[OF inv] r by simp
  have "wait_ok (heap ?s r)"
    using q run_ok_running[OF q nf]
    by (simp add: wait_ok_def run_ok_def num_generated_def gen_cap_def)
  moreover have "r \<notin> set (waiting s)" "r \<notin> set us" using sched_inv_D(1)[OF inv] r by auto
  ultimately have "seqs_inv ?s (waiting ?s) (running ?s)"
    using sched_inv_D(3,4)[OF inv] r by (auto simp: seqs_inv_def)
  then show ?thesis using o2 by (simp add: sched_inv_def)
qed

text \<open>
  Eviction keeps the invariant; the resident list loses exactly its victim, and nobody else's
  record changes.
\<close>

lemma evict_cases:
  assumes "evict_for_memory s mid dec = (True, s', mid', dec')"
  obtains (finished_member) us r vs where "running s = us @ r # vs" "is_finished (heap s r)"
      "s' = upd_stats (free_seq (s\<lparr>running := us @ vs\<rparr>) r) (\<lambda>t. t\<lparr>finished := Suc (finished t)\<rparr>)"
      "mid' = forget r mid" "dec' = forget r dec"
  | (youngest) us r where "running s = us @ [r]" "\<forall>p\<in>set (running s). \<not> is_finished (heap s p)"
      "s' = preempt (s\<lparr>running := us\<rparr>) r" "mid' = forget r mid" "dec' = forget r dec"
proof (cases "find_last_erase (\<lambda>r. is_finished (heap s r)) (running s)")
  case None
  then have ne: "running s \<noteq> []" using assms by (auto simp: evict_for_memory_def)
  show thesis
    by (rule youngest[of "butlast (running s)" "last (running s)"])
      (use assms None ne in \<open>auto simp: evict_for_memory_def Let_def find_last_erase_None\<close>)
next
  case (Some yr)
  obtain r rest where yr: "yr = (r, rest)" by (cases yr)
  from find_last_erase_Some[OF Some[unfolded yr]] obtain us vs where
    "running s = us @ r # vs" "rest = us @ vs" "is_finished (heap s r)" by blast
  then show thesis
    using assms Some yr by (intro finished_member[of us r vs]) (auto simp: evict_for_memory_def Let_def)
qed

lemma evict_inv:
  assumes inv: "sched_inv s" and ev: "evict_for_memory s mid dec = (True, s', mid', dec')"
  shows "sched_inv s' \<and> sc_cfg s' = sc_cfg s \<and> static_batch_open s' = static_batch_open s \<and>
    kv_block_size (sc_kv s') = kv_block_size (sc_kv s) \<and>
    (\<exists>v us vs. running s = us @ v # vs \<and> running s' = us @ vs \<and> mid' = forget v mid \<and>
      dec' = forget v dec \<and> (\<forall>p. p \<noteq> v \<longrightarrow> heap s' p = heap s p) \<and>
      (is_finished (heap s v) \<or> vs = []))"
  using ev
proof (cases rule: evict_cases)
  case (finished_member us r vs)
  have "sched_inv s'"
    by (rule sched_inv_leave[OF inv, of r]) (use finished_member in auto)
  moreover have "\<exists>v us vs. running s = us @ v # vs \<and> running s' = us @ vs \<and> mid' = forget v mid \<and>
      dec' = forget v dec \<and> (\<forall>p. p \<noteq> v \<longrightarrow> heap s' p = heap s p) \<and>
      (is_finished (heap s v) \<or> vs = [])"
    by (rule exI[of _ r], rule exI[of _ us], rule exI[of _ vs]) (use finished_member in auto)
  ultimately show ?thesis using finished_member by simp
next
  case (youngest us r)
  have "sched_inv s'" using preempt_inv[OF inv youngest(1)] youngest by simp
  moreover have "\<exists>v us vs. running s = us @ v # vs \<and> running s' = us @ vs \<and> mid' = forget v mid \<and>
      dec' = forget v dec \<and> (\<forall>p. p \<noteq> v \<longrightarrow> heap s' p = heap s p) \<and>
      (is_finished (heap s v) \<or> vs = [])"
    by (rule exI[of _ r], rule exI[of _ us], rule exI[of _ "[]"]) (use youngest in auto)
  ultimately show ?thesis using youngest by simp
qed

subsection \<open>The placement loop\<close>

definition slot_ready :: "sched \<Rightarrow> seq_ref \<Rightarrow> bool" where
  "slot_ready s r \<longleftrightarrow>
     bt_num_blocks (block_tab (heap s r)) = blocks_needed (num_tokens (heap s r)) (kv_block_size (sc_kv s))"

text \<open>
  The two candidate lists: sublists of the resident list in its order, disjoint, together all the
  live residents, split by whether the prefill is done.
\<close>

definition placing :: "sched \<Rightarrow> seq_ref list \<Rightarrow> seq_ref list \<Rightarrow> bool" where
  "placing s mid dec \<longleftrightarrow> sched_inv s \<and>
     mid = filter (\<lambda>r. r \<in> set mid) (running s) \<and> dec = filter (\<lambda>r. r \<in> set dec) (running s) \<and>
     set mid \<inter> set dec = {} \<and>
     (\<forall>r\<in>set (running s). \<not> is_finished (heap s r) \<longrightarrow> r \<in> set mid \<union> set dec) \<and>
     (\<forall>r\<in>set mid. \<not> is_finished (heap s r) \<and> \<not> prefill_done (heap s r)) \<and>
     (\<forall>r\<in>set dec. \<not> is_finished (heap s r) \<and> prefill_done (heap s r))"

lemma filter_mem_subset: "xs = filter (\<lambda>r. r \<in> set xs) ys \<Longrightarrow> set xs \<subseteq> set ys"
  by (metis filter_is_subset)

lemma placing_subset:
  "placing s mid dec \<Longrightarrow> set mid \<subseteq> set (running s) \<and> set dec \<subseteq> set (running s)"
  unfolding placing_def by (blast dest: filter_mem_subset)

lemma sched_inv_ensure:
  assumes inv: "sched_inv s" and r: "r \<in> set (running s)"
    and es: "ensure_slot (sc_kv s) (block_tab (heap s r)) (num_tokens (heap s r)) = (ok, kv, bt)"
  shows "sched_inv (set_kv_table s r kv bt)" "kv_block_size kv = kv_block_size (sc_kv s)"
    "ok \<Longrightarrow> slot_ready (set_kv_table s r kv bt) r" "\<not> ok \<Longrightarrow> bt = block_tab (heap s r)"
proof -
  let ?L = "waiting s @ running s" and ?n = "num_tokens (heap s r)" and ?bs = "kv_block_size (sc_kv s)"
  let ?s = "set_kv_table s r kv bt"
  have d: "distinct ?L" and k: "kv_inv (sc_kv s) (image_mset (tabs s) (mset ?L))" using sched_inv_D[OF inv] by blast+
  have mem: "r \<in> set ?L" using r by simp
  have k1: "kv_inv (sc_kv s) (add_mset (block_tab (heap s r)) (image_mset (tabs s) (mset (remove1 r ?L))))"
    using pool.owners_focus(1)[OF d mem, of "sc_kv s" "tabs s"] k by (simp add: tabs_def[of s r])
  note e = ensure_slot_spec[OF k1 es]
  show bs: "kv_block_size kv = ?bs" using e(2) by (simp add: same_config_def)
  have bs0: "0 < ?bs" using kv_inv_bs[OF k] .
  have q: "run_ok (continuous (sc_cfg s)) ?bs (heap s r)" using sched_inv_D(4)[OF inv r] .
  have need: "blocks_needed ?n ?bs \<le> Suc (bt_num_blocks (block_tab (heap s r)))"
    "bt_num_blocks (block_tab (heap s r)) \<le> blocks_needed ?n ?bs"
    using q blocks_needed_Suc[OF bs0, of "?n - 1"] blocks_needed_mono[of "?n - 1" ?n ?bs]
    by (auto simp: run_ok_def blocks_ok_def num_tokens_def)
  then have nb: "ok \<Longrightarrow> bt_num_blocks bt = blocks_needed ?n ?bs" using e(4) by simp
  then show "ok \<Longrightarrow> slot_ready ?s r" using bs by (simp add: slot_ready_def num_tokens_def)
  show nok: "\<not> ok \<Longrightarrow> bt = block_tab (heap s r)" using e(5) by simp
  have own: "owners_inv ?s ?L"
    using pool.owners_grow[OF d mem k, of ?n ok kv bt] es d by (simp add: owners_inv_def tabs_def[of s r])
  have "run_ok (continuous (sc_cfg s)) ?bs ((heap s r)\<lparr>block_tab := bt\<rparr>)"
    using q nb nok e(3) by (cases ok)
      (auto simp: run_ok_def blocks_ok_def committed_ok_def num_generated_def gen_cap_def num_tokens_def)
  then have "seqs_inv ?s (waiting s) (running s)"
    using sched_inv_D(3,4)[OF inv] d r bs by (auto simp: seqs_inv_def)
  then show "sched_inv ?s" using own by (simp add: sched_inv_def)
qed

lemma placing_ensure:
  assumes pl: "placing s mid dec" and r: "r \<in> set dec"
    and es: "ensure_slot (sc_kv s) (block_tab (heap s r)) (num_tokens (heap s r)) = (ok, kv, bt)"
  shows "placing (set_kv_table s r kv bt) mid dec"
proof -
  have "r \<in> set (running s)" using placing_subset[OF pl] r by blast
  then have "sched_inv (set_kv_table s r kv bt)"
    using pl sched_inv_ensure(1)[OF _ _ es] by (simp add: placing_def)
  then show ?thesis using pl by (simp add: placing_def is_finished_def prefill_done_def num_tokens_def)
qed

lemma forget_filter_mem:
  assumes "xs = filter (\<lambda>r. r \<in> set xs) (us @ v # vs)" "distinct (us @ v # vs)"
  shows "forget v xs = filter (\<lambda>r. r \<in> set (forget v xs)) (us @ vs)"
proof -
  have "forget v xs = filter (\<lambda>r. r \<noteq> v) (filter (\<lambda>r. r \<in> set xs) (us @ v # vs))"
    unfolding forget_def by (rule arg_cong[OF assms(1)])
  also have "\<dots> = filter (\<lambda>r. r \<noteq> v \<and> r \<in> set xs) (us @ vs)" by (auto simp: conj_commute)
  also have "\<dots> = filter (\<lambda>r. r \<in> set (forget v xs)) (us @ vs)"
    by (rule filter_cong) (auto simp: forget_def)
  finally show ?thesis .
qed

lemma placing_evict:
  assumes pl: "placing s mid dec" and ev: "evict_for_memory s mid dec = (True, s', mid', dec')"
    and i: "i < length dec" and ready: "\<forall>j<i. slot_ready s (dec ! j)"
  shows "placing s' mid' dec'" "\<forall>j<i. slot_ready s' (dec' ! j)" "i \<le> length dec'"
    "sc_cfg s' = sc_cfg s" "static_batch_open s' = static_batch_open s"
    "set (running s') \<subseteq> set (running s)" "has_work s'"
    "kv_block_size (sc_kv s') = kv_block_size (sc_kv s)" "load s' \<le> load s"
proof -
  have inv: "sched_inv s" using pl by (simp add: placing_def)
  show "load s' \<le> load s" using ev by (cases rule: evict_cases) (auto simp: load_def)
  show "has_work s'"
    using ev
  proof (cases rule: evict_cases)
    case (finished_member us r vs)
    have "dec ! 0 \<in> set dec" using i by (intro nth_mem) linarith
    then have "dec ! 0 \<in> set (running s)" "dec ! 0 \<noteq> r"
      using pl placing_subset[OF pl] finished_member(2) by (auto simp: placing_def)
    then show ?thesis using finished_member by (auto simp: has_work_def)
  next
    case (youngest us r)
    then show ?thesis by (simp add: has_work_def)
  qed
  from evict_inv[OF inv ev] obtain v us vs where e:
    "sched_inv s'" "running s = us @ v # vs" "running s' = us @ vs" "mid' = forget v mid" "dec' = forget v dec"
    "\<forall>p. p \<noteq> v \<longrightarrow> heap s' p = heap s p" "is_finished (heap s v) \<or> vs = []" and c: "sc_cfg s' = sc_cfg s"
    "static_batch_open s' = static_batch_open s" "kv_block_size (sc_kv s') = kv_block_size (sc_kv s)" by blast
  show "sc_cfg s' = sc_cfg s" "static_batch_open s' = static_batch_open s"
    "kv_block_size (sc_kv s') = kv_block_size (sc_kv s)" using c by simp_all
  show "set (running s') \<subseteq> set (running s)" using e by auto
  have d: "distinct (us @ v # vs)" using sched_inv_D(1)[OF inv] e(2) by simp
  have m: "mid = filter (\<lambda>r. r \<in> set mid) (us @ v # vs)" "dec = filter (\<lambda>r. r \<in> set dec) (us @ v # vs)"
    using pl e(2) by (simp_all add: placing_def)
  have hp: "heap s' p = heap s p" if "p \<in> set mid' \<union> set dec'" for p
    using that e(4,5,6) by (auto simp: forget_def)
  have f: "mid' = filter (\<lambda>r. r \<in> set mid') (running s')" "dec' = filter (\<lambda>r. r \<in> set dec') (running s')"
    using forget_filter_mem[OF m(1) d] forget_filter_mem[OF m(2) d] e(3,4,5) by simp_all
  have sub: "set mid' \<subseteq> set mid" "set dec' \<subseteq> set dec" using e(4,5) by (auto simp: forget_def)
  show "placing s' mid' dec'"
    unfolding placing_def
  proof (intro conjI ballI)
    show "set mid' \<inter> set dec' = {}" using sub pl by (auto simp: placing_def)
    fix r
    show "\<not> is_finished (heap s' r) \<longrightarrow> r \<in> set mid' \<union> set dec'" if "r \<in> set (running s')"
    proof -
      have "r \<noteq> v" "r \<in> set (running s)" using that d e(2,3) by auto
      then show ?thesis using pl e(4,5,6) by (auto simp: placing_def forget_def)
    qed
    show "\<not> is_finished (heap s' r)" "\<not> prefill_done (heap s' r)" if "r \<in> set mid'"
      using that hp[of r] sub(1) pl by (auto simp: placing_def)
    show "\<not> is_finished (heap s' r)" "prefill_done (heap s' r)" if "r \<in> set dec'"
      using that hp[of r] sub(2) pl by (auto simp: placing_def)
  qed (fact e(1) f)+
  have front: "take i dec' = take i dec \<and> i \<le> length dec'"
  proof (cases "v \<in> set dec")
    case False
    then have "dec' = dec" using e(5) by (auto simp: forget_def filter_id_conv)
    then show ?thesis using i by simp
  next
    case True
    then have vs: "vs = []" using pl e(7) by (auto simp: placing_def)
    define ds where "ds = filter (\<lambda>r. r \<in> set dec) us"
    have dd: "dec = ds @ [v]" using m(2) True vs by (simp add: ds_def)
    have "v \<notin> set ds" using d by (auto simp: ds_def)
    then have "dec' = ds" using e(5) dd by (auto simp: forget_def filter_id_conv)
    then show ?thesis using dd i by simp
  qed
  then show "i \<le> length dec'" by simp
  have "dec' ! j = dec ! j \<and> dec' ! j \<in> set dec'" if "j < i" for j
  proof -
    have "take i dec' ! j = take i dec ! j" using front by simp
    then have "dec' ! j = dec ! j" using that by simp
    then show ?thesis using that front by (metis nth_mem order_less_le_trans)
  qed
  then show "\<forall>j<i. slot_ready s' (dec' ! j)"
    using ready hp c(3) by (force simp: slot_ready_def)
qed

text \<open>
  The placement loop: all decode candidates that are left have a slot for their next token, and
  everything the lists promise still holds.
\<close>

lemma place_decode_spec:
  assumes "placing s mid dec" "i \<le> length dec" "\<forall>j<i. slot_ready s (dec ! j)"
    "place_decode s mid dec i = (s', mid', dec')"
  shows "placing s' mid' dec' \<and> (\<forall>r\<in>set dec'. slot_ready s' r) \<and> sc_cfg s' = sc_cfg s \<and>
    static_batch_open s' = static_batch_open s \<and> set (running s') \<subseteq> set (running s) \<and>
    (has_work s \<longrightarrow> has_work s') \<and> kv_block_size (sc_kv s') = kv_block_size (sc_kv s) \<and>
    load s' \<le> load s"
  using assms
proof (induction s mid dec i rule: place_decode.induct)
  case (1 s mid dec i)
  show ?case
  proof (cases "i < length dec")
    case False
    then have "\<forall>r\<in>set dec. slot_ready s r" using "1.prems"(2,3) by (metis in_set_conv_nth le_antisym not_less)
    then show ?thesis using False "1.prems" by (simp add: place_decode.simps)
  next
    case True
    let ?r = "dec ! i"
    obtain ok kv bt where es: "ensure_slot (sc_kv s) (block_tab (heap s ?r)) (num_tokens (heap s ?r)) = (ok, kv, bt)"
      by (metis prod_cases3)
    let ?s = "set_kv_table s ?r kv bt"
    have rm: "?r \<in> set dec" using True by simp
    have rr: "?r \<in> set (running s)" using placing_subset[OF "1.prems"(1)] rm by blast
    have inv: "sched_inv s" using "1.prems"(1) by (simp add: placing_def)
    note en = sched_inv_ensure[OF inv rr es]
    have pl: "placing ?s mid dec" by (rule placing_ensure[OF "1.prems"(1) rm es])
    have dd: "distinct dec" using "1.prems"(1) sched_inv_D(1)[OF inv] unfolding placing_def
      by (metis distinct_append distinct_filter)
    have old: "\<forall>j<i. slot_ready ?s (dec ! j)"
      using "1.prems"(3) en(2) dd True by (auto simp: slot_ready_def nth_eq_iff_index_eq)
    show ?thesis
    proof (cases ok)
      case ok: True
      have "\<forall>j<Suc i. slot_ready ?s (dec ! j)" using old en(3)[OF ok] by (auto simp: less_Suc_eq)
      moreover have "place_decode ?s mid dec (Suc i) = (s', mid', dec')"
        using "1.prems"(4) True es ok by (subst (asm) place_decode.simps) simp
      ultimately show ?thesis
        using "1.IH"(1)[OF True refl es[symmetric]] pl True ok en(2) by (simp add: has_work_def load_def)
    next
      case nok: False
      obtain b s1 mid1 dec1 where ev: "evict_for_memory ?s mid dec = (b, s1, mid1, dec1)" by (metis prod_cases4)
      have "running ?s \<noteq> []" using rr by (auto simp: running_frame)
      then have b: b using ev by (auto simp: evict_for_memory_def Let_def split: option.splits if_splits)
      note pe = placing_evict[OF pl ev[unfolded eqTrueI[OF b]] True old]
      have "place_decode s1 mid1 dec1 i = (s', mid', dec')"
        using "1.prems"(4) True es nok ev b by (subst (asm) place_decode.simps) simp
      then have "placing s' mid' dec' \<and> (\<forall>r\<in>set dec'. slot_ready s' r) \<and> sc_cfg s' = sc_cfg s1 \<and>
        static_batch_open s' = static_batch_open s1 \<and> set (running s') \<subseteq> set (running s1) \<and>
        (has_work s1 \<longrightarrow> has_work s') \<and> kv_block_size (sc_kv s') = kv_block_size (sc_kv s1) \<and>
        load s' \<le> load s1"
        using "1.IH"(2)[OF True refl es[symmetric] _ refl ev[symmetric] _ refl refl pe(1,3,2)] nok b by simp
      then show ?thesis using pe(4-9) en(2) by (auto simp: load_def)
    qed
  qed
qed

end
