(* ===== verification/Scheduler_Step.thy ===== *)
theory Scheduler_Step
  imports Scheduler_Inv
begin

text \<open>
  The two halves of an engine iteration. \<open>schedule\<close> keeps the scheduler's invariant and hands the
  model a step in which every slice is the next piece of a live resident sequence, backed by
  blocks, within the token budget. \<open>on_step_done\<close>, given one sampled token per logits row,
  consumes such a step without failing an assertion and keeps the invariant.
\<close>

subsection \<open>Well-formed steps\<close>

definition slice_ok :: "sched \<Rightarrow> step_slice \<Rightarrow> bool" where
  "slice_ok s sl \<longleftrightarrow>
     (let q = heap s (sl_seq sl)
      in sl_seq sl \<in> set (running s) \<and> \<not> is_finished q \<and> slot_ready s (sl_seq sl) \<and>
         sl_start sl = num_computed q \<and> 1 \<le> sl_len sl \<and> sl_start sl + sl_len sl \<le> int (num_tokens q) \<and>
         (needs_logits sl \<longleftrightarrow> sl_start sl + sl_len sl = int (num_tokens q)) \<and>
         (\<not> is_prefill sl \<longrightarrow> sl_len sl = 1 \<and> needs_logits sl))"

definition slices_ok :: "sched \<Rightarrow> step_slice list \<Rightarrow> bool" where
  "slices_ok s sls \<longleftrightarrow> (\<forall>sl\<in>set sls. slice_ok s sl) \<and> distinct (map sl_seq sls)"

definition counters_ok :: "step_input \<Rightarrow> bool" where
  "counters_ok st \<longleftrightarrow>
     num_prefill_tokens st = sum_list (map sl_len (filter is_prefill (slices st))) \<and>
     num_decode_tokens st = sum_list (map sl_len (filter (\<lambda>sl. \<not> is_prefill sl) (slices st))) \<and>
     num_logits st = int (length (filter needs_logits (slices st)))"

text \<open>\<open>[prefill..., decode...]\<close>\<close>

definition prefill_first :: "step_slice list \<Rightarrow> bool" where
  "prefill_first sls \<longleftrightarrow> sls = filter is_prefill sls @ filter (\<lambda>sl. \<not> is_prefill sl) sls"

definition step_ok :: "sched \<Rightarrow> step_input \<Rightarrow> bool" where
  "step_ok s st \<longleftrightarrow> slices_ok s (slices st) \<and> counters_ok st \<and> prefill_first (slices st) \<and>
     step_num_tokens st \<le> max_num_batched_tokens (sc_cfg s)"

subsection \<open>A candidate gets its blocks\<close>

lemma alloc_waiting:
  assumes inv: "sched_inv s" and r: "r \<in> set (waiting s)"
    and al: "allocate_prompt (sc_kv s) (block_tab (heap s r)) (tokens (heap s r)) = res"
  shows "(\<exists>kv. res = Some (None, kv, empty_table) \<and> sched_inv (set_kv_table s r kv empty_table) \<and>
       kv_block_size kv = kv_block_size (sc_kv s)) \<or>
    (\<exists>kv bt cached. res = Some (Some cached, kv, bt) \<and> kv_block_size kv = kv_block_size (sc_kv s) \<and>
       owners_inv (set_kv_table s r kv bt) (waiting s @ running s) \<and>
       bt_num_blocks bt = blocks_needed (num_tokens (heap s r)) (kv_block_size (sc_kv s)) \<and>
       cached = num_committed bt * kv_block_size (sc_kv s) \<and> cached \<le> num_tokens (heap s r))"
proof -
  let ?L = "waiting s @ running s" and ?q = "heap s r" and ?bs = "kv_block_size (sc_kv s)"
  have d: "distinct ?L" and k: "kv_inv (sc_kv s) (image_mset (tabs s) (mset ?L))" using sched_inv_D[OF inv] by blast+
  have mem: "r \<in> set ?L" using r by simp
  have w: "wait_ok ?q" using sched_inv_D(3)[OF inv r] .
  then have e: "block_tab ?q = empty_table" "tabs s r = empty_table" by (simp_all add: wait_ok_def tabs_def)
  have id: "?q\<lparr>block_tab := empty_table\<rparr> = ?q" using e(1) by (cases ?q) simp
  show ?thesis
    using k
  proof (cases rule: allocate_prompt_cases[of _ _ "tokens ?q"])
    case (fail kv')
    have bs: "kv_block_size kv' = ?bs" using fail(3) by (simp add: same_config_def)
    have "owners_inv (set_kv_table s r kv' empty_table) ?L"
      using pool.owners_alloc[OF d mem k e(2) fail(1)] d by (simp add: owners_inv_def)
    moreover have "seqs_inv (set_kv_table s r kv' empty_table) (waiting s) (running s)"
      using sched_inv_D(3,4)[OF inv] id bs by (auto simp: seqs_inv_def)
    ultimately have "sched_inv (set_kv_table s r kv' empty_table)" by (simp add: sched_inv_def)
    then show ?thesis using al fail(1) e(1) bs by auto
  next
    case (ok kv' bt' new)
    have bs: "kv_block_size kv' = ?bs" using ok(3) by (simp add: same_config_def)
    have "owners_inv (set_kv_table s r kv' bt') ?L"
      using pool.owners_alloc[OF d mem k e(2) ok(1)] d by (simp add: owners_inv_def)
    moreover have "lookup_cached_prefix (sc_kv s) (tokens ?q) \<le> num_tokens ?q"
      using cached_hits_length[of "sc_kv s" "tokens ?q"]
      by (simp add: lookup_cached_prefix_def num_tokens_def) (metis div_times_less_eq_dividend le_trans mult_le_mono1)
    ultimately show ?thesis
      using al ok e(1) bs by (auto simp: bt_num_blocks_def num_tokens_def lookup_cached_prefix_def)
  qed
qed

subsection \<open>Filling a step\<close>

text \<open>
  A step under construction: prefill slices so far, and the decode candidates whose slices are
  still to come.
\<close>

definition filling :: "sched \<Rightarrow> step_input \<Rightarrow> seq_ref list \<Rightarrow> bool" where
  "filling s st dec \<longleftrightarrow> sched_inv s \<and> slices_ok s (slices st) \<and> counters_ok st \<and>
     (\<forall>sl\<in>set (slices st). is_prefill sl) \<and> distinct dec \<and> sl_seq ` set (slices st) \<inter> set dec = {} \<and>
     (\<forall>r\<in>set dec. r \<in> set (running s) \<and> \<not> is_finished (heap s r) \<and> prefill_done (heap s r) \<and> slot_ready s r)"

lemma filling_empty: "filling s empty_step dec \<longleftrightarrow> sched_inv s \<and> distinct dec \<and>
     (\<forall>r\<in>set dec. r \<in> set (running s) \<and> \<not> is_finished (heap s r) \<and> prefill_done (heap s r) \<and> slot_ready s r)"
  by (auto simp: filling_def empty_step_def slices_ok_def counters_ok_def)

lemma filling_frame:
  assumes "filling s st dec" "sched_inv s'" "set (running s) \<subseteq> set (running s')"
    "kv_block_size (sc_kv s') = kv_block_size (sc_kv s)"
    "\<And>p. p \<in> set (running s) \<Longrightarrow> core_eq (heap s' p) (heap s p)"
  shows "filling s' st dec"
proof -
  have h: "num_computed (heap s' p) = num_computed (heap s p) \<and> num_tokens (heap s' p) = num_tokens (heap s p) \<and>
    is_finished (heap s' p) = is_finished (heap s p) \<and> slot_ready s' p = slot_ready s p \<and>
    prefill_done (heap s' p) = prefill_done (heap s p)" if "p \<in> set (running s)" for p
    using assms(5)[OF that] assms(4)
    by (simp add: core_eq_def num_tokens_def is_finished_def slot_ready_def prefill_done_def)
  have "slice_ok s' sl" if "slice_ok s sl" for sl
  proof -
    have "sl_seq sl \<in> set (running s)" using that by (simp add: slice_ok_def Let_def)
    then show ?thesis using that h[of "sl_seq sl"] assms(3) by (auto simp: slice_ok_def Let_def)
  qed
  then have "slices_ok s' (slices st)" using assms(1) unfolding filling_def slices_ok_def by blast
  moreover have "r \<in> set (running s') \<and> \<not> is_finished (heap s' r) \<and> prefill_done (heap s' r) \<and> slot_ready s' r"
    if "r \<in> set dec" for r
  proof -
    have "r \<in> set (running s) \<and> \<not> is_finished (heap s r) \<and> prefill_done (heap s r) \<and> slot_ready s r"
      using assms(1) that unfolding filling_def by blast
    then show ?thesis using h[of r] assms(3) by auto
  qed
  ultimately show ?thesis using assms(1,2) unfolding filling_def by blast
qed

lemma filling_dec: "filling s st dec \<Longrightarrow> set dec' \<subseteq> set dec \<Longrightarrow> distinct dec' \<Longrightarrow> filling s st dec'"
  unfolding filling_def by blast

lemma filling_add:
  assumes "filling s st dec" "r \<in> set (running s)" "r \<notin> sl_seq ` set (slices st)" "r \<notin> set dec"
    "\<not> is_finished (heap s r)" "slot_ready s r" "1 \<le> len" "len \<le> int (num_tokens (heap s r)) - num_computed (heap s r)"
  shows "filling s (add_prefill_slice st s r len) dec"
    "num_prefill_tokens (add_prefill_slice st s r len) = num_prefill_tokens st + len"
    "sl_seq ` set (slices (add_prefill_slice st s r len)) = insert r (sl_seq ` set (slices st))"
proof -
  have "slices_ok s (slices (add_prefill_slice st s r len))"
    using assms by (auto simp: filling_def slices_ok_def slice_ok_def add_prefill_slice_def Let_def)
  moreover have "counters_ok (add_prefill_slice st s r len)"
    using assms(1) by (simp add: filling_def counters_ok_def add_prefill_slice_def Let_def)
  ultimately show "filling s (add_prefill_slice st s r len) dec"
    using assms(1,4) by (auto simp: filling_def add_prefill_slice_def Let_def)
qed (simp_all add: add_prefill_slice_def Let_def)

lemma build_prefill_spec:
  assumes "filling s st dec" "build_prefill s st budget mid = (st', budget')"
    "distinct mid" "set mid \<inter> set dec = {}" "set mid \<inter> sl_seq ` set (slices st) = {}"
    "\<And>r. r \<in> set mid \<Longrightarrow> r \<in> set (running s) \<and> \<not> is_finished (heap s r) \<and> slot_ready s r \<and>
       num_computed (heap s r) < int (num_tokens (heap s r))"
    "0 \<le> budget" "1 \<le> prefill_chunk_size (sc_cfg s)"
  shows "filling s st' dec \<and> 0 \<le> budget' \<and>
    num_prefill_tokens st' + budget' = num_prefill_tokens st + budget \<and>
    (1 \<le> budget \<and> mid \<noteq> [] \<longrightarrow> slices st' \<noteq> []) \<and> (slices st \<noteq> [] \<longrightarrow> slices st' \<noteq> []) \<and>
    (mid = [] \<longrightarrow> st' = st)"
  using assms
proof (induction mid arbitrary: st budget)
  case (Cons r rs)
  let ?q = "heap s r"
  define len where "len = min (min (int (num_tokens ?q) - num_computed ?q) budget) (prefill_chunk_size (sc_cfg s))"
  have r: "r \<in> set (running s)" "\<not> is_finished ?q" "slot_ready s r" "num_computed ?q < int (num_tokens ?q)"
    using Cons.prems(6)[of r] by simp_all
  have pos: "0 < len \<longleftrightarrow> 1 \<le> budget" using r(4) Cons.prems(8) by (auto simp: len_def)
  show ?case
  proof (cases "0 < len")
    case True
    have "r \<notin> sl_seq ` set (slices st)" "r \<notin> set dec" using Cons.prems(4,5) by auto
    note fa = filling_add[OF Cons.prems(1) r(1) this r(2,3), of len]
    have l: "1 \<le> len" "len \<le> int (num_tokens ?q) - num_computed ?q" "len \<le> budget" using True by (auto simp: len_def)
    have "build_prefill s (add_prefill_slice st s r len) (budget - len) rs = (st', budget')"
      using Cons.prems(2) True by (simp add: Let_def len_def)
    moreover have "set rs \<inter> sl_seq ` set (slices (add_prefill_slice st s r len)) = {}"
      using fa(3)[OF l(1,2)] Cons.prems(3,5) by auto
    ultimately have "filling s st' dec \<and> 0 \<le> budget' \<and>
        num_prefill_tokens st' + budget' = num_prefill_tokens (add_prefill_slice st s r len) + (budget - len) \<and>
        (slices (add_prefill_slice st s r len) \<noteq> [] \<longrightarrow> slices st' \<noteq> [])"
      using Cons.IH[OF fa(1)[OF l(1,2)]] Cons.prems l by simp
    moreover have "slices (add_prefill_slice st s r len) \<noteq> []" by (simp add: add_prefill_slice_def Let_def)
    ultimately show ?thesis using fa(2)[OF l(1,2)] by simp
  next
    case False
    have "build_prefill s st budget rs = (st', budget')"
      using Cons.prems(2) False by (auto simp: Let_def len_def split: if_splits)
    then show ?thesis using Cons.IH[OF Cons.prems(1)] Cons.prems False pos by simp
  qed
qed simp

subsection \<open>Admission\<close>

text \<open>What an admission, or a failed attempt at one, leaves as it was.\<close>

definition admits :: "sched \<Rightarrow> step_input \<Rightarrow> int \<Rightarrow> seq_ref list \<Rightarrow> sched \<Rightarrow> step_input \<Rightarrow> int \<Rightarrow> bool" where
  "admits s st b dec s' st' b' \<longleftrightarrow> filling s' st' dec \<and> sc_cfg s' = sc_cfg s \<and>
     static_batch_open s' = static_batch_open s \<and> 0 \<le> b' \<and>
     num_prefill_tokens st' + b' = num_prefill_tokens st + b \<and> load s' = load s \<and>
     length (running s) \<le> length (running s') \<and>
     int (length (running s')) \<le> max (int (length (running s))) (max_num_seqs (sc_cfg s)) \<and>
     (slices st \<noteq> [] \<longrightarrow> slices st' \<noteq> [])"

lemma admits_refl: "filling s st dec \<Longrightarrow> 0 \<le> b \<Longrightarrow> admits s st b dec s st b"
  by (simp add: admits_def)

lemma admits_trans:
  "admits s st b dec s1 st1 b1 \<Longrightarrow> admits s1 st1 b1 dec s2 st2 b2 \<Longrightarrow> admits s st b dec s2 st2 b2"
  by (auto simp: admits_def)

lemma filling_mem: "filling s st dec \<Longrightarrow> sl_seq ` set (slices st) \<union> set dec \<subseteq> set (running s)"
  by (auto simp: filling_def slices_ok_def slice_ok_def Let_def)

lemma start_seq_simps [simp]:
  "heap (start_seq now s r kv bt c) = (heap s)(r := (heap s r)\<lparr>block_tab := bt,
     num_computed := min (int c) (int (num_tokens (heap s r)) - 1),
     t_first_scheduled := (if t_first_scheduled (heap s r) = 0 then now else t_first_scheduled (heap s r))\<rparr>)"
  "sc_kv (start_seq now s r kv bt c) = kv" "sc_cfg (start_seq now s r kv bt c) = sc_cfg s"
  "static_batch_open (start_seq now s r kv bt c) = static_batch_open s"
  by (simp_all add: start_seq_def num_tokens_def)

definition moved_to_running :: "sched \<Rightarrow> nat \<Rightarrow> seq_ref \<Rightarrow> sched" where
  "moved_to_running s i r =
     upd_stats (upd_seq (s\<lparr>waiting := take i (waiting s) @ drop (Suc i) (waiting s), running := running s @ [r]\<rparr>)
       r (status_update (\<lambda>_. Running)))
     (\<lambda>t. t\<lparr>admitted := Suc (admitted t), max_wait_steps := max (max_wait_steps t) (wait_steps (heap s r))\<rparr>)"

lemma admit_candidate_eq:
  assumes "len = min (min (int (num_tokens (heap s r)) - num_computed (heap s r)) budget) (prefill_chunk_size (sc_cfg s))"
    "1 \<le> len"
  shows "admit_candidate s st budget i r = (True, moved_to_running s i r, add_prefill_slice st s r len, budget - len)"
proof -
  have "\<not> len \<le> 0" using assms(2) by simp
  then show ?thesis unfolding admit_candidate_def Let_def assms(1)[symmetric] moved_to_running_def by simp
qed

lemma admit_started:
  assumes fil: "filling s st dec" and i: "i < length (waiting s)" and r: "r = waiting s ! i"
    and own: "owners_inv (set_kv_table s r kv bt) (waiting s @ running s)"
    and bs: "kv_block_size kv = kv_block_size (sc_kv s)"
    and nb: "bt_num_blocks bt = blocks_needed (num_tokens (heap s r)) (kv_block_size (sc_kv s))"
    and c: "c = num_committed bt * kv_block_size (sc_kv s)" "c \<le> num_tokens (heap s r)"
    and b: "0 < budget" and lim: "int (length (running s)) < max_num_seqs (sc_cfg s)"
    and chunk: "1 \<le> prefill_chunk_size (sc_cfg s)"
  obtains s' st' b' where
    "admit_candidate (start_seq now s r kv bt c) st budget i r = (True, s', st', b')"
    "admits s st budget dec s' st' b'" "slices st' \<noteq> []" "running s' = running s @ [r]"
proof -
  let ?s0 = "start_seq now s r kv bt c"
  let ?q = "heap ?s0 r" and ?n = "int (num_tokens (heap s r))"
  define len where "len = min (min (int (num_tokens ?q) - num_computed ?q) budget) (prefill_chunk_size (sc_cfg s))"
  have inv: "sched_inv s" using fil by (simp add: filling_def)
  have rw: "r \<in> set (waiting s)" using i r by simp
  have w: "wait_ok (heap s r)" using sched_inv_D(3)[OF inv rw] .
  have n: "num_tokens ?q = num_tokens (heap s r)" "0 < ?n" using w by (simp_all add: num_tokens_def wait_ok_def)
  have nc: "num_computed ?q = min (int c) (?n - 1)" by simp
  have len: "1 \<le> len" "len \<le> int (num_tokens ?q) - num_computed ?q" "len \<le> budget"
    using n nc b chunk by (auto simp: len_def)
  define s' where "s' = moved_to_running ?s0 i r"
  have ac: "admit_candidate ?s0 st budget i r = (True, s', add_prefill_slice st ?s0 r len, budget - len)"
    unfolding s'_def by (rule admit_candidate_eq) (use len(1) in \<open>simp_all add: len_def\<close>)
  have f: "running s' = running s @ [r]" "waiting s' = take i (waiting s) @ drop (Suc i) (waiting s)"
    "sc_kv s' = kv" "sc_cfg s' = sc_cfg s" "static_batch_open s' = static_batch_open s"
    "\<And>p. p \<noteq> r \<Longrightarrow> heap s' p = heap s p" "heap s' r = ?q\<lparr>status := Running\<rparr>"
    by (simp_all add: s'_def moved_to_running_def)
  have wsplit: "waiting s = take i (waiting s) @ r # drop (Suc i) (waiting s)" using i r by (simp add: id_take_nth_drop)
  have dis: "distinct (waiting s @ running s)" using sched_inv_D(1)[OF inv] .
  have dt: "distinct (take i (waiting s) @ r # drop (Suc i) (waiting s))" using dis wsplit by (metis distinct_append)
  have rn: "r \<notin> set (running s)" "r \<notin> set (waiting s')" using dis rw dt f(2) by auto
  have own': "owners_inv s' (waiting s' @ running s')"
  proof -
    have m: "mset (waiting s' @ running s') = mset (waiting s @ running s)"
      using f(1,2) arg_cong[OF wsplit, of mset] by simp
    have "owners_inv s' (waiting s @ running s) \<longleftrightarrow> owners_inv (set_kv_table s r kv bt) (waiting s @ running s)"
      using f by (intro owners_inv_cong) (auto simp: tabs_def)
    then show ?thesis using own owners_inv_mset[OF m] by blast
  qed
  have com: "committed_ok (kv_block_size kv) (heap s' r)"
  proof (cases "c = num_tokens (heap s r)")
    case True
    then show ?thesis using c(1) f(7) bs by (simp add: committed_ok_def num_tokens_def del: of_nat_mult)
  next
    case False
    then have "int c \<le> ?n - 1" using c(2) by linarith
    then show ?thesis using c(1) f(7) bs by (simp add: committed_ok_def num_tokens_def del: of_nat_mult)
  qed
  have run: "run_ok (continuous (sc_cfg s)) (kv_block_size kv) (heap s' r)"
    using com w n nc nb bs f(7)
    by (auto simp: run_ok_def wait_ok_def blocks_ok_def num_tokens_def num_generated_def gen_cap_def)
  have "seqs_inv s' (waiting s') (running s')"
    unfolding seqs_inv_def
  proof (intro conjI ballI)
    fix p assume p: "p \<in> set (waiting s')"
    then have "p \<in> set (waiting s)" "p \<noteq> r" using f(2) rn(2) set_take_subset set_drop_subset by fastforce+
    then show "wait_ok (heap s' p)" using f(6) sched_inv_D(3)[OF inv] by simp
  next
    fix p assume "p \<in> set (running s')"
    then show "run_ok (continuous (sc_cfg s')) (kv_block_size (sc_kv s')) (heap s' p)"
      using f run rn(1) sched_inv_D(4)[OF inv, of p] bs by (cases "p = r") auto
  qed
  then have inv': "sched_inv s'" using own' by (simp add: sched_inv_def)
  have fil': "filling s' st dec"
    by (rule filling_frame[OF fil inv']) (use f(1,3,6) rn(1) bs in \<open>force+\<close>)
  have "r \<notin> sl_seq ` set (slices st)" "r \<notin> set dec" using filling_mem[OF fil] rn(1) by auto
  note fa = filling_add[OF fil' _ this, of len]
  have same: "add_prefill_slice st s' r len = add_prefill_slice st ?s0 r len"
    using f(7) by (simp add: add_prefill_slice_def Let_def num_tokens_def)
  have "filling s' (add_prefill_slice st ?s0 r len) dec"
    using fa(1) f(1,3,7) len nb bs n same by (simp add: is_finished_def slot_ready_def num_tokens_def)
  moreover have "load s' = load s" using f(1,2) i by (simp add: load_def)
  ultimately have "admits s st budget dec s' (add_prefill_slice st ?s0 r len) (budget - len)"
    using f len lim by (simp add: admits_def add_prefill_slice_def Let_def)
  then show thesis using that ac f(1) by (simp add: add_prefill_slice_def Let_def)
qed

lemma admit_failed:
  assumes fil: "filling s st dec" and r: "r \<in> set (waiting s)"
    and inv: "sched_inv (set_kv_table s r kv empty_table)" and bs: "kv_block_size kv = kv_block_size (sc_kv s)"
  shows "filling (set_kv_table s r kv empty_table) st dec"
proof (rule filling_frame[OF fil inv])
  fix p assume p: "p \<in> set (running s)"
  have "sched_inv s" using fil by (simp add: filling_def)
  from sched_inv_D(1)[OF this] have "p \<noteq> r" using p r by auto
  then show "core_eq (heap (set_kv_table s r kv empty_table) p) (heap s p)" by simp
qed (simp_all add: bs)

lemma admits_failed:
  "admits s1 st b dec s' st' b' \<Longrightarrow> s1 = set_kv_table s r kv bt \<Longrightarrow> admits s st b dec s' st' b'"
  by (simp add: admits_def load_def)

lemma admit_loop_spec:
  assumes "filling s st dec" "i + n \<le> length (waiting s)" "0 < budget"
    "int (length (running s)) < max_num_seqs (sc_cfg s)" "1 \<le> prefill_chunk_size (sc_cfg s)"
  shows "\<exists>ok s' st' b'. admit_loop now s st budget i n = Inr (ok, s', st', b') \<and> admits s st budget dec s' st' b' \<and>
    (ok \<longrightarrow> slices st' \<noteq> []) \<and> (\<not> ok \<longrightarrow> st' = st \<and> b' = budget \<and> running s' = running s)"
  using assms
proof (induction n arbitrary: s i)
  case 0
  then show ?case using admits_refl[of s st dec budget] by auto
next
  case (Suc n)
  let ?r = "waiting s ! i"
  have i: "i < length (waiting s)" "?r \<in> set (waiting s)" using Suc.prems(2) by simp_all
  have inv: "sched_inv s" using Suc.prems(1) by (simp add: filling_def)
  have e: "block_tab (heap s ?r) = empty_table" using sched_inv_D(3)[OF inv i(2)] by (simp add: wait_ok_def)
  then have be: "bt_empty (block_tab (heap s ?r))" by (simp add: bt_empty_def empty_table_def)
  have stay: ?case if "admit_loop now s st budget i (Suc n) = Inr (False, s, st, budget)"
    using that Suc.prems admits_refl[of s st dec budget] by auto
  show ?case
  proof (cases "admission_fits s ?r")
    case False
    then have "admit_loop now s st budget i (Suc n) = Inr (False, s, st, budget) \<or>
      admit_loop now s st budget i (Suc n) = admit_loop now s st budget (Suc i) n" using be by (simp add: Let_def)
    then show ?thesis using stay Suc.IH[of s "Suc i"] Suc.prems by (elim disjE) simp_all
  next
    case True
    from alloc_waiting[OF inv i(2) refl] show ?thesis
    proof (elim disjE exE conjE)
      fix kv
      assume al: "allocate_prompt (sc_kv s) (block_tab (heap s ?r)) (tokens (heap s ?r)) = Some (None, kv, empty_table)"
        and k: "sched_inv (set_kv_table s ?r kv empty_table)" "kv_block_size kv = kv_block_size (sc_kv s)"
      let ?s = "set_kv_table s ?r kv empty_table"
      have fil: "filling ?s st dec" by (rule admit_failed[OF Suc.prems(1) i(2) k])
      have "admits s st budget dec ?s st budget" by (rule admits_failed[OF admits_refl refl]) (use fil Suc.prems in simp_all)
      moreover have "admit_loop now s st budget i (Suc n) = Inr (False, ?s, st, budget) \<or>
        admit_loop now s st budget i (Suc n) = admit_loop now ?s st budget (Suc i) n"
        using al True be by (simp add: Let_def)
      moreover have "\<exists>ok s' st' b'. admit_loop now ?s st budget (Suc i) n = Inr (ok, s', st', b') \<and>
        admits s st budget dec s' st' b' \<and> (ok \<longrightarrow> slices st' \<noteq> []) \<and>
        (\<not> ok \<longrightarrow> st' = st \<and> b' = budget \<and> running s' = running s)"
        using Suc.IH[OF fil, of "Suc i"] Suc.prems(2-5) admits_failed[OF _ refl, of s ?r kv empty_table st budget dec]
        by simp blast
      ultimately show ?thesis by (elim disjE) auto
    next
      fix kv bt c
      assume al: "allocate_prompt (sc_kv s) (block_tab (heap s ?r)) (tokens (heap s ?r)) = Some (Some c, kv, bt)"
        and k: "kv_block_size kv = kv_block_size (sc_kv s)"
          "owners_inv (set_kv_table s ?r kv bt) (waiting s @ running s)"
          "bt_num_blocks bt = blocks_needed (num_tokens (heap s ?r)) (kv_block_size (sc_kv s))"
          "c = num_committed bt * kv_block_size (sc_kv s)" "c \<le> num_tokens (heap s ?r)"
      have "admit_loop now s st budget i (Suc n) = Inr (admit_candidate (start_seq now s ?r kv bt c) st budget i ?r)"
        using al True be by (simp add: Let_def)
      then show ?thesis
        using admit_started[OF Suc.prems(1) i(1) refl k(2,1,3,4,5) Suc.prems(3,4,5), of now ?thesis] by auto
    qed
  qed
qed

lemma admit_one_spec:
  assumes "filling s st dec" "0 \<le> budget" "1 \<le> prefill_chunk_size (sc_cfg s)"
  shows "\<exists>ok s' st' b'. admit_one now s st budget = Inr (ok, s', st', b') \<and> admits s st budget dec s' st' b' \<and>
    (ok \<longrightarrow> slices st' \<noteq> []) \<and> (\<not> ok \<longrightarrow> st' = st \<and> b' = budget \<and> running s' = running s)"
proof (cases "waiting s = [] \<or> budget \<le> 0 \<or> int (length (running s)) \<ge> max_num_seqs (sc_cfg s)")
  case True
  then have "admit_one now s st budget = Inr (False, s, st, budget)" by (auto simp: admit_one_def)
  then show ?thesis using assms admits_refl[of s st dec budget] by auto
next
  case False
  then have "admit_one now s st budget = admit_loop now s st budget 0 (admission_limit s)" by (simp add: admit_one_def)
  moreover have "0 + admission_limit s \<le> length (waiting s)"
    using False by (auto simp: admission_limit_def Suc_le_eq)
  ultimately show ?thesis using admit_loop_spec[OF assms(1), of 0 "admission_limit s" budget now] False assms(3) by auto
qed

lemma admit_all_spec:
  assumes "filling s st dec" "0 \<le> budget" "1 \<le> prefill_chunk_size (sc_cfg s)"
  shows "\<exists>s' st' b'. admit_all now s st budget = Inr (s', st', b') \<and> admits s st budget dec s' st' b' \<and>
    (slices st' = [] \<longrightarrow> running s' = running s)"
  using assms
proof (induction "length (waiting s)" arbitrary: s st budget rule: less_induct)
  case less
  from admit_one_spec[OF less.prems, of now] obtain ok s1 st1 b1 where
    one: "admit_one now s st budget = Inr (ok, s1, st1, b1)" "admits s st budget dec s1 st1 b1"
    "ok \<longrightarrow> slices st1 \<noteq> []" "\<not> ok \<longrightarrow> st1 = st \<and> b1 = budget \<and> running s1 = running s" by blast
  show ?case
  proof (cases ok)
    case False
    then have "admit_all now s st budget = Inr (s1, st1, b1)" using one(1) by (subst admit_all.simps) simp
    then show ?thesis using one False by auto
  next
    case True
    have eq: "admit_all now s st budget = admit_all now s1 st1 b1" using one(1) True by (subst admit_all.simps) simp
    have sh: "length (waiting s1) < length (waiting s)" using admit_one_shrinks[of now s st budget s1 st1 b1] one(1) True by simp
    have p: "filling s1 st1 dec" "0 \<le> b1" "1 \<le> prefill_chunk_size (sc_cfg s1)"
      using one(2) less.prems by (simp_all add: admits_def)
    from less.hyps[OF sh p] obtain s' st' b' where
      "admit_all now s1 st1 b1 = Inr (s', st', b')" "admits s1 st1 b1 dec s' st' b'" by blast
    moreover have "slices st' \<noteq> []" using calculation(2) one(3) True by (simp add: admits_def)
    ultimately show ?thesis using eq admits_trans[OF one(2)] by auto
  qed
qed

subsection \<open>The queue around admission\<close>

lemma count_wait_simps [simp]:
  "waiting (count_wait s rs) = waiting s" "running (count_wait s rs) = running s"
  "sc_kv (count_wait s rs) = sc_kv s" "sc_cfg (count_wait s rs) = sc_cfg s"
  "static_batch_open (count_wait s rs) = static_batch_open s" "load (count_wait s rs) = load s"
  by (induction s rs rule: count_wait.induct) (simp_all add: load_def)

lemma count_wait_core: "core_eq (heap (count_wait s rs) p) (heap s p)"
proof (induction s rs rule: count_wait.induct)
  case (2 s r rs)
  then show ?case by (auto simp: core_eq_def split: if_splits)
qed simp

lemma count_wait_inv: "sched_inv s \<Longrightarrow> sched_inv (count_wait s rs)"
  by (rule sched_inv_frame) (simp_all add: count_wait_core)

lemma retire_expired_spec:
  assumes "sched_inv (s\<lparr>waiting := waiting s @ rs\<rparr>)"
  shows "sched_inv (retire_expired now s rs) \<and> waiting (retire_expired now s rs) = waiting s \<and>
    running (retire_expired now s rs) = running s \<and> sc_cfg (retire_expired now s rs) = sc_cfg s \<and>
    static_batch_open (retire_expired now s rs) = static_batch_open s \<and>
    kv_block_size (sc_kv (retire_expired now s rs)) = kv_block_size (sc_kv s) \<and>
    (\<forall>p. p \<notin> set rs \<longrightarrow> heap (retire_expired now s rs) p = heap s p)"
  using assms
proof (induction now s rs rule: retire_expired.induct)
  case (1 now s)
  then show ?case by simp
next
  case (2 now s r rs)
  let ?s0 = "s\<lparr>waiting := waiting s @ r # rs\<rparr>" and ?g = "\<lambda>t. t\<lparr>timed_out := Suc (timed_out t)\<rparr>"
  let ?s1 = "retire now (upd_stats s ?g) r Timeout"
  have "sched_inv (retire now (?s0\<lparr>waiting := waiting s @ rs\<rparr>) r Timeout)"
    by (rule retire_waiting_inv[OF "2.prems"]) simp
  then have "sched_inv (?s1\<lparr>waiting := waiting ?s1 @ rs\<rparr>)"
    by (rule sched_inv_frame) (simp_all)
  from "2.IH"[OF this] show ?case by simp
qed

lemma expire_waiting_spec:
  assumes inv: "sched_inv s"
  shows "sched_inv (expire_waiting now s) \<and> running (expire_waiting now s) = running s \<and>
    sc_cfg (expire_waiting now s) = sc_cfg s \<and> static_batch_open (expire_waiting now s) = static_batch_open s \<and>
    kv_block_size (sc_kv (expire_waiting now s)) = kv_block_size (sc_kv s) \<and>
    (\<forall>p\<in>set (running s). heap (expire_waiting now s) p = heap s p) \<and>
    load (expire_waiting now s) \<le> load s \<and>
    (waiting (expire_waiting now s) = [] \<and> waiting s \<noteq> [] \<longrightarrow> load (expire_waiting now s) < load s)"
proof (cases "max_queue_wait_seconds (sc_cfg s) > 0 \<and> waiting s \<noteq> []")
  case False
  then have "expire_waiting now s = s" by (auto simp: expire_waiting_def)
  then show ?thesis using inv by simp
next
  case True
  define kept where "kept = filter (\<lambda>r. \<not> waited_too_long now s r) (waiting s)"
  define expired where "expired = filter (waited_too_long now s) (waiting s)"
  have ex: "expire_waiting now s = retire_expired now (s\<lparr>waiting := kept\<rparr>) expired"
    using True by (simp add: expire_waiting_def kept_def expired_def Let_def)
  have m: "mset (kept @ expired) = mset (waiting s)"
    unfolding kept_def expired_def by (induction "waiting s") simp_all
  let ?s = "s\<lparr>waiting := kept @ expired\<rparr>"
  have "owners_inv ?s (waiting ?s @ running ?s) \<longleftrightarrow> owners_inv ?s (waiting s @ running s)"
    using m by (intro owners_inv_mset) simp
  moreover have "owners_inv ?s (waiting s @ running s) \<longleftrightarrow> owners_inv s (waiting s @ running s)"
    by (intro owners_inv_cong) (simp_all add: tabs_def)
  moreover have "set (kept @ expired) = set (waiting s)" using m by (rule mset_eq_setD)
  ultimately have "sched_inv ?s" using inv by (simp add: sched_inv_def seqs_inv_def)
  then have sp: "sched_inv (s\<lparr>waiting := kept, waiting := waiting (s\<lparr>waiting := kept\<rparr>) @ expired\<rparr>)" by simp
  have "set expired \<inter> set (running s) = {}" using sched_inv_D(1)[OF inv] by (auto simp: expired_def)
  moreover have "length kept \<le> length (waiting s)" by (simp add: kept_def)
  ultimately show ?thesis using retire_expired_spec[OF sp, of now] ex True by (auto simp: load_def)
qed

lemma reject_head_spec:
  assumes fil: "filling s st dec" and st: "running s = [] \<Longrightarrow> slices st = []"
  shows "filling (reject_head now s dec) st dec \<and> sc_cfg (reject_head now s dec) = sc_cfg s \<and>
    running (reject_head now s dec) = running s \<and> load (reject_head now s dec) \<le> load s \<and>
    (waiting s \<noteq> [] \<and> running s = [] \<longrightarrow> load (reject_head now s dec) < load s)"
proof (cases "waiting s \<noteq> [] \<and> running s = [] \<and> dec = []")
  case False
  then have "reject_head now s dec = s" by (auto simp: reject_head_def split: list.split)
  moreover have "running s = [] \<Longrightarrow> dec = []" using filling_mem[OF fil] by auto
  ultimately show ?thesis using fil False by auto
next
  case True
  then obtain r rest where w: "waiting s = r # rest" by (cases "waiting s") auto
  then have rj: "reject_head now s dec = retire now (s\<lparr>waiting := rest\<rparr>) r Abort"
    using True by (simp add: reject_head_def)
  have "sched_inv (retire now (s\<lparr>waiting := [] @ rest\<rparr>) r Abort)"
    using fil w by (intro retire_waiting_inv) (simp_all add: filling_def)
  then have "filling (retire now (s\<lparr>waiting := rest\<rparr>) r Abort) st dec"
    using fil True st by (simp add: filling_def slices_ok_def)
  then show ?thesis using rj True w by (simp add: load_def)
qed

subsection \<open>schedule\<close>

definition decode_slice :: "sched \<Rightarrow> seq_ref \<Rightarrow> step_slice" where
  "decode_slice s r = \<lparr>sl_seq = r, sl_start = num_computed (heap s r), sl_len = 1, needs_logits = True,
     is_prefill = False\<rparr>"

lemma add_decode_slices_eq:
  "slices (add_decode_slices s st dec) = slices st @ map (decode_slice s) dec \<and>
   num_prefill_tokens (add_decode_slices s st dec) = num_prefill_tokens st \<and>
   num_decode_tokens (add_decode_slices s st dec) = num_decode_tokens st + int (length dec) \<and>
   num_logits (add_decode_slices s st dec) = num_logits st + int (length dec)"
  by (induction s st dec rule: add_decode_slices.induct) (simp_all add: decode_slice_def Let_def)

lemma finish_step:
  assumes fil: "filling s st dec"
    and b: "num_prefill_tokens st + int (length dec) \<le> max_num_batched_tokens (sc_cfg s)"
  shows "step_ok s (add_decode_slices s st dec)"
proof -
  let ?d = "map (decode_slice s) dec"
  have sl: "slice_ok s (decode_slice s r)" if "r \<in> set dec" for r
  proof -
    have "sched_inv s" "r \<in> set (running s)" "prefill_done (heap s r)" using fil that by (simp_all add: filling_def)
    moreover have "num_computed (heap s r) < int (num_tokens (heap s r))"
      using sched_inv_D(4)[OF calculation(1,2)] by (simp add: run_ok_def)
    ultimately have "num_computed (heap s r) + 1 = int (num_tokens (heap s r))" by (simp add: prefill_done_def)
    then show ?thesis using fil that by (simp add: filling_def slice_ok_def decode_slice_def Let_def)
  qed
  have f: "filter is_prefill ?d = []" "filter (\<lambda>sl. \<not> is_prefill sl) ?d = ?d" "filter needs_logits ?d = ?d"
    "map sl_len ?d = replicate (length dec) 1" "map sl_seq ?d = dec"
    by (simp_all add: decode_slice_def filter_map comp_def map_replicate_const map_idI)
  have p: "filter is_prefill (slices st) = slices st" "filter (\<lambda>sl. \<not> is_prefill sl) (slices st) = []"
    using fil by (auto simp: filling_def filter_id_conv filter_empty_conv)
  have sums: "sum_list (map sl_len ?d) = int (length dec)" unfolding f(4) by (simp add: sum_list_replicate)
  have "slices_ok s (slices st @ ?d)"
    using fil sl f(5) by (auto simp: filling_def slices_ok_def)
  moreover have "counters_ok (add_decode_slices s st dec)"
    using fil add_decode_slices_eq[of s st dec] f(1-3) p sums by (simp add: filling_def counters_ok_def)
  moreover have "num_decode_tokens st = 0" using fil p(2) by (simp add: filling_def counters_ok_def)
  ultimately show ?thesis
    using add_decode_slices_eq[of s st dec] f(1,2) p b
    by (simp add: step_ok_def prefill_first_def step_num_tokens_def)
qed

lemma open_step_simps [simp]:
  "waiting (open_step s) = waiting s" "running (open_step s) = running s" "heap (open_step s) = heap s"
  "sc_kv (open_step s) = sc_kv s" "sc_cfg (open_step s) = sc_cfg s"
  by (simp_all add: open_step_def Let_def)

lemma close_batch_simps [simp]:
  "waiting (close_batch s b) = waiting s" "running (close_batch s b) = running s"
  "heap (close_batch s b) = heap s" "sc_kv (close_batch s b) = sc_kv s" "sc_cfg (close_batch s b) = sc_cfg s"
  "load (close_batch s b) = load s"
  by (simp_all add: close_batch_def load_def)

lemma split_placing:
  assumes "sched_inv s"
  shows "placing s (split_mid s) (split_decode s)"
  unfolding placing_def
proof (intro conjI)
  show "split_mid s = filter (\<lambda>r. r \<in> set (split_mid s)) (running s)"
    "split_decode s = filter (\<lambda>r. r \<in> set (split_decode s)) (running s)"
    by (auto simp: split_mid_def split_decode_def intro: filter_cong)
qed (use assms in \<open>auto simp: split_mid_def split_decode_def\<close>)

lemma admission_phase_spec:
  assumes fil: "filling s st dec" and b: "0 \<le> budget" and chunk: "1 \<le> prefill_chunk_size (sc_cfg s)"
  shows "\<exists>s' st'. admission_phase now s st budget dec = Inr (s', st') \<and> filling s' st' dec \<and>
    sc_cfg s' = sc_cfg s \<and> num_prefill_tokens st' \<le> num_prefill_tokens st + budget \<and> load s' \<le> load s \<and>
    int (length (running s')) \<le> max (int (length (running s))) (max_num_seqs (sc_cfg s)) \<and>
    (slices st \<noteq> [] \<longrightarrow> slices st' \<noteq> []) \<and>
    (slices st' = [] \<and> running s = [] \<and> waiting s \<noteq> [] \<longrightarrow> load s' < load s)"
proof -
  let ?s = "count_wait s (waiting s)"
  have fil0: "filling ?s st dec"
    by (rule filling_frame[OF fil]) (use fil in \<open>simp_all add: count_wait_core count_wait_inv filling_def\<close>)
  from admit_all_spec[OF fil0 b, of now] chunk obtain s1 st1 b1 where
    a: "admit_all now ?s st budget = Inr (s1, st1, b1)" "admits ?s st budget dec s1 st1 b1"
    "slices st1 = [] \<longrightarrow> running s1 = running s" by auto
  let ?c = "close_batch s1 b1"
  have filc: "filling ?c st1 dec"
    by (rule filling_frame[of s1]) (use a(2) in \<open>auto simp: admits_def filling_def intro: sched_inv_frame[of s1]\<close>)
  have "running ?c = [] \<Longrightarrow> slices st1 = []" using filling_mem[OF filc] by auto
  note rj = reject_head_spec[OF filc this, of now]
  have "waiting s1 \<noteq> []" if "slices st1 = []" "running s = []" "waiting s \<noteq> []"
    using that a(2,3) by (auto simp: admits_def load_def)
  then show ?thesis using rj a by (auto simp: admission_phase_def admits_def)
qed

lemma trim_decode_spec:
  assumes "0 \<le> budget"
  shows "\<exists>dec'. trim_decode dec budget = Inr dec' \<and> dec' = take (nat budget) dec \<and>
    int (length dec') \<le> budget \<and> (1 \<le> budget \<and> dec \<noteq> [] \<longrightarrow> dec' \<noteq> [])"
  using assms by (auto simp: trim_decode_def)

lemma schedule_spec:
  assumes inv: "sched_inv s" and sane: "sane_cfg (sc_cfg s)"
  shows "\<exists>s' st. schedule now s = Inr (s', st) \<and> sched_inv s' \<and> step_ok s' st \<and> sc_cfg s' = sc_cfg s \<and>
    load s' \<le> load s \<and>
    int (length (running s')) \<le> max (int (length (running s))) (max_num_seqs (sc_cfg s)) \<and>
    (continuous (sc_cfg s) \<and> 1 \<le> max_num_batched_tokens (sc_cfg s) \<and> has_work s \<longrightarrow>
       \<not> step_empty st \<or> load s' < load s)"
proof -
  let ?B = "max_num_batched_tokens (sc_cfg s)" and ?s0 = "open_step s"
  have inv0: "sched_inv ?s0" by (rule sched_inv_frame[OF inv]) simp_all
  obtain s1 mid dec where pd: "place_decode ?s0 (split_mid ?s0) (split_decode ?s0) 0 = (s1, mid, dec)"
    by (metis prod_cases3)
  note pl = place_decode_spec[OF split_placing[OF inv0] _ _ pd]
  have P: "placing s1 mid dec" "\<And>r. r \<in> set dec \<Longrightarrow> slot_ready s1 r" "sc_cfg s1 = sc_cfg s"
    "set (running s1) \<subseteq> set (running s)" "has_work s \<Longrightarrow> has_work s1" "load s1 \<le> load s"
    using pl by (simp_all add: has_work_def load_def)
  have inv1: "sched_inv s1" using P(1) by (simp add: placing_def)
  have dis: "distinct (running s1)" using sched_inv_D(1)[OF inv1] by simp
  have dd: "distinct mid" "distinct dec" using P(1) dis unfolding placing_def by (metis distinct_filter)+
  have sub: "set mid \<subseteq> set (running s1)" "set dec \<subseteq> set (running s1)" using placing_subset[OF P(1)] by auto
  have fil0: "filling s1 empty_step dec" using P(1,2) sub(2) dd(2) inv1 by (auto simp: filling_empty placing_def)
  have midok: "r \<in> set (running s1) \<and> \<not> is_finished (heap s1 r) \<and> slot_ready s1 r \<and>
      num_computed (heap s1 r) < int (num_tokens (heap s1 r))" if "r \<in> set mid" for r
  proof -
    have r: "r \<in> set (running s1)" using that sub by auto
    show ?thesis using sched_inv_D(4)[OF inv1 r] that r P(1)
      by (auto simp: placing_def run_ok_def blocks_ok_def slot_ready_def prefill_done_def)
  qed
  obtain st b where bp: "build_prefill s1 empty_step ?B mid = (st, b)" by fastforce
  have B: "filling s1 st dec" "0 \<le> b" "num_prefill_tokens st + b = ?B" "1 \<le> ?B \<and> mid \<noteq> [] \<Longrightarrow> slices st \<noteq> []"
    "mid = [] \<Longrightarrow> st = empty_step"
    using build_prefill_spec[OF fil0 bp dd(1)] midok P(1,3) sane
    by (auto simp: placing_def empty_step_def sane_cfg_def)
  from trim_decode_spec[OF B(2), of dec] obtain dec1 where
    tr: "trim_decode dec b = Inr dec1" "dec1 = take (nat b) dec" "int (length dec1) \<le> b"
      "1 \<le> b \<and> dec \<noteq> [] \<longrightarrow> dec1 \<noteq> []" by blast
  let ?s2 = "expire_waiting now s1"
  note ex = expire_waiting_spec[OF inv1, of now]
  have fil2: "filling ?s2 st dec1"
  proof (rule filling_frame)
    show "filling s1 st dec1" by (rule filling_dec[OF B(1)]) (use tr(2) dd(2) in \<open>auto dest: in_set_takeD\<close>)
  qed (use ex in auto)
  let ?adm = "continuous (sc_cfg ?s0) \<or> static_batch_open ?s0"
  obtain s3 st1 where
    ad: "(if ?adm then admission_phase now ?s2 st (b - int (length dec1)) dec1 else Inr (?s2, st)) = Inr (s3, st1)"
    "filling s3 st1 dec1" "sc_cfg s3 = sc_cfg s" "num_prefill_tokens st1 + int (length dec1) \<le> ?B" "load s3 \<le> load ?s2"
    "int (length (running s3)) \<le> max (int (length (running s1))) (max_num_seqs (sc_cfg s))"
    "slices st \<noteq> [] \<Longrightarrow> slices st1 \<noteq> []"
    "?adm \<Longrightarrow> slices st1 = [] \<Longrightarrow> running s1 = [] \<Longrightarrow> waiting ?s2 \<noteq> [] \<Longrightarrow> load s3 < load ?s2"
  proof (cases ?adm)
    case True
    from admission_phase_spec[OF fil2, of "b - int (length dec1)" now] tr(3) sane ex P(3) obtain s' st' where
      "admission_phase now ?s2 st (b - int (length dec1)) dec1 = Inr (s', st')" "filling s' st' dec1"
      "sc_cfg s' = sc_cfg ?s2" "num_prefill_tokens st' \<le> num_prefill_tokens st + (b - int (length dec1))"
      "load s' \<le> load ?s2" "int (length (running s')) \<le> max (int (length (running ?s2))) (max_num_seqs (sc_cfg ?s2))"
      "slices st \<noteq> [] \<longrightarrow> slices st' \<noteq> []"
      "slices st' = [] \<and> running ?s2 = [] \<and> waiting ?s2 \<noteq> [] \<longrightarrow> load s' < load ?s2"
      by (auto simp: sane_cfg_def)
    then show thesis using True ex P(3) B(3) by (intro that[of s' st']) auto
  next
    case False
    then show thesis using fil2 ex P(3) B(3) tr(3) by (intro that[of ?s2 st]) auto
  qed
  let ?st = "add_decode_slices s3 st1 dec1"
  have sch: "schedule now s = Inr (s3, ?st)"
    using pd bp tr(1) ad(1) by (simp add: schedule_def Let_def)
  have ok: "step_ok s3 ?st" by (rule finish_step[OF ad(2)]) (use ad(3,4) in simp)
  have lr: "length (running s1) \<le> length (running s)"
    using dis P(4) by (metis card_length card_mono distinct_card le_trans List.finite_set)
  have ld: "load s3 \<le> load s" using ad(5) ex P(6) by linarith
  have "\<not> step_empty ?st \<or> load s3 < load s"
    if c: "continuous (sc_cfg s)" "1 \<le> ?B" "has_work s"
  proof (rule ccontr)
    assume "\<not> ?thesis"
    then have z: "slices st1 = []" "dec1 = []" "load s3 = load s"
      using ld add_decode_slices_eq[of s3 st1 dec1] by (auto simp: step_empty_def)
    have m: "mid = []" using B(4) ad(7) z(1) c(2) by blast
    then have "b = ?B" using B(3,5) by (simp add: empty_step_def)
    then have "dec = []" using tr(4) z(2) c(2) by auto
    moreover have "\<not> is_finished (heap s1 r)" if "r \<in> set (running s1)" for r
      using sched_inv_D(4)[OF inv1 that] c(1) P(3) by (auto simp: run_ok_def is_finished_def)
    ultimately have r1: "running s1 = []" using P(1) m by (cases "running s1") (auto simp: placing_def)
    then have "waiting s1 \<noteq> []" using P(5)[OF c(3)] by (simp add: has_work_def)
    then have "waiting ?s2 \<noteq> []" using ex ad(5) P(6) z(3) by linarith
    then show False using ad(8) c(1) z r1 ex P(6) by auto
  qed
  moreover have "sched_inv s3" using ad(2) by (simp add: filling_def)
  ultimately show ?thesis using sch ok ad(3,6) lr ld by auto
qed

end
