(* ===== verification/Scheduler_Done.thy ===== *)
theory Scheduler_Done
  imports Scheduler_Step
begin

text \<open>
  \<open>on_step_done\<close> on a step that \<open>schedule\<close> built: no assertion fails, the sampled tokens are
  consumed one per logits row, and the invariant holds again. Between the slices the sequences
  that finished are on the list \<open>done\<close>, off the resident list but still owning their blocks.
\<close>

subsection \<open>One slice\<close>

definition applying :: "sched \<Rightarrow> seq_ref list \<Rightarrow> bool" where
  "applying s dn \<longleftrightarrow> owners_inv s (waiting s @ running s @ dn) \<and> seqs_inv s (waiting s) (running s)"

lemma applying_distinct: "applying s dn \<Longrightarrow> distinct (waiting s @ running s @ dn)"
  by (simp add: applying_def owners_inv_def)

lemma applying_run_ok:
  "applying s dn \<Longrightarrow> r \<in> set (running s) \<Longrightarrow>
   run_ok (continuous (sc_cfg s)) (kv_block_size (sc_kv s)) (heap s r)"
  by (simp add: applying_def seqs_inv_def)

text \<open>The model's K/V for the slice is counted and its full blocks published.\<close>

lemma advance_spec:
  assumes ap: "applying s dn" and ok: "slice_ok s sl"
  obtains kv bt where
    "advance s sl = set_kv_table (upd_seq s (sl_seq sl) (\<lambda>q. q\<lparr>num_computed := num_computed q + sl_len sl\<rparr>)) (sl_seq sl) kv bt"
    "owners_inv (advance s sl) (waiting s @ running s @ dn)" "kv_block_size kv = kv_block_size (sc_kv s)"
    "bt_num_blocks bt = blocks_needed (num_tokens (heap s (sl_seq sl))) (kv_block_size (sc_kv s))"
    "int (num_committed bt * kv_block_size (sc_kv s)) \<le> num_computed (heap s (sl_seq sl)) + sl_len sl"
proof -
  let ?r = "sl_seq sl" and ?L = "waiting s @ running s @ dn"
  let ?q = "heap s ?r" and ?bs = "kv_block_size (sc_kv s)"
  let ?c = "num_computed ?q + sl_len sl"
  let ?s1 = "upd_seq s ?r (\<lambda>q. q\<lparr>num_computed := num_computed q + sl_len sl\<rparr>)"
  obtain kv bt where cc: "commit_computed (sc_kv s) (block_tab ?q) (tokens ?q) ?c = (kv, bt)" by fastforce
  have adv: "advance s sl = set_kv_table ?s1 ?r kv bt" using cc by (simp add: advance_def Let_def)
  have d: "distinct ?L" and k: "kv_inv (sc_kv s) (image_mset (tabs s) (mset ?L))"
    using ap by (simp_all add: applying_def owners_inv_def)
  have mem: "?r \<in> set ?L" "?r \<in> set (running s)" using ok by (simp_all add: slice_ok_def Let_def)
  have k1: "kv_inv (sc_kv s) (add_mset (block_tab ?q) (image_mset (tabs s) (mset (remove1 ?r ?L))))"
    using pool.owners_focus(1)[OF d mem(1), of "sc_kv s" "tabs s"] k by (simp only: tabs_def[of s ?r])
  note cs = commit_computed_spec[OF k1 cc]
  have ta: "tabs (advance s sl) = (tabs s)(?r := bt)" using adv by (auto simp: tabs_def fun_eq_iff)
  have "kv_inv kv (image_mset ((tabs s)(?r := bt)) (mset ?L))"
    by (rule pool.owners_publish[OF d mem(1) k]) (use cc in \<open>simp add: tabs_def\<close>)
  then have own: "owners_inv (advance s sl) ?L" using d adv ta by (simp add: owners_inv_def)
  have bs: "kv_block_size kv = ?bs" using cs(2) by (simp add: same_config_def)
  have nb: "bt_num_blocks bt = blocks_needed (num_tokens ?q) ?bs"
    using cs(3) ok by (simp add: slice_ok_def slot_ready_def bt_num_blocks_def Let_def)
  have "committed_ok ?bs ?q" using applying_run_ok[OF ap mem(2)] by (simp add: run_ok_def)
  moreover have "1 \<le> sl_len sl" "sl_start sl = num_computed ?q" using ok by (simp_all add: slice_ok_def Let_def)
  ultimately have "int (num_committed bt * ?bs) \<le> ?c"
    using cs(4,5) by (cases "num_committed (block_tab ?q) < num_committed bt") (auto simp: committed_ok_def simp del: of_nat_mult)
  then show thesis using that[OF adv own bs nb] by simp
qed

lemma find_erase_eq: "r \<in> set xs \<Longrightarrow> find_erase (\<lambda>p. p = r) xs = Some (r, remove1 r xs)"
  by (induction xs) auto

lemma finish_check_live:
  "finish_check q tok = Reason_None \<Longrightarrow> num_generated q < gen_cap q"
  by (auto simp: finish_check_def gen_cap_def split: if_splits)

text \<open>
  The sequence after its slice: what the invariant needs of it, whether it goes on, has finished
  in a static batch, or leaves.
\<close>

lemma append_token_ok:
  assumes run: "run_ok cont bs q" and live: "\<not> is_finished q"
    and bt: "bt_num_blocks bt = blocks_needed (num_tokens q) bs" "int (num_committed bt * bs) \<le> int (num_tokens q)"
    and q2: "q2 = append_token now tok (q\<lparr>num_computed := int (num_tokens q), block_tab := bt\<rparr>)"
  shows "finish_check q2 tok = Reason_None \<Longrightarrow> run_ok cont bs q2"
    "\<not> cont \<Longrightarrow> run_ok cont bs (q2\<lparr>finish := reason, status := Finished, t_finish := now\<rparr>)"
proof -
  have l: "status q = Running" "num_generated q < gen_cap q" using run_ok_running[OF run live] by auto
  have g: "num_generated q2 = num_generated q + 1" "gen_cap q2 = gen_cap q" "status q2 = Running"
    "tokens q2 \<noteq> []" "num_computed q2 = int (num_tokens q2) - 1" "block_tab q2 = bt" "num_tokens q2 - 1 = num_tokens q"
    using l(1) by (simp_all add: q2 append_token_def num_generated_def gen_cap_def num_tokens_def)
  have b: "blocks_ok bs q2" "committed_ok bs q2"
    using bt g by (auto simp: blocks_ok_def committed_ok_def simp del: of_nat_mult)
  have n: "0 \<le> num_generated q" "num_tokens q2 \<noteq> 0" using run g(4) by (simp_all add: run_ok_def num_tokens_def)
  show "finish_check q2 tok = Reason_None \<Longrightarrow> run_ok cont bs q2"
    using g b n finish_check_live[of q2 tok] by (auto simp: run_ok_def)
  assume "\<not> cont"
  then show "run_ok cont bs (q2\<lparr>finish := reason, status := Finished, t_finish := now\<rparr>)"
    using g b n l by (auto simp: run_ok_def blocks_ok_def committed_ok_def num_tokens_def num_generated_def gen_cap_def
        simp del: of_nat_mult)
qed

lemma slice_ok_frame:
  assumes "slice_ok s sl" "heap s' (sl_seq sl) = heap s (sl_seq sl)" "sl_seq sl \<in> set (running s')"
    "kv_block_size (sc_kv s') = kv_block_size (sc_kv s)"
  shows "slice_ok s' sl"
  using assms by (auto simp: slice_ok_def slot_ready_def Let_def)

lemma applying_update:
  assumes ap: "applying s dn" and own: "owners_inv s' (waiting s @ running s @ dn)"
    and s': "waiting s' = waiting s" "sc_cfg s' = sc_cfg s" "kv_block_size (sc_kv s') = kv_block_size (sc_kv s)"
      "\<And>p. p \<noteq> r \<Longrightarrow> heap s' p = heap s p"
    and r: "r \<in> set (running s)"
    and lists: "running s' = running s \<and> dn' = dn \<and> run_ok (continuous (sc_cfg s)) (kv_block_size (sc_kv s)) (heap s' r) \<or>
      running s' = remove1 r (running s) \<and> dn' = dn @ [r]"
  shows "applying s' dn'"
proof -
  have d: "distinct (waiting s @ running s @ dn)" by (rule applying_distinct[OF ap])
  have "mset (waiting s' @ running s' @ dn') = mset (waiting s @ running s @ dn)" using lists r s'(1) by auto
  then have "owners_inv s' (waiting s' @ running s' @ dn')" using own owners_inv_mset by blast
  moreover have "seqs_inv s' (waiting s') (running s')"
    unfolding seqs_inv_def
  proof (intro conjI ballI)
    fix p assume "p \<in> set (waiting s')"
    then have "p \<noteq> r" "p \<in> set (waiting s)" using d r s'(1) by auto
    then show "wait_ok (heap s' p)" using s'(4) ap by (simp add: applying_def seqs_inv_def)
  next
    fix p assume p: "p \<in> set (running s')"
    then have "p \<in> set (running s)" using lists set_remove1_subset by fastforce
    then show "run_ok (continuous (sc_cfg s')) (kv_block_size (sc_kv s')) (heap s' p)"
      using lists s' p applying_run_ok[OF ap, of p] d by (cases "p = r") auto
  qed
  ultimately show ?thesis by (simp add: applying_def)
qed

lemma on_slice_logits:
  assumes "needs_logits sl" "k < length sampled" "r = sl_seq sl" "s1 = advance s sl" "\<not> is_finished (heap s1 r)"
    "r \<in> set (running s1)" "tok = sampled ! k" "q2 = append_token now tok (heap s1 r)"
    "s3 = (if stop_hit q2 tok then upd_seq s1 r (append_token now tok)
           else fire (upd_seq s1 r (append_token now tok)) r tok Reason_None)"
    "s4 = upd_seq s3 r (finish_update (\<lambda>_. finish_check q2 tok))"
  shows "on_slice now sampled s k dn sl =
    (if finish_check q2 tok = Reason_None then Inr (s3, Suc k, dn)
     else if continuous (sc_cfg s4) then Inr (s4\<lparr>running := remove1 r (running s4)\<rparr>, Suc k, dn @ [r])
     else Inr (fire (upd_seq s4 r (\<lambda>q. q\<lparr>status := Finished, t_finish := now\<rparr>)) r (-1) (finish_check q2 tok), Suc k, dn))"
proof -
  have "r \<in> set (running s4)" using assms(6,9,10) by simp
  note fe = find_erase_eq[OF this]
  have h: "heap (upd_seq s1 r (append_token now tok)) r = q2" using assms(8) by simp
  show ?thesis
    unfolding on_slice_def Let_def assms(3,4)[symmetric] assms(7)[symmetric] h assms(9,10)[symmetric] fe
    using assms(1,2,5) by simp
qed

lemma on_slice_spec:
  assumes ap: "applying s dn" and ok: "slice_ok s sl" and k: "needs_logits sl \<Longrightarrow> k < length sampled"
  shows "\<exists>s' dn'. on_slice now sampled s k dn sl = Inr (s', (if needs_logits sl then Suc k else k), dn') \<and>
    applying s' dn' \<and> sc_cfg s' = sc_cfg s \<and> kv_block_size (sc_kv s') = kv_block_size (sc_kv s) \<and>
    (\<forall>p. p \<noteq> sl_seq sl \<longrightarrow> heap s' p = heap s p \<and> (p \<in> set (running s') \<longleftrightarrow> p \<in> set (running s)))"
proof -
  let ?r = "sl_seq sl" and ?bs = "kv_block_size (sc_kv s)" and ?L = "waiting s @ running s @ dn"
  let ?q = "heap s ?r"
  from advance_spec[OF ap ok] obtain kv bt where adv:
    "advance s sl = set_kv_table (upd_seq s ?r (\<lambda>q. q\<lparr>num_computed := num_computed q + sl_len sl\<rparr>)) ?r kv bt"
    "owners_inv (advance s sl) ?L" "kv_block_size kv = ?bs"
    "bt_num_blocks bt = blocks_needed (num_tokens ?q) ?bs"
    "int (num_committed bt * ?bs) \<le> num_computed ?q + sl_len sl" .
  define s1 where "s1 = advance s sl"
  have s1: "waiting s1 = waiting s" "running s1 = running s" "sc_cfg s1 = sc_cfg s" "sc_kv s1 = kv"
    "heap s1 = (heap s)(?r := ?q\<lparr>num_computed := num_computed ?q + sl_len sl, block_tab := bt\<rparr>)"
    unfolding s1_def adv(1) by simp_all
  have own1: "owners_inv s1 ?L" unfolding s1_def by (rule adv(2))
  have r: "?r \<in> set (running s)" and live: "\<not> is_finished ?q"
    and nc: "needs_logits sl \<longleftrightarrow> num_computed ?q + sl_len sl = int (num_tokens ?q)"
      "num_computed ?q + sl_len sl \<le> int (num_tokens ?q)" "1 \<le> sl_len sl"
    using ok by (simp_all add: slice_ok_def Let_def)
  have run: "run_ok (continuous (sc_cfg s)) ?bs ?q" by (rule applying_run_ok[OF ap r])
  show ?thesis
  proof (cases "needs_logits sl")
    case False
    have "run_ok (continuous (sc_cfg s)) ?bs (heap s1 ?r)"
      using run nc False adv(4,5) s1(5)
      by (auto simp: run_ok_def blocks_ok_def committed_ok_def num_tokens_def num_generated_def gen_cap_def
          simp del: of_nat_mult)
    then have "applying s1 dn" using applying_update[OF ap own1, of ?r dn] s1 r adv(3) by simp
    then show ?thesis using False s1 adv(3) by (simp add: on_slice_def Let_def s1_def[symmetric])
  next
    case True
    define tok where "tok = sampled ! k"
    define q2 where "q2 = append_token now tok (?q\<lparr>num_computed := int (num_tokens ?q), block_tab := bt\<rparr>)"
    define s3 where "s3 = (if stop_hit q2 tok then upd_seq s1 ?r (append_token now tok)
                           else fire (upd_seq s1 ?r (append_token now tok)) ?r tok Reason_None)"
    have s3: "waiting s3 = waiting s" "running s3 = running s" "sc_cfg s3 = sc_cfg s" "sc_kv s3 = kv"
      "heap s3 = (heap s)(?r := q2)" using s1 nc True by (simp_all add: s3_def q2_def)
    note q2ok = append_token_ok[OF run live adv(4) _ q2_def]
    have com: "int (num_committed bt * ?bs) \<le> int (num_tokens ?q)" using adv(5) nc True by simp
    have own: "owners_inv s' ?L" if "sc_kv s' = kv" "\<And>p. block_tab (heap s' p) = block_tab (heap s1 p)" for s'
      using own1 that s1(4) owners_inv_cong[of ?L s' s1] by (simp add: tabs_def)
    have btab: "block_tab (((heap s)(?r := q)) p) = block_tab (heap s1 p)" if "block_tab q = bt" for p q
      using s1(5) that by simp
    have q2b: "block_tab q2 = bt" by (simp add: q2_def append_token_def)
    define s4 where "s4 = upd_seq s3 ?r (finish_update (\<lambda>_. finish_check q2 tok))"
    define s5 where "s5 = fire (upd_seq s4 ?r (\<lambda>q. q\<lparr>status := Finished, t_finish := now\<rparr>)) ?r (-1) (finish_check q2 tok)"
    have h1: "heap s1 ?r = ?q\<lparr>num_computed := int (num_tokens ?q), block_tab := bt\<rparr>" using s1(5) nc True by simp
    have os: "on_slice now sampled s k dn sl =
       (if finish_check q2 tok = Reason_None then Inr (s3, Suc k, dn)
        else if continuous (sc_cfg s4) then Inr (s4\<lparr>running := remove1 ?r (running s4)\<rparr>, Suc k, dn @ [?r])
        else Inr (s5, Suc k, dn))"
      unfolding s5_def
      by (rule on_slice_logits[OF True k[OF True] refl s1_def _ _ tok_def _ s3_def s4_def])
        (use live r s1(2) h1 in \<open>simp_all add: is_finished_def q2_def\<close>)
    have s4: "waiting s4 = waiting s" "running s4 = running s" "sc_cfg s4 = sc_cfg s" "sc_kv s4 = kv"
      "heap s4 = (heap s)(?r := q2\<lparr>finish := finish_check q2 tok\<rparr>)" using s3 by (simp_all add: s4_def)
    have s5: "waiting s5 = waiting s" "running s5 = running s" "sc_cfg s5 = sc_cfg s" "sc_kv s5 = kv"
      "heap s5 = (heap s)(?r := q2\<lparr>finish := finish_check q2 tok, status := Finished, t_finish := now\<rparr>)"
      using s4 by (simp_all add: s5_def)
    show ?thesis
    proof (cases "finish_check q2 tok = Reason_None")
      case fin: True
      have "run_ok (continuous (sc_cfg s)) ?bs (heap s3 ?r)" using q2ok(1)[OF com fin] s3 by simp
      then have "applying s3 dn"
        using applying_update[OF ap own[of s3], of ?r dn] s3 r adv(3) btab[OF q2b] by simp
      then show ?thesis using os fin True s3 adv(3) by simp
    next
      case fin: False
      show ?thesis
      proof (cases "continuous (sc_cfg s)")
        case cont: True
        let ?s = "s4\<lparr>running := remove1 ?r (running s4)\<rparr>"
        have "applying ?s (dn @ [?r])"
          using applying_update[OF ap own[of ?s], of ?r "dn @ [?r]"] s4 r adv(3) btab[of "q2\<lparr>finish := finish_check q2 tok\<rparr>"] q2b
          by simp
        then show ?thesis using os fin cont True s4 adv(3) by simp
      next
        case cont: False
        have "run_ok (continuous (sc_cfg s)) ?bs (heap s5 ?r)" using q2ok(2)[OF com cont] s5 by simp
        then have "applying s5 dn"
          using applying_update[OF ap own[of s5], of ?r dn] s5 r adv(3) q2b
            btab[of "q2\<lparr>finish := finish_check q2 tok, status := Finished, t_finish := now\<rparr>"] by simp
        then show ?thesis using os fin cont True s4 s5 adv(3) by simp
      qed
    qed
  qed
qed

subsection \<open>All slices\<close>

lemma slices_ok_tail:
  assumes ok: "slices_ok s (sl # sls)"
    and fr: "\<forall>p. p \<noteq> sl_seq sl \<longrightarrow> heap s1 p = heap s p \<and> (p \<in> set (running s1) \<longleftrightarrow> p \<in> set (running s))"
    and bs: "kv_block_size (sc_kv s1) = kv_block_size (sc_kv s)"
  shows "slices_ok s1 sls"
proof -
  have "slice_ok s1 sl'" if "sl' \<in> set sls" for sl'
  proof (rule slice_ok_frame)
    show "slice_ok s sl'" using that ok by (simp add: slices_ok_def)
    have "sl_seq sl' \<noteq> sl_seq sl" using that ok unfolding slices_ok_def
      by (metis distinct.simps(2) image_eqI list.simps(9) set_map)
    then show "heap s1 (sl_seq sl') = heap s (sl_seq sl')" "sl_seq sl' \<in> set (running s1)"
      using fr \<open>slice_ok s sl'\<close> by (auto simp: slice_ok_def Let_def)
  qed (rule bs)
  then show ?thesis using ok by (simp add: slices_ok_def)
qed

lemma on_slices_spec:
  assumes "applying s dn" "slices_ok s sls" "k + length (filter needs_logits sls) \<le> length sampled"
  shows "\<exists>s' dn'. on_slices now sampled s k dn sls = Inr (s', k + length (filter needs_logits sls), dn') \<and>
    applying s' dn' \<and> sc_cfg s' = sc_cfg s"
  using assms
proof (induction sls arbitrary: s k dn)
  case (Cons sl sls)
  have ok: "slice_ok s sl" using Cons.prems(2) by (simp add: slices_ok_def)
  have "needs_logits sl \<Longrightarrow> k < length sampled" using Cons.prems(3) by simp
  from on_slice_spec[OF Cons.prems(1) ok this, of now] obtain s1 dn1 where one:
    "on_slice now sampled s k dn sl = Inr (s1, (if needs_logits sl then Suc k else k), dn1)"
    "applying s1 dn1" "sc_cfg s1 = sc_cfg s" "kv_block_size (sc_kv s1) = kv_block_size (sc_kv s)"
    "\<forall>p. p \<noteq> sl_seq sl \<longrightarrow> heap s1 p = heap s p \<and> (p \<in> set (running s1) \<longleftrightarrow> p \<in> set (running s))" by blast
  have "slices_ok s1 sls" using slices_ok_tail[OF Cons.prems(2) one(5,4)] .
  from Cons.IH[OF one(2) this, of "if needs_logits sl then Suc k else k"] Cons.prems(3) one(1,3)
  show ?case by auto
qed simp

subsection \<open>Leaving\<close>

lemma applying_retire:
  assumes ap: "applying s (r # rs)"
  shows "applying (retire now s r reason) rs"
proof -
  let ?s = "retire now s r reason" and ?L = "waiting s @ running s @ r # rs"
  have own: "owners_inv s ?L" using ap by (simp add: applying_def)
  have d: "distinct ?L" by (rule applying_distinct[OF ap])
  have "owners_inv (free_seq s r) (waiting s @ running s @ rs)" by (rule owners_free(2)[OF own]) simp_all
  moreover have "owners_inv ?s (waiting s @ running s @ rs) \<longleftrightarrow> owners_inv (free_seq s r) (waiting s @ running s @ rs)"
    by (intro owners_inv_cong) (simp_all add: tabs_def)
  moreover have "seqs_inv ?s (waiting s) (running s) \<longleftrightarrow> seqs_inv s (waiting s) (running s)"
    using d by (intro seqs_inv_cong) auto
  ultimately show ?thesis using ap by (simp add: applying_def)
qed

lemma retire_done_spec:
  "applying s dn \<Longrightarrow> sched_inv (retire_done now s dn) \<and> sc_cfg (retire_done now s dn) = sc_cfg s"
proof (induction now s dn rule: retire_done.induct)
  case (2 now s r rs)
  then show ?case using applying_retire[of s r rs now] by simp
qed (simp add: applying_def sched_inv_def)

lemma free_members_spec:
  assumes "owners_inv s (W @ rs)"
  shows "owners_inv (free_members s rs) W \<and> sc_cfg (free_members s rs) = sc_cfg s \<and>
    waiting (free_members s rs) = waiting s \<and> (\<forall>p. p \<notin> set rs \<longrightarrow> heap (free_members s rs) p = heap s p)"
  using assms
proof (induction s rs rule: free_members.induct)
  case (2 s r rs)
  let ?g = "\<lambda>t. t\<lparr>finished := Suc (finished t)\<rparr>"
  have "owners_inv (free_seq s r) (W @ rs)" by (rule owners_free(2)[OF "2.prems"]) simp_all
  then have "owners_inv (upd_stats (free_seq s r) ?g) (W @ rs)"
    by (subst owners_inv_cong[of _ _ "free_seq s r"]) (simp_all add: tabs_def)
  then show ?case using "2.IH" by simp
qed simp

lemma drain_static_spec:
  assumes inv: "sched_inv s"
  shows "sched_inv (drain_static s) \<and> sc_cfg (drain_static s) = sc_cfg s"
proof (cases "drain_static s = s")
  case False
  let ?m = "free_members s (running s)"
  have dr: "drain_static s = ?m\<lparr>running := [], static_batch_open := True\<rparr>"
    using False by (auto simp: drain_static_def split: if_splits)
  have "owners_inv s (waiting s @ running s)" using inv by (simp add: sched_inv_def)
  note fm = free_members_spec[OF this]
  have "owners_inv (drain_static s) (waiting s)"
    using fm dr by (subst owners_inv_cong[of _ _ ?m]) (simp_all add: tabs_def)
  moreover have "seqs_inv (drain_static s) (waiting s) []"
    using fm dr sched_inv_D(1,3)[OF inv] by (auto simp: seqs_inv_def)
  ultimately show ?thesis using fm dr by (simp add: sched_inv_def)
qed (use inv in simp)

lemma on_step_done_spec:
  assumes inv: "sched_inv s" and ok: "step_ok s st" and n: "num_logits st \<le> int (length sampled)"
  shows "\<exists>s'. on_step_done now s st sampled = Inr s' \<and> sched_inv s' \<and> sc_cfg s' = sc_cfg s"
proof -
  have "applying s []" using inv by (simp add: applying_def sched_inv_def)
  moreover have "slices_ok s (slices st)" "0 + length (filter needs_logits (slices st)) \<le> length sampled"
    using ok n by (simp_all add: step_ok_def counters_ok_def)
  ultimately obtain s1 dn where "on_slices now sampled s 0 [] (slices st) =
      Inr (s1, 0 + length (filter needs_logits (slices st)), dn)" "applying s1 dn" "sc_cfg s1 = sc_cfg s"
    using on_slices_spec[of s "[]" "slices st" 0 sampled now] by blast
  then show ?thesis
    using retire_done_spec[of s1 dn now] drain_static_spec[of "retire_done now s1 dn"]
    by (auto simp: on_step_done_def)
qed

end
