(* ===== verification/Scheduler_Callbacks.thy ===== *)
theory Scheduler_Callbacks
  imports Scheduler_Done
begin

text \<open>
  The callback discipline of continuous batching: a sequence that leaves the scheduler gets
  exactly one terminal callback, at the moment it leaves. A terminal callback is recognised the
  way the engine's wrapper does, by its negative token; sampled tokens are vocabulary indices.
\<close>

subsection \<open>Terminal callbacks\<close>

definition terminals :: "sched \<Rightarrow> seq_ref list" where
  "terminals s = map cb_ref (filter (\<lambda>e. cb_token e < 0) (events s))"

text \<open>The log of callbacks only grows.\<close>

definition log_ext :: "sched \<Rightarrow> sched \<Rightarrow> bool" where
  "log_ext s s' \<longleftrightarrow> (\<exists>es. events s' = events s @ es)"

lemma log_ext_refl [simp]: "log_ext s s"
  by (simp add: log_ext_def)

lemma log_ext_trans: "log_ext s s1 \<Longrightarrow> log_ext s1 s2 \<Longrightarrow> log_ext s s2"
  by (auto simp: log_ext_def)

lemma log_ext_simps [simp]:
  "log_ext s (upd_seq u r f) = log_ext s u" "log_ext s (set_kv_table u r kv bt) = log_ext s u"
  "log_ext s (upd_stats u g) = log_ext s u" "log_ext s (free_seq u r) = log_ext s u"
  "log_ext s (u\<lparr>waiting := W\<rparr>) = log_ext s u" "log_ext s (u\<lparr>running := R\<rparr>) = log_ext s u"
  "log_ext s (preempt u r) = log_ext s u" "log_ext s (start_seq now u r kv bt c) = log_ext s u"
  "log_ext s (open_step u) = log_ext s u" "log_ext s (close_batch u b) = log_ext s u"
  "log_ext s u \<Longrightarrow> log_ext s (fire u r t reason)" "log_ext s u \<Longrightarrow> log_ext s (retire now u r reason)"
  by (auto simp: log_ext_def upd_seq_def set_kv_table_def upd_stats_def free_seq_def preempt_def retire_def
      start_seq_def fire_def open_step_def close_batch_def Let_def split: prod.split)

text \<open>
  From a state whose requests are \<open>L\<close> to one whose requests are \<open>L'\<close>: nobody joins, nobody is
  told twice, those who leave with a callback are told, and no other sequence is touched.
\<close>

definition hands :: "sched \<Rightarrow> seq_ref list \<Rightarrow> sched \<Rightarrow> seq_ref list \<Rightarrow> bool" where
  "hands s L s' L' \<longleftrightarrow> log_ext s s' \<and> set L' \<subseteq> set L \<and> (\<forall>p. on_token (heap s' p) = on_token (heap s p)) \<and>
     (\<forall>p. p \<notin> set L \<longrightarrow> heap s' p = heap s p) \<and>
     (\<exists>ts. terminals s' = terminals s @ ts \<and> distinct ts \<and> set ts \<subseteq> set L - set L' \<and>
        (\<forall>r\<in>set L - set L'. on_token (heap s r) \<longrightarrow> r \<in> set ts))"

lemma hands_trans:
  assumes "hands s L s1 L1" "hands s1 L1 s2 L2"
  shows "hands s L s2 L2"
proof -
  from assms obtain ts us where t: "terminals s1 = terminals s @ ts" "distinct ts" "set ts \<subseteq> set L - set L1"
    "\<forall>r\<in>set L - set L1. on_token (heap s r) \<longrightarrow> r \<in> set ts"
    "terminals s2 = terminals s1 @ us" "distinct us" "set us \<subseteq> set L1 - set L2"
    "\<forall>r\<in>set L1 - set L2. on_token (heap s1 r) \<longrightarrow> r \<in> set us" by (auto simp: hands_def)
  have "terminals s2 = terminals s @ (ts @ us)" "distinct (ts @ us)" "set (ts @ us) \<subseteq> set L - set L2"
    "\<forall>r\<in>set L - set L2. on_token (heap s r) \<longrightarrow> r \<in> set (ts @ us)"
    using t assms by (auto simp: hands_def)
  moreover have "log_ext s s2" using assms log_ext_trans unfolding hands_def by blast
  moreover have "\<forall>p. p \<notin> set L \<longrightarrow> heap s2 p = heap s p" "\<forall>p. on_token (heap s2 p) = on_token (heap s p)"
    "set L2 \<subseteq> set L" using assms by (auto simp: hands_def)
  ultimately show ?thesis unfolding hands_def by blast
qed

lemma hands_frame:
  assumes "terminals s' = terminals s" "set L' = set L" "\<And>p. on_token (heap s' p) = on_token (heap s p)"
    "log_ext s s'" "\<And>p. p \<notin> set L \<Longrightarrow> heap s' p = heap s p"
  shows "hands s L s' L'"
  using assms by (auto simp: hands_def)

lemma terminals_simps [simp]:
  "terminals (upd_seq s r f) = terminals s" "terminals (set_kv_table s r kv bt) = terminals s"
  "terminals (upd_stats s g) = terminals s" "terminals (free_seq s r) = terminals s"
  "terminals (s\<lparr>waiting := W\<rparr>) = terminals s" "terminals (s\<lparr>running := R\<rparr>) = terminals s"
  "terminals (preempt s r) = terminals s" "terminals (start_seq now s r kv bt c) = terminals s"
  "terminals (fire s r t reason) =
     (if on_token (heap s r) \<and> t < 0 then terminals s @ [r] else terminals s)"
  "terminals (open_step s) = terminals s" "terminals (close_batch s b) = terminals s"
  by (simp_all add: terminals_def upd_seq_def set_kv_table_def upd_stats_def free_seq_def preempt_def
      start_seq_def fire_def open_step_def close_batch_def Let_def split: prod.split)

lemma terminals_retire [simp]:
  "terminals (retire now s r reason) =
     (if on_token (heap s r) then terminals s @ [r] else terminals s)"
  by (simp add: retire_def Let_def)

lemma hands_retire:
  assumes "r \<in> set L" "r \<notin> set L'" "set L = insert r (set L')"
    "terminals s = terminals s0" "\<And>p. on_token (heap s p) = on_token (heap s0 p)" "log_ext s0 s"
    "\<And>p. p \<notin> set L \<Longrightarrow> heap s p = heap s0 p"
  shows "hands s0 L (retire now s r reason) L'"
  using assms by (auto simp: hands_def intro!: exI[of _ "if on_token (heap s r) then [r] else []"])

subsection \<open>schedule\<close>

definition members :: "sched \<Rightarrow> seq_ref list" where
  "members s = waiting s @ running s"

text \<open>Steps that move members around or touch bookkeeping only.\<close>

definition quiet :: "sched \<Rightarrow> sched \<Rightarrow> bool" where
  "quiet s s' \<longleftrightarrow> log_ext s s' \<and> terminals s' = terminals s \<and> mset (members s') = mset (members s) \<and>
     (\<forall>p. on_token (heap s' p) = on_token (heap s p)) \<and>
     (\<forall>p. p \<notin> set (members s) \<longrightarrow> heap s' p = heap s p)"

lemma quiet_refl [simp]: "quiet s s"
  by (simp add: quiet_def)

lemma quiet_trans: "quiet s s1 \<Longrightarrow> quiet s1 s2 \<Longrightarrow> quiet s s2"
  using log_ext_trans mset_eq_setD[of "members s1" "members s"] by (auto simp: quiet_def)

lemma quiet_hands: "quiet s s' \<Longrightarrow> hands s (members s) s' (members s')"
  by (rule hands_frame) (auto simp: quiet_def dest: mset_eq_setD)

lemma quiet_distinct: "quiet s s' \<Longrightarrow> distinct (members s) \<Longrightarrow> distinct (members s')"
  unfolding quiet_def by (metis mset_eq_imp_distinct_iff)

lemma quiet_simps [simp]:
  "r \<in> set (members s) \<Longrightarrow> quiet s (set_kv_table s r kv bt)" "quiet s (upd_stats s g)" "quiet s (open_step s)"
  "quiet s (close_batch s b)" "r \<in> set (members s) \<Longrightarrow> quiet s (start_seq now s r kv bt c)"
  by (auto simp: quiet_def members_def)

lemma place_decode_quiet:
  "place_decode s mid dec i = (s', mid', dec') \<Longrightarrow> \<forall>r\<in>set (running s). \<not> is_finished (heap s r) \<Longrightarrow>
   set dec \<subseteq> set (running s) \<Longrightarrow> distinct (running s) \<Longrightarrow> quiet s s'"
proof (induction s mid dec i rule: place_decode.induct)
  case (1 s mid dec i)
  show ?case
  proof (cases "i < length dec")
    case False
    then show ?thesis using "1.prems" by (simp add: place_decode.simps)
  next
    case True
    obtain ok kv bt where es: "ensure_slot (sc_kv s) (block_tab (heap s (dec ! i))) (num_tokens (heap s (dec ! i))) = (ok, kv, bt)"
      by (metis prod_cases3)
    let ?s = "set_kv_table s (dec ! i) kv bt"
    have live: "\<forall>r\<in>set (running ?s). \<not> is_finished (heap ?s r)" using "1.prems"(2) by (simp add: is_finished_def)
    have "dec ! i \<in> set (running s)" using True "1.prems"(3) nth_mem by blast
    then have q: "quiet s ?s" by (simp add: members_def)
    have sub: "set dec \<subseteq> set (running ?s)" "distinct (running ?s)" using "1.prems"(3,4) by simp_all
    show ?thesis
    proof (cases ok)
      case ok: True
      have "place_decode ?s mid dec (Suc i) = (s', mid', dec')"
        using "1.prems"(1) True es ok by (subst (asm) place_decode.simps) simp
      then show ?thesis using "1.IH"(1)[OF True refl es[symmetric]] ok live sub quiet_trans[OF q] by simp
    next
      case nok: False
      obtain b s1 mid1 dec1 where ev: "evict_for_memory ?s mid dec = (b, s1, mid1, dec1)" by (metis prod_cases4)
      show ?thesis
      proof (cases b)
        case b: True
        from ev[unfolded eqTrueI[OF b]] have s1: "quiet ?s s1 \<and> (\<forall>r\<in>set (running s1). \<not> is_finished (heap s1 r)) \<and>
            set dec1 \<subseteq> set (running s1) \<and> distinct (running s1)"
        proof (cases rule: evict_cases)
          case (finished_member us r vs)
          then show ?thesis using live by simp
        next
          case (youngest us r)
          then have "r \<notin> set us" using sub(2) by simp
          then show ?thesis using youngest sub by (auto simp: quiet_def members_def is_finished_def forget_def)
        qed
        have "place_decode s1 mid1 dec1 i = (s', mid', dec')"
          using "1.prems"(1) True es nok ev b by (subst (asm) place_decode.simps) simp
        then have "quiet s1 s'"
          using "1.IH"(2)[OF True refl es[symmetric] _ refl ev[symmetric] _ refl refl] nok b s1 by simp
        then show ?thesis using quiet_trans[OF q quiet_trans] s1 by blast
      next
        case b: False
        have less: "set (take i dec @ drop (Suc i) dec) \<subseteq> set (running s)"
          using "1.prems"(3) by (auto dest: in_set_takeD in_set_dropD)
        from b have s1: "s1 = ?s" using evict_fails[of ?s mid dec s1 mid1 dec1] ev by simp
        have "place_decode s1 mid (take i dec @ drop (Suc i) dec) i = (s', mid', dec')"
          using "1.prems"(1) True es nok ev b by (subst (asm) place_decode.simps) simp
        then have "quiet s1 s'"
          using "1.IH"(3)[OF True refl es[symmetric] _ refl ev[symmetric] _ refl refl] nok b s1 live sub less by simp
        then show ?thesis using quiet_trans[OF q] s1 by simp
      qed
    qed
  qed
qed

lemma count_wait_quiet: "set rs \<subseteq> set (members s) \<Longrightarrow> quiet s (count_wait s rs)"
proof (induction s rs rule: count_wait.induct)
  case (2 s r rs)
  have "quiet s (upd_seq s r (\<lambda>q. q\<lparr>wait_steps := wait_steps q + 1\<rparr>))"
    using "2.prems" by (auto simp: quiet_def members_def)
  from quiet_trans[OF this "2.IH"] "2.prems" show ?case by (simp add: members_def)
qed simp

lemma moved_quiet: "i < length (waiting s) \<Longrightarrow> r = waiting s ! i \<Longrightarrow> quiet s (moved_to_running s i r)"
proof -
  assume i: "i < length (waiting s)" "r = waiting s ! i"
  have "mset (waiting s) = mset (take i (waiting s) @ r # drop (Suc i) (waiting s))"
    using i id_take_nth_drop by metis
  moreover have "r \<in> set (waiting s)" using i by simp
  ultimately show ?thesis by (auto simp: quiet_def members_def moved_to_running_def)
qed

lemma admit_candidate_quiet:
  assumes "admit_candidate s st budget i r = (ok, s', st', b')" "i < length (waiting s)" "r = waiting s ! i"
  shows "quiet s s'"
proof -
  have "s' = s \<or> s' = moved_to_running s i r"
    using assms(1) by (auto simp: admit_candidate_def moved_to_running_def Let_def split: if_splits)
  then show ?thesis using moved_quiet[OF assms(2,3)] by auto
qed

lemma admit_loop_quiet:
  "admit_loop now s st budget i n = Inr (ok, s', st', b') \<Longrightarrow> i + n \<le> length (waiting s) \<Longrightarrow> quiet s s'"
proof (induction now s st budget i n rule: admit_loop.induct)
  case (2 now s st budget i n)
  let ?r = "waiting s ! i"
  show ?case
  proof (cases "bt_empty (block_tab (heap s ?r)) \<and> admission_fits s ?r")
    case False
    then show ?thesis using "2.prems" "2.IH"(1)[OF refl refl refl] admit_candidate_quiet[of s st budget i ?r]
      by (auto simp: Let_def split: if_splits)
  next
    case True
    obtain res where al: "allocate_prompt (sc_kv s) (block_tab (heap s ?r)) (tokens (heap s ?r)) = Some res"
      using "2.prems"(1) True by (auto simp: Let_def split: option.splits)
    obtain hit kv bt where res: "res = (hit, kv, bt)" by (metis prod_cases3)
    have rm: "?r \<in> set (members s)" using "2.prems"(2) by (simp add: members_def)
    show ?thesis
    proof (cases hit)
      case None
      let ?s = "set_kv_table s ?r kv bt"
      have q: "quiet s ?s" using rm by simp
      have "s' = ?s \<or> admit_loop now ?s st budget (Suc i) n = Inr (ok, s', st', b')"
        using "2.prems"(1) True al res None by (auto simp: Let_def split: if_splits)
      moreover have "wait_steps (heap s ?r) < starvation_wait_steps (sc_cfg s) \<Longrightarrow>
          admit_loop now ?s st budget (Suc i) n = Inr (ok, s', st', b') \<Longrightarrow> quiet ?s s'"
        using "2.IH"(2)[OF refl refl refl] True al res None "2.prems"(2) by simp
      ultimately show ?thesis
        using "2.prems"(1) True al res None quiet_trans[OF q] q by (auto simp: Let_def split: if_splits)
    next
      case (Some c)
      have "admit_candidate (start_seq now s ?r kv bt c) st budget i ?r = (ok, s', st', b')"
        using "2.prems"(1) True al res Some by (simp add: Let_def)
      then have "quiet (start_seq now s ?r kv bt c) s'" using "2.prems"(2) by (intro admit_candidate_quiet) auto
      then show ?thesis using quiet_trans[OF quiet_simps(5)[OF rm]] by blast
    qed
  qed
qed simp

lemma admit_all_quiet: "admit_all now s st b = Inr (s', st', b') \<Longrightarrow> quiet s s'"
proof (induction now s st b rule: admit_all.induct)
  case (1 now s st b)
  obtain ok s1 st1 b1 where one: "admit_one now s st b = Inr (ok, s1, st1, b1)"
    using "1.prems" by (subst (asm) admit_all.simps) (auto split: sum.splits prod.splits)
  have "waiting s \<noteq> [] \<Longrightarrow> 0 + admission_limit s \<le> length (waiting s)" by (auto simp: admission_limit_def Suc_le_eq)
  then have q: "quiet s s1" using one admit_loop_quiet[of now s st b 0 "admission_limit s" ok s1 st1 b1]
    by (auto simp: admit_one_def split: if_splits)
  show ?case
  proof (cases ok)
    case True
    then have "admit_all now s1 st1 b1 = Inr (s', st', b')" using one "1.prems" by (subst (asm) admit_all.simps) simp
    then show ?thesis using "1.IH"[OF one refl _ refl refl] True quiet_trans[OF q] by simp
  next
    case False
    then show ?thesis using one "1.prems" q by (subst (asm) admit_all.simps) simp
  qed
qed

lemma retire_expired_hands:
  assumes "distinct (rs @ members s)"
  shows "hands s (rs @ members s) (retire_expired now s rs) (members s)"
  using assms
proof (induction now s rs rule: retire_expired.induct)
  case (1 now s)
  show ?case by (rule hands_frame) simp_all
next
  case (2 now s r rs)
  let ?s1 = "retire now (upd_stats s (\<lambda>t. t\<lparr>timed_out := Suc (timed_out t)\<rparr>)) r Timeout"
  have m: "members ?s1 = members s" by (simp add: members_def)
  have h1: "hands s ((r # rs) @ members s) ?s1 (rs @ members s)"
    by (rule hands_retire) (use "2.prems" in auto)
  have h2: "hands ?s1 (rs @ members s) (retire_expired now ?s1 rs) (members s)"
    using "2.IH" "2.prems" m by simp
  from hands_trans[OF h1 h2] show ?case by simp
qed

lemma expire_waiting_hands:
  assumes "distinct (members s)"
  shows "hands s (members s) (expire_waiting now s) (members (expire_waiting now s))"
proof (cases "max_queue_wait_seconds (sc_cfg s) > 0 \<and> waiting s \<noteq> []")
  case False
  then have "expire_waiting now s = s" by (auto simp: expire_waiting_def)
  then show ?thesis by (simp add: hands_frame)
next
  case True
  let ?kept = "filter (\<lambda>r. \<not> waited_too_long now s r) (waiting s)" and ?ex = "filter (waited_too_long now s) (waiting s)"
  let ?s = "s\<lparr>waiting := ?kept\<rparr>"
  have ex: "expire_waiting now s = retire_expired now ?s ?ex" using True by (simp add: expire_waiting_def Let_def)
  have "waiting (retire_expired now u rs) = waiting u \<and> running (retire_expired now u rs) = running u" for u rs
    by (induction now u rs rule: retire_expired.induct) simp_all
  then have m: "members (expire_waiting now s) = members ?s" using ex by (simp add: members_def)
  have d: "distinct (?ex @ members ?s)" using assms by (auto simp: members_def)
  have h: "hands s (members s) ?s (?ex @ members ?s)" by (rule hands_frame) (auto simp: members_def)
  show ?thesis unfolding m unfolding ex by (rule hands_trans[OF h retire_expired_hands[OF d]])
qed

lemma reject_head_hands:
  assumes "distinct (members s)"
  shows "hands s (members s) (reject_head now s dec) (members (reject_head now s dec))"
proof (cases "reject_head now s dec = s")
  case True
  then show ?thesis by (simp add: hands_frame)
next
  case False
  then obtain r rest where w: "waiting s = r # rest" "reject_head now s dec = retire now (s\<lparr>waiting := rest\<rparr>) r Abort"
    by (auto simp: reject_head_def split: list.splits if_splits)
  have m: "members (retire now (s\<lparr>waiting := rest\<rparr>) r Abort) = rest @ running s" "members s = r # rest @ running s"
    using w(1) by (simp_all add: members_def)
  show ?thesis unfolding w(2) m by (rule hands_retire) (use assms m(2) in auto)
qed

lemma schedule_hands:
  assumes inv: "sched_inv s" and sane: "sane_cfg (sc_cfg s)" and cont: "continuous (sc_cfg s)"
    and sch: "schedule now s = Inr (s', st)"
  shows "hands s (members s) s' (members s')"
proof -
  let ?s0 = "open_step s"
  obtain s1 mid dec where pd: "place_decode ?s0 (split_mid ?s0) (split_decode ?s0) 0 = (s1, mid, dec)"
    by (metis prod_cases3)
  have inv0: "sched_inv ?s0" by (rule sched_inv_frame[OF inv]) simp_all
  have "\<not> is_finished (heap s r)" if "r \<in> set (running s)" for r
    using sched_inv_D(4)[OF inv that] cont by (auto simp: run_ok_def is_finished_def)
  moreover have "set (split_decode ?s0) \<subseteq> set (running ?s0)" "distinct (running ?s0)"
    using sched_inv_D(1)[OF inv] by (auto simp: split_decode_def)
  ultimately have q1: "quiet s s1" using place_decode_quiet[OF pd] quiet_trans[OF quiet_simps(3)] by simp
  have inv1: "sched_inv s1" using place_decode_spec[OF split_placing[OF inv0] _ _ pd] by (simp add: placing_def)
  have cfg1: "sc_cfg s1 = sc_cfg s" using place_decode_spec[OF split_placing[OF inv0] _ _ pd] by simp
  let ?s2 = "expire_waiting now s1"
  have h2: "hands s (members s) ?s2 (members ?s2)"
    using hands_trans[OF quiet_hands[OF q1] expire_waiting_hands] sched_inv_D(1)[OF inv1] by (simp add: members_def)
  obtain st0 b where bp: "build_prefill s1 empty_step (max_num_batched_tokens (sc_cfg s)) mid = (st0, b)" by fastforce
  obtain dec1 where tr: "trim_decode dec b = Inr dec1"
    using sch pd bp by (simp add: schedule_def Let_def split: sum.splits)
  obtain s3 st1 b1 where ad: "admit_all now (count_wait ?s2 (waiting ?s2)) st0 (b - int (length dec1)) = Inr (s3, st1, b1)"
    "s' = reject_head now (close_batch s3 b1) dec1"
    using sch pd bp tr cont by (auto simp: schedule_def Let_def admission_phase_def split: sum.splits)
  have q3: "quiet ?s2 (close_batch s3 b1)"
    using quiet_trans[OF count_wait_quiet quiet_trans[OF admit_all_quiet[OF ad(1)]]] by (simp add: members_def)
  have "distinct (members ?s2)"
    using expire_waiting_spec[OF inv1, of now] sched_inv_D(1)[of ?s2] by (simp add: members_def)
  then have "distinct (members (close_batch s3 b1))" by (rule quiet_distinct[OF q3])
  then show ?thesis using hands_trans[OF h2 hands_trans[OF quiet_hands[OF q3] reject_head_hands]] ad(2) by simp
qed

subsection \<open>on_step_done\<close>

lemma on_slice_hands:
  assumes ap: "applying s dn" and ok: "slice_ok s sl" and k: "needs_logits sl \<Longrightarrow> k < length sampled"
    and cont: "continuous (sc_cfg s)" and os: "on_slice now sampled s k dn sl = Inr (s', k', dn')"
    and nn: "\<forall>t\<in>set sampled. 0 \<le> t"
  shows "hands s (members s @ dn) s' (members s' @ dn')"
proof -
  let ?r = "sl_seq sl"
  define s1 where "s1 = advance s sl"
  obtain kv bt where adv: "s1 = set_kv_table (upd_seq s ?r (\<lambda>q. q\<lparr>num_computed := num_computed q + sl_len sl\<rparr>)) ?r kv bt"
    by (rule advance_spec[OF ap ok]) (unfold s1_def)
  have ext: "log_ext s s1" unfolding adv by simp
  have s1: "terminals s1 = terminals s" "waiting s1 = waiting s" "running s1 = running s" "sc_cfg s1 = sc_cfg s"
    "on_token (heap s1 p) = on_token (heap s p)" "p \<noteq> ?r \<Longrightarrow> heap s1 p = heap s p"
    "is_finished (heap s1 p) = is_finished (heap s p)" for p
    unfolding adv by (simp_all add: is_finished_def)
  have r: "?r \<in> set (running s)" "\<not> is_finished (heap s ?r)" using ok by (simp_all add: slice_ok_def Let_def)
  have dis: "distinct (waiting s @ running s @ dn)" by (rule applying_distinct[OF ap])
  have off: "p \<noteq> ?r" if "p \<notin> set (members s @ dn)" for p using that r(1) by (auto simp: members_def)
  show ?thesis
  proof (cases "needs_logits sl")
    case False
    then have "s' = s1" "dn' = dn" using os by (simp_all add: on_slice_def Let_def s1_def)
    then show ?thesis using s1(1-3,5,6) ext off by (intro hands_frame) (simp_all add: members_def)
  next
    case True
    define tok where "tok = sampled ! k"
    have tok: "0 \<le> tok" using nn k[OF True] by (simp add: tok_def)
    define q2 where "q2 = append_token now tok (heap s1 ?r)"
    define s3 where "s3 = (if stop_hit q2 tok then upd_seq s1 ?r (append_token now tok)
                           else fire (upd_seq s1 ?r (append_token now tok)) ?r tok Reason_None)"
    define s4 where "s4 = upd_seq s3 ?r (finish_update (\<lambda>_. finish_check q2 tok))"
    have s3: "terminals s3 = terminals s" "waiting s3 = waiting s" "running s3 = running s"
      "sc_cfg s3 = sc_cfg s" "heap s3 = (heap s1)(?r := q2)"
      using s1 tok by (simp_all add: s3_def q2_def)
    have ext3: "log_ext s s3" using ext by (simp add: s3_def)
    have q2: "on_token q2 = on_token (heap s ?r)"
      using s1(5) by (simp_all add: q2_def append_token_def)
    have "Inr (s', k', dn') = (if finish_check q2 tok = Reason_None then Inr (s3, Suc k, dn)
        else Inr (s4\<lparr>running := remove1 ?r (running s4)\<rparr>, Suc k, dn @ [?r]) :: (sched \<times> nat \<times> seq_ref list) result)"
      using on_slice_logits[OF True k[OF True] refl s1_def _ _ tok_def q2_def s3_def s4_def, of dn] os r s1 s3 cont
      by (simp add: s4_def split: if_splits)
    then consider "s' = s3" "dn' = dn" | "s' = s4\<lparr>running := remove1 ?r (running s)\<rparr>" "dn' = dn @ [?r]"
      "finish_check q2 tok \<noteq> Reason_None" using s3 by (auto simp: s4_def split: if_splits)
    then show ?thesis
    proof cases
      case 1
      have "on_token (heap s3 p) = on_token (heap s p)" for p using s1 s3 q2 by (cases "p = ?r") simp_all
      then show ?thesis unfolding 1 by (intro hands_frame) (use s3(1-3,5) s1(6) ext3 off in \<open>simp_all add: members_def\<close>)
    next
      case 2
      have h: "on_token (heap s4 p) = on_token (heap s p)" for p using s1 s3 q2 by (simp_all add: s4_def)
      have "set (remove1 ?r (running s)) = set (running s) - {?r}" using dis by simp
      then show ?thesis using 2 h s3(1,2,5) s1(6) r(1) ext3 off by (intro hands_frame) (auto simp: members_def s4_def)
    qed
  qed
qed

lemma on_slices_hands:
  assumes "applying s dn" "slices_ok s sls" "k + length (filter needs_logits sls) \<le> length sampled"
    "continuous (sc_cfg s)" "on_slices now sampled s k dn sls = Inr (s', k', dn')" "\<forall>t\<in>set sampled. 0 \<le> t"
  shows "hands s (members s @ dn) s' (members s' @ dn') \<and> applying s' dn' \<and> sc_cfg s' = sc_cfg s"
  using assms
proof (induction sls arbitrary: s k dn)
  case Nil
  then show ?case by (auto intro: hands_frame)
next
  case (Cons sl sls)
  have ok: "slice_ok s sl" using Cons.prems(2) by (simp add: slices_ok_def)
  have k: "needs_logits sl \<Longrightarrow> k < length sampled" using Cons.prems(3) by simp
  from on_slice_spec[OF Cons.prems(1) ok k, of now] obtain s1 dn1 where one:
    "on_slice now sampled s k dn sl = Inr (s1, (if needs_logits sl then Suc k else k), dn1)"
    "applying s1 dn1" "sc_cfg s1 = sc_cfg s" "kv_block_size (sc_kv s1) = kv_block_size (sc_kv s)"
    "\<forall>p. p \<noteq> sl_seq sl \<longrightarrow> heap s1 p = heap s p \<and> (p \<in> set (running s1) \<longleftrightarrow> p \<in> set (running s))" by blast
  have sok: "slices_ok s1 sls" using slices_ok_tail[OF Cons.prems(2) one(5,4)] .
  note h1 = on_slice_hands[OF Cons.prems(1) ok k Cons.prems(4) one(1) Cons.prems(6)]
  have "on_slices now sampled s1 (if needs_logits sl then Suc k else k) dn1 sls = Inr (s', k', dn')"
    using Cons.prems(5) one(1) by simp
  moreover have "(if needs_logits sl then Suc k else k) + length (filter needs_logits sls) \<le> length sampled"
    using Cons.prems(3) by auto
  ultimately have "hands s1 (members s1 @ dn1) s' (members s' @ dn') \<and> applying s' dn' \<and> sc_cfg s' = sc_cfg s1"
    using Cons.IH[OF one(2) sok] Cons.prems(4,6) one(3) by simp
  then show ?case using hands_trans h1 one(3) by auto
qed

lemma retire_done_hands:
  assumes "applying s dn"
  shows "hands s (members s @ dn) (retire_done now s dn) (members (retire_done now s dn))"
  using assms
proof (induction now s dn rule: retire_done.induct)
  case (1 now s)
  show ?case by (rule hands_frame) simp_all
next
  case (2 now s r rs)
  let ?s1 = "retire now s r (finish (heap s r))"
  have d: "distinct (members s @ r # rs)" using applying_distinct[OF "2.prems"] by (simp add: members_def)
  have m: "members ?s1 = members s" by (simp add: members_def)
  have "hands s (members s @ r # rs) ?s1 (members s @ rs)"
    by (rule hands_retire) (use d in auto)
  then show ?case using "2.IH"[OF applying_retire[OF "2.prems"]] m by (auto intro: hands_trans)
qed

lemma on_step_done_hands:
  assumes inv: "sched_inv s" and ok: "step_ok s st" and n: "num_logits st \<le> int (length sampled)"
    and cont: "continuous (sc_cfg s)" and os: "on_step_done now s st sampled = Inr s'"
    and nn: "\<forall>t\<in>set sampled. 0 \<le> t"
  shows "hands s (members s) s' (members s')"
proof -
  have ap: "applying s []" using inv by (simp add: applying_def sched_inv_def)
  obtain s1 k dn where sl: "on_slices now sampled s 0 [] (slices st) = Inr (s1, k, dn)"
    "s' = drain_static (retire_done now s1 dn)" using os by (auto simp: on_step_done_def split: sum.splits)
  have "slices_ok s (slices st)" "0 + length (filter needs_logits (slices st)) \<le> length sampled"
    using ok n by (simp_all add: step_ok_def counters_ok_def)
  note h = on_slices_hands[OF ap this cont sl(1) nn]
  have "sc_cfg (retire_done now s1 dn) = sc_cfg s" using h retire_done_spec[of s1 dn now] by simp
  then have "s' = retire_done now s1 dn" using cont sl(2) by (simp add: drain_static_def)
  then show ?thesis using h retire_done_hands[of s1 dn now] by (auto intro: hands_trans)
qed

lemma sched_abort_hands:
  assumes "distinct (members s)"
  shows "hands s (members s) (sched_abort now s i) (members (sched_abort now s i))"
proof (cases "find_erase (\<lambda>r. seq_id (heap s r) = i) (waiting s)")
  case (Some a)
  obtain r rest where a: "a = (r, rest)" by fastforce
  from find_erase_Some[OF Some[unfolded a]] obtain us vs where w1: "waiting s = us @ r # vs" "rest = us @ vs" by blast
  have w: "waiting s = us @ r # vs" "sched_abort now s i = retire now (s\<lparr>waiting := us @ vs\<rparr>) r Abort"
    using w1 Some a by (simp_all add: sched_abort_def)
  have m: "members (retire now (s\<lparr>waiting := us @ vs\<rparr>) r Abort) = us @ vs @ running s"
    "members s = us @ r # vs @ running s" using w(1) by (simp_all add: members_def)
  show ?thesis unfolding w(2) m by (rule hands_retire) (use assms m(2) in auto)
next
  case None
  note n = None
  show ?thesis
  proof (cases "find_erase (\<lambda>r. seq_id (heap s r) = i) (running s)")
    case None
    then have "sched_abort now s i = s" using n by (simp add: sched_abort_def)
    then show ?thesis by (simp add: hands_frame)
  next
    case (Some a)
    obtain r rest where a: "a = (r, rest)" by fastforce
    from find_erase_Some[OF Some[unfolded a]] obtain us vs where w1: "running s = us @ r # vs" "rest = us @ vs" by blast
    have w: "running s = us @ r # vs" "sched_abort now s i = retire now (s\<lparr>running := us @ vs\<rparr>) r Abort"
      using w1 Some a n by (simp_all add: sched_abort_def)
    have m: "members (retire now (s\<lparr>running := us @ vs\<rparr>) r Abort) = waiting s @ us @ vs"
      "members s = waiting s @ us @ r # vs" using w(1) by (simp_all add: members_def)
    show ?thesis unfolding w(2) m by (rule hands_retire) (use assms m(2) in auto)
  qed
qed

subsection \<open>At most once\<close>

definition told_once :: "sched \<Rightarrow> bool" where
  "told_once s \<longleftrightarrow> distinct (terminals s) \<and> set (terminals s) \<inter> set (members s) = {}"

lemma told_once_hands: "told_once s \<Longrightarrow> hands s (members s) s' (members s') \<Longrightarrow> told_once s'"
  by (auto simp: told_once_def hands_def) blast+

lemma hands_told:
  assumes "told_once s'" "hands s (members s) s' (members s')" "r \<in> set (members s)" "on_token (heap s r)"
  shows "r \<in> set (members s') \<or> count_list (terminals s') r = 1"
  using assms by (auto simp: told_once_def hands_def count_list_distinct)

end
