(* ===== verification/Scheduler_System.thy ===== *)
theory Scheduler_System
  imports Scheduler_Callbacks
begin

text \<open>
  The scheduler as a transition system: the calls the engine loop makes on it, in any order and
  with any sampled tokens and clock readings. A generic locale derives safety of every reachable
  state from preservation by the steps; its interpretation rests on the operation lemmas of
  \<open>Scheduler_Inv\<close>, \<open>Scheduler_Step\<close> and \<open>Scheduler_Done\<close>.
\<close>

subsection \<open>Safety of transition systems\<close>

inductive reachable :: "('s \<Rightarrow> bool) \<Rightarrow> ('s \<Rightarrow> 's \<Rightarrow> bool) \<Rightarrow> 's \<Rightarrow> bool" for init step where
  reach_init: "init s \<Longrightarrow> reachable init step s"
| reach_step: "reachable init step s \<Longrightarrow> step s s' \<Longrightarrow> reachable init step s'"

locale safe_system =
  fixes init :: "'s \<Rightarrow> bool" and step :: "'s \<Rightarrow> 's \<Rightarrow> bool" and good :: "'s \<Rightarrow> bool"
  assumes init_good: "init s \<Longrightarrow> good s"
    and step_good: "good s \<Longrightarrow> step s s' \<Longrightarrow> good s'"
begin

lemma reachable_good: "reachable init step s \<Longrightarrow> good s"
  by (induction rule: reachable.induct) (auto intro: init_good step_good)

end

subsection \<open>The calls of the engine loop\<close>

text \<open>A sequence as \<open>Engine::submit\<close> makes it, with a non-empty prompt.\<close>

definition fresh_seq :: "seq \<Rightarrow> bool" where
  "fresh_seq q \<longleftrightarrow> tokens q \<noteq> [] \<and> prompt_len q = int (length (tokens q)) \<and> block_tab q = empty_table \<and>
     num_computed q = 0"

inductive sched_step :: "sched \<Rightarrow> sched \<Rightarrow> bool" where
  step_add: "r \<notin> set (waiting s @ running s) \<union> set (terminals s) \<Longrightarrow> fresh_seq q \<Longrightarrow>
    sched_step s (sched_add now (s\<lparr>heap := (heap s)(r := q)\<rparr>) r)"
| step_abort: "sched_step s (sched_abort now s i)"
| step_idle: "schedule now s = Inr (s1, st) \<Longrightarrow> step_empty st \<Longrightarrow> sched_step s s1"
| step_iterate: "schedule now s = Inr (s1, st) \<Longrightarrow> \<not> step_empty st \<Longrightarrow>
    int (length sampled) = num_logits st \<Longrightarrow> \<forall>t\<in>set sampled. 0 \<le> t \<Longrightarrow> on_step_done now' s1 st sampled = Inr s2 \<Longrightarrow> sched_step s s2"

definition sched_start :: "sched_config \<Rightarrow> sched \<Rightarrow> bool" where
  "sched_start cfg s \<longleftrightarrow> sane_cfg cfg \<and> (\<exists>n bs pc kv h. kv_init n bs pc = Inr kv \<and> s = sched_init cfg kv h)"

definition sched_good :: "sched_config \<Rightarrow> sched \<Rightarrow> bool" where
  "sched_good cfg s \<longleftrightarrow> sane_cfg cfg \<and> sc_cfg s = cfg \<and> sched_inv s \<and> (continuous cfg \<longrightarrow> told_once s)"

text \<open>Every call but an addition only hands sequences over to their clients.\<close>

lemma sched_step_hands:
  assumes st: "sched_step s s'" and inv: "sched_inv s" "sane_cfg (sc_cfg s)" "continuous (sc_cfg s)"
  shows "hands s (members s) s' (members s') \<or>
    (\<exists>r q now. r \<notin> set (members s) \<union> set (terminals s) \<and> s' = sched_add now (s\<lparr>heap := (heap s)(r := q)\<rparr>) r)"
  using st
proof cases
  case (step_add r q now)
  then show ?thesis by (auto simp: members_def)
next
  case (step_abort now i)
  then show ?thesis using sched_abort_hands sched_inv_D(1)[OF inv(1)] by (auto simp: members_def)
next
  case (step_idle now st)
  then show ?thesis using schedule_hands[OF inv] by blast
next
  case (step_iterate now s1 st sampled now')
  have h: "hands s (members s) s1 (members s1)" using schedule_hands[OF inv step_iterate(1)] .
  have "sched_inv s1" "step_ok s1 st" "sc_cfg s1 = sc_cfg s"
    using schedule_spec[OF inv(1,2), of now] step_iterate(1) by auto
  then have "hands s1 (members s1) s' (members s')"
    using on_step_done_hands[of s1 st sampled now' s'] step_iterate inv(3) by simp
  then show ?thesis using hands_trans[OF h] by blast
qed

lemma sched_step_told:
  assumes "sched_step s s'" "sched_inv s" "sane_cfg (sc_cfg s)" "continuous (sc_cfg s)" "told_once s"
  shows "told_once s'"
  using sched_step_hands[OF assms(1-4)]
proof (elim disjE exE conjE)
  fix r q now
  assume r: "r \<notin> set (members s) \<union> set (terminals s)" and s': "s' = sched_add now (s\<lparr>heap := (heap s)(r := q)\<rparr>) r"
  have "terminals s' = terminals s" "set (members s') = insert r (set (members s))"
    unfolding s' by (simp_all add: sched_add_def members_def terminals_def upd_seq_def Let_def insert_commute)
  then show ?thesis using assms(5) r by (simp add: told_once_def)
qed (rule told_once_hands[OF assms(5)])

lemma sched_add_fresh:
  assumes inv: "sched_inv s" and r: "r \<notin> set (waiting s @ running s)" and q: "fresh_seq q"
  shows "sched_inv (sched_add now (s\<lparr>heap := (heap s)(r := q)\<rparr>) r)"
proof (rule sched_add_inv)
  show "sched_inv (s\<lparr>heap := (heap s)(r := q)\<rparr>)" by (rule sched_inv_frame[OF inv]) (use r in auto)
qed (use r q in \<open>simp_all add: fresh_seq_def num_generated_def gen_cap_def\<close>)

lemma sched_op_cfg [simp]: "sc_cfg (sched_add now s r) = sc_cfg s" "sc_cfg (sched_abort now s i) = sc_cfg s"
  by (simp_all add: sched_add_def sched_abort_def Let_def split: option.split prod.split)

interpretation scheduling: safe_system "sched_start cfg" sched_step "sched_good cfg"
proof unfold_locales
  fix s assume "sched_start cfg s"
  then obtain n bs pc kv h where i: "sane_cfg cfg" "kv_init n bs pc = Inr kv" "s = sched_init cfg kv h"
    by (auto simp: sched_start_def)
  have "kv_inv kv {#}" using kv_init_inv[OF i(2)] .
  then show "sched_good cfg s"
    using i by (simp add: sched_good_def sched_inv_def owners_inv_def seqs_inv_def sched_init_def
        told_once_def terminals_def)
next
  fix s s' assume g: "sched_good cfg s" and st: "sched_step s s'"
  then have inv: "sched_inv s" "sane_cfg (sc_cfg s)" "sc_cfg s = cfg" "sane_cfg cfg" by (auto simp: sched_good_def)
  have told: "continuous cfg \<longrightarrow> told_once s'"
    using sched_step_told[OF st inv(1,2)] g inv(3) by (auto simp: sched_good_def)
  show "sched_good cfg s'"
    using st
  proof cases
    case (step_add r q now)
    then show ?thesis using sched_add_fresh[OF inv(1), of r q now] inv told by (simp add: sched_good_def)
  next
    case (step_abort now i)
    then show ?thesis using sched_abort_inv[OF inv(1)] inv told by (simp add: sched_good_def)
  next
    case (step_idle now st)
    then show ?thesis using schedule_spec[OF inv(1,2), of now] inv told by (auto simp: sched_good_def)
  next
    case (step_iterate now s1 st sampled now')
    then have "sched_inv s1" "step_ok s1 st" "sc_cfg s1 = cfg" using schedule_spec[OF inv(1,2), of now] inv(3) by auto
    then show ?thesis using on_step_done_spec[of s1 st sampled now'] step_iterate inv told by (auto simp: sched_good_def)
  qed
qed

end
