(* ===== verification/Scheduler_Props.thy ===== *)
theory Scheduler_Props
  imports Scheduler_System
begin

text \<open>
  The scheduler's properties, over every state the engine loop can reach, and the behaviours of
  static batching that depart from them. The small system \<open>demo\<close> at the start (a pool of four
  blocks of two tokens, one request) is where the properties are exercised.
\<close>

subsection \<open>A small system\<close>

definition demo_cfg :: sched_config where
  "demo_cfg = default_sched_config\<lparr>max_num_batched_tokens := 8, prefill_chunk_size := 4\<rparr>"

definition demo_kv :: kv_cache where
  "demo_kv = (case kv_init 4 2 False of Inr kv \<Rightarrow> kv)"

definition demo_seq :: seq where
  "demo_seq = default_seq\<lparr>seq_id := 7, tokens := [1, 2, 3], prompt_len := 3, on_token := True,
     params := default_params\<lparr>max_tokens := 2\<rparr>\<rparr>"

definition demo0 :: sched where
  "demo0 = sched_init demo_cfg demo_kv (\<lambda>_. default_seq)"

definition demo1 :: sched where
  "demo1 = sched_add 1 (demo0\<lparr>heap := (heap demo0)(0 := demo_seq)\<rparr>) 0"

definition get :: "'a result \<Rightarrow> 'a" where
  "get x = (case x of Inr y \<Rightarrow> y)"

definition demo2 :: sched where
  "demo2 = fst (get (schedule 2 demo1))"

definition demo_step :: step_input where
  "demo_step = snd (get (schedule 2 demo1))"

definition demo3 :: sched where
  "demo3 = get (on_step_done 3 demo2 demo_step [11])"

lemma demo_init: "kv_init 4 2 False = Inr demo_kv"
  by (simp add: demo_kv_def kv_init_def)

lemma demo_reach1: "reachable (sched_start demo_cfg) sched_step demo1"
proof -
  have "sched_start demo_cfg demo0"
    unfolding sched_start_def demo0_def using demo_init
    by (intro conjI exI) (simp_all add: sane_cfg_def demo_cfg_def default_sched_config_def)
  moreover have "sched_step demo0 demo1"
    unfolding demo1_def
    by (rule sched_step.step_add)
      (simp_all add: demo0_def sched_init_def terminals_def fresh_seq_def demo_seq_def default_seq_def)
  ultimately show ?thesis by (blast intro: reachable.intros)
qed

lemma demo_schedule: "schedule 2 demo1 = Inr (demo2, demo_step)"
proof -
  have "isl (schedule 2 demo1) = False" by code_simp
  then show ?thesis by (cases "schedule 2 demo1") (auto simp: demo2_def demo_step_def get_def)
qed

lemma demo_done: "on_step_done 3 demo2 demo_step [11] = Inr demo3"
proof -
  have "isl (on_step_done 3 demo2 demo_step [11]) = False" by code_simp
  then show ?thesis by (cases "on_step_done 3 demo2 demo_step [11]") (auto simp: demo3_def get_def)
qed

lemma demo_reach3: "reachable (sched_start demo_cfg) sched_step demo3"
proof (rule reachable.reach_step[OF demo_reach1])
  have "\<not> step_empty demo_step \<and> int (length [11::int]) = num_logits demo_step" by code_simp
  then show "sched_step demo1 demo3" using sched_step.step_iterate[OF demo_schedule _ _ _ demo_done] by simp
qed

subsection \<open>Facts about reachable states\<close>

lemma reachable_inv:
  assumes "reachable (sched_start cfg) sched_step s"
  shows "sched_inv s" "sc_cfg s = cfg" "sane_cfg cfg" "continuous cfg \<Longrightarrow> told_once s"
  using scheduling.reachable_good[OF assms] by (simp_all add: sched_good_def)

lemma count_all_blocks:
  "count (all_blocks (image_mset f (mset rs))) b = (\<Sum>r\<leftarrow>rs. count (mset (blocks (f r))) b)"
  by (induction rs) simp_all

lemma set_all_blocks: "set_mset (all_blocks (image_mset f (mset rs))) = (\<Union>r\<in>set rs. set (blocks (f r)))"
  by (induction rs) auto

subsection \<open>Memory accounting\<close>

text \<open>C1: In every reachable state the reference count of each KV block is the number of times the
  block tables of the queued and resident sequences name it, and the blocks split into the free
  list, the cached list and the blocks some sequence owns: nothing leaks and nothing is counted
  twice.\<close>

theorem reachable_accounting:
  assumes "reachable (sched_start cfg) sched_step s"
  shows "(\<forall>b<kv_num_blocks (sc_kv s). kv_ref_count (sc_kv s) ! b =
       int (\<Sum>r\<leftarrow>members s. count (mset (blocks (block_tab (heap s r)))) b)) \<and>
    num_used_blocks (sc_kv s) = int (card (\<Union>r\<in>set (members s). set (blocks (block_tab (heap s r))))) \<and>
    set (kv_free (sc_kv s)) \<inter> set (kv_lru (sc_kv s)) = {}"
proof -
  let ?M = "all_blocks (image_mset (tabs s) (mset (members s)))" and ?n = "kv_num_blocks (sc_kv s)"
  have p: "pool_inv (sc_kv s) ?M"
    using sched_inv_D(2)[OF reachable_inv(1)[OF assms]] by (simp add: kv_inv_def members_def)
  have "{b. b < ?n \<and> b \<notin># ?M} = {..<?n} - set_mset ?M" by auto
  then have "num_available_blocks (sc_kv s) = ?n - card (set_mset ?M)"
    using pool_inv_available[OF p] pool_inv_bound[OF p] by (simp add: card_Diff_subset subsetI)
  moreover have "card (set_mset ?M) \<le> ?n" using pool_inv_bound[OF p] card_mono[of "{..<?n}" "set_mset ?M"] by auto
  ultimately have "num_used_blocks (sc_kv s) = int (card (set_mset ?M))" by (simp add: num_used_blocks_def)
  then show ?thesis
    using p pool_inv_ref[OF p] by (simp add: count_all_blocks set_all_blocks tabs_def pool_inv_def)
qed

theorem reachable_accounting_witness:
  "num_used_blocks (sc_kv demo3) = int (card (\<Union>r\<in>set (members demo3). set (blocks (block_tab (heap demo3 r))))) \<and>
   num_used_blocks (sc_kv demo3) = 2"
proof -
  have "num_used_blocks (sc_kv demo3) = 2" by code_simp
  then show ?thesis using reachable_accounting[OF demo_reach3] by simp
qed

subsection \<open>Steps\<close>

text \<open>C2: From every reachable state \<open>schedule\<close> succeeds, and the step it returns is well formed: each
  slice is the next uncomputed piece of a distinct, live, resident sequence whose blocks cover all
  its tokens; logits are asked for exactly where the last token is computed; prefill slices come
  before decode slices; the counters are the sums over the slices; the token budget is kept; and
  the resident list grows to \<open>max_num_seqs\<close> at most.\<close>

theorem schedule_well_formed:
  assumes "reachable (sched_start cfg) sched_step s"
  shows "\<exists>s' st. schedule now s = Inr (s', st) \<and> step_ok s' st \<and>
    int (length (running s')) \<le> max (int (length (running s))) (max_num_seqs cfg)"
  using schedule_spec[OF reachable_inv(1)[OF assms], of now] reachable_inv(2,3)[OF assms] by auto

theorem schedule_well_formed_witness:
  "schedule 2 demo1 = Inr (demo2, demo_step) \<and> step_ok demo2 demo_step \<and>
   map (\<lambda>sl. (sl_seq sl, sl_start sl, sl_len sl, needs_logits sl)) (slices demo_step) = [(0, 0, 3, True)]"
proof -
  have "map (\<lambda>sl. (sl_seq sl, sl_start sl, sl_len sl, needs_logits sl)) (slices demo_step) = [(0, 0, 3, True)]"
    by code_simp
  then show ?thesis using schedule_well_formed[OF demo_reach1, of 2] demo_schedule by simp
qed



text \<open>C6: Continuous batching makes progress: with a positive token budget and any work at all,
  \<open>schedule\<close> either hands the model at least one slice or releases at least one request.\<close>

theorem schedule_progress:
  assumes "reachable (sched_start cfg) sched_step s" "continuous cfg" "1 \<le> max_num_batched_tokens cfg" "has_work s"
  shows "\<exists>s' st. schedule now s = Inr (s', st) \<and> (\<not> step_empty st \<or> load s' < load s)"
  using schedule_spec[OF reachable_inv(1)[OF assms(1)], of now] reachable_inv(2,3)[OF assms(1)] assms(2-4) by auto

theorem schedule_progress_witness:
  "\<exists>s' st. schedule 2 demo1 = Inr (s', st) \<and> (\<not> step_empty st \<or> load s' < load demo1)"
proof (rule schedule_progress[OF demo_reach1])
  show "continuous demo_cfg" "1 \<le> max_num_batched_tokens demo_cfg" "has_work demo1" by code_simp+
qed



text \<open>C11: Continuous batching tells every client exactly once: after any call the engine loop makes, a
  request that was held and has a callback is either still held or has had exactly one terminal
  callback (the one with token \<open>-1\<close>) in the whole run.\<close>

theorem told_exactly_once:
  assumes "reachable (sched_start cfg) sched_step s" "continuous cfg" "sched_step s s'"
    "r \<in> set (members s)" "on_token (heap s r)"
  shows "r \<in> set (members s') \<or> count_list (terminals s') r = 1"
proof -
  have r': "reachable (sched_start cfg) sched_step s'" using assms(1,3) by (rule reachable.reach_step)
  have told: "told_once s'" by (rule reachable_inv(4)[OF r' assms(2)])
  have "hands s (members s) s' (members s') \<or>
    (\<exists>r q now. r \<notin> set (members s) \<union> set (terminals s) \<and> s' = sched_add now (s\<lparr>heap := (heap s)(r := q)\<rparr>) r)"
    using sched_step_hands[OF assms(3) reachable_inv(1)[OF assms(1)]] reachable_inv(2,3)[OF assms(1)] assms(2) by simp
  then show ?thesis
  proof
    assume "hands s (members s) s' (members s')"
    then show ?thesis using hands_told[OF told _ assms(4,5)] by blast
  next
    assume "\<exists>r q now. r \<notin> set (members s) \<union> set (terminals s) \<and> s' = sched_add now (s\<lparr>heap := (heap s)(r := q)\<rparr>) r"
    then show ?thesis using assms(4) by (auto simp: members_def sched_add_def Let_def)
  qed
qed

theorem told_exactly_once_witness:
  "0 \<in> set (members (sched_abort 9 demo3 7)) \<or> count_list (terminals (sched_abort 9 demo3 7)) 0 = 1"
proof (rule told_exactly_once[OF demo_reach3 _ sched_step.step_abort])
  show "continuous demo_cfg" "0 \<in> set (members demo3)" "on_token (heap demo3 0)" by code_simp+
qed

subsection \<open>Where a step writes\<close>

definition in_slice :: "step_slice \<Rightarrow> nat \<Rightarrow> bool" where
  "in_slice sl p \<longleftrightarrow> sl_start sl \<le> int p \<and> int p < sl_start sl + sl_len sl"

definition fully_cached :: "sched \<Rightarrow> seq_ref \<Rightarrow> bool" where
  "fully_cached s r \<longleftrightarrow> num_committed (block_tab (heap s r)) * kv_block_size (sc_kv s) = num_tokens (heap s r)"

lemma block_index_bound: "0 < bs \<Longrightarrow> p < n \<Longrightarrow> p div bs < blocks_needed n bs"
  using blocks_needed_covers[of bs n] by (simp add: less_mult_imp_div_less)

lemma slice_block:
  assumes inv: "sched_inv s" and ok: "slice_ok s sl" and p: "in_slice sl p"
  defines "t \<equiv> block_tab (heap s (sl_seq sl))" and "bs \<equiv> kv_block_size (sc_kv s)"
  shows "p div bs < length (blocks t)"
    "count (all_blocks (image_mset (tabs s) (mset (members s)))) (blocks t ! (p div bs)) = 1 \<or>
     fully_cached s (sl_seq sl) \<and> p = num_tokens (heap s (sl_seq sl)) - 1"
proof -
  let ?q = "heap s (sl_seq sl)"
  let ?M = "all_blocks (image_mset (tabs s) (mset (members s)))"
  have k: "kv_inv (sc_kv s) (image_mset (tabs s) (mset (members s)))" using sched_inv_D(2)[OF inv] by (simp add: members_def)
  have bs: "0 < bs" using kv_inv_bs[OF k] by (simp add: bs_def)
  have sl: "sl_seq sl \<in> set (running s)" "num_computed ?q \<le> int p" "p < num_tokens ?q"
    "length (blocks t) = blocks_needed (num_tokens ?q) bs"
    using ok p by (auto simp: slice_ok_def slot_ready_def in_slice_def bt_num_blocks_def t_def bs_def Let_def)
  show len: "p div bs < length (blocks t)" using sl(3,4) block_index_bound[OF bs] by simp
  have "t \<in># image_mset (tabs s) (mset (members s))" using sl(1) by (auto simp: t_def tabs_def members_def)
  then have tok: "table_ok (sc_kv s) ?M t" using k unfolding kv_inv_def by blast
  have "committed_ok bs ?q" using sched_inv_D(4)[OF inv sl(1)] by (simp add: run_ok_def bs_def)
  then consider "num_committed t * bs \<le> p" | "num_committed t * bs = num_tokens ?q" "p = num_tokens ?q - 1"
    using sl(2,3) by (fastforce simp: committed_ok_def t_def simp del: of_nat_mult)
  then show "count ?M (blocks t ! (p div bs)) = 1 \<or> fully_cached s (sl_seq sl) \<and> p = num_tokens ?q - 1"
  proof cases
    case 1
    then have "num_committed t \<le> p div bs" using bs by (simp add: less_eq_div_iff_mult_less_eq)
    then have "blocks t ! (p div bs) \<in> set (drop (num_committed t) (blocks t))"
      using len by (auto simp: in_set_conv_nth intro!: exI[of _ "p div bs - num_committed t"])
    then have "kv_block_hash (sc_kv s) ! (blocks t ! (p div bs)) = 0" using tok unfolding table_ok_def by blast
    then have "count ?M (blocks t ! (p div bs)) = 1" using tok len unfolding table_ok_def by (meson nth_mem)
    then show ?thesis by simp
  qed (simp add: fully_cached_def t_def bs_def)
qed

lemma count_two_owners:
  assumes "distinct rs" "r \<in> set rs" "r' \<in> set rs" "r \<noteq> r'" "b \<in> set (blocks (f r))" "b \<in> set (blocks (f r'))"
  shows "2 \<le> count (all_blocks (image_mset f (mset rs))) b"
proof -
  have "{r, r'} \<subseteq> set rs" using assms by auto
  then have "(\<Sum>x\<in>{r, r'}. count (mset (blocks (f x))) b) \<le> (\<Sum>x\<in>set rs. count (mset (blocks (f x))) b)"
    by (intro sum_mono2) auto
  moreover have "1 \<le> count (mset (blocks (f r))) b" "1 \<le> count (mset (blocks (f r'))) b"
    using assms(5,6) by (simp_all add: Suc_le_eq)
  moreover have "(\<Sum>x\<in>{r, r'}. count (mset (blocks (f x))) b) =
      count (mset (blocks (f r))) b + count (mset (blocks (f r'))) b" using assms(4) by simp
  ultimately have "2 \<le> (\<Sum>x\<in>set rs. count (mset (blocks (f x))) b)" by linarith
  then show ?thesis using assms(1) by (simp add: count_all_blocks sum_list_distinct_conv_sum_set)
qed

text \<open>C12: Copy-free sharing is safe: every position a step computes has a block, and that block is
  referenced by exactly one block table, so no sequence writes K/V that another one reads. The one
  exception is a prompt served completely from the cache, whose last position is computed again
  into the shared block that already holds it.\<close>

theorem writes_exclusive:
  assumes "reachable (sched_start cfg) sched_step s" "schedule now s = Inr (s', st)" "sl \<in> set (slices st)"
    "in_slice sl p"
  shows "p div kv_block_size (sc_kv s') < bt_num_blocks (block_tab (heap s' (sl_seq sl))) \<and>
    (kv_ref_count (sc_kv s') ! (blocks (block_tab (heap s' (sl_seq sl))) ! (p div kv_block_size (sc_kv s'))) = 1 \<or>
     fully_cached s' (sl_seq sl) \<and> p = num_tokens (heap s' (sl_seq sl)) - 1)"
proof -
  let ?b = "blocks (block_tab (heap s' (sl_seq sl))) ! (p div kv_block_size (sc_kv s'))"
  let ?M = "all_blocks (image_mset (tabs s') (mset (members s')))"
  have i: "sched_inv s'" "step_ok s' st"
    using schedule_spec[OF reachable_inv(1)[OF assms(1)], of now] reachable_inv(2,3)[OF assms(1)] assms(2) by auto
  have ok: "slice_ok s' sl" using i(2) assms(3) by (simp add: step_ok_def slices_ok_def)
  note sb = slice_block[OF i(1) ok assms(4)]
  have p: "pool_inv (sc_kv s') ?M" using sched_inv_D(2)[OF i(1)] by (simp add: kv_inv_def members_def)
  have "kv_ref_count (sc_kv s') ! ?b = 1" if "count ?M ?b = 1"
  proof -
    have "?b \<in># ?M" using that by (metis count_eq_zero_iff zero_neq_one)
    then show ?thesis using pool_inv_ref[OF p pool_inv_bound[OF p]] that by simp
  qed
  then show ?thesis using sb by (auto simp: bt_num_blocks_def)
qed

theorem writes_exclusive_witness:
  "kv_ref_count (sc_kv demo2) ! (blocks (block_tab (heap demo2 0)) ! (2 div kv_block_size (sc_kv demo2))) = 1"
proof -
  have sl: "hd (slices demo_step) \<in> set (slices demo_step)" "in_slice (hd (slices demo_step)) 2"
    "sl_seq (hd (slices demo_step)) = 0" "\<not> fully_cached demo2 0" by code_simp+
  show ?thesis using writes_exclusive[OF demo_reach1 demo_schedule sl(1,2)] sl(3,4) by simp
qed

text \<open>A position a step computes has a slot that no other position of any member has.\<close>

lemma written_slot_apart:
  assumes inv: "sched_inv s" and ok: "slice_ok s sl" and p: "in_slice sl p" "\<not> fully_cached s (sl_seq sl)"
    and r: "r \<in> set (members s)" "p' div kv_block_size (sc_kv s) < length (blocks (block_tab (heap s r)))"
    and ne: "(sl_seq sl, p) \<noteq> (r, p')"
  shows "slot (block_tab (heap s (sl_seq sl))) p (kv_block_size (sc_kv s)) \<noteq>
    slot (block_tab (heap s r)) p' (kv_block_size (sc_kv s))"
proof
  let ?bs = "kv_block_size (sc_kv s)" and ?t = "block_tab (heap s (sl_seq sl))" and ?t' = "block_tab (heap s r)"
  let ?M = "all_blocks (image_mset (tabs s) (mset (members s)))"
  assume eq: "slot ?t p ?bs = slot ?t' p' ?bs"
  have bs: "0 < ?bs" using kv_inv_bs[OF sched_inv_D(2)[OF inv]] .
  have b: "blocks ?t ! (p div ?bs) = blocks ?t' ! (p' div ?bs)" and m: "p mod ?bs = p' mod ?bs"
    using block_offset_eq[OF eq[unfolded slot_def] bs] by simp_all
  have one: "count ?M (blocks ?t ! (p div ?bs)) = 1" using slice_block(2)[OF inv ok p(1)] p(2) by blast
  have len: "p div ?bs < length (blocks ?t)" using slice_block(1)[OF inv ok p(1)] .
  have mem: "sl_seq sl \<in> set (members s)" "distinct (members s)"
    using ok sched_inv_D(1)[OF inv] by (simp_all add: slice_ok_def members_def Let_def)
  show False
  proof (cases "sl_seq sl = r")
    case True
    have "count (mset (blocks ?t)) (blocks ?t ! (p div ?bs)) \<le> count ?M (blocks ?t ! (p div ?bs))"
      using mem(1) by (simp add: count_all_blocks tabs_def member_le_sum_list)
    then have "count (mset (blocks ?t)) (blocks ?t ! (p div ?bs)) = 1"
      using one count_mset_nth_pos[OF len] by linarith
    then have "p' div ?bs = p div ?bs" using count_one_nth_inj[of "blocks ?t"] len r(2) b True by metis
    then have "p = p'" using m by (metis div_mod_decomp)
    then show False using ne True by simp
  next
    case False
    have "blocks ?t ! (p div ?bs) \<in> set (blocks ?t)" "blocks ?t ! (p div ?bs) \<in> set (blocks ?t')"
      using nth_mem[OF len] nth_mem[OF r(2)] b by simp_all
    then have "2 \<le> count ?M (blocks ?t ! (p div ?bs))"
      using count_two_owners[OF mem(2,1) r(1) False, of "blocks ?t ! (p div ?bs)" "tabs s"] by (simp add: tabs_def)
    then show False using one by simp
  qed
qed



subsection \<open>Waste\<close>

lemma run_ok_slots:
  assumes "run_ok cont bs q" "0 < bs"
  shows "num_tokens q \<le> Suc (bt_num_blocks (block_tab q) * bs)" "bt_num_blocks (block_tab q) * bs \<le> num_tokens q + (bs - 1)"
proof -
  have n: "num_tokens q \<noteq> 0" using assms(1) by (simp add: run_ok_def num_tokens_def)
  have b: "bt_num_blocks (block_tab q) = blocks_needed (num_tokens q) bs \<or>
      bt_num_blocks (block_tab q) = blocks_needed (num_tokens q - 1) bs"
    using assms(1) by (auto simp: run_ok_def blocks_ok_def)
  note c = blocks_needed_covers[OF assms(2)] blocks_needed_tight[OF assms(2)]
  show "num_tokens q \<le> Suc (bt_num_blocks (block_tab q) * bs)" using b c(1)[of "num_tokens q"] c(1)[of "num_tokens q - 1"] by auto
  show "bt_num_blocks (block_tab q) * bs \<le> num_tokens q + (bs - 1)"
    using b c(2)[of "num_tokens q"] c(2)[of "num_tokens q - 1"] n assms(2) by auto
qed

lemma sum_list_bounds:
  fixes f g :: "'a \<Rightarrow> nat"
  shows "(\<And>x. x \<in> set xs \<Longrightarrow> f x \<le> g x + c) \<Longrightarrow> sum_list (map f xs) \<le> sum_list (map g xs) + length xs * c"
  by (induction xs) (auto simp: add_mono algebra_simps intro: order_trans[OF add_mono])

text \<open>C14: Paging wastes less than one block per resident sequence: the slots of the blocks a sequence
  holds exceed its tokens by at most \<open>block_size - 1\<close>; in the other direction a sequence can be one
  token ahead of its slots, between a sampled token and the slot the next \<open>schedule\<close> takes for it.\<close>

theorem waste_bounded:
  assumes "reachable (sched_start cfg) sched_step s"
  shows "kv_allocated_slots s \<le> kv_used_slots s + length (running s) * (kv_block_size (sc_kv s) - 1) \<and>
    kv_used_slots s \<le> kv_allocated_slots s + length (running s)"
proof -
  have inv: "sched_inv s" by (rule reachable_inv(1)[OF assms])
  have bs: "0 < kv_block_size (sc_kv s)" using kv_inv_bs[OF sched_inv_D(2)[OF inv]] .
  note r = run_ok_slots[OF sched_inv_D(4)[OF inv] bs]
  show ?thesis
    unfolding kv_allocated_slots_def kv_used_slots_def
    using sum_list_bounds[of "running s" _ _ "kv_block_size (sc_kv s) - 1", OF r(2)]
      sum_list_bounds[of "running s" "\<lambda>r. num_tokens (heap s r)" _ 1] r(1) by simp
qed

theorem waste_bounded_witness:
  "kv_allocated_slots demo3 \<le> kv_used_slots demo3 + length (running demo3) * (kv_block_size (sc_kv demo3) - 1) \<and>
   kv_allocated_slots demo3 = 4 \<and> kv_used_slots demo3 = 4"
proof -
  have "kv_allocated_slots demo3 = 4" "kv_used_slots demo3 = 4" by code_simp+
  then show ?thesis using waste_bounded[OF demo_reach3] by blast
qed

text \<open>The waste gauge can be negative: after the second sampled token of the small system its
  sequence has five tokens in the four slots of its two blocks, and \<open>kv_waste_fraction\<close> reports
  \<open>-1/4\<close>, although it is documented as a fraction of the allocated slots.\<close>

definition demo_long :: sched where
  "demo_long = sched_add 1 (demo0\<lparr>heap := (heap demo0)(0 := demo_seq\<lparr>params := default_params\<rparr>)\<rparr>) 0"

definition iterate :: "time_point \<Rightarrow> token list \<Rightarrow> sched \<Rightarrow> sched" where
  "iterate now sampled s =
     (case get (schedule now s) of (s1, st) \<Rightarrow> if step_empty st then s1 else get (on_step_done now s1 st sampled))"

theorem waste_gauge_negative:
  "kv_waste_fraction (iterate 3 [12] (iterate 2 [11] demo_long)) = - 1 / 4"
  by code_simp

subsection \<open>Static batching\<close>

text \<open>
  A closed static batch whose members are all finished. \<open>on_step_done\<close> drains such a batch, but an
  abort can produce one outside of it.
\<close>

definition static_stuck :: "sched \<Rightarrow> bool" where
  "static_stuck s \<longleftrightarrow> \<not> continuous (sc_cfg s) \<and> \<not> static_batch_open s \<and> running s \<noteq> [] \<and>
     list_all (\<lambda>r. is_finished (heap s r)) (running s) \<and> max_queue_wait_seconds (sc_cfg s) \<le> 0 \<and>
     0 \<le> max_num_batched_tokens (sc_cfg s)"

definition static_cfg :: sched_config where
  "static_cfg = demo_cfg\<lparr>continuous := False, max_num_seqs := 2\<rparr>"

definition static_seq :: "nat \<Rightarrow> int \<Rightarrow> seq" where
  "static_seq i cap = demo_seq\<lparr>seq_id := i, tokens := [int i], prompt_len := 1,
     params := default_params\<lparr>max_tokens := cap\<rparr>\<rparr>"

definition static0 :: sched where
  "static0 = sched_init static_cfg demo_kv (\<lambda>_. default_seq)"

definition submit_to :: "sched \<Rightarrow> seq_ref \<Rightarrow> seq \<Rightarrow> sched" where
  "submit_to s r q = sched_add 1 (s\<lparr>heap := (heap s)(r := q)\<rparr>) r"

text \<open>Three requests for two places; after one iteration the first has reached its cap of one token.\<close>

definition static1 :: sched where
  "static1 = iterate 2 [11, 12]
     (submit_to (submit_to (submit_to static0 0 (static_seq 0 1)) 1 (static_seq 1 5)) 2 (static_seq 2 5))"

text \<open>Static batching can stall for good: in a closed batch whose members have all finished, every
  call of \<open>schedule\<close> returns an empty step, admits nobody and leaves the batch closed, so the
  queue is never served again. Aborting the last live member of a closed batch leads there, because
  a finished batch is only drained by \<open>on_step_done\<close>, which is not called for an empty step.\<close>

theorem static_batch_stalls:
  assumes "static_stuck s" "schedule now s = Inr (s', st)"
  shows "step_empty st \<and> static_stuck s' \<and> waiting s' = waiting s \<and> running s' = running s"
proof -
  have "split_mid (open_step s) = []" "split_decode (open_step s) = []"
    using assms(1) by (auto simp: static_stuck_def split_mid_def split_decode_def list_all_iff filter_empty_conv)
  moreover have o: "open_step s = upd_stats s (\<lambda>t. t\<lparr>steps := Suc (steps t)\<rparr>)"
    using assms(1) by (simp add: static_stuck_def open_step_def Let_def)
  ultimately have "schedule now s = Inr (upd_stats s (\<lambda>t. t\<lparr>steps := Suc (steps t)\<rparr>), empty_step)"
    using assms(1) by (simp add: schedule_def Let_def place_decode.simps trim_decode_def expire_waiting_def static_stuck_def)
  then show ?thesis using assms by (simp add: static_stuck_def step_empty_def empty_step_def)
qed

theorem static_batch_stalls_witness:
  "(let s = sched_abort 3 static1 1 in static_stuck s \<and> waiting s = [2] \<and>
     (\<exists>s' st. schedule 4 s = Inr (s', st) \<and> step_empty st \<and> static_stuck s' \<and> waiting s' = [2]))"
proof -
  let ?s = "sched_abort 3 static1 1"
  have h: "static_stuck ?s" "waiting ?s = [2]" "isl (schedule 4 ?s) = False" by code_simp+
  then obtain s' st where "schedule 4 ?s = Inr (s', st)" by (cases "schedule 4 ?s") auto
  then show ?thesis using static_batch_stalls[OF h(1)] h(1,2) by (auto simp: Let_def)
qed

text \<open>Static batching can tell a client twice: aborting a member that has finished but is still
  resident, as the engine does for every resident sequence when it stops, fires a second terminal
  callback for it.\<close>

theorem static_abort_tells_again:
  assumes "find_erase (\<lambda>p. seq_id (heap s p) = i) (waiting s) = None"
    "find_erase (\<lambda>p. seq_id (heap s p) = i) (running s) = Some (r, rest)" "on_token (heap s r)"
  shows "terminals (sched_abort now s i) = terminals s @ [r]"
  using assms by (simp add: sched_abort_def)

theorem static_abort_tells_again_witness:
  "terminals static1 = [0] \<and> terminals (sched_abort 3 static1 0) = [0, 0]"
proof -
  have t: "terminals static1 = [0]" "find_erase (\<lambda>p. seq_id (heap static1 p) = 0) (waiting static1) = None"
    "find_erase (\<lambda>p. seq_id (heap static1 p) = 0) (running static1) = Some (0, [1])" "on_token (heap static1 0)"
    by code_simp+
  then show ?thesis using static_abort_tells_again[OF t(2,3,4)] by simp
qed

end
