(* ===== verification/Decimal.thy ===== *)
theory Decimal
  imports Engine_Prelude
begin

text \<open>
  Decimal numbers as text: what \<open>std::to_string\<close> and a stream write for an integer, and what
  \<open>std::stoi\<close>, \<open>std::stoull\<close> and \<open>atoi\<close> read.
\<close>

subsection \<open>Writing\<close>

fun digits_of :: "nat \<Rightarrow> string" where
  "digits_of n = (if n < 10 then [char_of (48 + n)] else digits_of (n div 10) @ [char_of (48 + n mod 10)])"

declare digits_of.simps [simp del]

definition dec_int :: "int \<Rightarrow> string" where
  "dec_int i = (if i < 0 then CHR ''-'' # digits_of (nat (- i)) else digits_of (nat i))"

subsection \<open>Reading\<close>

definition is_blank :: "char \<Rightarrow> bool" where
  "is_blank c \<longleftrightarrow> c \<in> set [CHR 0x20, CHR 0x09, CHR 0x0A, CHR 0x0B, CHR 0x0C, CHR 0x0D]"

definition is_digit :: "char \<Rightarrow> bool" where
  "is_digit c \<longleftrightarrow> 48 \<le> (of_char c :: nat) \<and> (of_char c :: nat) \<le> 57"

definition digits_value :: "string \<Rightarrow> nat" where
  "digits_value ds = foldl (\<lambda>v c. 10 * v + (of_char c - 48)) 0 ds"

text \<open>An optional sign and the digits after leading blanks; what follows is ignored.\<close>

definition leading_int :: "string \<Rightarrow> int option" where
  "leading_int s =
    (let t = dropWhile is_blank s;
         neg = (t \<noteq> [] \<and> t ! 0 = CHR ''-'');
         u = (if t \<noteq> [] \<and> (t ! 0 = CHR ''-'' \<or> t ! 0 = CHR ''+'') then tl t else t);
         ds = takeWhile is_digit u in
     if ds = [] then None else Some (if neg then - int (digits_value ds) else int (digits_value ds)))"

definition stoi :: "string \<Rightarrow> int result" where
  "stoi s =
    (case leading_int s of
       None \<Rightarrow> Inl (Invalid_Argument ''stoi'')
     | Some v \<Rightarrow> if v < - (2 ^ 31) \<or> 2 ^ 31 \<le> v then Inl (Out_Of_Range ''stoi'') else Inr v)"

text \<open>A negative number is accepted and wraps.\<close>

definition stoull :: "string \<Rightarrow> nat result" where
  "stoull s =
    (case leading_int s of
       None \<Rightarrow> Inl (Invalid_Argument ''stoull'')
     | Some v \<Rightarrow> if 2 ^ 64 \<le> \<bar>v\<bar> then Inl (Out_Of_Range ''stoull'') else Inr (nat (v mod 2 ^ 64)))"

text \<open>\<open>atoi\<close> gives zero where there is no number, and is undefined where it does not fit.\<close>

definition atoi :: "string \<Rightarrow> int" where
  "atoi s = (case leading_int s of None \<Rightarrow> 0 | Some v \<Rightarrow> v)"

subsection \<open>A written number is read back\<close>

lemma digits_of_digits: "list_all is_digit (digits_of n) \<and> digits_of n \<noteq> []"
proof (induction n rule: digits_of.induct)
  case (1 n)
  have "is_digit (char_of (48 + d))" if "d < 10" for d :: nat using that by (simp add: is_digit_def)
  then show ?case using 1 by (subst (1 2) digits_of.simps) simp
qed

lemma digits_value_of: "digits_value (digits_of n) = n"
proof (induction n rule: digits_of.induct)
  case (1 n)
  then show ?case by (subst digits_of.simps) (auto simp: digits_value_def)
qed

lemma digit_other: "is_digit c \<Longrightarrow> \<not> is_blank c \<and> c \<noteq> CHR ''-'' \<and> c \<noteq> CHR ''+'' \<and> c \<noteq> CHR '',''"
  by (auto simp: is_digit_def is_blank_def)

lemma leading_dec_int: "leading_int (dec_int i) = Some i"
proof -
  have tw: "takeWhile is_digit (digits_of n) = digits_of n" for n
    using digits_of_digits[of n] by (simp add: takeWhile_eq_all_conv list_all_iff)
  show ?thesis
  proof (cases "i < 0")
    case True
    then have "dec_int i = CHR ''-'' # digits_of (nat (- i))" by (simp add: dec_int_def)
    then show ?thesis using True digits_of_digits[of "nat (- i)"] by (simp add: leading_int_def Let_def tw digits_value_of is_blank_def)
  next
    case False
    obtain c cs where d: "digits_of (nat i) = c # cs" "is_digit c" using digits_of_digits[of "nat i"] by (cases "digits_of (nat i)") auto
    then have "leading_int (dec_int i) = Some (int (digits_value (takeWhile is_digit (digits_of (nat i)))))"
      using False digit_other[OF d(2)] by (simp add: dec_int_def leading_int_def Let_def)
    then show ?thesis using False by (simp add: tw digits_value_of)
  qed
qed

lemma stoi_dec_int: "- (2 ^ 31) \<le> i \<Longrightarrow> i < 2 ^ 31 \<Longrightarrow> stoi (dec_int i) = Inr i"
  by (simp add: stoi_def leading_dec_int)

lemma dec_int_no_comma: "CHR '','' \<notin> set (dec_int i)" "dec_int i \<noteq> []"
  using digits_of_digits digit_other by (auto simp: dec_int_def list_all_iff)

lemma digits_of_inj: "digits_of m = digits_of n \<Longrightarrow> m = n"
  by (metis digits_value_of)

end
