(* ===== verification/Metrics.thy ===== *)
theory Metrics
  imports Decimal
begin

text \<open>
  The Prometheus metrics of \<open>src/include/engine/metrics.h\<close> and \<open>src/src/api/metrics.cpp\<close>:
  histograms and the text page. A \<open>double\<close> is a rational here (rounding is not modelled), and
  the way a stream prints a double is the parameter \<open>fmt\<close>. The counters are unbounded, where
  the code's are 64 bits wide.
\<close>

subsection \<open>Histograms\<close>

record histogram =
  buckets :: "rat list"
  counts :: "nat list"
  hist_sum :: rat
  hist_count :: nat

definition new_histogram :: "rat list \<Rightarrow> histogram" where
  "new_histogram bs = \<lparr>buckets = bs, counts = replicate (Suc (length bs)) 0, hist_sum = 0, hist_count = 0\<rparr>"

text \<open>\<open>while (i < buckets_.size() && v > buckets_[i]) i++\<close>\<close>

fun bucket_index :: "rat list \<Rightarrow> rat \<Rightarrow> nat" where
  "bucket_index [] v = 0"
| "bucket_index (b # bs) v = (if v > b then Suc (bucket_index bs v) else 0)"

definition observe :: "histogram \<Rightarrow> rat \<Rightarrow> histogram" where
  "observe h v =
     (let i = bucket_index (buckets h) v
      in h\<lparr>counts := (counts h)[i := Suc (counts h ! i)], hist_sum := hist_sum h + v,
           hist_count := Suc (hist_count h)\<rparr>)"

text \<open>The loop of \<open>quantile\<close> over the buckets and their counts.\<close>

fun quantile_loop :: "rat \<Rightarrow> rat \<Rightarrow> rat \<Rightarrow> rat list \<Rightarrow> nat list \<Rightarrow> rat option" where
  "quantile_loop target cum lo (b # bs) (c # cs) =
     (let nxt = cum + of_nat c
      in if nxt \<ge> target
         then Some (lo + (if c \<noteq> 0 then (target - cum) / of_nat c else 1) * (b - lo))
         else quantile_loop target nxt b bs cs)"
| "quantile_loop target cum lo bs cs = None"

definition quantile :: "histogram \<Rightarrow> rat \<Rightarrow> rat" where
  "quantile h p =
     (if hist_count h = 0 then 0
      else case quantile_loop (p * of_nat (hist_count h)) 0 0 (buckets h) (counts h) of
             Some x \<Rightarrow> x
           | None \<Rightarrow> last (buckets h))"

subsection \<open>The text page\<close>

definition newline :: string where
  "newline = [CHR 0x0A]"

definition quote :: string where
  "quote = [CHR 0x22]"

text \<open>The cumulative counts of the buckets, without the last one (\<open>+Inf\<close>).\<close>

fun cumulate :: "nat \<Rightarrow> nat list \<Rightarrow> nat list" where
  "cumulate cum [] = []"
| "cumulate cum (c # cs) = (cum + c) # cumulate (cum + c) cs"

definition render_lines :: "(rat \<Rightarrow> string) \<Rightarrow> string \<Rightarrow> rat list \<Rightarrow> nat list \<Rightarrow> string" where
  "render_lines fmt name bs cums =
     concat (map (\<lambda>(b, c). name @ ''_bucket{le='' @ quote @ fmt b @ quote @ ''} '' @ digits_of c @ newline) (zip bs cums))"

definition render :: "(rat \<Rightarrow> string) \<Rightarrow> histogram \<Rightarrow> string \<Rightarrow> string \<Rightarrow> string" where
  "render fmt h name help =
     (let cums = cumulate 0 (take (length (buckets h)) (counts h));
          total = (if cums = [] then 0 else last cums) + last (counts h)
      in ''# HELP '' @ name @ '' '' @ help @ newline @ ''# TYPE '' @ name @ '' histogram'' @ newline @
         render_lines fmt name (buckets h) cums @
         name @ ''_bucket{le='' @ quote @ ''+Inf'' @ quote @ ''} '' @ digits_of total @ newline @
         name @ ''_sum '' @ fmt (hist_sum h) @ newline @
         name @ ''_count '' @ digits_of (hist_count h) @ newline)"

record metrics =
  requests_total :: nat
  requests_finished :: nat
  requests_aborted :: nat
  requests_rejected_overload :: nat
  requests_rejected_invalid :: nat
  requests_rejected_draining :: nat
  requests_timed_out :: nat
  requests_queue_timeout_total :: nat
  kv_accounting_ok :: int
  prompt_tokens_total :: nat
  generated_tokens_total :: nat
  steps_total :: nat
  preemptions_total :: nat
  recomputed_tokens_total :: nat
  prefix_cache_queries :: nat
  prefix_cache_hit_blocks :: nat
  prefix_cache_total_blocks :: nat
  kv_evictions :: nat
  queue_depth :: int
  running_seqs :: int
  kv_blocks_total :: int
  kv_blocks_free :: int
  kv_blocks_used :: int
  kv_blocks_cached :: int
  m_kv_waste_fraction :: rat
  tokens_per_second :: rat
  ttft :: histogram
  inter_token :: histogram
  e2e :: histogram
  step_time :: histogram
  batch_tokens :: histogram

definition new_metrics :: metrics where
  "new_metrics = \<lparr>requests_total = 0, requests_finished = 0, requests_aborted = 0,
     requests_rejected_overload = 0, requests_rejected_invalid = 0, requests_rejected_draining = 0,
     requests_timed_out = 0, requests_queue_timeout_total = 0, kv_accounting_ok = 1,
     prompt_tokens_total = 0, generated_tokens_total = 0, steps_total = 0, preemptions_total = 0,
     recomputed_tokens_total = 0, prefix_cache_queries = 0, prefix_cache_hit_blocks = 0,
     prefix_cache_total_blocks = 0, kv_evictions = 0, queue_depth = 0, running_seqs = 0,
     kv_blocks_total = 0, kv_blocks_free = 0, kv_blocks_used = 0, kv_blocks_cached = 0,
     m_kv_waste_fraction = 0, tokens_per_second = 0,
     ttft = new_histogram [0.005, 0.01, 0.025, 0.05, 0.1, 0.25, 0.5, 1, 2.5, 5, 10, 30],
     inter_token = new_histogram [0.001, 0.0025, 0.005, 0.01, 0.025, 0.05, 0.1, 0.25, 0.5, 1, 2.5],
     e2e = new_histogram [0.05, 0.1, 0.25, 0.5, 1, 2.5, 5, 10, 30, 60, 120],
     step_time = new_histogram [0.001, 0.0025, 0.005, 0.01, 0.025, 0.05, 0.1, 0.25, 0.5, 1, 2.5],
     batch_tokens = new_histogram [1, 2, 4, 8, 16, 32, 64, 128, 256, 512, 1024, 2048, 4096]\<rparr>"

definition prom_counter :: "string \<Rightarrow> string \<Rightarrow> nat \<Rightarrow> string" where
  "prom_counter n h v = ''# HELP '' @ n @ '' '' @ h @ newline @ ''# TYPE '' @ n @ '' counter'' @ newline @
     n @ '' '' @ digits_of v @ newline"

definition prom_gauge :: "(rat \<Rightarrow> string) \<Rightarrow> string \<Rightarrow> string \<Rightarrow> rat \<Rightarrow> string" where
  "prom_gauge fmt n h v = ''# HELP '' @ n @ '' '' @ h @ newline @ ''# TYPE '' @ n @ '' gauge'' @ newline @
     n @ '' '' @ fmt v @ newline"

definition render_prometheus :: "(rat \<Rightarrow> string) \<Rightarrow> metrics \<Rightarrow> string" where
  "render_prometheus fmt m = concat [
     prom_counter ''engine_requests_total'' ''Requests accepted'' (requests_total m),
     prom_counter ''engine_requests_finished_total'' ''Requests finished'' (requests_finished m),
     prom_counter ''engine_requests_aborted_total'' ''Requests aborted'' (requests_aborted m),
     prom_counter ''engine_requests_timed_out_total'' ''Requests abandoned after waiting past their deadline'' (requests_timed_out m),
     prom_counter ''engine_requests_queue_timeout_total'' ''Queue deadline expiries seen by the scheduler'' (requests_queue_timeout_total m),
     prom_counter ''engine_requests_rejected_overload_total'' ''Requests rejected because the queue was full'' (requests_rejected_overload m),
     prom_counter ''engine_requests_rejected_invalid_total'' ''Requests rejected as malformed or impossible'' (requests_rejected_invalid m),
     prom_counter ''engine_requests_rejected_draining_total'' ''Requests rejected because the server was draining'' (requests_rejected_draining m),
     prom_counter ''engine_prompt_tokens_total'' ''Prompt tokens received'' (prompt_tokens_total m),
     prom_counter ''engine_generated_tokens_total'' ''Tokens generated'' (generated_tokens_total m),
     prom_counter ''engine_steps_total'' ''Forward passes executed'' (steps_total m),
     prom_counter ''engine_preemptions_total'' ''Sequences preempted for memory'' (preemptions_total m),
     prom_counter ''engine_recomputed_tokens_total'' ''Tokens discarded by preemption and recomputed'' (recomputed_tokens_total m),
     prom_counter ''engine_prefix_cache_queries_total'' ''Prompts looked up in the prefix cache'' (prefix_cache_queries m),
     prom_counter ''engine_prefix_cache_hit_blocks_total'' ''Prompt blocks served from the prefix cache'' (prefix_cache_hit_blocks m),
     prom_counter ''engine_prefix_cache_total_blocks_total'' ''Full prompt blocks looked up'' (prefix_cache_total_blocks m),
     prom_counter ''engine_kv_evictions_total'' ''Cached KV blocks evicted'' (kv_evictions m),
     prom_gauge fmt ''engine_queue_depth'' ''Requests waiting to be scheduled'' (of_int (queue_depth m)),
     prom_gauge fmt ''engine_running_seqs'' ''Sequences in the current batch'' (of_int (running_seqs m)),
     prom_gauge fmt ''engine_kv_blocks_total'' ''KV cache blocks'' (of_int (kv_blocks_total m)),
     prom_gauge fmt ''engine_kv_blocks_free'' ''Free KV blocks'' (of_int (kv_blocks_free m)),
     prom_gauge fmt ''engine_kv_blocks_used'' ''KV blocks owned by running sequences'' (of_int (kv_blocks_used m)),
     prom_gauge fmt ''engine_kv_blocks_cached'' ''Unowned KV blocks retained for prefix reuse'' (of_int (kv_blocks_cached m)),
     prom_gauge fmt ''engine_kv_waste_fraction'' ''Allocated-but-empty KV slots / allocated slots'' (m_kv_waste_fraction m),
     prom_gauge fmt ''engine_tokens_per_second'' ''Generated tokens per second (moving)'' (tokens_per_second m),
     prom_gauge fmt ''engine_kv_accounting_ok'' ''1 while free + cached + used equals the pool size'' (of_int (kv_accounting_ok m)),
     render fmt (ttft m) ''engine_ttft_seconds'' ''Time to first token'',
     render fmt (inter_token m) ''engine_inter_token_seconds'' ''Inter-token latency'',
     render fmt (e2e m) ''engine_request_seconds'' ''End-to-end request latency'',
     render fmt (step_time m) ''engine_step_seconds'' ''Forward pass wall time'',
     render fmt (batch_tokens m) ''engine_batch_tokens'' ''Tokens per forward pass'']"

subsection \<open>Correctness\<close>

definition hist_inv :: "histogram \<Rightarrow> bool" where
  "hist_inv h \<longleftrightarrow> length (counts h) = Suc (length (buckets h)) \<and> sum_list (counts h) = hist_count h"

lemma new_histogram_inv: "hist_inv (new_histogram bs)"
  by (simp add: hist_inv_def new_histogram_def sum_list_replicate)

lemma bucket_index_le: "bucket_index bs v \<le> length bs"
  by (induction bs) auto

lemma sum_list_bump: "i < length xs \<Longrightarrow> sum_list (xs[i := Suc (xs ! i)]) = Suc (sum_list xs)"
  by (simp add: sum_list_update)

lemma observe_inv: "hist_inv h \<Longrightarrow> hist_inv (observe h v)"
  using bucket_index_le[of "buckets h" v]
  by (simp add: hist_inv_def observe_def Let_def sum_list_bump)

text \<open>The histogram after a sequence of observations.\<close>

definition observe_all :: "rat list \<Rightarrow> rat list \<Rightarrow> histogram" where
  "observe_all bs vs = foldl observe (new_histogram bs) vs"

lemma observe_all_snoc: "observe_all bs (vs @ [v]) = observe (observe_all bs vs) v"
  by (simp add: observe_all_def)

lemma observe_all_facts:
  "buckets (observe_all bs vs) = bs \<and> hist_inv (observe_all bs vs) \<and> hist_count (observe_all bs vs) = length vs \<and>
   hist_sum (observe_all bs vs) = sum_list vs"
proof (induction vs rule: rev_induct)
  case Nil
  show ?case using new_histogram_inv[of bs] by (simp add: observe_all_def new_histogram_def)
next
  case (snoc v vs)
  then have "hist_inv (observe (observe_all bs vs) v)" by (simp add: observe_inv)
  then show ?case using snoc by (simp add: observe_all_snoc) (simp add: observe_def Let_def)
qed

lemma bucket_index_less:
  assumes "sorted bs" "i < length bs"
  shows "bucket_index bs v \<le> i \<longleftrightarrow> v \<le> bs ! i"
  using assms
proof (induction bs arbitrary: i)
  case (Cons b bs)
  show ?case
  proof (cases i)
    case 0
    then show ?thesis by auto
  next
    case (Suc j)
    then have "j < length bs" "sorted bs" "b \<le> bs ! j" using Cons.prems by auto
    then show ?thesis using Cons.IH[of j] Suc by (auto simp: not_less)
  qed
qed simp

lemma sum_take_update:
  assumes "k < length cs"
  shows "sum_list (take (Suc i) (cs[k := Suc (cs ! k)])) = sum_list (take (Suc i) cs) + (if k \<le> i then 1 else 0)"
proof (cases "k \<le> i")
  case True
  then have "k < length (take (Suc i) cs)" "take (Suc i) cs ! k = cs ! k" using assms by auto
  then show ?thesis using True sum_list_bump[of k "take (Suc i) cs"] by (simp add: take_update_swap)
qed (simp add: take_update_cancel not_le)

lemma cumulate_nth: "i < length cs \<Longrightarrow> cumulate c cs ! i = c + sum_list (take (Suc i) cs)"
  by (induction cs arbitrary: c i) (auto simp: nth_Cons' split: nat.split)

lemma length_cumulate [simp]: "length (cumulate c cs) = length cs"
  by (induction cs arbitrary: c) auto

text \<open>C17: A histogram counts what it was shown: after any observations, the cumulative count rendered
  for bucket \<open>i\<close> (with ascending bounds) is the number of observed values that are at most that
  bound, and the \<open>+Inf\<close> bucket and \<open>_count\<close> agree on the number of all observations.\<close>

theorem histogram_counts_exact:
  assumes "sorted bs" "i < length bs"
  shows "cumulate 0 (take (length bs) (counts (observe_all bs vs))) ! i = length (filter (\<lambda>v. v \<le> bs ! i) vs) \<and>
    sum_list (counts (observe_all bs vs)) = length vs \<and> hist_count (observe_all bs vs) = length vs"
proof -
  have len: "length (counts (observe_all bs us)) = Suc (length bs)" for us
    using observe_all_facts[of bs us] by (simp add: hist_inv_def)
  have "sum_list (take (Suc i) (counts (observe_all bs vs))) = length (filter (\<lambda>v. v \<le> bs ! i) vs)"
  proof (induction vs rule: rev_induct)
    case Nil
    show ?case using assms(2) by (simp add: observe_all_def new_histogram_def take_replicate sum_list_replicate)
  next
    case (snoc v vs)
    let ?h = "observe_all bs vs"
    have b: "buckets ?h = bs" using observe_all_facts by blast
    have "bucket_index bs v < length (counts ?h)" using bucket_index_le[of bs v] len by simp
    then have "sum_list (take (Suc i) (counts (observe ?h v))) =
        sum_list (take (Suc i) (counts ?h)) + (if bucket_index bs v \<le> i then 1 else 0)"
      using sum_take_update by (simp add: observe_def Let_def b)
    then show ?case using snoc bucket_index_less[OF assms] by (simp add: observe_all_snoc)
  qed
  moreover have "cumulate 0 (take (length bs) (counts (observe_all bs vs))) ! i =
      sum_list (take (Suc i) (counts (observe_all bs vs)))"
    using cumulate_nth[of i "take (length bs) (counts (observe_all bs vs))" 0] assms(2) len[of vs]
    by (simp add: min_absorb1)
  moreover have "sum_list (counts (observe_all bs vs)) = length vs" "hist_count (observe_all bs vs) = length vs"
    using observe_all_facts[of bs vs] by (simp_all only: hist_inv_def)
  ultimately show ?thesis by simp
qed

theorem histogram_counts_exact_witness:
  "cumulate 0 (take 3 (counts (observe_all [1, 2, 4] [1, 3, 9, 2, 2]))) ! 1 = 3"
  using histogram_counts_exact[of "[1, 2, 4]" 1 "[1, 3, 9, 2, 2]"] by (simp add: numeral_3_eq_3)

subsection \<open>Quantiles\<close>

lemma quantile_loop_bounds:
  assumes "quantile_loop target cum lo bs cs = Some x" "sorted (lo # bs)" "cum \<le> target"
  shows "lo \<le> x \<and> x \<le> last bs"
  using assms
proof (induction target cum lo bs cs rule: quantile_loop.induct)
  case (1 target cum lo b bs c cs)
  have lb: "lo \<le> b" "b \<le> last (b # bs)" using "1.prems"(2) by (auto simp: last_in_set)
  show ?case
  proof (cases "cum + of_nat c \<ge> target")
    case True
    define f where "f = (if c \<noteq> 0 then (target - cum) / of_nat c else (1::rat))"
    have f: "0 \<le> f" "f \<le> 1" using True "1.prems"(3) by (auto simp: f_def field_simps)
    have x: "x = lo + f * (b - lo)" using "1.prems"(1) True by (simp add: Let_def f_def)
    have "0 \<le> f * (b - lo)" using f(1) lb(1) by simp
    moreover have "f * (b - lo) \<le> 1 * (b - lo)" by (rule mult_right_mono) (use f lb(1) in simp_all)
    ultimately show ?thesis using x lb by auto
  next
    case False
    then have s: "quantile_loop target (cum + of_nat c) b bs cs = Some x" using "1.prems"(1) by (simp add: Let_def)
    then have "bs \<noteq> []" by auto
    moreover have "b \<le> x \<and> x \<le> last bs" using "1.IH"[OF refl False s] "1.prems"(2) False by auto
    ultimately show ?thesis using lb by auto
  qed
qed auto

lemma quantile_loop_mono:
  assumes "quantile_loop t' cum lo bs cs = Some x'" "t \<le> t'" "cum \<le> t" "sorted (lo # bs)"
  shows "\<exists>x. quantile_loop t cum lo bs cs = Some x \<and> x \<le> x'"
  using assms
proof (induction t' cum lo bs cs rule: quantile_loop.induct)
  case (1 t' cum lo b bs c cs)
  show ?case
  proof (cases "cum + of_nat c \<ge> t'")
    case True
    have "(if c \<noteq> 0 then (t - cum) / of_nat c else (1::rat)) * (b - lo) \<le>
        (if c \<noteq> 0 then (t' - cum) / of_nat c else 1) * (b - lo)"
      using "1.prems"(2,4) by (intro mult_right_mono) (auto simp: divide_right_mono)
    then show ?thesis using True "1.prems"(1,2) by (auto simp: Let_def)
  next
    case False
    then have s: "quantile_loop t' (cum + of_nat c) b bs cs = Some x'" using "1.prems"(1) by (simp add: Let_def)
    have b: "b \<le> x'" using quantile_loop_bounds[OF s] "1.prems"(4) False by auto
    show ?thesis
    proof (cases "cum + of_nat c \<ge> t")
      case True
      then obtain x where x: "quantile_loop t cum lo (b # bs) (c # cs) = Some x" by (simp add: Let_def)
      have "quantile_loop t cum lo [b] [c] = Some x" using x True by (simp add: Let_def)
      then have "x \<le> b" using quantile_loop_bounds[of t cum lo "[b]" "[c]" x] "1.prems"(3,4) by simp
      then show ?thesis using x b by auto
    next
      case nle: False
      then show ?thesis using "1.IH"[OF refl False s "1.prems"(2)] "1.prems"(4) by (auto simp: Let_def)
    qed
  qed
qed auto

text \<open>C18: The quantile estimate of a histogram with ascending positive bounds stays between 0 and the
  last bound, and a higher quantile is never estimated lower.\<close>

theorem quantile_monotone_bounded:
  assumes "sorted (buckets h)" "buckets h \<noteq> []" "0 \<le> hd (buckets h)" "0 \<le> p" "p \<le> p'"
  shows "0 \<le> quantile h p \<and> quantile h p \<le> quantile h p' \<and> quantile h p' \<le> last (buckets h)"
proof -
  let ?q = "\<lambda>p. quantile_loop (p * of_nat (hist_count h)) 0 0 (buckets h) (counts h)"
  have s: "sorted (0 # buckets h)" using assms(1-3) by (cases "buckets h") auto
  have l: "0 \<le> last (buckets h)" using s assms(2) by (auto simp: last_in_set)
  have ord: "p * of_nat (hist_count h) \<le> p' * of_nat (hist_count h)" "0 \<le> p * of_nat (hist_count h)"
    using assms(4,5) by (auto intro: mult_right_mono)
  have b: "?q r = Some x \<Longrightarrow> 0 \<le> x \<and> x \<le> last (buckets h)" if "0 \<le> r" for r x
    using quantile_loop_bounds[OF _ s] that by simp
  have m: "?q p' = Some x' \<Longrightarrow> \<exists>x. ?q p = Some x \<and> x \<le> x'" for x'
    using quantile_loop_mono[OF _ ord(1) ord(2) s] by simp
  have "0 \<le> p'" using assms(4,5) by simp
  show ?thesis
  proof (cases "?q p'")
    case None
    then show ?thesis using b[OF assms(4)] l by (cases "?q p") (simp_all add: quantile_def)
  next
    case (Some x')
    then show ?thesis using m[OF Some] b[OF assms(4)] b[OF \<open>0 \<le> p'\<close> Some] l by (auto simp: quantile_def)
  qed
qed

theorem quantile_monotone_bounded_witness:
  "quantile (observe_all [1, 2, 4] [1, 3, 9, 2, 2]) (1/2) \<le> quantile (observe_all [1, 2, 4] [1, 3, 9, 2, 2]) (9/10) \<and>
   quantile (observe_all [1, 2, 4] [1, 3, 9, 2, 2]) (1/2) = 7/4"
proof -
  have "buckets (observe_all [1, 2, 4] [1, 3, 9, 2, 2]) = [1, 2, 4]" using observe_all_facts by blast
  then have "quantile (observe_all [1, 2, 4] [1, 3, 9, 2, 2]) (1/2) \<le> quantile (observe_all [1, 2, 4] [1, 3, 9, 2, 2]) (9/10)"
    using quantile_monotone_bounded[of "observe_all [1, 2, 4] [1, 3, 9, 2, 2]" "1/2" "9/10"] by simp
  moreover have "quantile (observe_all [1, 2, 4] [1, 3, 9, 2, 2]) (1/2) = 7/4" by code_simp
  ultimately show ?thesis by simp
qed

end
