(* ===== verification/Engine.thy ===== *)
theory Engine
  imports Scheduler_Props Metrics
begin

text \<open>
  The engine of \<open>src/include/engine/engine.h\<close> and \<open>src/src/api/engine.cpp\<close>: request validation
  and submission on the client threads, the step loop on the engine thread, self-check and gauges.

  The engine thread owns the scheduler; client threads only touch the two inboxes (under a mutex)
  and the atomics, so the model is a record and each critical section or atomic access sequence is
  one operation on it. The forward pass and the sampler enter the loop as an argument that maps a
  step to the sampled tokens or to the exception text of a backend failure.

  The sequence that \<open>submit\<close> creates is named by its id, which is never reused. The wrapper that
  the loop puts around a client's callback runs inside the scheduler's calls but only writes
  metrics, the queue counter and the client's log, none of which the scheduler reads; it is applied
  to the callbacks a scheduler call has logged when the call returns.
\<close>

subsection \<open>State\<close>

record engine_config =
  model_dir :: string
  backend :: string
  cfg_num_blocks :: int
  cfg_block_size :: int
  cfg_prefix_caching :: bool
  cfg_sched :: sched_config
  cfg_seed :: nat
  max_queue_depth :: int
  stall_timeout_seconds :: rat

definition default_engine_config :: engine_config where
  "default_engine_config = \<lparr>model_dir = '''', backend = ''cpu'', cfg_num_blocks = 512, cfg_block_size = 16,
     cfg_prefix_caching = True, cfg_sched = default_sched_config, cfg_seed = 42, max_queue_depth = 256,
     stall_timeout_seconds = 120\<rparr>"

datatype model_backend = Cpu_Model | Cuda_Model

datatype submit_status = Accepted | Draining | Overloaded | Invalid

record submit_result =
  sub_status :: submit_status
  sub_seq :: "seq_ref option"
  sub_reason :: string
  retry_after_seconds :: int

definition submit_ok :: "submit_result \<Rightarrow> bool" where
  "submit_ok r \<longleftrightarrow> sub_status r = Accepted"

record health_report =
  alive :: bool
  hr_ready :: bool
  problems :: "string list"
  seconds_since_progress :: rat

record engine =
  en_cfg :: engine_config
  en_model :: model_backend
  en_sched :: sched
  en_metrics :: metrics
  inbox :: "seq_ref list"
  abort_inbox :: "nat list"
  en_running :: bool
  accepting :: bool
  ready :: bool
  draining :: bool
  next_id :: nat
  last_progress_us :: int
  invariants_ok :: bool
  queued :: int
  fatal_error :: string
  window_start :: time_point
  window_tokens :: nat
  client_log :: "callback list"
  user_cb :: "seq_ref \<Rightarrow> bool"

subsection \<open>Construction and flags\<close>

definition build_model :: "bool \<Rightarrow> string \<Rightarrow> model_backend result" where
  "build_model engine_cuda b =
     (if b = ''cpu'' then Inr Cpu_Model
      else if b = ''cuda''
      then (if engine_cuda then Inr Cuda_Model
            else Inl (Runtime_Error (''--backend cuda requested but this binary has no CUDA backend. '' @
              ''Rebuild with -DENGINE_CUDA=ON (see docs/gpu-setup.md), or use --backend cpu. '' @
              ''Refusing to fall back silently, because results labelled cuda that ran on the CPU '' @
              ''would be indistinguishable from real ones.'')))
      else Inl (Runtime_Error (''unknown --backend '' @ [CHR 0x27] @ b @ [CHR 0x27] @ ''; expected cpu or cuda'')))"

definition engine_new :: "bool \<Rightarrow> engine_config \<Rightarrow> engine result" where
  "engine_new engine_cuda cfg =
     (case kv_init (cfg_num_blocks cfg) (cfg_block_size cfg) (cfg_prefix_caching cfg) of
        Inl e \<Rightarrow> Inl e
      | Inr kv \<Rightarrow>
          (case build_model engine_cuda (backend cfg) of
             Inl e \<Rightarrow> Inl e
           | Inr m \<Rightarrow> Inr \<lparr>en_cfg = cfg, en_model = m, en_sched = sched_init (cfg_sched cfg) kv (\<lambda>_. default_seq),
               en_metrics = new_metrics\<lparr>kv_blocks_total := cfg_num_blocks cfg\<rparr>, inbox = [], abort_inbox = [],
               en_running = False, accepting = False, ready = True, draining = False, next_id = 1,
               last_progress_us = 0, invariants_ok = True, queued = 0, fatal_error = '''',
               window_start = 0, window_tokens = 0, client_log = [], user_cb = (\<lambda>_. False)\<rparr>))"

definition cuda_available :: "bool \<Rightarrow> bool" where
  "cuda_available engine_cuda = engine_cuda"

text \<open>The flag writes of \<open>start\<close>, \<open>stop\<close> and \<open>drain\<close>; the thread they start or join is the loop below.\<close>

definition start :: "engine \<Rightarrow> engine" where
  "start en = (if en_running en then en else en\<lparr>en_running := True, accepting := True\<rparr>)"

definition stop_request :: "engine \<Rightarrow> engine" where
  "stop_request en = en\<lparr>accepting := False, en_running := False\<rparr>"

definition drain_request :: "engine \<Rightarrow> engine" where
  "drain_request en = en\<lparr>accepting := False, draining := True\<rparr>"

text \<open>After the join in \<open>drain\<close>.\<close>

definition drain_finished :: "engine \<Rightarrow> engine" where
  "drain_finished en = en\<lparr>en_running := False\<rparr>"

definition mark_progress :: "time_point \<Rightarrow> engine \<Rightarrow> engine" where
  "mark_progress now en = en\<lparr>last_progress_us := now div 1000\<rparr>"

subsection \<open>Requests\<close>

definition validate :: "engine \<Rightarrow> nat \<Rightarrow> nat \<Rightarrow> sampling_params \<Rightarrow> string" where
  "validate en model_max prompt_tokens ps =
     (if prompt_tokens = 0 then ''prompt is empty''
      else if max_tokens ps \<le> 0 then ''max_tokens must be positive''
      else let need = prompt_tokens + nat (max_tokens ps);
               capacity = capacity_tokens (sc_kv (en_sched en))
           in if need > capacity
              then ''prompt ('' @ digits_of prompt_tokens @ '' tokens) plus max_tokens ('' @
                   digits_of (nat (max_tokens ps)) @ '') exceeds the KV cache capacity of '' @
                   digits_of capacity @ '' tokens; raise --num-blocks or shorten the request''
              else if need > model_max
              then ''prompt plus max_tokens ('' @ digits_of need @
                   '') exceeds the model'' @ [CHR 0x27] @ ''s context length of '' @ digits_of model_max @ '' tokens''
              else '''')"

definition health :: "(rat \<Rightarrow> string) \<Rightarrow> time_point \<Rightarrow> engine \<Rightarrow> health_report" where
  "health to_string now en =
     (let last = last_progress_us en;
          secs = (if last = 0 then 0 else of_int (now div 1000 - last) / 1000000);
          stalled = (stall_timeout_seconds (en_cfg en) > 0 \<and> last \<noteq> 0 \<and> queued en > 0 \<and>
                     secs > stall_timeout_seconds (en_cfg en));
          probs = (if ready en then [] else [''model not loaded'']) @
                  (if en_running en then [] else [''engine loop not running'']) @
                  (if stalled then [''no step completed in '' @ to_string secs @ ''s''] else []) @
                  (if fatal_error en \<noteq> '''' then [''step loop died: '' @ fatal_error en] else []) @
                  (if invariants_ok en then [] else [''KV block accounting invariant violated'']);
          is_alive = (ready en \<and> en_running en \<and> \<not> stalled \<and> fatal_error en = '''' \<and> invariants_ok en)
      in \<lparr>alive = is_alive, hr_ready = (is_alive \<and> accepting en),
          problems = probs @ (if is_alive \<and> \<not> accepting en then [''draining''] else []),
          seconds_since_progress = secs\<rparr>)"

text \<open>The stop ids of the tokenizer are added to those of the request, without duplicates.\<close>

definition add_stop_ids :: "token list \<Rightarrow> sampling_params \<Rightarrow> sampling_params" where
  "add_stop_ids ids ps =
     ps\<lparr>stop_ids := foldl (\<lambda>acc i. if i \<in> set acc then acc else acc @ [i]) (stop_ids ps) ids\<rparr>"

definition submit_refusal :: "engine \<Rightarrow> submit_result option" where
  "submit_refusal en =
     (if \<not> accepting en
      then Some \<lparr>sub_status = Draining, sub_seq = None, sub_reason = ''server is draining'', retry_after_seconds = 0\<rparr>
      else if max_queue_depth (en_cfg en) > 0 \<and> queued en \<ge> max_queue_depth (en_cfg en)
      then Some \<lparr>sub_status = Overloaded, sub_seq = None,
             sub_reason = ''too many queued requests ('' @ digits_of (nat (queued en)) @ '' of '' @
               digits_of (nat (max_queue_depth (en_cfg en))) @ ''); retry shortly'', retry_after_seconds = 1\<rparr>
      else None)"

definition count_refusal :: "engine \<Rightarrow> submit_result \<Rightarrow> engine" where
  "count_refusal en r =
     (if sub_status r = Overloaded
      then en\<lparr>en_metrics := (en_metrics en)\<lparr>requests_rejected_overload := Suc (requests_rejected_overload (en_metrics en))\<rparr>\<rparr>
      else en)"

definition enqueue :: "token list \<Rightarrow> token list \<Rightarrow> sampling_params \<Rightarrow> bool \<Rightarrow> engine \<Rightarrow> engine \<times> submit_result" where
  "enqueue tok_stop_ids prompt ps cb en =
     (let r = next_id en;
          q = default_seq\<lparr>seq_id := r, tokens := prompt, prompt_len := int (length prompt),
                params := add_stop_ids tok_stop_ids ps, on_token := cb\<rparr>;
          s = en_sched en;
          m = en_metrics en
      in (en\<lparr>next_id := Suc r, en_sched := s\<lparr>heap := (heap s)(r := q)\<rparr>, inbox := inbox en @ [r],
             en_metrics := m\<lparr>requests_total := Suc (requests_total m),
               prompt_tokens_total := prompt_tokens_total m + length prompt\<rparr>,
             queued := queued en + 1\<rparr>,
          \<lparr>sub_status = Accepted, sub_seq = Some r, sub_reason = '''', retry_after_seconds = 0\<rparr>))"

definition submit :: "token list \<Rightarrow> token list \<Rightarrow> sampling_params \<Rightarrow> bool \<Rightarrow> engine \<Rightarrow> engine \<times> submit_result" where
  "submit tok_stop_ids prompt ps cb en =
     (case submit_refusal en of
        Some r \<Rightarrow> (count_refusal en r, r)
      | None \<Rightarrow> enqueue tok_stop_ids prompt ps cb en)"

definition engine_abort :: "nat \<Rightarrow> engine \<Rightarrow> engine" where
  "engine_abort i en = en\<lparr>abort_inbox := abort_inbox en @ [i]\<rparr>"

subsection \<open>Gauges\<close>

definition refresh_gauges :: "engine \<Rightarrow> engine" where
  "refresh_gauges en =
     (let s = en_sched en; kv = sc_kv s;
          balanced = (int (num_free_blocks kv) + int (num_cached_blocks kv) + num_used_blocks kv = int (kv_num_blocks kv))
      in en\<lparr>invariants_ok := invariants_ok en \<and> balanced,
            en_metrics := (en_metrics en)\<lparr>queue_depth := int (length (waiting s)),
              running_seqs := int (length (running s)),
              kv_blocks_free := int (num_free_blocks kv), kv_blocks_used := num_used_blocks kv,
              kv_blocks_cached := int (num_cached_blocks kv),
              m_kv_waste_fraction := kv_waste_fraction s,
              steps_total := steps (sc_stats s), preemptions_total := preemptions (sc_stats s),
              requests_queue_timeout_total := timed_out (sc_stats s),
              kv_accounting_ok := (if balanced then 1 else 0),
              recomputed_tokens_total := nat (recomputed_tokens (sc_stats s)),
              prefix_cache_queries := prefix_queries (kv_stats kv),
              prefix_cache_hit_blocks := prefix_hit_blocks (kv_stats kv),
              prefix_cache_total_blocks := prefix_total_blocks (kv_stats kv),
              kv_evictions := evictions (kv_stats kv)\<rparr>\<rparr>)"

subsection \<open>The callback wrapper\<close>

definition secs :: "time_point \<Rightarrow> rat" where
  "secs d = of_int d / 10 ^ 9"

definition wrapped_callback :: "time_point \<Rightarrow> engine \<Rightarrow> callback \<Rightarrow> engine" where
  "wrapped_callback now en e =
     (let m = en_metrics en; q = cb_seq e;
          en1 =
            (if cb_token e \<ge> 0
             then let m1 = m\<lparr>generated_tokens_total := Suc (generated_tokens_total m)\<rparr>;
                      tt = token_times q; n = length tt
                  in en\<lparr>en_metrics :=
                       (if num_generated q = 1
                        then m1\<lparr>ttft := observe (ttft m1) (secs (t_first_token q - t_arrival q))\<rparr>
                        else if n \<ge> 2
                        then m1\<lparr>inter_token := observe (inter_token m1) (secs (tt ! (n - 1) - tt ! (n - 2)))\<rparr>
                        else m1)\<rparr>
             else let m1 = (case cb_reason e of
                              Timeout \<Rightarrow> m\<lparr>requests_timed_out := Suc (requests_timed_out m)\<rparr>
                            | Abort \<Rightarrow> m\<lparr>requests_aborted := Suc (requests_aborted m)\<rparr>
                            | _ \<Rightarrow> m\<lparr>requests_finished := Suc (requests_finished m)\<rparr>)
                  in en\<lparr>en_metrics := m1\<lparr>e2e := observe (e2e m1) (secs (now - t_arrival q))\<rparr>,
                        queued := queued en - 1\<rparr>)
      in if user_cb en (cb_ref e) then en1\<lparr>client_log := client_log en1 @ [e]\<rparr> else en1)"

text \<open>A scheduler call from the loop: the new state, and the wrapper on each callback it fired.\<close>

definition with_sched :: "time_point \<Rightarrow> engine \<Rightarrow> sched \<Rightarrow> engine" where
  "with_sched now en s =
     foldl (wrapped_callback now) (en\<lparr>en_sched := s\<rparr>) (drop (length (events (en_sched en))) (events s))"

subsection \<open>The step loop\<close>

definition loop_begin :: "time_point \<Rightarrow> engine \<Rightarrow> engine" where
  "loop_begin now en = (mark_progress now en)\<lparr>window_start := now, window_tokens := 0\<rparr>"

text \<open>Taking one submitted sequence over: wrap its callback, hand it to the scheduler.\<close>

definition adopt :: "time_point \<Rightarrow> engine \<Rightarrow> seq_ref \<Rightarrow> engine" where
  "adopt now en r =
     (let s = en_sched en;
          s1 = upd_seq s r (on_token_update (\<lambda>_. True))
      in with_sched now (en\<lparr>user_cb := (user_cb en)(r := on_token (heap s r))\<rparr>) (sched_add now s1 r))"

definition take_inbox :: "time_point \<Rightarrow> engine \<Rightarrow> engine" where
  "take_inbox now en =
     (let en1 = (foldl (adopt now) en (inbox en))\<lparr>inbox := []\<rparr>;
          en2 = foldl (\<lambda>e i. with_sched now e (sched_abort now (en_sched e) i)) en1 (abort_inbox en1)
      in en2\<lparr>abort_inbox := []\<rparr>)"

datatype loop_result = Loop_Break engine | Loop_Continue engine | Loop_Threw string engine

definition nothing_pending :: "engine \<Rightarrow> bool" where
  "nothing_pending en \<longleftrightarrow> \<not> has_work (en_sched en) \<and> inbox en = [] \<and> abort_inbox en = []"

text \<open>
  The part of an iteration after the inbox section, for a loop that has a scheduler with work. The
  argument \<open>compute\<close> is the forward pass followed by the sampler.
\<close>

definition compute_step ::
  "(sched \<Rightarrow> step_input \<Rightarrow> (string + token list)) \<Rightarrow> time_point \<Rightarrow> time_point \<Rightarrow> engine \<Rightarrow> loop_result" where
  "compute_step compute t0 t1 en =
     (case schedule t0 (en_sched en) of
        Inl e \<Rightarrow> Loop_Threw ''schedule'' en
      | Inr (s, st) \<Rightarrow>
          (let en1 = with_sched t0 en s
           in if step_empty st
              then let en2 = refresh_gauges en1
                   in Loop_Continue (if has_work (en_sched en2) then en2 else mark_progress t0 en2)
              else case compute s st of
                     Inl msg \<Rightarrow> Loop_Threw msg en1
                   | Inr sampled \<Rightarrow>
                       (case on_step_done t1 s st sampled of
                          Inl e \<Rightarrow> Loop_Threw ''on_step_done'' en1
                        | Inr s2 \<Rightarrow>
                            (let en2 = mark_progress t1 (with_sched t1 en1 s2);
                                 wt = window_tokens en2 + length sampled;
                                 win = secs (t1 - window_start en2);
                                 m = en_metrics en2;
                                 m1 = m\<lparr>step_time := observe (step_time m) (secs (t1 - t0)),
                                        batch_tokens := observe (batch_tokens m) (of_int (step_num_tokens st))\<rparr>;
                                 en3 = (if win \<ge> 1
                                        then en2\<lparr>en_metrics := m1\<lparr>tokens_per_second := of_nat wt / win\<rparr>,
                                                 window_tokens := 0, window_start := t1\<rparr>
                                        else en2\<lparr>en_metrics := m1, window_tokens := wt\<rparr>)
                             in Loop_Continue (refresh_gauges en3)))))"

definition loop_body ::
  "(sched \<Rightarrow> step_input \<Rightarrow> (string + token list)) \<Rightarrow> time_point \<Rightarrow> time_point \<Rightarrow> engine \<Rightarrow> loop_result" where
  "loop_body compute t0 t1 en =
     (let en1 = take_inbox t0 en
      in if \<not> has_work (en_sched en1) then Loop_Continue (refresh_gauges (mark_progress t0 en1))
         else compute_step compute t0 t1 en1)"

text \<open>
  One turn of \<open>while (running_)\<close> up to the wait on the condition variable, and the turn after
  waking. Other threads run between the two.
\<close>

definition loop_enter ::
  "(sched \<Rightarrow> step_input \<Rightarrow> (string + token list)) \<Rightarrow> time_point \<Rightarrow> time_point \<Rightarrow> engine \<Rightarrow> loop_result + engine" where
  "loop_enter compute t0 t1 en =
     (if nothing_pending en
      then (if draining en then Inl (Loop_Break en) else Inr (mark_progress t0 en))
      else Inl (loop_body compute t0 t1 en))"

definition loop_wake ::
  "(sched \<Rightarrow> step_input \<Rightarrow> (string + token list)) \<Rightarrow> time_point \<Rightarrow> time_point \<Rightarrow> engine \<Rightarrow> loop_result" where
  "loop_wake compute t0 t1 en =
     (if \<not> en_running en then Loop_Break en
      else if nothing_pending en then Loop_Continue (refresh_gauges (mark_progress t0 en))
      else loop_body compute t0 t1 en)"

subsection \<open>Leaving the loop\<close>

text \<open>\<open>while (num_waiting() > 0) \<dots>\<close> with fuel; \<open>None\<close> when it runs out.\<close>

fun release_waiting :: "nat \<Rightarrow> time_point \<Rightarrow> engine \<Rightarrow> engine option" where
  "release_waiting n now en =
     (if waiting (en_sched en) = [] then Some en
      else case n of
        0 \<Rightarrow> None
      | Suc k \<Rightarrow>
          (case schedule now (en_sched en) of
             Inl e \<Rightarrow> None
           | Inr (s, st) \<Rightarrow>
               (let en1 = with_sched now en s;
                    en2 = foldl (\<lambda>e sl. with_sched now e (sched_abort now (en_sched e) (seq_id (heap (en_sched e) (sl_seq sl)))))
                            en1 (slices st)
                in if step_empty st then Some en2 else release_waiting k now en2)))"

declare release_waiting.simps [simp del]

definition abort_running :: "time_point \<Rightarrow> engine \<Rightarrow> engine" where
  "abort_running now en =
     foldl (\<lambda>e r. with_sched now e (sched_abort now (en_sched e) (seq_id (heap (en_sched e) r))))
       en (running (en_sched en))"

definition loop_exit :: "nat \<Rightarrow> time_point \<Rightarrow> engine \<Rightarrow> engine option" where
  "loop_exit n now en = map_option refresh_gauges (release_waiting n now (abort_running now en))"

text \<open>The handler of \<open>run\<close>.\<close>

definition on_fatal :: "nat \<Rightarrow> time_point \<Rightarrow> string \<Rightarrow> engine \<Rightarrow> engine option" where
  "on_fatal n now msg en =
     loop_exit n now (en\<lparr>fatal_error := msg, accepting := False, ready := False, en_running := False\<rparr>)"

end
