(* ===== verification/Engine_Inv.thy ===== *)
theory Engine_Inv
  imports Engine
begin

text \<open>
  The invariant of the engine over submissions, aborts, flag changes and turns of the step loop:
  the scheduler's invariant, inbox and scheduler hold different live requests, and the queue
  counter behind load shedding counts exactly the accepted requests that have not been told their
  end. Continuous batching only; the static baseline breaks the counter (property
  \<open>static_abort_tells_again\<close> of the scheduler).
\<close>

subsection \<open>Frames of the callback wrapper\<close>

definition same_but_counters :: "engine \<Rightarrow> engine \<Rightarrow> bool" where
  "same_but_counters en en' \<longleftrightarrow> en_cfg en' = en_cfg en \<and> en_sched en' = en_sched en \<and> inbox en' = inbox en \<and>
     abort_inbox en' = abort_inbox en \<and> en_running en' = en_running en \<and> accepting en' = accepting en \<and>
     ready en' = ready en \<and> draining en' = draining en \<and> next_id en' = next_id en \<and>
     invariants_ok en' = invariants_ok en \<and> fatal_error en' = fatal_error en"

lemma wrapped_callback_frame:
  "same_but_counters en (wrapped_callback now en e)"
  "queued (wrapped_callback now en e) = queued en - (if cb_token e < 0 then 1 else 0)"
  by (auto simp: same_but_counters_def wrapped_callback_def Let_def)

lemma callbacks_frame:
  "same_but_counters en (foldl (wrapped_callback now) en es) \<and>
   queued (foldl (wrapped_callback now) en es) = queued en - int (length (filter (\<lambda>e. cb_token e < 0) es))"
proof (induction es arbitrary: en)
  case (Cons e es)
  then show ?case using wrapped_callback_frame(1)[of en now e] wrapped_callback_frame(2)[of now en e] Cons[of "wrapped_callback now en e"]
    by (auto simp: same_but_counters_def)
qed (simp add: same_but_counters_def)

lemma with_sched_frame:
  assumes "log_ext (en_sched en) s"
  shows "same_but_counters (en\<lparr>en_sched := s\<rparr>) (with_sched now en s)"
    "queued (with_sched now en s) = queued en - (int (length (terminals s)) - int (length (terminals (en_sched en))))"
proof -
  let ?es = "drop (length (events (en_sched en))) (events s)"
  show "same_but_counters (en\<lparr>en_sched := s\<rparr>) (with_sched now en s)"
    using callbacks_frame unfolding with_sched_def by blast
  have "events s = events (en_sched en) @ ?es" using assms by (auto simp: log_ext_def)
  then have "length (terminals s) = length (terminals (en_sched en)) + length (filter (\<lambda>e. cb_token e < 0) ?es)"
    unfolding terminals_def by (metis filter_append length_append length_map map_append)
  then show "queued (with_sched now en s) = queued en - (int (length (terminals s)) - int (length (terminals (en_sched en))))"
    using callbacks_frame[of "en\<lparr>en_sched := s\<rparr>" now ?es] by (simp add: with_sched_def)
qed

lemmas with_sched_simps = with_sched_frame(1)[unfolded same_but_counters_def, simplified]

subsection \<open>The invariant\<close>

definition engine_inv :: "engine \<Rightarrow> bool" where
  "engine_inv en \<longleftrightarrow>
     (let s = en_sched en
      in sched_good (cfg_sched (en_cfg en)) s \<and> continuous (cfg_sched (en_cfg en)) \<and>
         distinct (inbox en @ members s) \<and>
         (\<forall>r\<in>set (inbox en @ members s) \<union> set (terminals s). r < next_id en) \<and>
         set (inbox en) \<inter> set (terminals s) = {} \<and>
         (\<forall>r\<in>set (inbox en). fresh_seq (heap s r)) \<and>
         (\<forall>r\<in>set (members s). on_token (heap s r)) \<and>
         queued en = int (length (inbox en) + length (members s)) \<and>
         invariants_ok en)"

lemma engine_invD:
  assumes "engine_inv en"
  shows "sched_good (cfg_sched (en_cfg en)) (en_sched en)" "continuous (cfg_sched (en_cfg en))"
    "distinct (inbox en @ members (en_sched en))"
    "\<And>r. r \<in> set (inbox en @ members (en_sched en)) \<union> set (terminals (en_sched en)) \<Longrightarrow> r < next_id en"
    "set (inbox en) \<inter> set (terminals (en_sched en)) = {}"
    "\<And>r. r \<in> set (inbox en) \<Longrightarrow> fresh_seq (heap (en_sched en) r)"
    "\<And>r. r \<in> set (members (en_sched en)) \<Longrightarrow> on_token (heap (en_sched en) r)"
    "queued en = int (length (inbox en) + length (members (en_sched en)))" "invariants_ok en"
  using assms by (auto simp: engine_inv_def Let_def)

lemma sched_goodD:
  assumes "sched_good cfg s" "continuous cfg"
  shows "sched_inv s" "sane_cfg (sc_cfg s)" "continuous (sc_cfg s)" "told_once s" "sc_cfg s = cfg"
  using assms by (auto simp: sched_good_def)

lemma hands_length:
  assumes "hands s L s' L'" "distinct L" "distinct L'" "\<forall>r\<in>set L. on_token (heap s r)"
  shows "length (terminals s') = length (terminals s) + (length L - length L')" "length L' \<le> length L"
proof -
  from assms(1) obtain ts where t: "terminals s' = terminals s @ ts" "distinct ts" "set ts \<subseteq> set L - set L'"
    "\<forall>r\<in>set L - set L'. on_token (heap s r) \<longrightarrow> r \<in> set ts" "set L' \<subseteq> set L" by (auto simp: hands_def)
  have "set ts = set L - set L'" using t(3,4) assms(4) by auto
  then have "length ts = card (set L - set L')" using t(2) distinct_card by fastforce
  also have "\<dots> = length L - length L'" using t(5) assms(2,3) by (simp add: card_Diff_subset distinct_card)
  finally show "length (terminals s') = length (terminals s) + (length L - length L')" using t(1) by simp
  show "length L' \<le> length L" using t(5) assms(2,3) by (metis card_mono distinct_card List.finite_set)
qed

text \<open>
  A scheduler call of the loop that only hands requests over, on a state whose heap below is that
  of the calls: everything the engine promises stays.
\<close>

lemma engine_inv_call:
  assumes inv: "engine_inv en" and h: "hands (en_sched en) (members (en_sched en)) s (members s)"
    and good: "sched_good (cfg_sched (en_cfg en)) s"
  shows "engine_inv (with_sched now en s)"
proof -
  note i = engine_invD[OF inv]
  have ext: "log_ext (en_sched en) s" using h by (simp add: hands_def)
  note f = with_sched_simps[OF ext, of now]
  have dm: "distinct (members (en_sched en))" using i(3) by simp
  have dm': "distinct (members s)" using sched_inv_D(1)[OF sched_goodD(1)[OF good i(2)]] by (simp add: members_def)
  note hl = hands_length[OF h dm dm'] i(7)
  from h obtain ts where t: "terminals s = terminals (en_sched en) @ ts"
      "set ts \<subseteq> set (members (en_sched en)) - set (members s)"
      "set (members s) \<subseteq> set (members (en_sched en))" "\<forall>p. on_token (heap s p) = on_token (heap (en_sched en) p)"
    by (auto simp: hands_def)
  have q: "queued (with_sched now en s) = int (length (inbox en) + length (members s))"
    using with_sched_frame(2)[OF ext, of now] hl i(7,8) by simp
  have heap: "heap s r = heap (en_sched en) r" if "r \<in> set (inbox en)" for r
    using h that i(3) by (auto simp: hands_def)
  have d: "distinct (inbox en @ members s)" using i(3) dm' t(3) by auto
  have lt: "r < next_id en" if "r \<in> set (inbox en @ members s) \<union> set (terminals s)" for r
  proof -
    have "r \<in> set (inbox en @ members (en_sched en)) \<union> set (terminals (en_sched en))" using that t(1-3) by auto
    then show ?thesis by (rule i(4))
  qed
  have dj: "set (inbox en) \<inter> set (terminals s) = {}" using i(3,5) t(1,2) by auto
  have on: "\<forall>r\<in>set (members s). on_token (heap s r)" using i(7) t(3,4) by blast
  have fr: "\<forall>r\<in>set (inbox en). fresh_seq (heap s r)" using heap i(6) by simp
  have lt': "\<forall>r\<in>set (inbox en @ members s) \<union> set (terminals s). r < next_id en" using lt by blast
  show ?thesis using f q good d lt' dj on fr i(2,9) unfolding engine_inv_def Let_def by simp
qed

subsection \<open>Submission\<close>

lemma sched_good_heap:
  assumes "sched_good cfg s" "r \<notin> set (members s)"
  shows "sched_good cfg (s\<lparr>heap := (heap s)(r := q)\<rparr>)"
proof -
  have "sched_inv (s\<lparr>heap := (heap s)(r := q)\<rparr>)"
    by (rule sched_inv_frame[of s]) (use assms in \<open>auto simp: sched_good_def members_def\<close>)
  then show ?thesis using assms(1) by (simp add: sched_good_def told_once_def terminals_def members_def)
qed

lemma members_heap [simp]: "members (s\<lparr>heap := h\<rparr>) = members s" "terminals (s\<lparr>heap := h\<rparr>) = terminals s"
  by (simp_all add: members_def terminals_def)

lemma enqueue_inv:
  assumes inv: "engine_inv en" and p: "prompt \<noteq> []"
  shows "engine_inv (fst (enqueue ids prompt ps cb en))"
proof -
  note i = engine_invD[OF inv]
  let ?r = "next_id en" and ?s = "en_sched en"
  have new: "?r \<notin> set (inbox en @ members ?s) \<union> set (terminals ?s)" using i(4) by blast
  define q where "q = default_seq\<lparr>seq_id := ?r, tokens := prompt, prompt_len := int (length prompt),
                params := add_stop_ids ids ps, on_token := cb\<rparr>"
  have q: "fresh_seq q" using p by (simp add: q_def fresh_seq_def default_seq_def)
  have g: "sched_good (cfg_sched (en_cfg en)) (?s\<lparr>heap := (heap ?s)(?r := q)\<rparr>)"
    by (rule sched_good_heap[OF i(1)]) (use new in simp)
  have lt: "r < Suc ?r" if "r \<in> set (inbox en @ members ?s) \<union> set (terminals ?s)" for r using i(4)[OF that] by simp
  show ?thesis
    using i(2,3,5-9) g q new lt
    by (simp add: enqueue_def Let_def q_def[symmetric] engine_inv_def)
qed

lemma submit_inv:
  assumes "engine_inv en" "prompt \<noteq> []"
  shows "engine_inv (fst (submit ids prompt ps cb en))"
proof (cases "submit_refusal en")
  case (Some r)
  then show ?thesis using assms(1) by (simp add: submit_def count_refusal_def engine_inv_def)
next
  case None
  then show ?thesis using enqueue_inv[OF assms, of ids ps cb] by (simp add: submit_def)
qed

subsection \<open>The inbox\<close>

lemma adopt_inv:
  assumes inv: "engine_inv en" and b: "inbox en = r # rs"
  shows "engine_inv ((adopt now en r)\<lparr>inbox := rs\<rparr>)" "inbox (adopt now en r) = inbox en"
    "abort_inbox (adopt now en r) = abort_inbox en"
proof -
  note i = engine_invD[OF inv]
  let ?s = "en_sched en"
  let ?en = "en\<lparr>user_cb := (user_cb en)(r := on_token (heap ?s r))\<rparr>" and ?s1 = "upd_seq ?s r (on_token_update (\<lambda>_. True))"
  let ?s2 = "sched_add now ?s1 r"
  have new: "r \<notin> set (members ?s)" "r \<notin> set (terminals ?s)" "distinct rs" "r \<notin> set rs" using i(3,5) b by auto
  have ev: "events ?s2 = events ?s" by (simp add: sched_add_def upd_seq_def Let_def)
  have tm: "terminals ?s2 = terminals ?s" using ev by (simp add: terminals_def)
  have mem: "set (members ?s2) = insert r (set (members ?s))" "length (members ?s2) = Suc (length (members ?s))"
    by (simp_all add: members_def sched_add_def Let_def insert_commute)
  have "?s1 = ?s\<lparr>heap := (heap ?s)(r := (heap ?s r)\<lparr>on_token := True\<rparr>)\<rparr>" by (simp add: upd_seq_def)
  then have "sched_good (cfg_sched (en_cfg en)) ?s1" using sched_good_heap[OF i(1) new(1)] by simp
  then have g1: "sched_inv ?s1" "sc_cfg ?s = cfg_sched (en_cfg en)" "sane_cfg (cfg_sched (en_cfg en))"
    using sched_goodD(2,5)[OF i(1,2)] by (simp_all add: sched_good_def)
  have fr: "fresh_seq (heap ?s r)" using i(6) b by simp
  have inv2: "sched_inv ?s2"
    by (rule sched_add_inv[OF g1(1)])
      (use new(1) fr in \<open>simp_all add: members_def fresh_seq_def num_generated_def gen_cap_def\<close>)
  have "distinct (members ?s2)" using sched_inv_D(1)[OF inv2] by (simp add: members_def)
  moreover have "told_once ?s2" using sched_goodD(4)[OF i(1,2)] mem(1) tm new(2) by (simp add: told_once_def)
  ultimately have g2: "sched_good (cfg_sched (en_cfg en)) ?s2" "distinct (members ?s2)"
    using inv2 g1 by (simp_all add: sched_good_def)
  have ext: "log_ext (en_sched ?en) ?s2" using ev by (simp add: log_ext_def)
  note f = with_sched_simps[OF ext, of now]
  have q: "queued (with_sched now ?en ?s2) = queued en" using with_sched_frame(2)[OF ext, of now] tm by simp
  have ad: "adopt now en r = with_sched now ?en ?s2" by (simp add: adopt_def Let_def)
  show "inbox (adopt now en r) = inbox en" "abort_inbox (adopt now en r) = abort_inbox en" using f ad by simp_all
  have hp: "heap ?s2 p = (if p = r then (heap ?s r)\<lparr>on_token := True, status := Waiting, t_arrival := now\<rparr> else heap ?s p)" for p
    by (simp add: sched_add_def Let_def)
  have dj: "set rs \<inter> set (members ?s2) = {}" using i(3) b new(4) mem(1) by auto
  show "engine_inv ((adopt now en r)\<lparr>inbox := rs\<rparr>)"
    unfolding engine_inv_def Let_def ad
    using f q g2 i(2,4-9) b new mem tm hp dj by (auto simp: disjoint_iff)
qed

lemma wrapped_callback_inbox:
  "wrapped_callback now (en\<lparr>inbox := b\<rparr>) e = (wrapped_callback now en e)\<lparr>inbox := b\<rparr>"
  by (simp add: wrapped_callback_def Let_def)

lemma adopt_inbox: "adopt now (en\<lparr>inbox := b\<rparr>) r = (adopt now en r)\<lparr>inbox := b\<rparr>"
proof -
  have "foldl (wrapped_callback now) (e\<lparr>inbox := b\<rparr>) es = (foldl (wrapped_callback now) e es)\<lparr>inbox := b\<rparr>" for e es
    by (induction es arbitrary: e) (simp_all add: wrapped_callback_inbox)
  note w = this
  have c: "en\<lparr>inbox := b, user_cb := u, en_sched := s\<rparr> = (en\<lparr>user_cb := u, en_sched := s\<rparr>)\<lparr>inbox := b\<rparr>" for u s
    by (cases en) simp
  have "foldl (wrapped_callback now) (en\<lparr>inbox := b, user_cb := u, en_sched := s\<rparr>) es =
      (foldl (wrapped_callback now) (en\<lparr>user_cb := u, en_sched := s\<rparr>) es)\<lparr>inbox := b\<rparr>" for u s es
    unfolding c by (rule w)
  then show ?thesis by (simp add: adopt_def with_sched_def Let_def)
qed

lemma adopt_all_inv:
  "engine_inv (en\<lparr>inbox := rs\<rparr>) \<Longrightarrow> engine_inv ((foldl (adopt now) en rs)\<lparr>inbox := []\<rparr>)"
proof (induction rs arbitrary: en)
  case (Cons r rs)
  let ?en = "en\<lparr>inbox := r # rs\<rparr>"
  have "(adopt now en r)\<lparr>inbox := rs\<rparr> = (adopt now ?en r)\<lparr>inbox := rs\<rparr>"
    by (simp add: adopt_inbox)
  then have "engine_inv ((adopt now en r)\<lparr>inbox := rs\<rparr>)" using adopt_inv(1)[OF Cons.prems, of r rs now] by simp
  then show ?case using Cons.IH by simp
qed simp

lemma abort_call_inv:
  assumes "engine_inv en"
  shows "engine_inv (with_sched now en (sched_abort now (en_sched en) i))"
proof (rule engine_inv_call[OF assms])
  note i = engine_invD[OF assms]
  note g = sched_goodD[OF i(1,2)]
  have d: "distinct (members (en_sched en))" using i(3) by simp
  show h: "hands (en_sched en) (members (en_sched en)) (sched_abort now (en_sched en) i) (members (sched_abort now (en_sched en) i))"
    by (rule sched_abort_hands[OF d])
  show "sched_good (cfg_sched (en_cfg en)) (sched_abort now (en_sched en) i)"
    using sched_abort_inv[OF g(1)] told_once_hands[OF g(4) h] g i(1) by (simp add: sched_good_def)
qed

lemma abort_all_inv:
  "engine_inv en \<Longrightarrow> engine_inv (foldl (\<lambda>e i. with_sched now e (sched_abort now (en_sched e) i)) en ids)"
  by (induction ids arbitrary: en) (simp_all add: abort_call_inv)

lemma engine_inv_frame:
  assumes "engine_inv en" "en_cfg en' = en_cfg en" "en_sched en' = en_sched en" "inbox en' = inbox en"
    "next_id en' = next_id en" "queued en' = queued en" "invariants_ok en'"
  shows "engine_inv en'"
  using assms by (simp add: engine_inv_def Let_def)

lemma take_inbox_inv:
  assumes "engine_inv en"
  shows "engine_inv (take_inbox now en)"
proof -
  have "engine_inv (en\<lparr>inbox := inbox en\<rparr>)" using assms by simp
  note i = abort_all_inv[OF adopt_all_inv[OF this, of now], of now "abort_inbox ((foldl (adopt now) en (inbox en))\<lparr>inbox := []\<rparr>)"]
  show ?thesis unfolding take_inbox_def Let_def by (rule engine_inv_frame[OF i]) (use engine_invD(9)[OF i] in simp_all)
qed

lemma refresh_gauges_inv: "engine_inv en \<Longrightarrow> engine_inv (refresh_gauges en)"
  by (rule engine_inv_frame[of en])
    (auto simp: refresh_gauges_def num_used_blocks_def num_available_blocks_def engine_inv_def Let_def)

lemma mark_progress_inv: "engine_inv en \<Longrightarrow> engine_inv (mark_progress now en)"
  by (rule engine_inv_frame) (auto simp: mark_progress_def engine_inv_def Let_def)

subsection \<open>The step\<close>

text \<open>What the loop relies on of the forward pass and the sampler: a token per logits row.\<close>

definition compute_ok :: "(sched \<Rightarrow> step_input \<Rightarrow> (string + token list)) \<Rightarrow> bool" where
  "compute_ok compute \<longleftrightarrow> (\<forall>s st sampled. counters_ok st \<longrightarrow> compute s st = Inr sampled \<longrightarrow>
     int (length sampled) = num_logits st \<and> (\<forall>t\<in>set sampled. 0 \<le> t))"

lemma schedule_call_inv:
  assumes inv: "engine_inv en" and sch: "schedule now (en_sched en) = Inr (s, st)"
  shows "engine_inv (with_sched now en s)" "step_ok s st" "sched_good (cfg_sched (en_cfg en)) s"
proof -
  note i = engine_invD[OF inv]
  note g = sched_goodD[OF i(1,2)]
  have sp: "sched_inv s" "step_ok s st" "sc_cfg s = sc_cfg (en_sched en)"
    using schedule_spec[OF g(1,2), of now] sch by auto
  show "step_ok s st" by (rule sp(2))
  have h: "hands (en_sched en) (members (en_sched en)) s (members s)" by (rule schedule_hands[OF g(1,2,3) sch])
  show good: "sched_good (cfg_sched (en_cfg en)) s"
    using sp told_once_hands[OF g(4) h] g i(1) by (simp add: sched_good_def)
  show "engine_inv (with_sched now en s)" by (rule engine_inv_call[OF inv h good])
qed

lemma done_call_inv:
  assumes inv: "engine_inv en" and ok: "step_ok (en_sched en) st" and n: "int (length sampled) = num_logits st"
    and nn: "\<forall>t\<in>set sampled. 0 \<le> t"
  shows "\<exists>s. on_step_done now (en_sched en) st sampled = Inr s \<and> engine_inv (with_sched now en s)"
proof -
  note i = engine_invD[OF inv]
  note g = sched_goodD[OF i(1,2)]
  obtain s where s: "on_step_done now (en_sched en) st sampled = Inr s" "sched_inv s" "sc_cfg s = sc_cfg (en_sched en)"
    using on_step_done_spec[OF g(1) ok, of sampled now] n by auto
  have h: "hands (en_sched en) (members (en_sched en)) s (members s)"
    by (rule on_step_done_hands[OF g(1) ok _ g(3) s(1) nn]) (use n in simp)
  have "sched_good (cfg_sched (en_cfg en)) s" using s told_once_hands[OF g(4) h] g i(1) by (simp add: sched_good_def)
  then show ?thesis using engine_inv_call[OF inv h] s(1) by blast
qed

text \<open>
  A turn of the loop: it keeps the invariant, and the only exception that can leave it is the
  backend's.
\<close>

definition result_engine :: "loop_result \<Rightarrow> engine" where
  "result_engine r = (case r of Loop_Break en \<Rightarrow> en | Loop_Continue en \<Rightarrow> en | Loop_Threw msg en \<Rightarrow> en)"

lemma compute_step_inv:
  assumes inv: "engine_inv en" and c: "compute_ok compute"
  shows "engine_inv (result_engine (compute_step compute t0 t1 en)) \<and>
    (\<forall>msg en'. compute_step compute t0 t1 en = Loop_Threw msg en' \<longrightarrow> (\<exists>s st. compute s st = Inl msg))"
proof -
  note i = engine_invD[OF inv]
  note g = sched_goodD[OF i(1,2)]
  obtain s st where sch: "schedule t0 (en_sched en) = Inr (s, st)" using schedule_spec[OF g(1,2), of t0] by blast
  note sc = schedule_call_inv[OF inv sch]
  let ?en1 = "with_sched t0 en s"
  have ext: "log_ext (en_sched en) s" using schedule_hands[OF g(1,2,3) sch] by (simp add: hands_def)
  have es: "en_sched ?en1 = s" using with_sched_simps[OF ext] by simp
  show ?thesis
  proof (cases "step_empty st")
    case True
    then show ?thesis using sch refresh_gauges_inv[OF sc(1)] mark_progress_inv[OF refresh_gauges_inv[OF sc(1)]]
      by (simp add: compute_step_def result_engine_def Let_def)
  next
    case ne: False
    show ?thesis
    proof (cases "compute s st")
      case (Inl msg)
      then show ?thesis using sch ne sc(1) by (auto simp: compute_step_def result_engine_def Let_def)
    next
      case (Inr sampled)
      have "int (length sampled) = num_logits st" "\<forall>t\<in>set sampled. 0 \<le> t"
        using c Inr sc(2) unfolding compute_ok_def step_ok_def by blast+
      then obtain s2 where s2: "on_step_done t1 s st sampled = Inr s2" "engine_inv (with_sched t1 ?en1 s2)"
        using done_call_inv[OF sc(1), of st sampled t1] sc(2) es by auto
      define en2 where "en2 = mark_progress t1 (with_sched t1 ?en1 s2)"
      have en2: "engine_inv en2" unfolding en2_def by (rule mark_progress_inv[OF s2(2)])
      have up: "engine_inv (refresh_gauges (en2\<lparr>en_metrics := m, window_tokens := w, window_start := v\<rparr>))"
        "engine_inv (refresh_gauges (en2\<lparr>en_metrics := m, window_tokens := w\<rparr>))" for m w v
        by (rule refresh_gauges_inv, rule engine_inv_frame[OF en2], simp_all add: engine_invD(9)[OF en2])+
      show ?thesis
        using sch ne Inr s2(1) up
        by (simp add: compute_step_def result_engine_def Let_def en2_def[symmetric])
    qed
  qed
qed

lemma loop_body_inv:
  assumes inv: "engine_inv en" and c: "compute_ok compute"
  shows "engine_inv (result_engine (loop_body compute t0 t1 en)) \<and>
    (\<forall>msg en'. loop_body compute t0 t1 en = Loop_Threw msg en' \<longrightarrow> (\<exists>s st. compute s st = Inl msg))"
  using compute_step_inv[OF take_inbox_inv[OF inv, of t0] c] refresh_gauges_inv[OF mark_progress_inv[OF take_inbox_inv[OF inv, of t0]]]
  by (simp add: loop_body_def result_engine_def Let_def)

subsection \<open>The engine as a transition system\<close>

inductive engine_step :: "(sched \<Rightarrow> step_input \<Rightarrow> (string + token list)) \<Rightarrow> engine \<Rightarrow> engine \<Rightarrow> bool" for compute where
  client_submit: "prompt \<noteq> [] \<Longrightarrow> engine_step compute en (fst (submit ids prompt ps cb en))"
| client_abort: "engine_step compute en (engine_abort i en)"
| control_start: "engine_step compute en (start en)"
| control_stop: "engine_step compute en (stop_request en)"
| control_drain: "engine_step compute en (drain_request en)"
| control_drained: "engine_step compute en (drain_finished en)"
| loop_start: "engine_step compute en (loop_begin now en)"
| loop_turn: "en_running en \<Longrightarrow> loop_enter compute t0 t1 en = Inl r \<Longrightarrow> engine_step compute en (result_engine r)"
| loop_sleep: "en_running en \<Longrightarrow> loop_enter compute t0 t1 en = Inr en' \<Longrightarrow> engine_step compute en en'"
| loop_woken: "engine_step compute en (result_engine (loop_wake compute t0 t1 en))"

definition engine_start :: "engine \<Rightarrow> bool" where
  "engine_start en \<longleftrightarrow> (\<exists>cuda cfg. sane_cfg (cfg_sched cfg) \<and> continuous (cfg_sched cfg) \<and> engine_new cuda cfg = Inr en)"

definition engine_good :: "(sched \<Rightarrow> step_input \<Rightarrow> (string + token list)) \<Rightarrow> engine \<Rightarrow> bool" where
  "engine_good compute en \<longleftrightarrow> (compute_ok compute \<longrightarrow> engine_inv en)"

lemma engine_new_inv:
  assumes "engine_start en"
  shows "engine_inv en"
proof -
  from assms obtain cuda cfg where n: "engine_new cuda cfg = Inr en" and c: "sane_cfg (cfg_sched cfg)" "continuous (cfg_sched cfg)"
    by (auto simp: engine_start_def)
  then obtain kv m where kv: "kv_init (cfg_num_blocks cfg) (cfg_block_size cfg) (cfg_prefix_caching cfg) = Inr kv"
    "build_model cuda (backend cfg) = Inr m" by (auto simp: engine_new_def split: sum.splits)
  have "sched_good (cfg_sched cfg) (sched_init (cfg_sched cfg) kv (\<lambda>_. default_seq))"
    using scheduling.init_good[of "cfg_sched cfg"] kv(1) c(1) unfolding sched_start_def by blast
  moreover have "members (sched_init (cfg_sched cfg) kv h) = []" "terminals (sched_init (cfg_sched cfg) kv h) = []" for h
    by (simp_all add: members_def terminals_def sched_init_def)
  ultimately show "engine_inv en" using n kv c(2) by (auto simp: engine_new_def engine_inv_def Let_def)
qed

lemma flags_inv:
  assumes "engine_inv en"
  shows "engine_inv (start en)" "engine_inv (stop_request en)" "engine_inv (drain_request en)" "engine_inv (engine_abort i en)"
    "engine_inv (drain_finished en)" "engine_inv (loop_begin now en)"
  by (rule engine_inv_frame[OF assms];
      simp add: start_def stop_request_def drain_request_def engine_abort_def drain_finished_def loop_begin_def
        mark_progress_def engine_invD(9)[OF assms])+

lemma loop_enter_inv:
  assumes inv: "engine_inv en" and c: "compute_ok compute"
  shows "loop_enter compute t0 t1 en = Inl r \<Longrightarrow> engine_inv (result_engine r)"
    "loop_enter compute t0 t1 en = Inr en' \<Longrightarrow> engine_inv en'"
    "engine_inv (result_engine (loop_wake compute t0 t1 en))"
  using loop_body_inv[OF inv c, of t0 t1] mark_progress_inv[OF inv, of t0] refresh_gauges_inv[OF mark_progress_inv[OF inv, of t0]] inv
  by (auto simp: loop_enter_def loop_wake_def result_engine_def[of "Loop_Break en"]
      result_engine_def[of "Loop_Continue e" for e] split: if_splits)

interpretation serving: safe_system engine_start "engine_step compute" "engine_good compute"
proof unfold_locales
  fix en assume "engine_start en"
  then show "engine_good compute en" by (simp add: engine_good_def engine_new_inv)
next
  fix en en' assume g: "engine_good compute en" and st: "engine_step compute en en'"
  show "engine_good compute en'"
    unfolding engine_good_def
  proof
    assume c: "compute_ok compute"
    then have inv: "engine_inv en" using g by (simp add: engine_good_def)
    show "engine_inv en'" using st
      by cases (use flags_inv[OF inv] submit_inv[OF inv] loop_enter_inv[OF inv c] in auto)
  qed
qed

end
