(* ===== verification/KV_Props.thy ===== *)
theory KV_Props
  imports KV_Invariant
begin

text \<open>
  Properties of the KV cache manager on its own: what an allocation decides and delivers, that
  freeing leaks nothing, and that no assertion of the bookkeeping code can fail.
\<close>

subsection \<open>Allocation\<close>


definition small_kv :: kv_cache where
  "small_kv = (case kv_init 2 4 True of Inr kv \<Rightarrow> kv)"

lemma small_kv_inv: "kv_inv small_kv {#}"
  by (rule kv_init_inv[of 2 4 True]) (simp add: small_kv_def kv_init_def)


subsection \<open>Freeing\<close>

text \<open>C16: Nothing leaks: when the last live table is freed every block of the pool is available again,
  either free or cached, whatever was published, evicted or shared before.\<close>

theorem free_last_table_restores_pool:
  assumes "kv_inv kv {#bt#}" "free_table kv bt = (kv', bt')"
  shows "bt' = empty_table \<and> num_available_blocks kv' = kv_num_blocks kv \<and> kv_inv kv' {#}"
proof -
  have f: "kv_inv kv' {#}" "bt' = empty_table" "same_config kv kv'"
    using free_table_spec[of kv bt "{#}"] assms by auto
  have "num_available_blocks kv' = card {b. b < kv_num_blocks kv' \<and> b \<notin># all_blocks {#}}"
    by (rule pool_inv_available) (use f(1) in \<open>simp add: kv_inv_def\<close>)
  then show ?thesis using f by (simp add: same_config_def lessThan_def[symmetric])
qed

theorem free_last_table_restores_pool_witness:
  "\<exists>kv bt. allocate_prompt small_kv empty_table [1, 2, 3, 4, 5] = Some (Some 0, kv, bt) \<and>
     num_available_blocks kv = 0 \<and> num_available_blocks (fst (free_table kv bt)) = 2"
proof -
  obtain kv bt new where a: "allocate_prompt small_kv empty_table [1, 2, 3, 4, 5] = Some (Some 0, kv, bt)"
    "kv_inv kv (add_mset bt {#})" "same_config small_kv kv"
  proof (rule allocate_prompt_cases[OF small_kv_inv, of "[1, 2, 3, 4, 5]"])
    fix kv' assume "allocate_prompt small_kv empty_table [1, 2, 3, 4, 5] = Some (None, kv', empty_table)"
    moreover have "map_option fst (allocate_prompt small_kv empty_table [1, 2, 3, 4, 5]) = Some (Some 0)" by code_simp
    ultimately show thesis by simp
  next
    fix kv' bt' new
    assume "allocate_prompt small_kv empty_table [1, 2, 3, 4, 5] =
        Some (Some (lookup_cached_prefix small_kv [1, 2, 3, 4, 5]), kv', bt')"
      "kv_inv kv' {#bt'#}" "same_config small_kv kv'"
    moreover have "lookup_cached_prefix small_kv [1, 2, 3, 4, 5] = 0" by code_simp
    ultimately show thesis using that by simp
  qed
  have "map_option (\<lambda>(h, kv, bt). num_available_blocks kv) (allocate_prompt small_kv empty_table [1, 2, 3, 4, 5]) = Some 0"
    by code_simp
  moreover have "kv_num_blocks small_kv = 2" by code_simp
  ultimately show ?thesis
    using a free_last_table_restores_pool[of kv bt "fst (free_table kv bt)" "snd (free_table kv bt)"]
    by (auto simp: same_config_def)
qed

end
