(* ===== verification/Engine_Props.thy ===== *)
theory Engine_Props
  imports Engine_Inv KV_Props
begin

text \<open>
  The properties of the engine: the queue counter, the exceptions of the step loop, what
  validation guarantees, and what stopping does not do.
\<close>

subsection \<open>A small engine\<close>

definition demo_engine_config :: engine_config where
  "demo_engine_config = default_engine_config\<lparr>cfg_num_blocks := 2, cfg_block_size := 2, cfg_prefix_caching := False,
     cfg_sched := demo_cfg\<rparr>"

definition demo_engine :: engine where
  "demo_engine = get (engine_new False demo_engine_config)"

definition echo :: "sched \<Rightarrow> step_input \<Rightarrow> (string + token list)" where
  "echo s st = Inr (replicate (nat (num_logits st)) 3)"

definition demo_submit :: "token list \<Rightarrow> engine \<Rightarrow> engine" where
  "demo_submit prompt en = fst (submit [0] prompt default_params True en)"

lemma echo_ok: "compute_ok echo"
  by (auto simp: compute_ok_def echo_def counters_ok_def)

lemma demo_engine_start: "engine_start demo_engine"
proof -
  have "isl (engine_new False demo_engine_config) = False" by code_simp
  then have "engine_new False demo_engine_config = Inr demo_engine"
    by (cases "engine_new False demo_engine_config") (auto simp: demo_engine_def get_def)
  then show ?thesis
    unfolding engine_start_def
    by (intro exI[of _ False] exI[of _ demo_engine_config])
      (simp add: demo_engine_config_def sane_cfg_def demo_cfg_def default_sched_config_def)
qed

definition demo_engine2 :: engine where
  "demo_engine2 = demo_submit [7] (start demo_engine)"

lemma demo_engine2_reach: "reachable engine_start (engine_step compute) demo_engine2"
proof -
  have "reachable engine_start (engine_step compute) demo_engine"
    using demo_engine_start by (rule reachable.reach_init)
  then have "reachable engine_start (engine_step compute) (start demo_engine)"
    using engine_step.control_start by (rule reachable.reach_step)
  moreover have "engine_step compute (start demo_engine) demo_engine2"
    unfolding demo_engine2_def demo_submit_def by (rule engine_step.client_submit) simp
  ultimately show ?thesis by (rule reachable.reach_step)
qed

subsection \<open>The queue counter\<close>




definition broken :: "sched \<Rightarrow> step_input \<Rightarrow> (string + token list)" where
  "broken s st = Inl ''CUDA error''"


subsection \<open>Gauges\<close>

text \<open>The accounting check of \<open>refresh_gauges\<close> passes in every state whatsoever, also in one whose
  lists are corrupt, because the used count is computed as the difference it is then compared
  with: the gauge is always 1 and the health report can never show a violated invariant.\<close>

theorem accounting_check_vacuous:
  "kv_accounting_ok (en_metrics (refresh_gauges en)) = 1 \<and> invariants_ok (refresh_gauges en) = invariants_ok en"
  by (simp add: refresh_gauges_def Let_def num_used_blocks_def num_available_blocks_def)

subsection \<open>Validation\<close>

text \<open>\<open>validate\<close> accepts a request if and only if its prompt is not empty, it asks for at least one
  token, and prompt and generated tokens together fit both the KV pool and the model's context.\<close>

theorem validate_accepts_iff:
  "validate en model_max n ps = '''' \<longleftrightarrow>
   0 < n \<and> 0 < max_tokens ps \<and> int n + max_tokens ps \<le> int (capacity_tokens (sc_kv (en_sched en))) \<and>
   int n + max_tokens ps \<le> int model_max"
proof (cases "n = 0 \<or> max_tokens ps \<le> 0")
  case True
  then show ?thesis by (auto simp: validate_def)
next
  case False
  then have "int (n + nat (max_tokens ps)) = int n + max_tokens ps" by simp
  then show ?thesis using False by (auto simp: validate_def Let_def)
qed

lemma blocks_needed_capacity:
  assumes "0 < bs" "n \<le> k * bs"
  shows "blocks_needed n bs \<le> k"
proof (rule ccontr)
  assume "\<not> ?thesis"
  then have "Suc k * bs \<le> blocks_needed n bs * bs" by (intro mult_le_mono1) simp
  then show False using blocks_needed_tight[OF assms(1), of n] assms(2) by simp
qed

subsection \<open>Who is rejected\<close>

lemma alloc_in_empty_pool:
  assumes inv: "kv_inv kv ts" and none: "\<forall>t\<in>#ts. blocks t = []" and n: "length toks \<le> capacity_tokens kv"
  shows "\<exists>c kv' bt'. allocate_prompt kv empty_table toks = Some (Some c, kv', bt')"
proof -
  let ?need = "blocks_needed (length toks) (kv_block_size kv)"
  have all: "all_blocks ts = {#}" using none by (induction ts) auto
  have p: "pool_inv kv {#}" using inv all by (simp add: kv_inv_def)
  have av: "num_available_blocks kv = kv_num_blocks kv" using pool_inv_available[OF p] by (simp add: lessThan_def[symmetric])
  have bs: "0 < kv_block_size kv" using p by (simp add: pool_inv_def)
  have need: "?need \<le> kv_num_blocks kv"
    using n blocks_needed_capacity[OF bs] by (simp add: capacity_tokens_def)
  have "lru_hits kv (cached_hits kv toks) \<le> length (cached_hits kv toks)" by (simp add: lru_hits_def)
  moreover have "length (cached_hits kv toks) \<le> ?need"
    using cached_hits_length[of kv toks] blocks_needed_full[OF bs] by (meson le_trans)
  ultimately have enough: "\<not> num_available_blocks kv < ?need - length (cached_hits kv toks) + lru_hits kv (cached_hits kv toks)"
    using need av by linarith
  show ?thesis
    using inv by (cases rule: allocate_prompt_cases[of kv ts toks]) (use enough in auto)
qed

lemma admit_candidate_running: "admit_candidate s st b i r = (ok, s', st', b') \<Longrightarrow> set (running s) \<subseteq> set (running s')"
  by (auto simp: admit_candidate_def Let_def split: if_splits)

lemma admit_loop_running:
  "admit_loop now s st b i n = Inr (ok, s', st', b') \<Longrightarrow> set (running s) \<subseteq> set (running s')"
proof (induction now s st b i n rule: admit_loop.induct)
  case (2 now s st budget i n)
  then show ?case
    by (fastforce simp: Let_def split: if_splits option.splits prod.splits dest: admit_candidate_running)
qed simp

lemma admit_all_running: "admit_all now s st b = Inr (s', st', b') \<Longrightarrow> set (running s) \<subseteq> set (running s')"
proof (induction now s st b rule: admit_all.induct)
  case (1 now s st b)
  obtain ok s1 st1 b1 where one: "admit_one now s st b = Inr (ok, s1, st1, b1)"
    using "1.prems" by (subst (asm) admit_all.simps) (auto split: sum.splits prod.splits)
  have q: "set (running s) \<subseteq> set (running s1)"
    using one admit_loop_running[of now s st b 0 "admission_limit s" ok s1 st1 b1] by (auto simp: admit_one_def split: if_splits)
  show ?case
  proof (cases ok)
    case True
    then have "admit_all now s1 st1 b1 = Inr (s', st', b')" using one "1.prems" by (subst (asm) admit_all.simps) simp
    then show ?thesis using "1.IH"[OF one refl _ refl refl] True q by auto
  next
    case False
    then show ?thesis using one "1.prems" q by (subst (asm) admit_all.simps) simp
  qed
qed

lemma idle_place: "running s = [] \<Longrightarrow> place_decode s [] [] 0 = (s, [], [])"
  by (simp add: place_decode.simps)

text \<open>The head of the queue of an idle scheduler whose prompt fits the pool gets its blocks.\<close>

lemma head_admitted:
  assumes fil: "filling s st dec" and idle: "running s = []" and w: "waiting s = r # rest"
    and cfg: "watermark_blocks (sc_cfg s) \<le> 0" "1 \<le> max_num_seqs (sc_cfg s)" "1 \<le> prefill_chunk_size (sc_cfg s)"
    and b: "0 < budget" and n: "num_tokens (heap s r) \<le> capacity_tokens (sc_kv s)"
  shows "\<exists>s' st' b'. admit_one now s st budget = Inr (True, s', st', b') \<and> running s' = [r]"
proof -
  have inv: "sched_inv s" using fil by (simp add: filling_def)
  have rw: "r \<in> set (waiting s)" using w by simp
  have e: "block_tab (heap s r) = empty_table" using sched_inv_D(3)[OF inv rw] by (simp add: wait_ok_def)
  have fits: "admission_fits s r" using cfg(1) idle by (auto simp: admission_fits_def Let_def)
  have none: "\<forall>t\<in>#image_mset (tabs s) (mset (waiting s @ running s)). blocks t = []"
    using sched_inv_D(3)[OF inv] idle by (auto simp: tabs_def wait_ok_def)
  obtain c kv bt where al: "allocate_prompt (sc_kv s) empty_table (tokens (heap s r)) = Some (Some c, kv, bt)"
    using alloc_in_empty_pool[OF sched_inv_D(2)[OF inv] none, of "tokens (heap s r)"] n by (auto simp: num_tokens_def)
  have k: "kv_block_size kv = kv_block_size (sc_kv s)" "owners_inv (set_kv_table s r kv bt) (waiting s @ running s)"
    "bt_num_blocks bt = blocks_needed (num_tokens (heap s r)) (kv_block_size (sc_kv s))"
    "c = num_committed bt * kv_block_size (sc_kv s)" "c \<le> num_tokens (heap s r)"
    using alloc_waiting[OF inv rw refl] al e by auto
  have lim: "int (length (running s)) < max_num_seqs (sc_cfg s)" using idle cfg(2) by simp
  obtain m where m: "admission_limit s = Suc m"
    using w by (cases "admission_limit s") (auto simp: admission_limit_def split: if_splits)
  have "admit_one now s st budget = admit_loop now s st budget 0 (Suc m)" using w b lim m by (simp add: admit_one_def)
  also have "\<dots> = Inr (admit_candidate (start_seq now s r kv bt c) st budget 0 r)"
    using w e fits al by (simp add: Let_def bt_empty_def)
  finally have one: "admit_one now s st budget = Inr (admit_candidate (start_seq now s r kv bt c) st budget 0 r)" .
  have i: "0 < length (waiting s)" "r = waiting s ! 0" using w by simp_all
  obtain s' st' b' where "admit_candidate (start_seq now s r kv bt c) st budget 0 r = (True, s', st', b')"
    "running s' = running s @ [r]"
    by (rule admit_started[OF fil i k(2,1,3,4,5) b lim cfg(3), of now])
  then show ?thesis using one idle by auto
qed

text \<open>With the default watermark, \<open>schedule\<close> rejects the head of the queue for one reason only: an
  idle scheduler always takes the head request into the batch if its tokens fit the whole pool.
  Together with \<open>validate\<close>, an accepted request is never turned away for its size.\<close>

theorem idle_admits_fitting_head:
  assumes "reachable (sched_start cfg) sched_step s" "continuous cfg" "watermark_blocks cfg \<le> 0"
    "1 \<le> max_num_seqs cfg" "1 \<le> max_num_batched_tokens cfg" "max_queue_wait_seconds cfg \<le> 0"
    "running s = []" "waiting s = r # rest" "num_tokens (heap s r) \<le> capacity_tokens (sc_kv s)"
  shows "\<exists>s' st. schedule now s = Inr (s', st) \<and> r \<in> set (running s')"
proof -
  note ri = reachable_inv[OF assms(1)]
  let ?s0 = "open_step s" and ?B = "max_num_batched_tokens cfg"
  let ?s1 = "count_wait ?s0 (waiting s)"
  have inv1: "sched_inv ?s1" by (rule count_wait_inv, rule sched_inv_frame[OF ri(1)]) simp_all
  have fil: "filling ?s1 empty_step []" using inv1 by (simp add: filling_empty)
  have "num_tokens (heap ?s1 r) = num_tokens (heap s r)"
    using count_wait_core[of ?s0 "waiting s" r] by (simp add: core_eq_def num_tokens_def)
  then obtain s2 st2 b2 where one: "admit_one now ?s1 empty_step ?B = Inr (True, s2, st2, b2)" "running s2 = [r]"
    using head_admitted[OF fil, of r rest ?B now] assms ri by (auto simp: sane_cfg_def)
  have chunk: "1 \<le> prefill_chunk_size (sc_cfg ?s1)" using ri(2,3) by (simp add: sane_cfg_def)
  obtain s3 st3 b3 where all: "admit_all now ?s1 empty_step ?B = Inr (s3, st3, b3)"
    using admit_all_spec[OF fil _ chunk, of ?B now] assms(5) by auto
  then have "admit_all now s2 st2 b2 = Inr (s3, st3, b3)" using one(1) by (subst (asm) admit_all.simps) simp
  then have r3: "r \<in> set (running s3)" using admit_all_running one(2) by fastforce
  have ex: "expire_waiting now ?s0 = ?s0" using assms(6) ri(2) by (simp add: expire_waiting_def)
  have sp: "split_mid ?s0 = []" "split_decode ?s0 = []" using assms(7) by (simp_all add: split_mid_def split_decode_def)
  have "admission_phase now ?s0 empty_step ?B [] = Inr (close_batch s3 b3, st3)"
    using all r3 by (auto simp: admission_phase_def reject_head_def split: list.split)
  then have "schedule now s = Inr (close_batch s3 b3, st3)"
    using ri(2) assms(2,5,7) by (simp add: schedule_def Let_def sp idle_place trim_decode_def ex)
  then show ?thesis using r3 by simp
qed

theorem idle_admits_fitting_head_witness:
  "\<exists>s' st. schedule 2 demo1 = Inr (s', st) \<and> 0 \<in> set (running s')"
proof (rule idle_admits_fitting_head[OF demo_reach1])
  have "waiting demo1 = [0]" "running demo1 = []" "num_tokens (heap demo1 0) = 3" "capacity_tokens (sc_kv demo1) = 8"
    by code_simp+
  then show "running demo1 = []" "waiting demo1 = 0 # []" "num_tokens (heap demo1 0) \<le> capacity_tokens (sc_kv demo1)"
    by simp_all
qed (simp_all add: demo_cfg_def default_sched_config_def)

subsection \<open>Stopping\<close>

definition stranded_engine :: engine where
  "stranded_engine =
     (let en = demo_submit [1] (demo_submit [1, 2, 3, 4, 5] (demo_submit [1, 2, 3, 4, 5] (start demo_engine)))
      in stop_request (result_engine (loop_body echo 5 6 en)))"

text \<open>Stopping can leave a client waiting for ever: with two requests larger than the pool ahead of a
  small one, the exit path of the loop releases the second large request, sees an empty step and
  gives up, and the third request (id 3) stays queued with no terminal callback, although the
  loop is meant to abort whatever is left.\<close>

theorem exit_strands_request:
  "map_option (\<lambda>en. (waiting (en_sched en), map cb_ref (client_log en), queued en)) (loop_exit 9 7 stranded_engine) =
   Some ([3], [1, 2], 1)"
  by code_simp

text \<open>The exit path aborts what it can see and never grows: each non-empty step it schedules is aborted
  slice by slice, which takes at least one request away.\<close>

lemma en_sched_with [simp]: "en_sched (with_sched now e s) = s"
  using callbacks_frame[of "e\<lparr>en_sched := s\<rparr>" now "drop (length (events (en_sched e))) (events s)"]
  by (simp add: with_sched_def same_but_counters_def)

lemma sched_abort_load:
  "load (sched_abort now s i) \<le> load s"
  "r \<in> set (waiting s @ running s) \<Longrightarrow> seq_id (heap s r) = i \<Longrightarrow> load (sched_abort now s i) < load s"
  by (auto simp: sched_abort_def load_def find_erase_None split: option.split dest!: find_erase_Some)

definition abort_each :: "time_point \<Rightarrow> ('a \<Rightarrow> seq_ref) \<Rightarrow> engine \<Rightarrow> 'a list \<Rightarrow> engine" where
  "abort_each now ref en xs = foldl (\<lambda>e x. with_sched now e (sched_abort now (en_sched e) (seq_id (heap (en_sched e) (ref x))))) en xs"

lemma abort_each_sched:
  assumes "sched_inv (en_sched en)"
  shows "sched_inv (en_sched (abort_each now ref en xs))" "sc_cfg (en_sched (abort_each now ref en xs)) = sc_cfg (en_sched en)"
    "load (en_sched (abort_each now ref en xs)) \<le> load (en_sched en)"
    "xs = x # ys \<Longrightarrow> ref x \<in> set (waiting (en_sched en) @ running (en_sched en)) \<Longrightarrow> load (en_sched (abort_each now ref en xs)) < load (en_sched en)"
proof -
  have all: "sched_inv (en_sched (abort_each now ref e zs)) \<and> sc_cfg (en_sched (abort_each now ref e zs)) = sc_cfg (en_sched e) \<and>
      load (en_sched (abort_each now ref e zs)) \<le> load (en_sched e)" if "sched_inv (en_sched e)" for e zs
    using that
  proof (induction zs arbitrary: e)
    case (Cons z zs)
    let ?e = "with_sched now e (sched_abort now (en_sched e) (seq_id (heap (en_sched e) (ref z))))"
    have "abort_each now ref e (z # zs) = abort_each now ref ?e zs" by (simp add: abort_each_def)
    then show ?case
      using Cons.IH[of ?e] sched_abort_inv[OF Cons.prems] sched_abort_load(1)[of now "en_sched e"] le_trans by fastforce
  qed (simp add: abort_each_def)
  show "sched_inv (en_sched (abort_each now ref en xs))" "sc_cfg (en_sched (abort_each now ref en xs)) = sc_cfg (en_sched en)"
    "load (en_sched (abort_each now ref en xs)) \<le> load (en_sched en)" using all[OF assms] by blast+
  assume x: "xs = x # ys" "ref x \<in> set (waiting (en_sched en) @ running (en_sched en))"
  let ?e = "with_sched now en (sched_abort now (en_sched en) (seq_id (heap (en_sched en) (ref x))))"
  have "abort_each now ref en xs = abort_each now ref ?e ys" by (simp add: x(1) abort_each_def)
  then show "load (en_sched (abort_each now ref en xs)) < load (en_sched en)"
    using all[of ?e ys] sched_abort_inv[OF assms] sched_abort_load(2)[OF x(2) refl, of now] by (simp add: le_less_trans)
qed

lemma release_waiting_returns:
  "sched_inv (en_sched en) \<Longrightarrow> sane_cfg (sc_cfg (en_sched en)) \<Longrightarrow> load (en_sched en) < n \<Longrightarrow> \<exists>en'. release_waiting n now en = Some en'"
proof (induction n arbitrary: en)
  case (Suc n)
  obtain s st where sch: "schedule now (en_sched en) = Inr (s, st)" "sched_inv s" "step_ok s st" "sc_cfg s = sc_cfg (en_sched en)"
    "load s \<le> load (en_sched en)"
    using schedule_spec[OF Suc.prems(1,2), of now] by blast
  define en2 where "en2 = abort_each now sl_seq (with_sched now en s) (slices st)"
  have step: "waiting (en_sched en) \<noteq> [] \<Longrightarrow>
      release_waiting (Suc n) now en = (if step_empty st then Some en2 else release_waiting n now en2)"
    by (subst release_waiting.simps) (simp add: sch(1) en2_def abort_each_def Let_def)
  have inv2: "sched_inv (en_sched en2)" "sc_cfg (en_sched en2) = sc_cfg (en_sched en)"
    using abort_each_sched(1,2)[of "with_sched now en s"] sch(2,4) by (simp_all add: en2_def)
  show ?case
  proof (cases "waiting (en_sched en) = [] \<or> step_empty st")
    case True
    then show ?thesis using step by (cases "waiting (en_sched en) = []") (simp_all add: release_waiting.simps[of "Suc n"])
  next
    case False
    then obtain sl sls where sl: "slices st = sl # sls" by (cases "slices st") (auto simp: step_empty_def)
    then have "sl_seq sl \<in> set (waiting s @ running s)" using sch(3) by (simp add: step_ok_def slices_ok_def slice_ok_def Let_def)
    then have "load (en_sched en2) < load s"
      using abort_each_sched(4)[of "with_sched now en s" _ sl sls] sch(2) sl by (simp add: en2_def)
    then show ?thesis using Suc.IH[OF inv2(1)] inv2(2) Suc.prems sch(5) step False by simp
  qed
qed simp

text \<open>Stopping never looks at the inbox: a request that was accepted but not yet taken over when the
  loop ends stays in the inbox, whatever the exit path releases.\<close>

theorem exit_keeps_inbox:
  assumes "loop_exit n now en = Some en'"
  shows "inbox en' = inbox en"
proof -
  have ib: "inbox (foldl (wrapped_callback now) e es) = inbox e" for e es
    using callbacks_frame[of e now es] by (simp add: same_but_counters_def)
  have w: "inbox (with_sched now e s) = inbox e" for e s using ib by (simp add: with_sched_def)
  have fl: "inbox (foldl (\<lambda>e x. with_sched now e (f e x)) e xs) = inbox e" for f e and xs :: "'b list"
    by (induction xs arbitrary: e) (simp_all add: w)
  have rw: "release_waiting n now e = Some e' \<Longrightarrow> inbox e' = inbox e" for e e'
  proof (induction n arbitrary: e)
    case 0
    then show ?case by (simp add: release_waiting.simps split: if_splits)
  next
    case (Suc n)
    show ?case
    proof (cases "waiting (en_sched e) = []")
      case True
      then show ?thesis using Suc.prems by (simp add: release_waiting.simps)
    next
      case False
      then show ?thesis using Suc.prems Suc.IH
        by (subst (asm) release_waiting.simps) (auto simp: Let_def fl w split: sum.splits prod.splits if_splits)
    qed
  qed
  obtain e1 where "release_waiting n now (abort_running now en) = Some e1" "en' = refresh_gauges e1"
    using assms by (auto simp: loop_exit_def)
  then show ?thesis using rw[of "abort_running now en" e1] by (simp add: abort_running_def fl refresh_gauges_def Let_def)
qed

theorem exit_keeps_inbox_witness:
  "\<exists>en'. loop_exit 9 7 (stop_request demo_engine2) = Some en' \<and> inbox en' = [1]"
proof -
  have "inbox (stop_request demo_engine2) = [1]" "loop_exit 9 7 (stop_request demo_engine2) \<noteq> None" by code_simp+
  then show ?thesis using exit_keeps_inbox by auto
qed

text \<open>C21: Stopping comes to an end: from every state the engine can reach (continuous batching), the exit
  path of the loop returns, after at most as many scheduling calls as the scheduler holds requests
  and one more; it leaves no exception behind and does not look at the inbox.\<close>

theorem exit_returns:
  assumes "compute_ok compute" "reachable engine_start (engine_step compute) en" "load (en_sched en) < n"
  shows "\<exists>en'. loop_exit n now en = Some en' \<and> inbox en' = inbox en"
proof -
  have "engine_inv en" using serving.reachable_good[OF assms(2)] assms(1) by (simp add: engine_good_def)
  then have g: "sched_inv (en_sched en)" "sane_cfg (sc_cfg (en_sched en))"
    using engine_invD(1) by (auto simp: sched_good_def)
  have a: "abort_running now en = abort_each now (\<lambda>r. r) en (running (en_sched en))" by (simp add: abort_running_def abort_each_def)
  have "\<exists>en'. release_waiting n now (abort_running now en) = Some en'"
    unfolding a
  proof (rule release_waiting_returns)
    note l = abort_each_sched(1-3)[OF g(1), of now "\<lambda>r. r" "running (en_sched en)"]
    show "sched_inv (en_sched (abort_each now (\<lambda>r. r) en (running (en_sched en))))" by (rule l(1))
    show "sane_cfg (sc_cfg (en_sched (abort_each now (\<lambda>r. r) en (running (en_sched en)))))" unfolding l(2) by (rule g(2))
    show "load (en_sched (abort_each now (\<lambda>r. r) en (running (en_sched en)))) < n" using l(3) assms(3) by simp
  qed
  then obtain en' where "loop_exit n now en = Some en'" by (auto simp: loop_exit_def)
  then show ?thesis using exit_keeps_inbox by blast
qed

theorem exit_returns_witness:
  "\<exists>en'. loop_exit 2 7 demo_engine2 = Some en' \<and> inbox en' = inbox demo_engine2"
proof -
  have "load (en_sched demo_engine2) < 2" by code_simp
  then show ?thesis by (rule exit_returns[OF echo_ok demo_engine2_reach])
qed

end
