(* ===== verification/Unicode_Text.thy ===== *)
theory Unicode_Text
  imports Unicode_Tables
begin

text \<open>
  The code point helpers of \<open>src/src/tokenizer/tokenizer.cpp\<close>: the binary search over the range
  tables, the classes it decides, and the UTF-8 codec. A \<open>std::string\<close> is its list of bytes
  (\<open>8 word\<close>), a code point a \<open>uint32_t\<close> (\<open>32 word\<close>), and a cast to \<open>char\<close> keeps the low
  eight bits. The lemmas show that the search decides membership, that decoding an encoded code
  point gives it back for every code point the four-byte form can hold, and that decoding a text
  always moves forward.
\<close>

unbundle bit_operations_syntax

type_synonym bytes = "byte list"

subsection \<open>Range tables\<close>

function in_ranges_loop :: "u32 \<Rightarrow> (u32 \<times> u32) list \<Rightarrow> nat \<Rightarrow> nat \<Rightarrow> bool" where
  "in_ranges_loop cp r lo hi =
    (if lo < hi then
       (let mid = (lo + hi) div 2 in
        if cp < fst (r ! mid) then in_ranges_loop cp r lo mid
        else if snd (r ! mid) < cp then in_ranges_loop cp r (mid + 1) hi
        else True)
     else False)"
  by pat_completeness auto
termination
  by (relation "measure (\<lambda>(cp, r, lo, hi). hi - lo)") auto

declare in_ranges_loop.simps [simp del]

definition in_ranges :: "u32 \<Rightarrow> (u32 \<times> u32) list \<Rightarrow> bool" where
  "in_ranges cp r = in_ranges_loop cp r 0 (length r)"

definition is_letter :: "u32 \<Rightarrow> bool" where
  "is_letter cp = in_ranges cp kLetterRanges"

definition is_number :: "u32 \<Rightarrow> bool" where
  "is_number cp = in_ranges cp kNumberRanges"

definition is_space :: "u32 \<Rightarrow> bool" where
  "is_space cp = in_ranges cp kSpaceRanges"

definition is_newline :: "u32 \<Rightarrow> bool" where
  "is_newline cp = (cp = 13 \<or> cp = 10)"

subsection \<open>UTF-8\<close>

text \<open>The declared length of a sequence with lead byte \<open>c\<close>, and the code point it holds. The code
  only looks at the top of the lead byte and never checks the continuation bytes.\<close>

definition utf8_len :: "byte \<Rightarrow> nat" where
  "utf8_len c = (if 0xF0 \<le> c then 4 else if 0xE0 \<le> c then 3 else if 0xC0 \<le> c then 2 else 1)"

definition utf8_decode :: "bytes \<Rightarrow> nat \<Rightarrow> nat \<times> u32" where
  "utf8_decode s i =
    (let c = s ! i in
     if c < 0x80 then (1, ucast c)
     else
       let len = utf8_len c in
       if len = 1 \<or> length s < i + len then (1, 0xFFFD)
       else (len, foldl (\<lambda>cp k. push_bit 6 cp OR (ucast (s ! (i + k)) AND 0x3F))
                    (ucast c AND drop_bit (len + 1) 0xFF) [1..<len]))"

definition utf8_encode :: "u32 \<Rightarrow> bytes" where
  "utf8_encode cp =
    (if cp < 0x80 then [ucast cp]
     else if cp < 0x800 then [ucast (0xC0 OR drop_bit 6 cp), ucast (0x80 OR (cp AND 0x3F))]
     else if cp < 0x10000 then
       [ucast (0xE0 OR drop_bit 12 cp), ucast (0x80 OR (drop_bit 6 cp AND 0x3F)),
        ucast (0x80 OR (cp AND 0x3F))]
     else
       [ucast (0xF0 OR drop_bit 18 cp), ucast (0x80 OR (drop_bit 12 cp AND 0x3F)),
        ucast (0x80 OR (drop_bit 6 cp AND 0x3F)), ucast (0x80 OR (cp AND 0x3F))])"

lemma utf8_decode_pos: "0 < fst (utf8_decode s i)"
  by (auto simp: utf8_decode_def utf8_len_def Let_def)

function to_codepoints_from :: "bytes \<Rightarrow> nat \<Rightarrow> u32 list" where
  "to_codepoints_from s i =
    (if i < length s then
       (case utf8_decode s i of (len, cp) \<Rightarrow> cp # to_codepoints_from s (i + len))
     else [])"
  by pat_completeness auto
termination
proof (relation "measure (\<lambda>(s, i). length s - i)", goal_cases)
  case (2 s i len cp)
  then have "0 < len" using utf8_decode_pos[of s i] by (metis fst_conv)
  then show ?case using \<open>i < length s\<close> by simp
qed simp

declare to_codepoints_from.simps [simp del]

definition to_codepoints :: "bytes \<Rightarrow> u32 list" where
  "to_codepoints s = to_codepoints_from s 0"

subsection \<open>The search decides membership\<close>

definition in_some_range :: "u32 \<Rightarrow> (u32 \<times> u32) list \<Rightarrow> bool" where
  "in_some_range cp r = list_ex (\<lambda>(a, b). a \<le> cp \<and> cp \<le> b) r"

lemma in_some_range_nth:
  "in_some_range cp r \<longleftrightarrow> (\<exists>k<length r. fst (r ! k) \<le> cp \<and> cp \<le> snd (r ! k))"
  by (simp add: in_some_range_def list_ex_length case_prod_unfold)

lemma ex_above:
  fixes lo m :: nat
  assumes "\<And>k. k \<le> m \<Longrightarrow> \<not> P k" "lo \<le> m"
  shows "(\<exists>k\<ge>m + 1. Q k \<and> P k) \<longleftrightarrow> (\<exists>k\<ge>lo. Q k \<and> P k)"
proof
  assume "\<exists>k\<ge>lo. Q k \<and> P k"
  then obtain k where "Q k" "P k" by blast
  moreover have "m + 1 \<le> k" using assms(1)[of k] \<open>P k\<close> by linarith
  ultimately show "\<exists>k\<ge>m + 1. Q k \<and> P k" by blast
qed (meson assms(2) add_leE le_trans)

lemma in_ranges_loop_iff:
  assumes "ascending r" "hi \<le> length r"
  shows "in_ranges_loop cp r lo hi \<longleftrightarrow> (\<exists>k. lo \<le> k \<and> k < hi \<and> fst (r ! k) \<le> cp \<and> cp \<le> snd (r ! k))"
  using assms
proof (induction cp r lo hi rule: in_ranges_loop.induct)
  case (1 cp r lo hi)
  let ?m = "(lo + hi) div 2"
  let ?in = "\<lambda>k. fst (r ! k) \<le> cp \<and> cp \<le> snd (r ! k)"
  note gap = ascending_nth_less[OF "1.prems"(1)]
  have mid_le: "lo < hi \<Longrightarrow> ?m \<le> hi" and le_mid: "lo < hi \<Longrightarrow> lo \<le> ?m" by simp_all
  consider (stop) "\<not> lo < hi" | (left) "lo < hi" "cp < fst (r ! ?m)"
    | (right) "lo < hi" "\<not> cp < fst (r ! ?m)" "snd (r ! ?m) < cp"
    | (found) "lo < hi" "\<not> cp < fst (r ! ?m)" "\<not> snd (r ! ?m) < cp" by blast
  then show ?case
  proof cases
    case left
    have own: "fst (r ! k) \<le> snd (r ! k)" if "k < hi" for k
      using ascending_nonempty[OF "1.prems"(1), of "fst (r ! k)" "snd (r ! k)"] that "1.prems"(2) by simp
    have "\<not> ?in k" if "?m \<le> k" "k < hi" for k
      using gap[of ?m k] own[of ?m] left that "1.prems"(2) by (cases "k = ?m") auto
    then have "(\<exists>k\<ge>lo. k < ?m \<and> ?in k) \<longleftrightarrow> (\<exists>k\<ge>lo. k < hi \<and> ?in k)"
      using left(1) by (meson less_le_trans linorder_not_le mid_le)
    moreover have "in_ranges_loop cp r lo hi = in_ranges_loop cp r lo ?m"
      using left by (subst in_ranges_loop.simps) (simp add: Let_def)
    moreover have "?m \<le> length r" using mid_le[OF left(1)] "1.prems"(2) by linarith
    ultimately show ?thesis using left "1.IH"(1)[OF left(1) refl left(2) "1.prems"(1)] by metis
  next
    case right
    have own: "fst (r ! k) \<le> snd (r ! k)" if "k < hi" for k
      using ascending_nonempty[OF "1.prems"(1), of "fst (r ! k)" "snd (r ! k)"] that "1.prems"(2) by simp
    have m: "?m < hi" "?m < length r" using right(1) "1.prems"(2) by auto
    have "snd (r ! k) < cp" if "k \<le> ?m" for k
      using gap[of k ?m] own[of ?m] right m that by (cases "k = ?m") auto
    then have "\<not> ?in k" if "k \<le> ?m" for k using that by (simp add: linorder_not_le)
    then have "(\<exists>k\<ge>?m + 1. k < hi \<and> ?in k) \<longleftrightarrow> (\<exists>k\<ge>lo. k < hi \<and> ?in k)"
      using le_mid[OF right(1)] by (rule ex_above)
    moreover have "in_ranges_loop cp r lo hi = in_ranges_loop cp r (?m + 1) hi"
      using right by (subst in_ranges_loop.simps) (simp add: Let_def)
    ultimately show ?thesis
      using "1.IH"(2)[OF right(1) refl right(2,3) "1.prems"] by metis
  next
    case found
    then show ?thesis by (subst in_ranges_loop.simps) (auto simp: Let_def intro!: exI[of _ ?m])
  qed (simp add: in_ranges_loop.simps)
qed

lemma in_ranges_member: "ascending r \<Longrightarrow> in_ranges cp r = in_some_range cp r"
  by (simp add: in_ranges_def in_ranges_loop_iff in_some_range_nth)

subsection \<open>Decoding what was encoded\<close>

text \<open>The four-byte form holds 21 bits; the code encodes a larger value by dropping high bits.\<close>

lemma utf8_encode_nonempty [simp]: "utf8_encode cp \<noteq> []"
  by (simp add: utf8_encode_def)

lemma word_lt_bits:
  fixes x :: "'a::len word"
  assumes "x < 2 ^ n" "n < LENGTH('a)" "n \<le> k"
  shows "\<not> bit x k"
proof -
  have "uint x < 2 ^ n" using assms(1,2) by transfer (simp add: take_bit_of_exp)
  then have "take_bit n (uint x) = uint x" by (simp add: take_bit_int_eq_self)
  then have "\<not> bit (uint x) k" using assms(3) by (metis bit_take_bit_iff linorder_not_le)
  then show ?thesis by (auto simp: bit_uint_iff dest: bit_imp_le_length)
qed

text \<open>A byte cast keeps the low bits that the decoder's masks select, and the marker bits vanish.\<close>

lemma ucast_byte_mask: "k \<le> 8 \<Longrightarrow> (ucast (ucast x :: byte) :: u32) AND mask k = x AND mask k" for x :: u32
  by (rule bit_word_eqI) (auto simp: bit_simps)

lemma byte_masks:
  "(ucast (ucast x :: byte) :: u32) AND 0x3F = x AND mask 6"
  "(ucast (ucast x :: byte) :: u32) AND 0x1F = x AND mask 5"
  "(ucast (ucast x :: byte) :: u32) AND 0xF = x AND mask 4"
  "(ucast (ucast x :: byte) :: u32) AND 7 = x AND mask 3" for x :: u32
  using ucast_byte_mask[of 6 x] ucast_byte_mask[of 5 x] ucast_byte_mask[of 4 x] ucast_byte_mask[of 3 x]
  by (simp_all add: mask_eq_exp_minus_1)

lemma marker_masks:
  "(0x80 OR y) AND mask 6 = y AND mask 6" "(0xC0 OR y) AND mask 5 = y AND mask 5"
  "(0xE0 OR y) AND mask 4 = y AND mask 4" "(0xF0 OR y) AND mask 3 = y AND mask 3" for y :: u32
  by (simp_all add: bit.conj_disj_distrib2 mask_eq_exp_minus_1)

lemma low_six: "(x AND 0x3F) AND mask 6 = x AND mask 6" for x :: u32
  by (simp add: mask_eq_exp_minus_1 and.assoc)

lemma utf8_two:
  assumes "cp < 2 ^ 11"
  shows "push_bit 6 (drop_bit 6 cp AND mask 5) OR (cp AND mask 6) = (cp :: u32)"
proof (rule bit_word_eqI)
  fix n assume n: "n < LENGTH(32)"
  have "n < 11 \<or> \<not> bit cp n" using word_lt_bits[of cp 11 n] assms by (cases "n < 11") simp_all
  then show "bit (push_bit 6 (drop_bit 6 cp AND mask 5) OR (cp AND mask 6)) n = bit cp n"
    using n by (cases "n < 6") (auto simp: bit_simps)
qed

lemma utf8_three:
  assumes "cp < 2 ^ 16"
  shows "push_bit 6 (push_bit 6 (drop_bit 12 cp AND mask 4) OR (drop_bit 6 cp AND mask 6)) OR
    (cp AND mask 6) = (cp :: u32)" (is "?l = _")
proof (rule bit_word_eqI)
  fix n assume n: "n < LENGTH(32)"
  have "n < 16 \<or> \<not> bit cp n" using word_lt_bits[of cp 16 n] assms by (cases "n < 16") simp_all
  then show "bit ?l n = bit cp n"
    using n by (cases "n < 6"; cases "n < 12"; cases "n < 18") (auto simp: bit_simps)
qed

lemma utf8_four:
  assumes "cp < 2 ^ 21"
  shows "push_bit 6 (push_bit 6 (push_bit 6 (drop_bit 18 cp AND mask 3) OR (drop_bit 12 cp AND mask 6)) OR
      (drop_bit 6 cp AND mask 6)) OR (cp AND mask 6) = (cp :: u32)" (is "?l = _")
proof (rule bit_word_eqI)
  fix n assume n: "n < LENGTH(32)"
  have "n < 21 \<or> \<not> bit cp n" using word_lt_bits[of cp 21 n] assms by (cases "n < 21") simp_all
  then show "bit ?l n = bit cp n"
    using n by (cases "n < 6"; cases "n < 12"; cases "n < 18") (auto simp: bit_simps)
qed

text \<open>The marker and the payload of a byte do not overlap, so the byte's value is their sum.\<close>

lemma or_is_plus:
  fixes a y :: u32
  assumes "y < 2 ^ k" "k < 32"
  shows "push_bit k a OR y = push_bit k a + y"
proof (rule disjunctive_add[symmetric])
  fix n show "\<not> bit (push_bit k a) n \<or> \<not> bit y n"
    using word_lt_bits[of y k n] assms by (cases "k \<le> n") (auto simp: bit_simps)
qed

lemma unat_payload_byte:
  fixes y a :: u32
  assumes "unat y < 2 ^ k" "k < 8" "unat (push_bit k a) + 2 ^ k \<le> 256"
  shows "unat (ucast (push_bit k a OR y) :: byte) = unat (push_bit k a) + unat y"
proof -
  have "unat (2 ^ k :: u32) = 2 ^ k" using assms(2) by transfer (simp add: take_bit_of_exp nat_power_eq)
  then have "y < 2 ^ k" using assms(1) by (simp add: word_less_nat_alt)
  then have "push_bit k a OR y = push_bit k a + y" using or_is_plus assms(2) by simp
  moreover have "unat (push_bit k a + y) = unat (push_bit k a) + unat y"
    using assms(1,3) by (simp add: unat_word_ariths)
  ultimately show ?thesis using assms(1,3) by (simp add: unsigned_ucast_eq take_bit_eq_mod)
qed

lemma unat_drop: "unat (drop_bit n x) = unat x div 2 ^ n" for x :: u32
  by (metis drop_bit_eq_div unat_drop_bit_eq)

lemma unat_low_six: "unat (x AND 0x3F) = unat x mod 64" for x :: u32
proof -
  have "x AND 0x3F = take_bit 6 x" by (simp add: take_bit_eq_mask mask_eq_exp_minus_1)
  moreover have "unat (take_bit 6 x) = unat x mod 2 ^ 6" by (simp add: take_bit_eq_mod unat_mod_distrib)
  ultimately show ?thesis by simp
qed

lemma unat_cont: "unat (ucast (0x80 OR (x AND 0x3F)) :: byte) = 0x80 + unat x mod 64" for x :: u32
  using unat_payload_byte[of "x AND 0x3F" 6 2] by (simp add: unat_low_six)

lemma unat_lead:
  fixes cp :: u32
  shows "cp < 0x800 \<Longrightarrow> unat (ucast (0xC0 OR drop_bit 6 cp) :: byte) = 0xC0 + unat cp div 64"
    and "cp < 0x10000 \<Longrightarrow> unat (ucast (0xE0 OR drop_bit 12 cp) :: byte) = 0xE0 + unat cp div 4096"
    and "cp < 0x200000 \<Longrightarrow> unat (ucast (0xF0 OR drop_bit 18 cp) :: byte) = 0xF0 + unat cp div 262144"
  using unat_payload_byte[of "drop_bit 6 cp" 5 6] unat_payload_byte[of "drop_bit 12 cp" 4 14]
    unat_payload_byte[of "drop_bit 18 cp" 3 30]
  by (simp_all add: unat_drop word_less_nat_alt)

lemma lead_lengths:
  fixes cp :: u32
  shows "cp < 0x800 \<Longrightarrow> \<not> cp < 0x80 \<Longrightarrow> utf8_len (ucast (0xC0 OR drop_bit 6 cp)) = 2"
    and "cp < 0x10000 \<Longrightarrow> \<not> cp < 0x800 \<Longrightarrow> utf8_len (ucast (0xE0 OR drop_bit 12 cp)) = 3"
    and "cp < 0x200000 \<Longrightarrow> \<not> cp < 0x10000 \<Longrightarrow> utf8_len (ucast (0xF0 OR drop_bit 18 cp)) = 4"
  by (simp_all add: utf8_len_def word_le_nat_alt word_less_nat_alt unat_lead)

lemma utf8_decode_multi:
  assumes "1 < utf8_len c" "utf8_len c = Suc (length cs)" "0x80 \<le> c"
  shows "utf8_decode (pre @ c # cs @ post) (length pre) =
    (utf8_len c, foldl (\<lambda>cp b. push_bit 6 cp OR (ucast b AND 0x3F))
       (ucast c AND drop_bit (utf8_len c + 1) 0xFF) cs)"
proof -
  have cs: "cs = map (\<lambda>k. (pre @ c # cs @ post) ! (length pre + k)) [1..<utf8_len c]"
    unfolding assms(2) by (rule nth_equalityI) (auto simp: nth_append simp del: upt_Suc)
  have "utf8_decode (pre @ c # cs @ post) (length pre) =
    (utf8_len c, foldl (\<lambda>cp k. push_bit 6 cp OR (ucast ((pre @ c # cs @ post) ! (length pre + k)) AND 0x3F))
       (ucast c AND drop_bit (utf8_len c + 1) 0xFF) [1..<utf8_len c])"
    using assms by (simp add: utf8_decode_def Let_def)
  also have "foldl (\<lambda>cp k. push_bit 6 cp OR (ucast ((pre @ c # cs @ post) ! (length pre + k)) AND 0x3F))
      (ucast c AND drop_bit (utf8_len c + 1) 0xFF) [1..<utf8_len c] =
    foldl (\<lambda>cp b. push_bit 6 cp OR (ucast b AND 0x3F)) (ucast c AND drop_bit (utf8_len c + 1) 0xFF)
      (map (\<lambda>k. (pre @ c # cs @ post) ! (length pre + k)) [1..<utf8_len c])"
    by (simp add: foldl_map)
  finally show ?thesis by (subst (asm) cs[symmetric])
qed

lemmas utf8_joins = byte_masks marker_masks low_six utf8_two utf8_three utf8_four

lemma utf8_decode_encode:
  assumes "cp < 0x200000"
  shows "utf8_decode (pre @ utf8_encode cp @ post) (length pre) = (length (utf8_encode cp), cp)"
proof -
  consider (one) "cp < 0x80" | (two) "\<not> cp < 0x80" "cp < 0x800"
    | (three) "\<not> cp < 0x800" "cp < 0x10000" | (four) "\<not> cp < 0x10000" by blast
  then show ?thesis
  proof cases
    case one
    then have "unat (ucast cp :: byte) = unat cp" "(ucast (ucast cp :: byte) :: u32) = cp"
      by (simp_all add: unsigned_ucast_eq take_bit_eq_mod unat_mod_distrib word_less_nat_alt
          word_eq_iff_unsigned[where ?'a=nat])
    then show ?thesis using one by (simp add: utf8_decode_def utf8_encode_def word_less_nat_alt)
  next
    case two
    let ?c = "ucast (0xC0 OR drop_bit 6 cp) :: byte" and ?cs = "[ucast (0x80 OR (cp AND 0x3F))] :: bytes"
    have e: "utf8_encode cp = ?c # ?cs" using two by (simp add: utf8_encode_def)
    show ?thesis
      using utf8_decode_multi[of ?c ?cs pre post] two
      by (simp add: e lead_lengths word_le_nat_alt unat_lead utf8_joins del: push_bit_and push_bit_or)
  next
    case three
    let ?c = "ucast (0xE0 OR drop_bit 12 cp) :: byte" and
      ?cs = "[ucast (0x80 OR (drop_bit 6 cp AND 0x3F)), ucast (0x80 OR (cp AND 0x3F))] :: bytes"
    have e: "utf8_encode cp = ?c # ?cs" using three by (simp add: utf8_encode_def word_less_nat_alt)
    show ?thesis
      using utf8_decode_multi[of ?c ?cs pre post] three
      by (simp add: e lead_lengths word_le_nat_alt unat_lead utf8_joins del: push_bit_and push_bit_or)
  next
    case four
    let ?c = "ucast (0xF0 OR drop_bit 18 cp) :: byte" and
      ?cs = "[ucast (0x80 OR (drop_bit 12 cp AND 0x3F)), ucast (0x80 OR (drop_bit 6 cp AND 0x3F)),
        ucast (0x80 OR (cp AND 0x3F))] :: bytes"
    have e: "utf8_encode cp = ?c # ?cs" using four by (simp add: utf8_encode_def word_less_nat_alt)
    show ?thesis
      using utf8_decode_multi[of ?c ?cs pre post] four assms
      by (simp add: e lead_lengths word_le_nat_alt unat_lead utf8_joins del: push_bit_and push_bit_or)
  qed
qed

text \<open>Whole texts: decoding the encoding of a list of code points gives the list.\<close>

definition utf8_text :: "u32 list \<Rightarrow> bytes" where
  "utf8_text cps = concat (map utf8_encode cps)"

lemma utf8_text_simps [simp]:
  "utf8_text [] = []" "utf8_text (c # cs) = utf8_encode c @ utf8_text cs"
  "utf8_text (xs @ ys) = utf8_text xs @ utf8_text ys"
  by (simp_all add: utf8_text_def)

lemma utf8_text_empty_iff [simp]: "utf8_text cps = [] \<longleftrightarrow> cps = []"
  by (cases cps) auto

lemma to_codepoints_from_text:
  "\<forall>c \<in> set cps. c < 0x200000 \<Longrightarrow> to_codepoints_from (pre @ utf8_text cps) (length pre) = cps"
proof (induction cps arbitrary: pre)
  case Nil
  then show ?case by (simp add: to_codepoints_from.simps)
next
  case (Cons c cps)
  have "length pre < length (pre @ utf8_text (c # cps))" by simp
  moreover have "utf8_decode (pre @ utf8_text (c # cps)) (length pre) = (length (utf8_encode c), c)"
    using utf8_decode_encode[of c pre "utf8_text cps"] Cons.prems by simp
  moreover have "to_codepoints_from ((pre @ utf8_encode c) @ utf8_text cps) (length (pre @ utf8_encode c)) = cps"
    using Cons.IH[of "pre @ utf8_encode c"] Cons.prems by simp
  ultimately show ?case by (subst to_codepoints_from.simps) (simp only: if_True prod.case append.assoc
      length_append utf8_text_simps)
qed

lemma to_codepoints_text: "\<forall>c \<in> set cps. c < 0x200000 \<Longrightarrow> to_codepoints (utf8_text cps) = cps"
  using to_codepoints_from_text[of cps "[]"] by (simp add: to_codepoints_def)

end
