(* ===== verification/Unicode_Classes.thy ===== *)
theory Unicode_Classes
  imports Unicode_Text
begin

text \<open>
  The facts about the three range tables that the splitter's rules rely on: no letter is a number
  or a line break, every line break is white space, and so is the blank. They are computed from
  the tables of \<open>src/src/tokenizer/unicode_tables.inc\<close>, by walking two ascending tables side by
  side.
\<close>

subsection \<open>The classes of the tables\<close>

fun apart :: "(u32 \<times> u32) list \<Rightarrow> (u32 \<times> u32) list \<Rightarrow> bool" where
  "apart [] ys = True"
| "apart xs [] = True"
| "apart ((a, b) # xs) ((c, d) # ys) =
    (if b < c then apart xs ((c, d) # ys) else if d < a then apart ((a, b) # xs) ys else False)"

lemma below_not_in: "ascending ((a, b) # rs) \<Longrightarrow> cp < a \<Longrightarrow> \<not> in_some_range cp ((a, b) # rs)"
proof (induction rs arbitrary: a b)
  case (Cons r rs)
  obtain c d where r: "r = (c, d)" by force
  then have "ascending ((c, d) # rs)" "cp < c" using Cons.prems by auto
  moreover have "\<not> a \<le> cp" using Cons.prems(2) by simp
  ultimately show ?case using Cons.IH[of c d] r by (simp add: in_some_range_def)
qed (simp add: in_some_range_def not_le)

lemma apart_disjoint:
  "apart xs ys \<Longrightarrow> ascending xs \<Longrightarrow> ascending ys \<Longrightarrow> \<not> (in_some_range cp xs \<and> in_some_range cp ys)"
proof (induction xs ys rule: apart.induct)
  case (3 a b xs c d ys)
  show ?case
  proof (cases "b < c")
    case True
    then have "\<not> (in_some_range cp xs \<and> in_some_range cp ((c, d) # ys))"
      using 3 ascending_tl by auto
    moreover have "cp < c \<Longrightarrow> \<not> in_some_range cp ((c, d) # ys)" using below_not_in 3 by blast
    ultimately show ?thesis using True by (force simp: in_some_range_def)
  next
    case False
    then have d: "d < a" using 3 by (simp split: if_splits)
    then have "\<not> (in_some_range cp ((a, b) # xs) \<and> in_some_range cp ys)"
      using 3 False ascending_tl by auto
    moreover have "cp < a \<Longrightarrow> \<not> in_some_range cp ((a, b) # xs)" using below_not_in 3 by blast
    ultimately show ?thesis using d by (force simp: in_some_range_def)
  qed
qed (simp_all add: in_some_range_def)

lemma in_some_range_append [simp]:
  "in_some_range cp (xs @ ys) \<longleftrightarrow> in_some_range cp xs \<or> in_some_range cp ys"
  by (simp add: in_some_range_def)

lemma letters_1_apart: "apart kLetterRanges_1 kNumberRanges"
  by (simp add: kLetterRanges_1_def kNumberRanges_def)

lemma letters_2_apart: "apart kLetterRanges_2 kNumberRanges"
  by (simp add: kLetterRanges_2_def kNumberRanges_def)

lemma letters_3_apart: "apart kLetterRanges_3 kNumberRanges"
  by (simp add: kLetterRanges_3_def kNumberRanges_def)

lemma letters_4_apart: "apart kLetterRanges_4 kNumberRanges"
  by (simp add: kLetterRanges_4_def kNumberRanges_def)

lemma letters_5_apart: "apart kLetterRanges_5 kNumberRanges"
  by (simp add: kLetterRanges_5_def kNumberRanges_def)

lemmas class_member =
  is_letter_def in_ranges_member[OF letters_ascending]
  is_number_def in_ranges_member[OF numbers_ascending]
  is_space_def in_ranges_member[OF spaces_ascending]

lemma letter_not_number: "is_letter cp \<Longrightarrow> \<not> is_number cp"
  unfolding class_member unfolding kLetterRanges_def
  using apart_disjoint[OF letters_1_apart letters_1_ascending(1) numbers_ascending]
    apart_disjoint[OF letters_2_apart letters_2_ascending(1) numbers_ascending]
    apart_disjoint[OF letters_3_apart letters_3_ascending(1) numbers_ascending]
    apart_disjoint[OF letters_4_apart letters_4_ascending(1) numbers_ascending]
    apart_disjoint[OF letters_5_apart letters_5_ascending(1) numbers_ascending]
  by auto

lemma letter_above: "is_letter cp \<Longrightarrow> 0x41 \<le> cp"
proof (rule ccontr)
  assume l: "is_letter cp" "\<not> 0x41 \<le> cp"
  obtain b rs where k: "kLetterRanges = (0x41, b) # rs"
    by (simp add: kLetterRanges_def kLetterRanges_1_def)
  have "\<not> in_some_range cp kLetterRanges"
    using below_not_in[of "0x41" b rs cp] letters_ascending k l(2) by (simp add: not_le)
  then show False using l(1) by (simp add: class_member)
qed

lemma letter_not_newline: "is_letter cp \<Longrightarrow> \<not> is_newline cp"
proof -
  have "\<not> 0x41 \<le> cp" if "is_newline cp" using that unfolding is_newline_def by (elim disjE) simp_all
  then show "is_letter cp \<Longrightarrow> \<not> is_newline cp" using letter_above by blast
qed

lemma newline_is_space: "is_newline cp \<Longrightarrow> is_space cp"
  unfolding class_member is_newline_def
  by (elim disjE) (simp_all add: in_some_range_def kSpaceRanges_def)

lemma blank_is_space: "is_space 0x20"
  unfolding class_member by (simp add: in_some_range_def kSpaceRanges_def)

end
