(* ===== verification/Pre_Tokenize.thy ===== *)
theory Pre_Tokenize
  imports Unicode_Classes
begin

text \<open>
  \<open>Tokenizer::pre_tokenize\<close> of \<open>src/src/tokenizer/tokenizer.cpp\<close>, the hand-written splitter of
  the byte-level family, index by index as the code scans. The comment above the C++ function
  gives the regular expression it implements; \<open>split_pattern\<close> below is that expression under an
  ordered backtracking semantics (the first alternative that matches wins, repetitions are
  greedy and give characters back), and the lemmas show that every piece the code cuts ends
  exactly where the expression's first match ends.
\<close>

subsection \<open>The code\<close>

text \<open>\<open>while (j < n && P(cps[j])) j++\<close>\<close>

function scan_while :: "(u32 \<Rightarrow> bool) \<Rightarrow> u32 list \<Rightarrow> nat \<Rightarrow> nat" where
  "scan_while P cps j = (if j < length cps \<and> P (cps ! j) then scan_while P cps (j + 1) else j)"
  by pat_completeness auto
termination
  by (relation "measure (\<lambda>(P, cps, j). length cps - j)") auto

declare scan_while.simps [simp del]

definition lower :: "u32 \<Rightarrow> u32" where
  "lower c = (if 65 \<le> c \<and> c \<le> 90 then c + 32 else c)"

definition is_punct :: "u32 \<Rightarrow> bool" where
  "is_punct c = (\<not> is_space c \<and> \<not> is_letter c \<and> \<not> is_number c)"

text \<open>Each rule of the loop gives the index at which the piece starting at \<open>i\<close> ends, if it applies.\<close>

definition contraction_end :: "u32 list \<Rightarrow> nat \<Rightarrow> nat option" where
  "contraction_end cps i =
    (if cps ! i = 39 \<and> i + 1 < length cps then
       (let c1 = lower (cps ! (i + 1));
            c2 = (if i + 2 < length cps then lower (cps ! (i + 2)) else 0) in
        if c1 = 115 \<or> c1 = 116 \<or> c1 = 109 \<or> c1 = 100 then Some (i + 2)
        else if (c1 = 114 \<and> c2 = 101) \<or> (c1 = 118 \<and> c2 = 101) \<or> (c1 = 108 \<and> c2 = 108) then Some (i + 3)
        else None)
     else None)"

definition letters_end :: "u32 list \<Rightarrow> nat \<Rightarrow> nat option" where
  "letters_end cps i =
    (let c = cps ! i in
     if \<not> is_newline c \<and> \<not> is_number c then
       (let j = (if \<not> is_letter c then i + 1 else i) in
        if j < length cps \<and> is_letter (cps ! j) then Some (scan_while is_letter cps j) else None)
     else None)"

definition punct_end :: "u32 list \<Rightarrow> nat \<Rightarrow> nat option" where
  "punct_end cps i =
    (let j = (if cps ! i = 32 then i + 1 else i) in
     if j < length cps \<and> is_punct (cps ! j)
     then Some (scan_while is_newline cps (scan_while is_punct cps j)) else None)"

definition last_newline :: "u32 list \<Rightarrow> nat \<Rightarrow> nat \<Rightarrow> nat option" where
  "last_newline cps i j = foldl (\<lambda>l k. if is_newline (cps ! k) then Some k else l) None [i..<j]"

definition space_end :: "u32 list \<Rightarrow> nat \<Rightarrow> nat" where
  "space_end cps i =
    (let j = scan_while is_space cps i in
     case last_newline cps i j of
       Some last_nl \<Rightarrow> last_nl + 1
     | None \<Rightarrow> if j < length cps \<and> 1 < j - i then j - 1 else j)"

definition piece_end :: "u32 list \<Rightarrow> nat \<Rightarrow> nat" where
  "piece_end cps i =
    (case contraction_end cps i of Some j \<Rightarrow> j
     | None \<Rightarrow> case letters_end cps i of Some j \<Rightarrow> j
     | None \<Rightarrow> if is_number (cps ! i) then i + 1
     else case punct_end cps i of Some j \<Rightarrow> j
     | None \<Rightarrow> if is_space (cps ! i) then space_end cps i else i + 1)"

definition emit :: "u32 list \<Rightarrow> nat \<Rightarrow> nat \<Rightarrow> bytes" where
  "emit cps a b = concat (map (\<lambda>k. utf8_encode (cps ! k)) [a..<b])"

subsection \<open>Every rule moves forward\<close>

lemma scan_while_eq: "scan_while P cps j = j + length (takeWhile P (drop j cps))"
proof (induction P cps j rule: scan_while.induct)
  case (1 P cps j)
  show ?case
  proof (cases "j < length cps")
    case True
    then have "drop j cps = cps ! j # drop (Suc j) cps" by (rule Cons_nth_drop_Suc[symmetric])
    then show ?thesis using 1 True by (subst scan_while.simps) simp
  qed (simp add: scan_while.simps)
qed

lemma scan_while_bounds: "j \<le> scan_while P cps j" "j \<le> length cps \<Longrightarrow> scan_while P cps j \<le> length cps"
proof -
  show "j \<le> scan_while P cps j" by (simp add: scan_while_eq)
  show "scan_while P cps j \<le> length cps" if "j \<le> length cps"
    using length_takeWhile_le[of P "drop j cps"] that by (simp add: scan_while_eq)
qed

lemma scan_while_step: "j < length cps \<Longrightarrow> P (cps ! j) \<Longrightarrow> j < scan_while P cps j"
  using scan_while_bounds(1)[of "Suc j" P cps] by (subst scan_while.simps) simp

lemma last_newline_Some:
  "last_newline cps i j = Some k \<Longrightarrow> i \<le> k \<and> k < j \<and> is_newline (cps ! k)"
  unfolding last_newline_def
  by (induction j) (auto split: if_splits)

lemma space_end_bounds:
  assumes "i < length cps" "is_space (cps ! i)"
  shows "i < space_end cps i" "space_end cps i \<le> length cps"
  using scan_while_step[of i cps is_space] scan_while_bounds(2)[of i cps is_space] assms
  by (auto simp: space_end_def Let_def split: option.splits dest!: last_newline_Some)

lemma letters_end_bounds:
  assumes "letters_end cps i = Some j" "i < length cps"
  shows "i < j" "j \<le> length cps"
  using assms scan_while_step[of i cps is_letter] scan_while_step[of "i + 1" cps is_letter]
    scan_while_bounds(2)[of i cps is_letter] scan_while_bounds(2)[of "i + 1" cps is_letter]
  by (auto simp: letters_end_def Let_def split: if_splits)

lemma punct_end_bounds:
  assumes "punct_end cps i = Some j" "i < length cps"
  shows "i < j" "j \<le> length cps"
proof -
  define k where "k = (if cps ! i = 32 then i + 1 else i)"
  then have k: "i \<le> k" "k < length cps" "is_punct (cps ! k)"
    "j = scan_while is_newline cps (scan_while is_punct cps k)"
    using assms(1) by (auto simp: punct_end_def Let_def split: if_splits)
  then have "k < scan_while is_punct cps k" "scan_while is_punct cps k \<le> length cps"
    using scan_while_step scan_while_bounds(2) by simp_all
  then show "i < j" "j \<le> length cps"
    using scan_while_bounds[where j = "scan_while is_punct cps k" and P = is_newline and cps = cps] k by auto
qed

lemma contraction_end_bounds:
  "contraction_end cps i = Some j \<Longrightarrow> i < j \<and> j \<le> length cps"
  by (auto simp: contraction_end_def Let_def lower_def split: if_splits)

lemma piece_end_bounds:
  assumes "i < length cps"
  shows "i < piece_end cps i \<and> piece_end cps i \<le> length cps"
  using assms contraction_end_bounds[of cps i] letters_end_bounds[of cps i] punct_end_bounds[of cps i]
    space_end_bounds[of i cps]
  by (auto simp: piece_end_def split: option.splits)

text \<open>The main loop: one piece per turn until the text is used up.\<close>

function pre_tokenize_from :: "u32 list \<Rightarrow> nat \<Rightarrow> bytes list" where
  "pre_tokenize_from cps i =
    (if i < length cps
     then emit cps i (piece_end cps i) # pre_tokenize_from cps (piece_end cps i)
     else [])"
  by pat_completeness auto
termination
proof (relation "measure (\<lambda>(cps, i). length cps - i)", goal_cases)
  case (2 cps i)
  then have "i < piece_end cps i" "i < length cps" using piece_end_bounds by blast+
  then show ?case by (simp add: diff_less_mono2)
qed simp

declare pre_tokenize_from.simps [simp del]

definition pre_tokenize :: "bytes \<Rightarrow> bytes list" where
  "pre_tokenize text = pre_tokenize_from (to_codepoints text) 0"

subsection \<open>The regular expression\<close>

text \<open>
  Patterns over code points with the matching discipline of the pattern in the comment. The
  meaning of a pattern on a text is the list of the lengths it can match, in the order a
  backtracking matcher tries them; the first one is the match.
\<close>

datatype pat =
    One "u32 \<Rightarrow> bool"
  | Cat pat pat
  | Either pat pat
  | Maybe pat
  | Many "u32 \<Rightarrow> bool"
  | Many1 "u32 \<Rightarrow> bool"
  | Not_Next "u32 \<Rightarrow> bool"

fun holds_hd :: "(u32 \<Rightarrow> bool) \<Rightarrow> u32 list \<Rightarrow> bool" where
  "holds_hd P [] = False"
| "holds_hd P (c # s) = P c"

primrec matches :: "pat \<Rightarrow> u32 list \<Rightarrow> nat list" where
  "matches (One P) s = (if holds_hd P s then [1] else [])"
| "matches (Cat p q) s = concat (map (\<lambda>k. map ((+) k) (matches q (drop k s))) (matches p s))"
| "matches (Either p q) s = matches p s @ matches q s"
| "matches (Maybe p) s = matches p s @ [0]"
| "matches (Many P) s = rev [0..<Suc (length (takeWhile P s))]"
| "matches (Many1 P) s = rev [1..<Suc (length (takeWhile P s))]"
| "matches (Not_Next P) s = (if holds_hd P s then [] else [0])"

definition first_match :: "pat \<Rightarrow> u32 list \<Rightarrow> nat option" where
  "first_match p s = (case matches p s of [] \<Rightarrow> None | k # _ \<Rightarrow> Some k)"

definition ignoring_case :: "u32 \<Rightarrow> pat" where
  "ignoring_case x = One (\<lambda>c. c = x \<or> c = x - 32)"

text \<open>\<open>(?i:'s|'t|'re|'ve|'m|'ll|'d)\<close>\<close>

definition contraction_pat :: pat where
  "contraction_pat = Cat (One (\<lambda>c. c = 39))
    (Either (ignoring_case 115) (Either (ignoring_case 116)
    (Either (Cat (ignoring_case 114) (ignoring_case 101))
    (Either (Cat (ignoring_case 118) (ignoring_case 101))
    (Either (ignoring_case 109)
    (Either (Cat (ignoring_case 108) (ignoring_case 108)) (ignoring_case 100)))))))"

text \<open>\<open>[^\r\n\p{L}\p{N}]?\p{L}+\<close>\<close>

definition letters_pat :: pat where
  "letters_pat = Cat (Maybe (One (\<lambda>c. \<not> is_newline c \<and> \<not> is_letter c \<and> \<not> is_number c))) (Many1 is_letter)"

text \<open>\<open>\p{N}\<close>\<close>

definition number_pat :: pat where
  "number_pat = One is_number"

text \<open>\<open> ?[^\s\p{L}\p{N}]+[\r\n]*\<close>\<close>

definition punct_pat :: pat where
  "punct_pat = Cat (Maybe (One (\<lambda>c. c = 32)))
    (Cat (Many1 (\<lambda>c. \<not> is_space c \<and> \<not> is_letter c \<and> \<not> is_number c)) (Many is_newline))"

text \<open>\<open>\s*[\r\n]+\<close>, then \<open>\s+(?!\S)\<close>, then \<open>\s+\<close>\<close>

definition newline_pat :: pat where
  "newline_pat = Cat (Many is_space) (Many1 is_newline)"

definition trailing_pat :: pat where
  "trailing_pat = Cat (Many1 is_space) (Not_Next (\<lambda>c. \<not> is_space c))"

definition spaces_pat :: pat where
  "spaces_pat = Many1 is_space"

definition split_pattern :: pat where
  "split_pattern = Either contraction_pat (Either letters_pat (Either number_pat (Either punct_pat
    (Either newline_pat (Either trailing_pat spaces_pat)))))"

text \<open>Splitting a text into the consecutive matches of a pattern.\<close>

function split_by :: "pat \<Rightarrow> u32 list \<Rightarrow> u32 list list" where
  "split_by p s =
    (case first_match p s of
       None \<Rightarrow> []
     | Some k \<Rightarrow> if s = [] \<or> k = 0 then [] else take k s # split_by p (drop k s))"
  by pat_completeness auto
termination
  by (relation "measure (\<lambda>(p, s). length s)") auto

declare split_by.simps [simp del]

subsection \<open>The code cuts where the expression matches\<close>

lemma first_match_Either:
  "first_match (Either p q) s = (case first_match p s of None \<Rightarrow> first_match q s | Some k \<Rightarrow> Some k)"
  by (cases "matches p s") (simp_all add: first_match_def)

lemma drop_cases:
  assumes "i < length cps"
  obtains c r where "drop i cps = c # r" "cps ! i = c" "drop (Suc i) cps = r"
    "length cps = i + Suc (length r)"
proof -
  have "drop i cps = cps ! i # drop (Suc i) cps" by (rule Cons_nth_drop_Suc[symmetric, OF assms])
  moreover have "length cps = i + Suc (length (drop (Suc i) cps))" using assms by simp
  ultimately show ?thesis using that by blast
qed

lemma takeWhile_none: "length (takeWhile P s) = 0 \<longleftrightarrow> \<not> holds_hd P s"
  by (cases s) auto

lemma holds_nth: "j < length cps \<and> P (cps ! j) \<longleftrightarrow> holds_hd P (drop j cps)"
proof (cases "j < length cps")
  case True
  then have "drop j cps = cps ! j # drop (Suc j) cps" by (rule Cons_nth_drop_Suc[symmetric])
  then show ?thesis using True by simp
qed simp

lemma rev_upt_hd: "(case rev [1..<Suc n] of [] \<Rightarrow> None | k # _ \<Rightarrow> Some k) = (if n = 0 then None else Some n)"
  by simp

lemma map_plus_zero [simp]: "map ((+) (0::nat)) xs = xs"
  by (induction xs) auto

lemma first_match_Many1: "first_match (Many1 P) s =
    (if holds_hd P s then Some (length (takeWhile P s)) else None)"
  using takeWhile_none[of P s] by (auto simp: first_match_def Suc_le_eq)

text \<open>A prefix that may be missing, before something that cannot start with it.\<close>

lemma first_match_prefix:
  assumes "\<And>c s. P c \<Longrightarrow> matches q (c # s) = []"
  shows "first_match (Cat (Maybe (One P)) q) s =
    (if holds_hd P s then map_option Suc (first_match q (drop 1 s)) else first_match q s)"
proof (cases s)
  case (Cons c r)
  show ?thesis
  proof (cases "P c")
    case True
    then show ?thesis using Cons assms[of c r]
      by (simp add: first_match_def split: list.splits)
  qed (use Cons in \<open>simp add: first_match_def\<close>)
qed (simp add: first_match_def)

lemma letters_end_match:
  assumes "i < length cps"
  shows "letters_end cps i = map_option ((+) i) (first_match letters_pat (drop i cps))"
proof -
  obtain c r where s: "drop i cps = c # r" "cps ! i = c" "drop (Suc i) cps = r"
    using drop_cases[OF assms] by metis
  let ?P = "\<lambda>c. \<not> is_newline c \<and> \<not> is_letter c \<and> \<not> is_number c"
  have m: "first_match letters_pat (c # r) = (if ?P c then map_option Suc (first_match (Many1 is_letter) r)
    else first_match (Many1 is_letter) (c # r))"
    unfolding letters_pat_def by (subst first_match_prefix) auto
  show ?thesis
    unfolding s m letters_end_def
    using holds_nth[of i cps is_letter] holds_nth[of "Suc i" cps is_letter]
      letter_not_number[of c] letter_not_newline[of c]
    by (auto simp: s first_match_Many1 scan_while_eq Let_def)
qed

lemma first_match_Cat:
  assumes "matches p s = k # ks" "first_match q (drop k s) = Some m"
  shows "first_match (Cat p q) s = Some (k + m)"
  using assms by (auto simp: first_match_def split: list.splits)

lemma first_match_punct_run:
  "first_match (Cat (Many1 P) (Many Q)) s =
    (if holds_hd P s then
       Some (length (takeWhile P s) + length (takeWhile Q (drop (length (takeWhile P s)) s))) else None)"
proof (cases "holds_hd P s")
  case True
  then obtain n where n: "length (takeWhile P s) = Suc n" using takeWhile_none[of P s] by (metis not0_implies_Suc)
  then have "matches (Many1 P) s = Suc n # rev [1..<Suc n]" by simp
  moreover have "first_match (Many Q) (drop (Suc n) s) = Some (length (takeWhile Q (drop (Suc n) s)))"
    by (simp add: first_match_def)
  ultimately show ?thesis using first_match_Cat True n by metis
qed (use takeWhile_none[of P s] in \<open>simp add: first_match_def\<close>)

lemma punct_end_match:
  assumes "i < length cps"
  shows "punct_end cps i = map_option ((+) i) (first_match punct_pat (drop i cps))"
proof -
  obtain c r where s: "drop i cps = c # r" "cps ! i = c" "drop (Suc i) cps = r"
    using drop_cases[OF assms] by metis
  let ?Q = "Cat (Many1 is_punct) (Many is_newline)"
  have m: "first_match punct_pat (c # r) = (if c = 32 then map_option Suc (first_match ?Q r)
    else first_match ?Q (c # r))"
    unfolding punct_pat_def is_punct_def[symmetric]
    by (subst first_match_prefix) (simp_all add: is_punct_def blank_is_space)
  have run: "(if k < length cps \<and> is_punct (cps ! k)
      then Some (scan_while is_newline cps (scan_while is_punct cps k)) else None) =
    map_option ((+) k) (first_match ?Q (drop k cps))" for k
    by (simp add: first_match_punct_run scan_while_eq holds_nth add.commute)
  have "punct_end cps i = (if c = 32 then map_option ((+) (Suc i)) (first_match ?Q r)
    else map_option ((+) i) (first_match ?Q (c # r)))"
    unfolding punct_end_def Let_def run using s by (cases "c = 32") simp_all
  then show ?thesis
    unfolding s m by (cases "first_match ?Q r") simp_all
qed

lemma last_newline_Suc:
  "i \<le> j \<Longrightarrow> last_newline cps i (Suc j) = (if is_newline (cps ! j) then Some j else last_newline cps i j)"
  by (simp add: last_newline_def)

lemma last_newline_last:
  "last_newline cps i j = Some k \<Longrightarrow> k < m \<Longrightarrow> m < j \<Longrightarrow> \<not> is_newline (cps ! m)"
proof (induction j)
  case (Suc j)
  show ?case
  proof (cases "i \<le> j")
    case True
    then show ?thesis using Suc last_newline_Suc[of i j cps] by (auto simp: less_Suc_eq split: if_splits)
  qed (use Suc in \<open>simp add: last_newline_def\<close>)
qed simp

text \<open>Backing off through the white space finds the last line break in it.\<close>

lemma first_newline_back:
  "i + m \<le> length cps \<Longrightarrow>
   (case concat (map (\<lambda>k. map ((+) k) (matches (Many1 is_newline) (drop (k + i) cps))) (rev [0..<m])) of
      [] \<Rightarrow> None | k # _ \<Rightarrow> Some k) =
   map_option (\<lambda>k. k - i + length (takeWhile is_newline (drop k cps))) (last_newline cps i (i + m))"
proof (induction m)
  case (Suc m)
  let ?t = "length (takeWhile is_newline (drop (m + i) cps))"
  have hd: "is_newline (cps ! (i + m)) \<longleftrightarrow> 0 < ?t"
    using holds_nth[of "m + i" cps is_newline] takeWhile_none[of is_newline "drop (m + i) cps"] Suc.prems
    by (simp add: add.commute)
  show ?case
  proof (cases "0 < ?t")
    case True
    then show ?thesis using hd by (simp add: last_newline_Suc Suc_le_eq add.commute)
  next
    case False
    then show ?thesis using hd Suc by (simp add: last_newline_Suc)
  qed
qed (simp add: last_newline_def)

lemma run_stops: "\<not> holds_hd P (drop (i + length (takeWhile P (drop i cps))) cps)"
proof -
  have "drop (i + length (takeWhile P (drop i cps))) cps = dropWhile P (drop i cps)"
    by (simp add: dropWhile_eq_drop add.commute)
  then show ?thesis by (cases "dropWhile P (drop i cps)") (auto simp: dropWhile_eq_Cons_conv)
qed

lemma newline_match:
  assumes "i < length cps" "j = scan_while is_space cps i"
  shows "first_match newline_pat (drop i cps) = map_option (\<lambda>k. Suc k - i) (last_newline cps i j)"
proof -
  define n where "n = length (takeWhile is_space (drop i cps))"
  have j: "j = i + n" "j \<le> length cps"
    using assms scan_while_bounds(2)[of i cps is_space] by (simp_all add: scan_while_eq n_def)
  have "\<not> holds_hd is_space (drop j cps)"
    using run_stops[of is_space i cps] by (simp add: j(1) n_def)
  then have end_nl: "takeWhile is_newline (drop j cps) = []"
    using newline_is_space takeWhile_none[of is_newline "drop j cps"] by (cases "drop j cps") auto
  then have m: "first_match newline_pat (drop i cps) =
     map_option (\<lambda>k. k - i + length (takeWhile is_newline (drop k cps))) (last_newline cps i j)"
    using first_newline_back[of i n cps] j by (simp add: first_match_def newline_pat_def n_def[symmetric] add.commute)
  have one: "length (takeWhile is_newline (drop k cps)) = 1" if k: "last_newline cps i j = Some k" for k
  proof -
    have "k < j" "is_newline (cps ! k)" using last_newline_Some[OF k] by auto
    moreover have "takeWhile is_newline (drop (Suc k) cps) = []"
    proof (cases "Suc k = j")
      case False
      then have "\<not> is_newline (cps ! Suc k)" using last_newline_last[OF k, of "Suc k"] \<open>k < j\<close> by simp
      then show ?thesis
        using holds_nth[of "Suc k" cps is_newline] takeWhile_none[of is_newline "drop (Suc k) cps"] by simp
    qed (simp add: end_nl)
    moreover have "drop k cps = cps ! k # drop (Suc k) cps"
      using \<open>k < j\<close> j(2) by (intro Cons_nth_drop_Suc[symmetric]) simp
    ultimately show ?thesis by simp
  qed
  show ?thesis
    unfolding m using one last_newline_Some[of cps i j] by (cases "last_newline cps i j") auto
qed

lemma trailing_match:
  assumes "i < length cps" "j = scan_while is_space cps i" "is_space (cps ! i)"
  shows "first_match trailing_pat (drop i cps) =
    (if j = length cps then Some (j - i) else if 1 < j - i then Some (j - i - 1) else None)"
proof -
  define n where "n = length (takeWhile is_space (drop i cps))"
  have n0: "0 < n" using holds_nth[of i cps is_space] takeWhile_none[of is_space "drop i cps"] assms
    by (simp add: n_def)
  have j: "j = i + n" "j \<le> length cps"
    using assms scan_while_bounds(2)[of i cps is_space] by (simp_all add: scan_while_eq n_def)
  have stop: "j \<noteq> length cps \<Longrightarrow> \<not> is_space (cps ! j)"
    using run_stops[of is_space i cps] holds_nth[of j cps is_space] j by (simp add: n_def)
  have within: "is_space (cps ! (i + k))" if "k < n" for k
  proof -
    have "is_space (drop i cps ! k)"
      using nth_mem[of k "takeWhile is_space (drop i cps)"] set_takeWhileD[of _ is_space "drop i cps"]
        takeWhile_nth[of k is_space "drop i cps"] that by (simp add: n_def)
    then show ?thesis using assms(1) by simp
  qed
  have at: "holds_hd (\<lambda>c. \<not> is_space c) (drop k (drop i cps)) \<longleftrightarrow> i + k < length cps \<and> \<not> is_space (cps ! (i + k))" for k
    using holds_nth[of "i + k" cps "\<lambda>c. \<not> is_space c"] by (simp add: add.commute)
  obtain m where m: "n = Suc m" using n0 by (metis Suc_pred)
  show ?thesis
  proof (cases "j = length cps \<or> m = 0")
    case True
    then show ?thesis using at[of n] stop j m
      by (auto simp: first_match_def trailing_pat_def n_def[symmetric] simp del: drop_drop)
  next
    case False
    then have "\<not> holds_hd (\<lambda>c. \<not> is_space c) (drop m (drop i cps))" "holds_hd (\<lambda>c. \<not> is_space c) (drop n (drop i cps))"
      using at[of n] at[of m] stop j m within[of m] by auto
    then show ?thesis using False j m
      by (cases m) (auto simp: first_match_def trailing_pat_def n_def[symmetric] simp del: drop_drop)
  qed
qed

lemma space_end_match:
  assumes "i < length cps" "is_space (cps ! i)"
  shows "first_match (Either newline_pat (Either trailing_pat spaces_pat)) (drop i cps) = Some (space_end cps i - i)"
proof -
  let ?j = "scan_while is_space cps i"
  have j: "i < ?j" "?j \<le> length cps"
    using scan_while_step[of i cps is_space] scan_while_bounds(2)[of i cps is_space] assms by simp_all
  have "first_match spaces_pat (drop i cps) = Some (?j - i)"
    using holds_nth[of i cps is_space] assms by (simp add: spaces_pat_def first_match_Many1 scan_while_eq)
  then show ?thesis
    using j by (auto simp: first_match_Either newline_match[OF assms(1) refl] trailing_match[OF assms(1) refl assms(2)]
        space_end_def Let_def split: option.splits)
qed

text \<open>The contractions: an ASCII letter compared without its case.\<close>

lemma lower_eq:
  assumes "97 \<le> x" "x \<le> 122"
  shows "lower c = x \<longleftrightarrow> c = x \<or> c = x - 32"
proof -
  have x: "97 \<le> unat x" "unat x \<le> 122" using assms by (simp_all add: word_le_nat_alt)
  have s: "unat (x - 32) = unat x - 32" using x by (simp add: unat_sub word_le_nat_alt)
  have a: "unat (c + 32) = unat c + 32" if "unat c \<le> 90"
    using that by (simp add: unat_word_ariths)
  show ?thesis
    using x a unfolding lower_def word_le_nat_alt word_unat_eq_iff s by (auto simp: word_unat_eq_iff s)
qed

lemma contraction_shape:
  "first_match contraction_pat s =
    (case s of
       q # c1 # r \<Rightarrow>
         if q = 39 then
           if lower c1 = 115 \<or> lower c1 = 116 then Some 2
           else if lower c1 = 114 \<and> holds_hd (\<lambda>c. lower c = 101) r then Some 3
           else if lower c1 = 118 \<and> holds_hd (\<lambda>c. lower c = 101) r then Some 3
           else if lower c1 = 109 then Some 2
           else if lower c1 = 108 \<and> holds_hd (\<lambda>c. lower c = 108) r then Some 3
           else if lower c1 = 100 then Some 2 else None
         else None
     | _ \<Rightarrow> None)"
proof -
  have [simp]: "matches (ignoring_case 115) t = (if holds_hd (\<lambda>c. lower c = 115) t then [1] else [])"
    "matches (ignoring_case 116) t = (if holds_hd (\<lambda>c. lower c = 116) t then [1] else [])"
    "matches (ignoring_case 114) t = (if holds_hd (\<lambda>c. lower c = 114) t then [1] else [])"
    "matches (ignoring_case 101) t = (if holds_hd (\<lambda>c. lower c = 101) t then [1] else [])"
    "matches (ignoring_case 118) t = (if holds_hd (\<lambda>c. lower c = 118) t then [1] else [])"
    "matches (ignoring_case 109) t = (if holds_hd (\<lambda>c. lower c = 109) t then [1] else [])"
    "matches (ignoring_case 108) t = (if holds_hd (\<lambda>c. lower c = 108) t then [1] else [])"
    "matches (ignoring_case 100) t = (if holds_hd (\<lambda>c. lower c = 100) t then [1] else [])" for t
    by (simp_all add: ignoring_case_def lower_eq)
  show ?thesis
    by (cases s; cases "tl s") (auto simp: contraction_pat_def first_match_def)
qed

lemma contraction_end_match:
  assumes "i < length cps"
  shows "contraction_end cps i = map_option ((+) i) (first_match contraction_pat (drop i cps))"
proof -
  obtain c r where s: "drop i cps = c # r" "cps ! i = c" "drop (Suc i) cps = r"
      "length cps = i + Suc (length r)"
    using drop_cases[OF assms] by metis
  show ?thesis
  proof (cases r)
    case Nil
    then show ?thesis using s by (simp add: contraction_end_def contraction_shape)
  next
    case (Cons c1 r')
    have n1: "cps ! Suc i = c1" using s(3) Cons nth_drop[of "Suc i" cps 0] assms by simp
    have n2: "cps ! Suc (Suc i) = c2" if "r' = c2 # r''" for c2 r''
      using s(3,4) Cons that nth_drop[of "Suc i" cps 1] by simp
    show ?thesis
      unfolding s(1) contraction_shape contraction_end_def Let_def
      using s(2,4) Cons n1 n2 by (cases r') auto
  qed
qed

lemma piece_end_match:
  assumes "i < length cps"
  shows "first_match split_pattern (drop i cps) = Some (piece_end cps i - i)"
proof -
  have "first_match number_pat (drop i cps) = (if is_number (cps ! i) then Some 1 else None)"
    using holds_nth[of i cps is_number] assms by (simp add: number_pat_def first_match_def)
  moreover have "is_space (cps ! i)"
    if "letters_end cps i = None" "\<not> is_number (cps ! i)" "punct_end cps i = None"
  proof (rule ccontr)
    assume n: "\<not> is_space (cps ! i)"
    then have "cps ! i \<noteq> 32" using blank_is_space by metis
    then have "is_letter (cps ! i)" using n that assms by (auto simp: punct_end_def is_punct_def split: if_splits)
    then show False using that letter_not_newline assms by (auto simp: letters_end_def)
  qed
  ultimately show ?thesis
    using space_end_match[OF assms] contraction_end_match[OF assms] letters_end_match[OF assms]
      punct_end_match[OF assms]
    unfolding split_pattern_def piece_end_def
    by (auto simp: first_match_Either split: option.splits)
qed

lemma emit_text: "b \<le> length cps \<Longrightarrow> emit cps a b = utf8_text (take (b - a) (drop a cps))"
proof -
  assume "b \<le> length cps"
  then have "map ((!) cps) [a..<b] = take (b - a) (drop a cps)"
    by (cases "a \<le> b") (auto intro!: nth_equalityI)
  then have "map (\<lambda>k. utf8_encode (cps ! k)) [a..<b] = map utf8_encode (take (b - a) (drop a cps))"
    by (metis (no_types, lifting) list.map_comp comp_apply map_eq_conv)
  then show ?thesis by (simp add: emit_def utf8_text_def)
qed

lemma pre_tokenize_from_split:
  "pre_tokenize_from cps i = map utf8_text (split_by split_pattern (drop i cps))"
proof (induction cps i rule: pre_tokenize_from.induct)
  case (1 cps i)
  show ?case
  proof (cases "i < length cps")
    case True
    have b: "i < piece_end cps i" "piece_end cps i \<le> length cps" using piece_end_bounds[OF True] by auto
    have d: "drop (piece_end cps i - i) (drop i cps) = drop (piece_end cps i) cps" using b by simp
    have "split_by split_pattern (drop i cps) =
      take (piece_end cps i - i) (drop i cps) # split_by split_pattern (drop (piece_end cps i) cps)"
      using True b by (subst split_by.simps) (simp add: piece_end_match[OF True] d del: drop_drop)
    then show ?thesis using 1[OF True] True b
      by (subst pre_tokenize_from.simps) (simp add: emit_text)
  next
    case False
    then show ?thesis by (simp add: pre_tokenize_from.simps split_by.simps split: option.splits)
  qed
qed

lemma pre_tokenize_concat_from: "concat (pre_tokenize_from cps i) = utf8_text (drop i cps)"
proof (induction cps i rule: pre_tokenize_from.induct)
  case (1 cps i)
  show ?case
  proof (cases "i < length cps")
    case True
    have b: "i < piece_end cps i" "piece_end cps i \<le> length cps" using piece_end_bounds[OF True] by auto
    have "drop i cps = take (piece_end cps i - i) (drop i cps) @ drop (piece_end cps i) cps"
      using b append_take_drop_id[of "piece_end cps i - i" "drop i cps"] by simp
    then have "utf8_text (drop i cps) = utf8_text (take (piece_end cps i - i) (drop i cps)) @
      utf8_text (drop (piece_end cps i) cps)" by (metis utf8_text_simps(3))
    then show ?thesis using 1[OF True] True b
      by (subst pre_tokenize_from.simps) (simp add: emit_text)
  qed (simp add: pre_tokenize_from.simps)
qed

end
