(* ===== verification/Tokenizer.thy ===== *)
theory Tokenizer
  imports Pre_Tokenize
begin

text \<open>
  The class \<open>Tokenizer\<close> of \<open>src/include/engine/tokenizer.h\<close> and \<open>src/src/tokenizer/tokenizer.cpp\<close>:
  construction from the model's files, byte-pair merging, encoding and decoding of both
  families, the chat template and the stop set.

  The files are read through the JSON library, which is outside the sources: the constructor
  below takes the members it reads as fields of \<open>tokenizer_json\<close>, \<open>config_json\<close> and
  \<open>generation_json\<close> (\<open>dump()\<close> strings as such, absent or null members as \<open>None\<close>), and \<open>None\<close> in
  place of a record is a file that cannot be opened. Token ids are \<open>int\<close>, as \<open>-1\<close> marks an
  absent one. An exception is the left value of a \<open>result\<close>.
\<close>

subsection \<open>Data\<close>

record chat_message =
  role :: bytes
  content :: bytes

datatype tokenizer_family = ByteLevel | Metaspace

record merge =
  m_rank :: int
  m_id :: int

record tokenizer =
  token_to_id :: "bytes \<rightharpoonup> int"
  id_to_token :: "bytes list"
  merges :: "int \<times> int \<rightharpoonup> merge"
  added_tokens :: "(bytes \<times> int) list"
  byte_to_unicode :: "bytes list"
  unicode_to_byte :: "bytes \<rightharpoonup> byte"
  tk_family :: tokenizer_family
  byte_fallback :: "int list"
  eos_id :: int
  eot_id :: int
  bos_id :: int
  unk_id :: int
  prepend_bos :: bool
  bos_token :: bytes
  eos_token :: bytes
  chatml :: bool

definition empty_tokenizer :: tokenizer where
  "empty_tokenizer =
    \<lparr>token_to_id = Map.empty, id_to_token = [], merges = Map.empty, added_tokens = [],
     byte_to_unicode = replicate 256 [], unicode_to_byte = Map.empty, tk_family = ByteLevel,
     byte_fallback = [], eos_id = -1, eot_id = -1, bos_id = -1, unk_id = -1, prepend_bos = False,
     bos_token = [], eos_token = [], chatml = False\<rparr>"

datatype merge_entry = Merge_String bytes | Merge_Pair bytes bytes

record tokenizer_json =
  j_type :: bytes
  j_vocab :: "(bytes \<times> int) list"
  j_merges :: "merge_entry list"
  j_pre_tokenizer :: "bytes option"
  j_unk_token :: "bytes option"
  j_post_processor :: "bytes option"
  j_added :: "(bytes \<times> int) list"

datatype token_field = Token_Absent | Token_String bytes | Token_Object bytes

record config_json =
  c_eos :: token_field
  c_bos :: token_field
  c_template :: bytes

datatype eos_field = Eos_Absent | Eos_Array int "int list" | Eos_Single int

subsection \<open>Strings\<close>

definition ascii :: "string \<Rightarrow> bytes" where
  "ascii s = map of_char s"

text \<open>\<open>std::string::find(pat, pos)\<close>: the first place at or after \<open>pos\<close>; \<open>None\<close> is \<open>npos\<close>.\<close>

function str_find :: "bytes \<Rightarrow> bytes \<Rightarrow> nat \<Rightarrow> nat option" where
  "str_find pat s pos =
    (if pos + length pat \<le> length s then
       (if take (length pat) (drop pos s) = pat then Some pos else str_find pat s (pos + 1))
     else None)"
  by pat_completeness auto
termination
  by (relation "measure (\<lambda>(pat, s, pos). Suc (length s) - pos)") auto

declare str_find.simps [simp del]

definition contains_str :: "bytes \<Rightarrow> bytes \<Rightarrow> bool" where
  "contains_str s pat = (str_find pat s 0 \<noteq> None)"

subsection \<open>Construction\<close>

text \<open>The GPT-2 table: printable bytes stand for themselves, the others for \<open>256 + n\<close> in order.\<close>

definition printable_bytes :: "nat list" where
  "printable_bytes = [0x21..<0x7F] @ [0xA1..<0xAD] @ [0xAE..<0x100]"

definition add_placeholder :: "nat list \<times> nat list \<times> nat \<Rightarrow> nat \<Rightarrow> nat list \<times> nat list \<times> nat" where
  "add_placeholder st b =
    (case st of (bs, cs, n) \<Rightarrow>
       if b \<in> set bs then (bs, cs, n) else (bs @ [b], cs @ [256 + n], n + 1))"

definition placeholder_table :: "(nat \<times> nat) list" where
  "placeholder_table =
    (case foldl add_placeholder (printable_bytes, printable_bytes, 0) [0..<256] of
       (bs, cs, n) \<Rightarrow> zip bs cs)"

definition set_symbol :: "tokenizer \<Rightarrow> nat \<times> nat \<Rightarrow> tokenizer" where
  "set_symbol tk e =
    (case e of (b, c) \<Rightarrow>
       tk\<lparr>byte_to_unicode := (byte_to_unicode tk)[b := utf8_encode (word_of_nat c)],
          unicode_to_byte := (unicode_to_byte tk)(utf8_encode (word_of_nat c) \<mapsto> word_of_nat b)\<rparr>)"

definition byte_tables :: "tokenizer \<Rightarrow> tokenizer" where
  "byte_tables tk = foldl set_symbol tk placeholder_table"

definition resize_tokens :: "bytes list \<Rightarrow> nat \<Rightarrow> bytes list" where
  "resize_tokens ts n = take n ts @ replicate (n - length ts) []"

text \<open>An id below zero becomes a huge \<open>size_t\<close>; growing the vector to it throws. (For \<open>-1\<close> the
  new size wraps to zero and the write that follows is out of range; it is the same error here.)\<close>

definition put_token :: "tokenizer \<Rightarrow> bytes \<times> int \<Rightarrow> tokenizer result" where
  "put_token tk e =
    (case e of (t, i) \<Rightarrow>
       if i < 0 then Inl Length_Error
       else
         let ts = (if length (id_to_token tk) \<le> nat i then resize_tokens (id_to_token tk) (nat i + 1)
                   else id_to_token tk) in
         Inr (tk\<lparr>token_to_id := (token_to_id tk)(t \<mapsto> i), id_to_token := ts[nat i := t]\<rparr>))"

fun put_tokens :: "tokenizer \<Rightarrow> (bytes \<times> int) list \<Rightarrow> tokenizer result" where
  "put_tokens tk [] = Inr tk"
| "put_tokens tk (e # es) = (case put_token tk e of Inl x \<Rightarrow> Inl x | Inr tk' \<Rightarrow> put_tokens tk' es)"

definition load_vocab :: "tokenizer \<Rightarrow> tokenizer_json \<Rightarrow> tokenizer result" where
  "load_vocab tk j =
    put_tokens (tk\<lparr>id_to_token := resize_tokens (id_to_token tk) (length (j_vocab j))\<rparr>) (j_vocab j)"

text \<open>A merge written as one string is cut at its first blank; with no blank both sides are the
  whole string, since \<open>substr(npos + 1)\<close> starts at 0.\<close>

fun merge_sides :: "merge_entry \<Rightarrow> bytes \<times> bytes" where
  "merge_sides (Merge_String t) =
    (case str_find [32] t 0 of Some sp \<Rightarrow> (take sp t, drop (sp + 1) t) | None \<Rightarrow> (t, t))"
| "merge_sides (Merge_Pair a b) = (a, b)"

definition add_merge :: "tokenizer \<times> int \<Rightarrow> merge_entry \<Rightarrow> tokenizer \<times> int" where
  "add_merge st e =
    (case st of (tk, rank) \<Rightarrow>
     case merge_sides e of (a, b) \<Rightarrow>
     case (token_to_id tk a, token_to_id tk b, token_to_id tk (a @ b)) of
       (Some ia, Some ib, Some ic) \<Rightarrow>
         (tk\<lparr>merges := (if merges tk (ia, ib) = None
                        then (merges tk)((ia, ib) \<mapsto> \<lparr>m_rank = rank, m_id = ic\<rparr>) else merges tk)\<rparr>,
          rank + 1)
     | _ \<Rightarrow> (tk, rank))"

definition load_merges :: "tokenizer \<Rightarrow> tokenizer_json \<Rightarrow> tokenizer" where
  "load_merges tk j = fst (foldl add_merge (tk, 0) (j_merges j))"

definition hex_digit :: "nat \<Rightarrow> byte" where
  "hex_digit d = (if d < 10 then word_of_nat (48 + d) else word_of_nat (55 + d))"

definition fallback_name :: "nat \<Rightarrow> bytes" where
  "fallback_name b = [60, 48, 120, hex_digit (b div 16), hex_digit (b mod 16), 62]"

definition load_family :: "tokenizer \<Rightarrow> tokenizer_json \<Rightarrow> tokenizer" where
  "load_family tk j =
    (case j_pre_tokenizer j of
       Some d \<Rightarrow> if contains_str d (ascii ''ByteLevel'') then tk\<lparr>tk_family := ByteLevel\<rparr>
                 else tk\<lparr>tk_family := Metaspace\<rparr>
     | None \<Rightarrow> tk\<lparr>tk_family := Metaspace\<rparr>)"

definition load_fallback :: "tokenizer \<Rightarrow> tokenizer_json \<Rightarrow> tokenizer" where
  "load_fallback tk j =
    (if tk_family tk = Metaspace then
       tk\<lparr>byte_fallback := map (\<lambda>b. case token_to_id tk (fallback_name b) of Some i \<Rightarrow> i | None \<Rightarrow> -1) [0..<256],
          unk_id := (case j_unk_token j of
                       Some u \<Rightarrow> (case token_to_id tk u of Some i \<Rightarrow> i | None \<Rightarrow> unk_id tk)
                     | None \<Rightarrow> unk_id tk)\<rparr>
     else tk)"

definition load_post :: "tokenizer \<Rightarrow> tokenizer_json \<Rightarrow> tokenizer" where
  "load_post tk j =
    (case j_post_processor j of
       Some pp \<Rightarrow> tk\<lparr>prepend_bos := contains_str pp (ascii ''TemplateProcessing'') \<and> contains_str pp (ascii ''<s>'')\<rparr>
     | None \<Rightarrow> tk)"

text \<open>Added tokens go through the same table update and are kept longest first. \<open>std::sort\<close> leaves
  the order of equally long ones open; the model keeps the file's.\<close>

definition load_added :: "tokenizer \<Rightarrow> tokenizer_json \<Rightarrow> tokenizer result" where
  "load_added tk j =
    (case put_tokens tk (j_added j) of
       Inl e \<Rightarrow> Inl e
     | Inr tk' \<Rightarrow> Inr (tk'\<lparr>added_tokens := sort_key (\<lambda>t. - int (length (fst t))) (added_tokens tk' @ j_added j)\<rparr>))"

fun tok_str :: "token_field \<Rightarrow> bytes" where
  "tok_str Token_Absent = []"
| "tok_str (Token_String s) = s"
| "tok_str (Token_Object s) = s"

definition load_config :: "tokenizer \<Rightarrow> config_json option \<Rightarrow> tokenizer" where
  "load_config tk tc =
    (case tc of
       None \<Rightarrow> tk
     | Some c \<Rightarrow>
         let chat = contains_str (c_template c) (ascii ''<|im_start|>'') in
         tk\<lparr>eos_token := tok_str (c_eos c), bos_token := tok_str (c_bos c),
            eos_id := (case token_to_id tk (tok_str (c_eos c)) of Some i \<Rightarrow> i | None \<Rightarrow> eos_id tk),
            bos_id := (case token_to_id tk (tok_str (c_bos c)) of Some i \<Rightarrow> i | None \<Rightarrow> bos_id tk),
            chatml := chat,
            eot_id := (case token_to_id tk (ascii ''<|im_end|>'') of
                         Some i \<Rightarrow> if chat then i else eot_id tk | None \<Rightarrow> eot_id tk)\<rparr>)"

definition load_generation :: "tokenizer \<Rightarrow> eos_field option \<Rightarrow> tokenizer" where
  "load_generation tk gc =
    (case gc of
       Some (Eos_Array a rest) \<Rightarrow>
         tk\<lparr>eot_id := a, eos_id := (case rest of b # _ \<Rightarrow> b | [] \<Rightarrow> eos_id tk)\<rparr>
     | Some (Eos_Single a) \<Rightarrow> tk\<lparr>eos_id := a\<rparr>
     | _ \<Rightarrow> tk)"

definition load_tokenizer ::
  "tokenizer_json option \<Rightarrow> config_json option \<Rightarrow> eos_field option \<Rightarrow> tokenizer result" where
  "load_tokenizer tj tc gc =
    (case tj of
       None \<Rightarrow> Inl (Runtime_Error ''cannot open'')
     | Some j \<Rightarrow>
         if j_type j \<noteq> ascii ''BPE'' then Inl (Runtime_Error ''only BPE tokenizers are supported'')
         else case load_vocab (byte_tables empty_tokenizer) j of
           Inl e \<Rightarrow> Inl e
         | Inr tk \<Rightarrow>
             case load_added (load_post (load_fallback (load_family (load_merges tk j) j) j) j) j of
               Inl e \<Rightarrow> Inl e
             | Inr tk' \<Rightarrow>
                 let t = load_generation (load_config tk' tc) gc in
                 if eos_id t < 0 then Inl (Runtime_Error ''could not determine eos token id'') else Inr t)"

subsection \<open>Byte-pair merging\<close>

definition INT32_MAX :: int where
  "INT32_MAX = 2147483647"

text \<open>The scan for the best pair: a strictly smaller rank replaces the candidate, so the leftmost
  occurrence of the lowest rank wins.\<close>

definition scan_pair :: "(int \<times> int \<rightharpoonup> merge) \<Rightarrow> int list \<Rightarrow> int \<times> int \<times> nat \<Rightarrow> nat \<Rightarrow> int \<times> int \<times> nat" where
  "scan_pair ms ids st i =
    (case st of (best_rank, merged_id, best_i) \<Rightarrow>
     case ms (ids ! i, ids ! (i + 1)) of
       Some m \<Rightarrow> if m_rank m < best_rank then (m_rank m, m_id m, i) else st
     | None \<Rightarrow> st)"

definition best_pair :: "(int \<times> int \<rightharpoonup> merge) \<Rightarrow> int list \<Rightarrow> int \<times> int \<times> nat" where
  "best_pair ms ids = foldl (scan_pair ms ids) (INT32_MAX, -1, 0) [0..<length ids - 1]"

text \<open>Every occurrence of the pair \<open>(a, b)\<close>, left to right, becomes \<open>m\<close>.\<close>

fun replace_pair :: "int \<Rightarrow> int \<Rightarrow> int \<Rightarrow> int list \<Rightarrow> int list" where
  "replace_pair a b m (x # y # xs) =
    (if x = a \<and> y = b then m # replace_pair a b m xs else x # replace_pair a b m (y # xs))"
| "replace_pair a b m xs = xs"

lemma replace_pair_le: "length (replace_pair a b m xs) \<le> length xs"
  by (induction a b m xs rule: replace_pair.induct) auto

lemma replace_pair_less:
  "i + 1 < length xs \<Longrightarrow> xs ! i = a \<Longrightarrow> xs ! (i + 1) = b \<Longrightarrow> length (replace_pair a b m xs) < length xs"
proof (induction a b m xs arbitrary: i rule: replace_pair.induct)
  case (1 a b m x y xs)
  show ?case
  proof (cases "x = a \<and> y = b")
    case True
    then show ?thesis using replace_pair_le[of a b m xs] by simp
  next
    case False
    then obtain k where k: "i = Suc k" using "1.prems" by (cases i) auto
    then have "length (replace_pair a b m (y # xs)) < length (y # xs)"
      using "1.IH"(2)[of k] False "1.prems" by simp
    then show ?thesis using False by auto
  qed
qed auto

lemma scan_pairs:
  "foldl (scan_pair ms ids) (INT32_MAX, -1, 0) [0..<n] = (r, mid, i) \<Longrightarrow>
   r \<le> INT32_MAX \<and>
   (r = INT32_MAX \<or> (i < n \<and> ms (ids ! i, ids ! (i + 1)) = Some \<lparr>m_rank = r, m_id = mid\<rparr>)) \<and>
   (\<forall>k<n. \<forall>m. ms (ids ! k, ids ! (k + 1)) = Some m \<longrightarrow> r \<le> m_rank m)"
proof (induction n arbitrary: r mid i)
  case (Suc n)
  obtain r0 mid0 i0 where f: "foldl (scan_pair ms ids) (INT32_MAX, -1, 0) [0..<n] = (r0, mid0, i0)"
    by (metis prod_cases3)
  note ih = Suc.IH[OF f]
  have step: "(r, mid, i) = scan_pair ms ids (r0, mid0, i0) n" using Suc.prems f by simp
  show ?case
  proof (cases "\<exists>m. ms (ids ! n, ids ! (n + 1)) = Some m \<and> m_rank m < r0")
    case True
    then obtain m where m: "ms (ids ! n, ids ! (n + 1)) = Some m" "m_rank m < r0" by blast
    then have "r = m_rank m" "mid = m_id m" "i = n" using step by (simp_all add: scan_pair_def)
    then show ?thesis using ih m by (fastforce simp: less_Suc_eq)
  next
    case False
    then have "r = r0" "mid = mid0" "i = i0" using step by (auto simp: scan_pair_def split: option.splits)
    then show ?thesis using ih False by (auto simp: less_Suc_eq not_less)
  qed
qed simp

lemmas best_pair_props = scan_pairs[of _ ids "length ids - 1" for ids, folded best_pair_def]

function bpe_merge :: "tokenizer \<Rightarrow> int list \<Rightarrow> int list" where
  "bpe_merge tk ids =
    (if 2 \<le> length ids then
       (case best_pair (merges tk) ids of (best_rank, merged_id, best_i) \<Rightarrow>
          if best_rank = INT32_MAX then ids
          else bpe_merge tk (replace_pair (ids ! best_i) (ids ! (best_i + 1)) merged_id ids))
     else ids)"
  by pat_completeness auto
termination
proof (relation "measure (\<lambda>(tk, ids). length ids)", goal_cases)
  case (2 tk ids r y mid i)
  then have "best_pair (merges tk) ids = (r, mid, i)" by auto
  then have "i < length ids - 1" using best_pair_props 2 by blast
  then show ?case using replace_pair_less[of i ids] by simp
qed simp

declare bpe_merge.simps [simp del]

subsection \<open>Encoding\<close>

fun byte_symbols :: "tokenizer \<Rightarrow> bytes \<Rightarrow> int list result" where
  "byte_symbols tk [] = Inr []"
| "byte_symbols tk (b # bs) =
    (case token_to_id tk (byte_to_unicode tk ! unat b) of
       None \<Rightarrow> Inl (Runtime_Error ''byte symbol missing from vocab'')
     | Some i \<Rightarrow> (case byte_symbols tk bs of Inl e \<Rightarrow> Inl e | Inr is \<Rightarrow> Inr (i # is)))"

definition bpe :: "tokenizer \<Rightarrow> bytes \<Rightarrow> int list result" where
  "bpe tk word = (case byte_symbols tk word of Inl e \<Rightarrow> Inl e | Inr ids \<Rightarrow> Inr (bpe_merge tk ids))"

fun bpe_words :: "tokenizer \<Rightarrow> bytes list \<Rightarrow> int list result" where
  "bpe_words tk [] = Inr []"
| "bpe_words tk (w # ws) =
    (case bpe tk w of
       Inl e \<Rightarrow> Inl e
     | Inr ids \<Rightarrow> (case bpe_words tk ws of Inl e \<Rightarrow> Inl e | Inr out \<Rightarrow> Inr (ids @ out)))"

definition encode_byte_level :: "tokenizer \<Rightarrow> bytes \<Rightarrow> int list result" where
  "encode_byte_level tk text = bpe_words tk (pre_tokenize text)"

definition kMeta :: bytes where
  "kMeta = [0xE2, 0x96, 0x81]"

definition normalise :: "bytes \<Rightarrow> bytes" where
  "normalise text = kMeta @ concat (map (\<lambda>c. if c = 32 then kMeta else [c]) text)"

text \<open>The ids of one character: itself, or its bytes' fallback tokens, or the unknown token when no
  byte has one.\<close>

definition char_ids :: "tokenizer \<Rightarrow> bytes \<Rightarrow> int list" where
  "char_ids tk ch =
    (case token_to_id tk ch of
       Some i \<Rightarrow> [i]
     | None \<Rightarrow>
         let fb = filter (\<lambda>i. 0 \<le> i)
           (map (\<lambda>b. if byte_fallback tk = [] then -1 else byte_fallback tk ! unat b) ch) in
         if fb = [] \<and> 0 \<le> unk_id tk then [unk_id tk] else fb)"

function symbols_from :: "tokenizer \<Rightarrow> bytes \<Rightarrow> nat \<Rightarrow> int list" where
  "symbols_from tk nrm i =
    (if i < length nrm then
       (case utf8_decode nrm i of (len, cp) \<Rightarrow>
          char_ids tk (take len (drop i nrm)) @ symbols_from tk nrm (i + len))
     else [])"
  by pat_completeness auto
termination
proof (relation "measure (\<lambda>(tk, s, i). length s - i)", goal_cases)
  case (2 tk s i len cp)
  then have "0 < len" using utf8_decode_pos[of s i] by (metis fst_conv)
  then show ?case using \<open>i < length s\<close> by simp
qed simp

declare symbols_from.simps [simp del]

definition encode_metaspace :: "tokenizer \<Rightarrow> bytes \<Rightarrow> int list" where
  "encode_metaspace tk text = bpe_merge tk (symbols_from tk (normalise text) 0)"

text \<open>The next added token: the earliest one in the text from \<open>pos\<close> on, the longest of those that
  start at the same place.\<close>

definition better_match :: "(nat \<times> bytes \<times> int) option \<Rightarrow> nat \<Rightarrow> bytes \<times> int \<Rightarrow> bool" where
  "better_match best k t =
    (case best of
       None \<Rightarrow> True
     | Some (best_at, bt) \<Rightarrow> k < best_at \<or> k = best_at \<and> length (fst bt) < length (fst t))"

definition scan_added :: "bytes \<Rightarrow> nat \<Rightarrow> (nat \<times> bytes \<times> int) option \<Rightarrow> bytes \<times> int \<Rightarrow> (nat \<times> bytes \<times> int) option" where
  "scan_added text pos best t =
    (case str_find (fst t) text pos of
       None \<Rightarrow> best
     | Some k \<Rightarrow> if better_match best k t then Some (k, t) else best)"

definition next_added :: "tokenizer \<Rightarrow> bytes \<Rightarrow> nat \<Rightarrow> (nat \<times> bytes \<times> int) option" where
  "next_added tk text pos = foldl (scan_added text pos) None (added_tokens tk)"

definition encode_chunk :: "tokenizer \<Rightarrow> bytes \<Rightarrow> int list result" where
  "encode_chunk tk chunk =
    (if tk_family tk = ByteLevel then encode_byte_level tk chunk else Inr (encode_metaspace tk chunk))"

definition encode_turn :: "tokenizer \<Rightarrow> bytes \<Rightarrow> nat \<Rightarrow> int list \<Rightarrow> (nat \<times> int list) result" where
  "encode_turn tk text pos out =
    (let best = next_added tk text pos;
         fin = (case best of Some (k, t) \<Rightarrow> k | None \<Rightarrow> length text);
         ids = (if pos < fin then encode_chunk tk (take (fin - pos) (drop pos text)) else Inr []) in
     case ids of
       Inl e \<Rightarrow> Inl e
     | Inr is \<Rightarrow>
         (case best of
            Some (k, t, i) \<Rightarrow> Inr (k + length t, out @ is @ [i])
          | None \<Rightarrow> Inr (fin, out @ is)))"

text \<open>The loop over the text; \<open>None\<close> is a run that never ends.\<close>

partial_function (option) encode_loop ::
  "tokenizer \<Rightarrow> bytes \<Rightarrow> nat \<Rightarrow> int list \<Rightarrow> int list result option" where
  "encode_loop tk text pos out =
    (if pos < length text then
       (case encode_turn tk text pos out of
          Inl e \<Rightarrow> Some (Inl e)
        | Inr (pos', out') \<Rightarrow> encode_loop tk text pos' out')
     else Some (Inr out))"

definition encode :: "tokenizer \<Rightarrow> bytes \<Rightarrow> int list result option" where
  "encode tk text = encode_loop tk text 0 []"

definition encode_for_generation :: "tokenizer \<Rightarrow> bytes \<Rightarrow> int list result option" where
  "encode_for_generation tk text =
    (case encode tk text of
       Some (Inr body) \<Rightarrow> Some (Inr ((if prepend_bos tk \<and> 0 \<le> bos_id tk then [bos_id tk] else []) @ body))
     | r \<Rightarrow> r)"

subsection \<open>Decoding\<close>

text \<open>\<open>std::stoi\<close> in base 16 on two characters: leading white space or a sign, then digits up to the
  first character that is none; no digit at all throws.\<close>

definition hex_value :: "byte \<Rightarrow> int option" where
  "hex_value c =
    (if 48 \<le> c \<and> c \<le> 57 then Some (uint c - 48)
     else if 65 \<le> c \<and> c \<le> 70 then Some (uint c - 55)
     else if 97 \<le> c \<and> c \<le> 102 then Some (uint c - 87)
     else None)"

definition stoi_hex :: "byte \<Rightarrow> byte \<Rightarrow> int result" where
  "stoi_hex a b =
    (case (hex_value a, hex_value b) of
       (Some x, Some y) \<Rightarrow> Inr (16 * x + y)
     | (Some x, None) \<Rightarrow> Inr x
     | (None, Some y) \<Rightarrow>
         if a = 32 \<or> 9 \<le> a \<and> a \<le> 13 \<or> a = 43 then Inr y
         else if a = 45 then Inr (- y)
         else Inl (Invalid_Argument ''stoi'')
     | (None, None) \<Rightarrow> Inl (Invalid_Argument ''stoi''))"

fun blank_meta :: "bytes \<Rightarrow> bytes" where
  "blank_meta [] = []"
| "blank_meta (c # cs) =
    (if take 3 (c # cs) = kMeta then 32 # blank_meta (drop 2 cs) else c # blank_meta cs)"

function unplaced_from :: "tokenizer \<Rightarrow> bytes \<Rightarrow> nat \<Rightarrow> bytes" where
  "unplaced_from tk tok i =
    (if i < length tok then
       (case utf8_decode tok i of (len, cp) \<Rightarrow>
          (case unicode_to_byte tk (take len (drop i tok)) of Some b \<Rightarrow> b | None \<Rightarrow> 63)
          # unplaced_from tk tok (i + len))
     else [])"
  by pat_completeness auto
termination
proof (relation "measure (\<lambda>(tk, s, i). length s - i)", goal_cases)
  case (2 tk s i len cp)
  then have "0 < len" using utf8_decode_pos[of s i] by (metis fst_conv)
  then show ?case using \<open>i < length s\<close> by simp
qed simp

declare unplaced_from.simps [simp del]

definition decode_token :: "tokenizer \<Rightarrow> int \<Rightarrow> bytes result" where
  "decode_token tk i =
    (if i < 0 \<or> int (length (id_to_token tk)) \<le> i then Inr []
     else
       let tok = id_to_token tk ! nat i in
       if list_ex (\<lambda>a. snd a = i) (added_tokens tk) then Inr tok
       else if tk_family tk = Metaspace then
         (if length tok = 6 \<and> take 3 tok = [60, 48, 120] \<and> tok ! 5 = 62 then
            (case stoi_hex (tok ! 3) (tok ! 4) of Inl e \<Rightarrow> Inl e | Inr v \<Rightarrow> Inr [word_of_int v])
          else Inr (blank_meta tok))
       else Inr (unplaced_from tk tok 0))"

fun decode_all :: "tokenizer \<Rightarrow> int list \<Rightarrow> bytes result" where
  "decode_all tk [] = Inr []"
| "decode_all tk (i # is) =
    (case decode_token tk i of
       Inl e \<Rightarrow> Inl e
     | Inr s \<Rightarrow> (case decode_all tk is of Inl e \<Rightarrow> Inl e | Inr r \<Rightarrow> Inr (s @ r)))"

definition decode :: "tokenizer \<Rightarrow> int list \<Rightarrow> bytes result" where
  "decode tk ids =
    (case decode_all tk ids of
       Inl e \<Rightarrow> Inl e
     | Inr out \<Rightarrow> Inr (if tk_family tk = Metaspace \<and> out \<noteq> [] \<and> hd out = 32 then tl out else out))"

subsection \<open>Chat template and stop set\<close>

definition chat_line :: "chat_message \<Rightarrow> bytes" where
  "chat_line m = ascii ''<|im_start|>'' @ role m @ [10] @ content m @ ascii ''<|im_end|>'' @ [10]"

definition default_system :: bytes where
  "default_system = ascii ''<|im_start|>system'' @ [10] @
    ascii ''You are Qwen, created by Alibaba Cloud. You are a helpful assistant.<|im_end|>'' @ [10]"

definition apply_chat_template :: "tokenizer \<Rightarrow> chat_message list \<Rightarrow> bytes result" where
  "apply_chat_template tk messages =
    (if \<not> chatml tk then Inl (Runtime_Error ''only ChatML chat templates are implemented'')
     else
       let has_system = messages \<noteq> [] \<and> role (hd messages) = ascii ''system'' in
       Inr ((if has_system then [] else default_system) @ concat (map chat_line messages) @
            ascii ''<|im_start|>assistant'' @ [10]))"

definition is_stop :: "tokenizer \<Rightarrow> int \<Rightarrow> bool" where
  "is_stop tk i = (i = eos_id tk \<or> i = eot_id tk)"

definition stop_ids :: "tokenizer \<Rightarrow> int list" where
  "stop_ids tk = (if 0 \<le> eot_id tk \<and> eot_id tk \<noteq> eos_id tk then [eos_id tk, eot_id tk] else [eos_id tk])"

definition vocab_size :: "tokenizer \<Rightarrow> nat" where
  "vocab_size tk = length (id_to_token tk)"

end
