(* ===== verification/Byte_Alphabet.thy ===== *)
theory Byte_Alphabet
  imports Tokenizer
begin

text \<open>
  The interface between the byte-level encoder and decoder: an alphabet of printable placeholders,
  one per byte, that can be read back from a concatenation. \<open>byte_alphabet\<close> states what the
  decoder relies on; the interpretation shows that the tables the constructor of
  \<open>src/src/tokenizer/tokenizer.cpp\<close> builds are such an alphabet.
\<close>

subsection \<open>The interface\<close>

locale byte_alphabet =
  fixes sym :: "byte \<Rightarrow> bytes"
    and unsym :: "bytes \<rightharpoonup> byte"
  assumes unsym_sym: "unsym (sym b) = Some b"
    and sym_nonempty: "sym b \<noteq> []"
    and sym_reads: "fst (utf8_decode (pre @ sym b @ post) (length pre)) = length (sym b)"
begin

definition spell :: "bytes \<Rightarrow> bytes" where
  "spell bs = concat (map sym bs)"

lemma spell_simps [simp]: "spell [] = []" "spell (b # bs) = sym b @ spell bs" "spell (xs @ ys) = spell xs @ spell ys"
  by (simp_all add: spell_def)

lemma unplaced_spell:
  assumes "unicode_to_byte tk = unsym"
  shows "unplaced_from tk (pre @ spell bs) (length pre) = bs"
proof (induction bs arbitrary: pre)
  case Nil
  then show ?case by (simp add: unplaced_from.simps)
next
  case (Cons b bs)
  let ?tok = "pre @ spell (b # bs)"
  obtain cp where d: "utf8_decode ?tok (length pre) = (length (sym b), cp)"
    using sym_reads[of pre b "spell bs"] by (metis prod.collapse spell_simps(2))
  have "unplaced_from tk ((pre @ sym b) @ spell bs) (length (pre @ sym b)) = bs" by (rule Cons.IH)
  moreover have "take (length (sym b)) (drop (length pre) ?tok) = sym b" by simp
  moreover have "length pre < length ?tok" using sym_nonempty[of b] by simp
  ultimately show ?case
    using d by (subst unplaced_from.simps) (simp add: assms unsym_sym)
qed

end

subsection \<open>The tables\<close>

lemma add_placeholders:
  assumes "distinct xs"
  shows "foldl add_placeholder (bs, cs, n) xs =
    (bs @ filter (\<lambda>b. b \<notin> set bs) xs,
     cs @ [256 + n..<256 + n + length (filter (\<lambda>b. b \<notin> set bs) xs)],
     n + length (filter (\<lambda>b. b \<notin> set bs) xs))"
  using assms
proof (induction xs arbitrary: bs cs n)
  case (Cons x xs)
  show ?case
  proof (cases "x \<in> set bs")
    case True
    then show ?thesis using Cons by (simp add: add_placeholder_def)
  next
    case False
    have "filter (\<lambda>b. b \<notin> set (bs @ [x])) xs = filter (\<lambda>b. b \<notin> set bs) xs"
      using Cons.prems by (auto intro: filter_cong)
    then show ?thesis
      using Cons.IH[of "bs @ [x]" "cs @ [256 + n]" "n + 1"] Cons.prems False
      by (simp add: add_placeholder_def upt_conv_Cons add.assoc)
  qed
qed simp

definition other_bytes :: "nat list" where
  "other_bytes = filter (\<lambda>b. b \<notin> set printable_bytes) [0..<256]"

lemma placeholder_table_eq:
  "placeholder_table = zip (printable_bytes @ other_bytes)
     (printable_bytes @ [256..<256 + length other_bytes])"
  by (simp add: placeholder_table_def add_placeholders other_bytes_def)

lemma printable_below: "b \<in> set printable_bytes \<Longrightarrow> b < 256"
  by (auto simp: printable_bytes_def)

lemma other_length: "length other_bytes \<le> 256"
  using length_filter_le[of _ "[0..<256]"] by (simp add: other_bytes_def)

lemma table_bytes:
  "map fst placeholder_table = printable_bytes @ other_bytes"
  "map snd placeholder_table = printable_bytes @ [256..<256 + length other_bytes]"
  by (simp_all add: placeholder_table_eq)

lemma table_distinct: "distinct (map fst placeholder_table)" "distinct (map snd placeholder_table)"
proof -
  have d: "distinct printable_bytes" by (auto simp: printable_bytes_def)
  then show "distinct (map fst placeholder_table)" by (auto simp: table_bytes other_bytes_def)
  show "distinct (map snd placeholder_table)" using d by (auto simp: table_bytes dest: printable_below)
qed

lemma table_complete: "set (map fst placeholder_table) = {..<256}"
  by (auto simp: table_bytes other_bytes_def dest: printable_below)

lemma table_small: "(b, c) \<in> set placeholder_table \<Longrightarrow> c < 512"
proof -
  assume "(b, c) \<in> set placeholder_table"
  then have "c \<in> set (map snd placeholder_table)" by (metis in_set_conv_nth length_map nth_map snd_conv nth_mem)
  then show "c < 512" using other_length printable_below[of c] by (auto simp: table_bytes)
qed

text \<open>Filling the two arrays from the table, entry by entry.\<close>

lemma set_symbol_fields [simp]:
  "byte_to_unicode (set_symbol tk (b, c)) = (byte_to_unicode tk)[b := utf8_encode (word_of_nat c)]"
  "unicode_to_byte (set_symbol tk (b, c)) = (unicode_to_byte tk)(utf8_encode (word_of_nat c) \<mapsto> word_of_nat b)"
  by (simp_all add: set_symbol_def)

lemma set_symbol_same [simp]:
  "length (byte_to_unicode (foldl set_symbol tk es)) = length (byte_to_unicode tk)"
  by (induction es arbitrary: tk) (auto simp: set_symbol_def)

lemma set_symbols_byte:
  assumes "distinct (map fst es)" "(b, c) \<in> set es" "\<forall>e \<in> set es. fst e < length (byte_to_unicode tk)"
  shows "byte_to_unicode (foldl set_symbol tk es) ! b = utf8_encode (word_of_nat c)"
  using assms
proof (induction es rule: rev_induct)
  case (snoc e es)
  obtain b' c' where e: "e = (b', c')" by force
  show ?case
  proof (cases "(b, c) = e")
    case True
    then show ?thesis using snoc.prems e by simp
  next
    case False
    then have "(b, c) \<in> set es" using snoc.prems by simp
    moreover from this have "b \<noteq> b'" using snoc.prems e by force
    ultimately show ?thesis using snoc e by simp
  qed
qed simp

lemma utf8_encode_inj:
  assumes "c < 0x200000" "d < 0x200000" "utf8_encode c = utf8_encode d"
  shows "c = d"
  using utf8_decode_encode[OF assms(1), of "[]" "[]"] utf8_decode_encode[OF assms(2), of "[]" "[]"] assms(3)
  by simp

lemma small_word: "c < 512 \<Longrightarrow> (word_of_nat c :: u32) < 0x200000"
  by (simp add: word_less_nat_alt unat_of_nat)

lemma small_word_inj: "c < 512 \<Longrightarrow> d < 512 \<Longrightarrow> (word_of_nat c :: u32) = word_of_nat d \<Longrightarrow> c = d"
proof -
  assume "c < 512" "d < 512"
  then have "unat (word_of_nat c :: u32) = c" "unat (word_of_nat d :: u32) = d" by (simp_all add: unat_of_nat)
  then show "(word_of_nat c :: u32) = word_of_nat d \<Longrightarrow> c = d" by metis
qed

lemma set_symbols_unicode:
  assumes "distinct (map snd es)" "(b, c) \<in> set es" "\<forall>e \<in> set es. snd e < 512"
  shows "unicode_to_byte (foldl set_symbol tk es) (utf8_encode (word_of_nat c)) = Some (word_of_nat b)"
  using assms
proof (induction es rule: rev_induct)
  case (snoc e es)
  obtain b' c' where e: "e = (b', c')" by force
  show ?case
  proof (cases "(b, c) = e")
    case True
    then show ?thesis by auto
  next
    case False
    then have m: "(b, c) \<in> set es" using snoc.prems by simp
    then have "c \<noteq> c'" using snoc.prems(1) e by force
    moreover have "c < 512" "c' < 512" using snoc.prems e by auto
    ultimately have "utf8_encode (word_of_nat c) \<noteq> utf8_encode (word_of_nat c')"
      using utf8_encode_inj small_word small_word_inj by blast
    then show ?thesis using snoc m e by simp
  qed
qed simp

definition placeholder :: "byte \<Rightarrow> bytes" where
  "placeholder b = byte_to_unicode (byte_tables empty_tokenizer) ! unat b"

definition placeholder_byte :: "bytes \<rightharpoonup> byte" where
  "placeholder_byte = unicode_to_byte (byte_tables empty_tokenizer)"

lemma placeholder_entry:
  obtains c where "(unat b, c) \<in> set placeholder_table" "c < 512"
    "placeholder b = utf8_encode (word_of_nat c)" "placeholder_byte (placeholder b) = Some b"
proof -
  have "unat b < 256" using unsigned_less[of b] by simp
  then obtain c where c: "(unat b, c) \<in> set placeholder_table"
    using table_complete by (metis (no_types, lifting) imageE lessThan_iff list.set_map prod.collapse)
  have small: "\<forall>e \<in> set placeholder_table. snd e < 512" using table_small by force
  have "\<forall>e \<in> set placeholder_table. fst e < length (byte_to_unicode empty_tokenizer)"
    using table_complete by (auto simp: empty_tokenizer_def)
  then have p: "placeholder b = utf8_encode (word_of_nat c)"
    unfolding placeholder_def byte_tables_def using set_symbols_byte[OF table_distinct(1) c] by blast
  moreover have "placeholder_byte (placeholder b) = Some b"
    unfolding p placeholder_byte_def byte_tables_def
    using set_symbols_unicode[OF table_distinct(2) c small] by simp
  ultimately show ?thesis using that c table_small by blast
qed

interpretation gpt2: byte_alphabet placeholder placeholder_byte
proof
  fix b and pre post :: bytes
  obtain c where c: "c < 512" "placeholder b = utf8_encode (word_of_nat c)" "placeholder_byte (placeholder b) = Some b"
    using placeholder_entry by metis
  show "placeholder_byte (placeholder b) = Some b" by (rule c(3))
  show "placeholder b \<noteq> []" using c(2) by simp
  show "fst (utf8_decode (pre @ placeholder b @ post) (length pre)) = length (placeholder b)"
    using utf8_decode_encode[OF small_word[OF c(1)], of pre post] c(2) by simp
qed

end
