(* ===== verification/Tokenizer_Codec.thy ===== *)
theory Tokenizer_Codec
  imports Byte_Alphabet
begin

text \<open>
  What encoding and decoding do to a text. Merging ends in a sequence with no applicable merge
  and never changes the bytes the tokens spell; the loop over the added tokens ends when none of
  them is empty; and for the byte-level family, decoding what was encoded gives the text back.
\<close>

subsection \<open>Merging\<close>

definition mergeable :: "tokenizer \<Rightarrow> int list \<Rightarrow> bool" where
  "mergeable tk ids =
    list_ex (\<lambda>i. case merges tk (ids ! i, ids ! (i + 1)) of
       Some m \<Rightarrow> m_rank m < INT32_MAX | None \<Rightarrow> False) [0..<length ids - 1]"

lemma bpe_merge_normal: "\<not> mergeable tk (bpe_merge tk ids)"
proof (induction tk ids rule: bpe_merge.induct)
  case (1 tk ids)
  obtain r mid i where b: "best_pair (merges tk) ids = (r, mid, i)" by (metis prod_cases3)
  show ?case
  proof (cases "2 \<le> length ids")
    case True
    show ?thesis
    proof (cases "r = INT32_MAX")
      case stop: True
      then have "bpe_merge tk ids = ids" using b by (subst bpe_merge.simps) simp
      moreover have "\<not> mergeable tk ids"
        using best_pair_props[OF b] stop by (auto simp: mergeable_def list_ex_iff split: option.splits)
      ultimately show ?thesis by simp
    next
      case False
      then have "bpe_merge tk ids = bpe_merge tk (replace_pair (ids ! i) (ids ! (i + 1)) mid ids)"
        using b True by (subst bpe_merge.simps) simp
      then show ?thesis using "1.IH"[OF True b[symmetric] refl False] by simp
    qed
  next
    case False
    then have "bpe_merge tk ids = ids" by (subst bpe_merge.simps) simp
    then show ?thesis using False by (simp add: mergeable_def)
  qed
qed

text \<open>A step of merging as a relation: all occurrences of a lowest-ranked adjacent pair become its
  merged token.\<close>

inductive merge_step :: "tokenizer \<Rightarrow> int list \<Rightarrow> int list \<Rightarrow> bool" for tk where
  lowest: "i + 1 < length ids \<Longrightarrow> merges tk (ids ! i, ids ! (i + 1)) = Some m \<Longrightarrow> m_rank m < INT32_MAX \<Longrightarrow>
    (\<And>k m'. k + 1 < length ids \<Longrightarrow> merges tk (ids ! k, ids ! (k + 1)) = Some m' \<Longrightarrow> m_rank m \<le> m_rank m') \<Longrightarrow>
    merge_step tk ids (replace_pair (ids ! i) (ids ! (i + 1)) (m_id m) ids)"

lemma best_pair_step:
  assumes "best_pair (merges tk) ids = (r, mid, i)" "r \<noteq> INT32_MAX"
  shows "merge_step tk ids (replace_pair (ids ! i) (ids ! (i + 1)) mid ids)"
proof -
  have b: "r < INT32_MAX" "i + 1 < length ids" "merges tk (ids ! i, ids ! (i + 1)) = Some \<lparr>m_rank = r, m_id = mid\<rparr>"
    "\<forall>k<length ids - 1. \<forall>m. merges tk (ids ! k, ids ! (k + 1)) = Some m \<longrightarrow> r \<le> m_rank m"
    using best_pair_props[OF assms(1)] assms(2) by auto
  show ?thesis using merge_step.lowest[OF b(2,3)] b by (simp add: less_diff_conv)
qed

lemma bpe_merge_induct [consumes 0, case_names stop step]:
  assumes "\<And>ids. \<not> mergeable tk ids \<Longrightarrow> P ids ids"
    and "\<And>ids ids' out. merge_step tk ids ids' \<Longrightarrow> P ids' out \<Longrightarrow> P ids out"
  shows "P ids (bpe_merge tk ids)"
  using assms
proof (induction tk ids rule: bpe_merge.induct)
  case (1 tk ids)
  obtain r mid i where b: "best_pair (merges tk) ids = (r, mid, i)" by (metis prod_cases3)
  show ?case
  proof (cases "2 \<le> length ids \<and> r \<noteq> INT32_MAX")
    case True
    then have "bpe_merge tk ids = bpe_merge tk (replace_pair (ids ! i) (ids ! (i + 1)) mid ids)"
      using b by (subst bpe_merge.simps) simp
    then show ?thesis
      using "1.IH"[OF _ b[symmetric] refl] True best_pair_step[OF b] "1.prems" by metis
  next
    case False
    then have "bpe_merge tk ids = ids" using b by (subst bpe_merge.simps) auto
    then show ?thesis using bpe_merge_normal[of tk ids] "1.prems"(1)[of ids] by simp
  qed
qed

lemma bpe_merge_steps: "(merge_step tk)\<^sup>*\<^sup>* ids (bpe_merge tk ids)"
  by (induction rule: bpe_merge_induct) (auto intro: converse_rtranclp_into_rtranclp)

subsection \<open>What tokens spell\<close>

definition is_added :: "tokenizer \<Rightarrow> int \<Rightarrow> bool" where
  "is_added tk i = list_ex (\<lambda>a. snd a = i) (added_tokens tk)"

definition has_token :: "tokenizer \<Rightarrow> int \<Rightarrow> bytes \<Rightarrow> bool" where
  "has_token tk i t = (0 \<le> i \<and> nat i < length (id_to_token tk) \<and> id_to_token tk ! nat i = t)"

definition byte_level_ok :: "tokenizer \<Rightarrow> bool" where
  "byte_level_ok tk =
    (tk_family tk = ByteLevel \<and>
     byte_to_unicode tk = byte_to_unicode (byte_tables empty_tokenizer) \<and>
     unicode_to_byte tk = unicode_to_byte (byte_tables empty_tokenizer) \<and>
     (\<forall>b. \<exists>i. token_to_id tk (placeholder b) = Some i \<and> has_token tk i (placeholder b) \<and> \<not> is_added tk i) \<and>
     (\<forall>a b m. merges tk (a, b) = Some m \<longrightarrow>
        (\<exists>ta tb. has_token tk a ta \<and> has_token tk b tb \<and> has_token tk (m_id m) (ta @ tb) \<and>
           \<not> is_added tk (m_id m))) \<and>
     (\<forall>(t, i) \<in> set (added_tokens tk). has_token tk i t \<and> t \<noteq> [] \<and> list_all (\<lambda>c. c < 0x80) t))"

definition spells :: "tokenizer \<Rightarrow> int \<Rightarrow> bytes \<Rightarrow> bool" where
  "spells tk i bs = (has_token tk i (gpt2.spell bs) \<and> \<not> is_added tk i)"

lemma spells_byte:
  assumes "byte_level_ok tk"
  obtains i where "token_to_id tk (byte_to_unicode tk ! unat b) = Some i" "spells tk i [b]"
  using assms unfolding byte_level_ok_def placeholder_def[symmetric] spells_def
  by (metis append_Nil2 gpt2.spell_simps(1,2) placeholder_def)

lemma spells_merge:
  assumes "byte_level_ok tk" "merges tk (a, b) = Some m" "spells tk a xs" "spells tk b ys"
  shows "spells tk (m_id m) (xs @ ys)"
proof -
  obtain ta tb where t: "has_token tk a ta" "has_token tk b tb" "has_token tk (m_id m) (ta @ tb)" "\<not> is_added tk (m_id m)"
    using assms(1,2) unfolding byte_level_ok_def by metis
  then have "ta = gpt2.spell xs" "tb = gpt2.spell ys" using assms(3,4) by (simp_all add: spells_def has_token_def)
  then show ?thesis using t by (simp add: spells_def)
qed

lemma spells_decode:
  assumes "byte_level_ok tk" "spells tk i bs"
  shows "decode_token tk i = Inr bs"
proof -
  have t: "0 \<le> i" "nat i < length (id_to_token tk)" "id_to_token tk ! nat i = gpt2.spell bs" "\<not> is_added tk i"
    using assms(2) by (auto simp: spells_def has_token_def)
  have "unplaced_from tk (gpt2.spell bs) 0 = bs"
    using gpt2.unplaced_spell[of tk "[]" bs] assms(1) by (simp add: byte_level_ok_def placeholder_byte_def)
  moreover have "\<not> int (length (id_to_token tk)) \<le> i" using t(1,2) by linarith
  moreover have "tk_family tk = ByteLevel" using assms(1) by (simp add: byte_level_ok_def)
  ultimately show ?thesis using t by (simp add: decode_token_def is_added_def)
qed

lemma replace_pair_spells:
  assumes "byte_level_ok tk" "merges tk (a, b) = Some m"
  shows "list_all2 (spells tk) ids bss \<Longrightarrow>
    \<exists>bss'. list_all2 (spells tk) (replace_pair a b (m_id m) ids) bss' \<and> concat bss' = concat bss"
proof (induction ids arbitrary: bss rule: induct_list012)
  case (3 x y xs)
  then obtain bx bys rest where s: "bss = bx # bys # rest" "spells tk x bx" "spells tk y bys"
      "list_all2 (spells tk) xs rest"
    by (auto simp: list_all2_Cons1)
  show ?case
  proof (cases "x = a \<and> y = b")
    case True
    obtain r' where r': "list_all2 (spells tk) (replace_pair a b (m_id m) xs) r'" "concat r' = concat rest"
      using 3(1)[OF s(4)] by blast
    have "spells tk (m_id m) (bx @ bys)" using spells_merge[OF assms] s(2,3) True by simp
    then show ?thesis using r' s(1) True by (intro exI[of _ "(bx @ bys) # r'"]) simp
  next
    case False
    obtain r' where r': "list_all2 (spells tk) (replace_pair a b (m_id m) (y # xs)) r'" "concat r' = concat (bys # rest)"
      using 3(2)[of "bys # rest"] s(3,4) by auto
    then show ?thesis using s(1,2) False by (intro exI[of _ "bx # r'"]) auto
  qed
qed auto

lemma bpe_merge_spells:
  assumes "byte_level_ok tk" "list_all2 (spells tk) ids bss"
  shows "\<exists>bss'. list_all2 (spells tk) (bpe_merge tk ids) bss' \<and> concat bss' = concat bss"
proof -
  let ?P = "\<lambda>ids out. \<forall>bss. list_all2 (spells tk) ids bss \<longrightarrow>
    (\<exists>bss'. list_all2 (spells tk) out bss' \<and> concat bss' = concat bss)"
  have "?P ids (bpe_merge tk ids)"
  proof (rule bpe_merge_induct[of tk ?P])
    fix ids ids' out
    assume step: "merge_step tk ids ids'" and ih: "?P ids' out"
    from step obtain a b m where "merges tk (a, b) = Some m" "ids' = replace_pair a b (m_id m) ids"
      by (cases rule: merge_step.cases) auto
    then show "?P ids out" using replace_pair_spells[OF assms(1)] ih by metis
  qed blast
  then show ?thesis using assms(2) by blast
qed

lemma byte_symbols_spell:
  assumes "byte_level_ok tk"
  shows "\<exists>ids. byte_symbols tk w = Inr ids \<and> list_all2 (spells tk) ids (map (\<lambda>b. [b]) w)"
proof (induction w)
  case (Cons b w)
  obtain i where "token_to_id tk (byte_to_unicode tk ! unat b) = Some i" "spells tk i [b]"
    using spells_byte[OF assms] by blast
  then show ?case using Cons by auto
qed simp

lemma bpe_spells:
  assumes "byte_level_ok tk"
  shows "\<exists>ids bss. bpe tk w = Inr ids \<and> list_all2 (spells tk) ids bss \<and> concat bss = w"
proof -
  obtain ids where "byte_symbols tk w = Inr ids" "list_all2 (spells tk) ids (map (\<lambda>b. [b]) w)"
    using byte_symbols_spell[OF assms] by blast
  then show ?thesis using bpe_merge_spells[OF assms] by (fastforce simp: bpe_def)
qed

lemma bpe_words_spell:
  assumes "byte_level_ok tk"
  shows "\<exists>ids bss. bpe_words tk ws = Inr ids \<and> list_all2 (spells tk) ids bss \<and> concat bss = concat ws"
proof (induction ws)
  case (Cons w ws)
  obtain i1 b1 where 1: "bpe tk w = Inr i1" "list_all2 (spells tk) i1 b1" "concat b1 = w"
    using bpe_spells[OF assms] by blast
  obtain i2 b2 where 2: "bpe_words tk ws = Inr i2" "list_all2 (spells tk) i2 b2" "concat b2 = concat ws"
    using Cons by blast
  have "list_all2 (spells tk) (i1 @ i2) (b1 @ b2)" using 1 2 by (simp add: list_all2_appendI)
  moreover have "concat (b1 @ b2) = concat (w # ws)" using 1 2 by simp
  ultimately show ?case using 1 2 by (intro exI[of _ "i1 @ i2"] exI[of _ "b1 @ b2"]) simp
qed simp

lemma decode_all_append:
  "decode_all tk (xs @ ys) =
    (case decode_all tk xs of Inl e \<Rightarrow> Inl e
     | Inr a \<Rightarrow> (case decode_all tk ys of Inl e \<Rightarrow> Inl e | Inr b \<Rightarrow> Inr (a @ b)))"
  by (induction xs) (auto split: sum.splits)

lemma decode_all_spells:
  assumes "byte_level_ok tk"
  shows "list_all2 (spells tk) ids bss \<Longrightarrow> decode_all tk ids = Inr (concat bss)"
  by (induction rule: list_all2_induct) (auto simp: spells_decode[OF assms])

subsection \<open>Valid texts\<close>

text \<open>A text that the code points decoded from it encode again: the UTF-8 texts. Other byte strings
  come back changed, since every stray byte is read as U+FFFD.\<close>

definition valid_utf8 :: "bytes \<Rightarrow> bool" where
  "valid_utf8 s = (utf8_text (to_codepoints s) = s \<and> list_all (\<lambda>c. c < 0x200000) (to_codepoints s))"

lemma valid_utf8_text: "\<forall>c \<in> set cps. c < 0x200000 \<Longrightarrow> valid_utf8 (utf8_text cps)"
  by (simp add: valid_utf8_def to_codepoints_text list_all_iff)

lemma valid_utf8_iff: "valid_utf8 s \<longleftrightarrow> (\<exists>cps. (\<forall>c \<in> set cps. c < 0x200000) \<and> s = utf8_text cps)"
  by (metis valid_utf8_text valid_utf8_def list_all_iff)

lemma encode_chunk_spells:
  assumes "byte_level_ok tk" "valid_utf8 s"
  shows "\<exists>ids bss. encode_chunk tk s = Inr ids \<and> list_all2 (spells tk) ids bss \<and> concat bss = s"
proof -
  have "concat (pre_tokenize s) = s"
    using assms(2) by (simp add: pre_tokenize_def pre_tokenize_concat_from valid_utf8_def)
  moreover have "tk_family tk = ByteLevel" using assms(1) by (simp add: byte_level_ok_def)
  ultimately show ?thesis
    using bpe_words_spell[OF assms(1), of "pre_tokenize s"] by (simp add: encode_chunk_def encode_byte_level_def)
qed

lemma multibyte_high:
  assumes "c < 0x200000" "\<not> c < 0x80" "x \<in> set (utf8_encode c)"
  shows "0x80 \<le> x"
  using assms
  by (auto simp: utf8_encode_def word_le_nat_alt word_less_nat_alt unat_lead unat_cont split: if_splits)

text \<open>An ASCII byte of a valid text is a character of its own, so cutting there leaves valid texts.\<close>

lemma utf8_text_split:
  "\<forall>c \<in> set cps. c < 0x200000 \<Longrightarrow> utf8_text cps = a @ x # r \<Longrightarrow> x < 0x80 \<Longrightarrow>
   \<exists>c1 c2. cps = c1 @ c2 \<and> c2 \<noteq> [] \<and> a = utf8_text c1 \<and> r = utf8_text (tl c2)"
proof (induction cps arbitrary: a)
  case (Cons c cps)
  have e: "utf8_encode c @ utf8_text cps = a @ x # r" using Cons.prems(2) by simp
  show ?case
  proof (cases "length a < length (utf8_encode c)")
    case True
    then have "utf8_encode c ! length a = x" using e by (metis nth_append nth_append_length)
    then have "x \<in> set (utf8_encode c)" using True by force
    then have "c < 0x80" using multibyte_high[of c x] Cons.prems(1,3) by (metis linorder_not_le list.set_intros(1))
    then have "length (utf8_encode c) = 1" by (simp add: utf8_encode_def)
    then have "a = []" "r = utf8_text cps" using True e by (cases "utf8_encode c"; auto)+
    then show ?thesis by (intro exI[of _ "[]"] exI[of _ "c # cps"]) simp
  next
    case False
    then obtain a' where "a = utf8_encode c @ a'" "utf8_text cps = a' @ x # r"
      using e by (auto simp: append_eq_append_conv2)
    then obtain c1 c2 where "cps = c1 @ c2" "c2 \<noteq> []" "a' = utf8_text c1" "r = utf8_text (tl c2)"
      using Cons.IH[of a'] Cons.prems by auto
    then show ?thesis using \<open>a = _\<close> by (intro exI[of _ "c # c1"] exI[of _ c2]) simp
  qed
qed simp

lemma valid_cut:
  assumes "valid_utf8 (a @ t @ r)" "t \<noteq> []" "list_all (\<lambda>c. c < 0x80) t"
  shows "valid_utf8 a" "valid_utf8 r"
proof -
  have one: "valid_utf8 a \<and> valid_utf8 r" if v: "valid_utf8 (a @ x # r)" "x < 0x80" for a x r
  proof -
    obtain cps where "\<forall>c \<in> set cps. c < 0x200000" "a @ x # r = utf8_text cps" using v valid_utf8_iff by blast
    then obtain c1 c2 where "cps = c1 @ c2" "a = utf8_text c1" "r = utf8_text (tl c2)" "c2 \<noteq> []"
      using utf8_text_split[of cps a x r] v(2) by metis
    then show ?thesis using \<open>\<forall>c \<in> set cps. c < 0x200000\<close> valid_utf8_text[of c1] valid_utf8_text[of "tl c2"]
      by (auto dest: list.set_sel(2))
  qed
  obtain x t' where t: "t = x # t'" using assms(2) by (cases t) auto
  show "valid_utf8 a" using one[of a x "t' @ r"] assms t by simp
  have "valid_utf8 (t' @ r) \<Longrightarrow> list_all (\<lambda>c. c < 0x80) t' \<Longrightarrow> valid_utf8 r"
  proof (induction t')
    case (Cons y t')
    then show ?case using one[of "[]" y "t' @ r"] by simp
  qed simp
  then show "valid_utf8 r" using one[of a x "t' @ r"] assms t by simp
qed

subsection \<open>The loop over added tokens\<close>

lemma str_find_Some:
  "str_find pat s pos = Some k \<Longrightarrow> pos \<le> k \<and> k + length pat \<le> length s \<and> take (length pat) (drop k s) = pat"
proof (induction pat s pos rule: str_find.induct)
  case (1 pat s pos)
  show ?case using "1.prems" "1.IH" by (subst (asm) str_find.simps) (auto split: if_splits)
qed

lemma next_added_Some:
  assumes "next_added tk text pos = Some (k, t, i)"
  shows "(t, i) \<in> set (added_tokens tk)" "str_find t text pos = Some k"
proof -
  have "foldl (scan_added text pos) None ts = Some (k, t, i) \<Longrightarrow> (t, i) \<in> set ts \<and> str_find t text pos = Some k" for ts
    by (induction ts rule: rev_induct) (auto simp: scan_added_def split: option.splits if_splits)
  then show "(t, i) \<in> set (added_tokens tk)" "str_find t text pos = Some k"
    using assms by (auto simp: next_added_def)
qed

lemma next_added_parts:
  assumes "next_added tk text pos = Some (k, t, i)"
  shows "pos \<le> k" "k + length t \<le> length text"
    "drop pos text = take (k - pos) (drop pos text) @ t @ drop (k + length t) text"
proof -
  have f: "pos \<le> k" "k + length t \<le> length text" "take (length t) (drop k text) = t"
    using str_find_Some[OF next_added_Some(2)[OF assms]] by auto
  have "drop k text = t @ drop (k + length t) text"
    by (metis f(3) append_take_drop_id drop_drop add.commute)
  moreover have "drop pos text = take (k - pos) (drop pos text) @ drop k text"
    using f(1) by (metis append_take_drop_id drop_drop le_add_diff_inverse2)
  ultimately show "pos \<le> k" "k + length t \<le> length text"
    "drop pos text = take (k - pos) (drop pos text) @ t @ drop (k + length t) text" using f by auto
qed

text \<open>A turn of the loop moves on when no added token is empty.\<close>

definition added_nonempty :: "tokenizer \<Rightarrow> bool" where
  "added_nonempty tk = list_all (\<lambda>t. fst t \<noteq> []) (added_tokens tk)"

lemma encode_turn_moves:
  assumes "added_nonempty tk" "pos < length text" "encode_turn tk text pos out = Inr (pos', out')"
  shows "pos < pos'"
proof (cases "next_added tk text pos")
  case None
  then show ?thesis using assms by (auto simp: encode_turn_def split: sum.splits)
next
  case (Some x)
  obtain k t i where x: "x = (k, t, i)" by (metis prod_cases3)
  then have "t \<noteq> []" using next_added_Some(1)[of tk "text" pos k t i] Some assms(1)
    by (force simp: added_nonempty_def list_all_iff)
  moreover have "pos' = k + length t" using assms(3) Some x by (auto simp: encode_turn_def Let_def split: sum.splits)
  ultimately show ?thesis using next_added_parts(1)[of tk "text" pos k t i] Some x by (cases t) auto
qed

lemma encode_loop_returns:
  assumes "added_nonempty tk"
  shows "\<exists>r. encode_loop tk text pos out = Some r"
proof (induction "length text - pos" arbitrary: pos out rule: less_induct)
  case less
  show ?case
  proof (cases "pos < length text")
    case True
    show ?thesis
    proof (cases "encode_turn tk text pos out")
      case (Inr x)
      obtain pos' out' where x: "x = (pos', out')" by force
      then have "pos < pos'" using encode_turn_moves[OF assms True] Inr by simp
      then have "\<exists>r. encode_loop tk text pos' out' = Some r" using less True by (simp add: diff_less_mono2)
      then show ?thesis using True Inr x by (subst encode_loop.simps) simp
    qed (use True in \<open>simp add: encode_loop.simps\<close>)
  qed (simp add: encode_loop.simps)
qed

text \<open>One turn on a valid rest of the text appends tokens that decode to the part it consumed.\<close>

lemma added_decodes:
  assumes "byte_level_ok tk" "(t, i) \<in> set (added_tokens tk)"
  shows "decode_token tk i = Inr t" "t \<noteq> []" "list_all (\<lambda>c. c < 0x80) t"
proof -
  have t: "has_token tk i t" "t \<noteq> []" "list_all (\<lambda>c. c < 0x80) t"
    using assms unfolding byte_level_ok_def by fastforce+
  then show "t \<noteq> []" "list_all (\<lambda>c. c < 0x80) t" by auto
  have "list_ex (\<lambda>a. snd a = i) (added_tokens tk)" using assms(2) by (force simp: list_ex_iff)
  then show "decode_token tk i = Inr t" using t(1) by (auto simp: decode_token_def has_token_def)
qed

lemma encode_turn_ok:
  assumes "byte_level_ok tk" "pos < length text" "valid_utf8 (drop pos text)"
  shows "\<exists>pos' ids. encode_turn tk text pos out = Inr (pos', out @ ids) \<and> pos < pos' \<and>
    valid_utf8 (drop pos' text) \<and> (\<exists>s. decode_all tk ids = Inr s \<and> drop pos text = s @ drop pos' text)"
proof (cases "next_added tk text pos")
  case None
  obtain ids bss where "encode_chunk tk (drop pos text) = Inr ids" "list_all2 (spells tk) ids bss" "concat bss = drop pos text"
    using encode_chunk_spells[OF assms(1,3)] by blast
  then show ?thesis
    using None assms(2) decode_all_spells[OF assms(1)] valid_utf8_text[of "[]"]
    by (auto simp: encode_turn_def Let_def)
next
  case (Some x)
  obtain k t i where x: "x = (k, t, i)" by (metis prod_cases3)
  note nx = Some[unfolded x]
  note t = added_decodes[OF assms(1) next_added_Some(1)[OF nx]]
  define chunk where "chunk = take (k - pos) (drop pos text)"
  have parts: "drop pos text = chunk @ t @ drop (k + length t) text" "pos \<le> k"
    using next_added_parts[OF nx] by (simp_all add: chunk_def)
  then have v: "valid_utf8 chunk" "valid_utf8 (drop (k + length t) text)"
    using valid_cut[OF _ t(2,3)] assms(3) by metis+
  have "\<exists>ids. (if pos < k then encode_chunk tk chunk else Inr []) = Inr ids \<and> decode_all tk ids = Inr chunk"
    using encode_chunk_spells[OF assms(1) v(1)] decode_all_spells[OF assms(1)] parts(2)
    by (cases "pos < k") (force simp: chunk_def)+
  then obtain ids where i: "(if pos < k then encode_chunk tk chunk else Inr []) = Inr ids" "decode_all tk ids = Inr chunk"
    by blast
  have "encode_turn tk text pos out = Inr (k + length t, out @ (ids @ [i]))"
    using nx i(1) by (cases "pos < k") (simp_all add: encode_turn_def chunk_def)
  moreover have "decode_all tk (ids @ [i]) = Inr (chunk @ t)" using i(2) t(1) by (simp add: decode_all_append)
  moreover have "pos < k + length t" using t(2) parts(2) by (cases t) auto
  ultimately show ?thesis using v(2) parts(1) by (metis append.assoc)
qed

lemma encode_loop_roundtrip:
  assumes "byte_level_ok tk"
  shows "valid_utf8 (drop pos text) \<Longrightarrow>
    \<exists>ids. encode_loop tk text pos out = Some (Inr (out @ ids)) \<and> decode_all tk ids = Inr (drop pos text)"
proof (induction "length text - pos" arbitrary: pos out rule: less_induct)
  case less
  show ?case
  proof (cases "pos < length text")
    case True
    obtain pos' ids s where t: "encode_turn tk text pos out = Inr (pos', out @ ids)" "pos < pos'"
      "valid_utf8 (drop pos' text)" "decode_all tk ids = Inr s" "drop pos text = s @ drop pos' text"
      using encode_turn_ok[OF assms True less.prems] by blast
    have "length text - pos' < length text - pos" using t(2) True by (simp add: diff_less_mono2)
    then obtain rest where "encode_loop tk text pos' (out @ ids) = Some (Inr ((out @ ids) @ rest))"
        "decode_all tk rest = Inr (drop pos' text)"
      using less.hyps t(3) by blast
    then show ?thesis using t True
      by (intro exI[of _ "ids @ rest"]) (simp add: encode_loop.simps[of tk "text" pos] decode_all_append)
  qed (simp add: encode_loop.simps)
qed

lemma encode_decode_byte_level:
  assumes "byte_level_ok tk" "valid_utf8 text"
  shows "\<exists>ids. encode tk text = Some (Inr ids) \<and> decode tk ids = Inr text"
proof -
  obtain ids where "encode tk text = Some (Inr ids)" "decode_all tk ids = Inr text"
    using encode_loop_roundtrip[OF assms(1), of 0 "text" "[]"] assms(2) by (auto simp: encode_def)
  then show ?thesis using assms(1) by (auto simp: decode_def byte_level_ok_def)
qed

end
