(* ===== verification/Tokenizer_Load.thy ===== *)
theory Tokenizer_Load
  imports Tokenizer_Codec
begin

text \<open>
  What the constructor of \<open>Tokenizer\<close> builds from well-formed byte-level files: tables that
  \<open>byte_level_ok\<close> describes, so that the codec's theorems apply to every tokenizer it returns.
\<close>

definition byte_level_files :: "tokenizer_json \<Rightarrow> bool" where
  "byte_level_files j =
    (j_type j = ascii ''BPE'' \<and>
     (case j_pre_tokenizer j of Some d \<Rightarrow> contains_str d (ascii ''ByteLevel'') | None \<Rightarrow> False) \<and>
     distinct (map fst (j_vocab j @ j_added j)) \<and>
     distinct (map snd (j_vocab j @ j_added j)) \<and>
     list_all (\<lambda>e. 0 \<le> snd e) (j_vocab j @ j_added j) \<and>
     list_all (\<lambda>e. fst e \<noteq> [] \<and> list_all (\<lambda>c. c < 0x80) (fst e)) (j_added j) \<and>
     list_all (\<lambda>(b, c). utf8_encode (word_of_nat c) \<in> set (map fst (j_vocab j))) placeholder_table)"

subsection \<open>Filling the vocabulary\<close>

lemma put_token_has:
  assumes "put_token tk (t, i) = Inr tk'"
  shows "has_token tk' i t" "has_token tk k u \<Longrightarrow> k \<noteq> i \<Longrightarrow> has_token tk' k u"
  using assms
  by (auto simp: put_token_def has_token_def resize_tokens_def Let_def nth_append nth_list_update split: if_splits)

lemma put_token_rest:
  assumes "put_token tk (t, i) = Inr tk'"
  shows "token_to_id tk' = (token_to_id tk)(t \<mapsto> i)" "merges tk' = merges tk" "added_tokens tk' = added_tokens tk"
    "byte_to_unicode tk' = byte_to_unicode tk" "unicode_to_byte tk' = unicode_to_byte tk" "tk_family tk' = tk_family tk"
  using assms by (auto simp: put_token_def Let_def split: if_splits)

lemma put_tokens_rest:
  "put_tokens tk es = Inr tk' \<Longrightarrow> merges tk' = merges tk \<and> added_tokens tk' = added_tokens tk \<and>
    byte_to_unicode tk' = byte_to_unicode tk \<and> unicode_to_byte tk' = unicode_to_byte tk \<and> tk_family tk' = tk_family tk"
proof (induction es arbitrary: tk)
  case (Cons e es)
  then show ?case by (cases e) (auto simp: put_token_rest split: sum.splits)
qed simp

lemma put_tokens_total: "list_all (\<lambda>e. 0 \<le> snd e) es \<Longrightarrow> \<exists>tk'. put_tokens tk es = Inr tk'"
proof (induction es arbitrary: tk)
  case (Cons e es)
  then show ?case by (cases e) (auto simp: put_token_def Let_def)
qed simp

lemma put_tokens_ids:
  "put_tokens tk es = Inr tk' \<Longrightarrow> distinct (map fst es) \<Longrightarrow>
   token_to_id tk' t = (case map_of es t of Some i \<Rightarrow> Some i | None \<Rightarrow> token_to_id tk t)"
proof (induction es arbitrary: tk)
  case (Cons e es)
  obtain u i where e: "e = (u, i)" by force
  obtain tk1 where 1: "put_token tk (u, i) = Inr tk1" "put_tokens tk1 es = Inr tk'"
    using Cons.prems(1) e by (auto split: sum.splits)
  have "map_of es u = None" using Cons.prems(2) e by (simp add: map_of_eq_None_iff)
  then show ?case
    using Cons.IH[OF 1(2)] Cons.prems(2) put_token_rest(1)[OF 1(1)] e by (auto split: option.splits)
qed simp

lemma put_tokens_has:
  assumes "put_tokens tk es = Inr tk'" "distinct (map snd es)"
  shows "(t, i) \<in> set es \<Longrightarrow> has_token tk' i t"
    "has_token tk k u \<Longrightarrow> k \<notin> snd ` set es \<Longrightarrow> has_token tk' k u"
proof -
  have "((t, i) \<in> set es \<longrightarrow> has_token tk' i t) \<and> (has_token tk k u \<longrightarrow> k \<notin> snd ` set es \<longrightarrow> has_token tk' k u)"
    using assms
  proof (induction es arbitrary: tk t i k u)
    case (Cons e es)
    obtain v j where e: "e = (v, j)" by force
    obtain tk1 where 1: "put_token tk (v, j) = Inr tk1" "put_tokens tk1 es = Inr tk'"
      using Cons.prems(1) e by (auto split: sum.splits)
    note p = put_token_has[OF 1(1)]
    note ih = Cons.IH[OF 1(2)]
    show ?case using ih[of t i j v] ih[of t i k u] p Cons.prems(2) e by auto
  qed simp
  then show "(t, i) \<in> set es \<Longrightarrow> has_token tk' i t"
    "has_token tk k u \<Longrightarrow> k \<notin> snd ` set es \<Longrightarrow> has_token tk' k u" by auto
qed

subsection \<open>Merges\<close>

definition merges_from :: "tokenizer \<Rightarrow> bool" where
  "merges_from tk = (\<forall>ia ib m. merges tk (ia, ib) = Some m \<longrightarrow>
    (\<exists>a b. token_to_id tk a = Some ia \<and> token_to_id tk b = Some ib \<and> token_to_id tk (a @ b) = Some (m_id m)))"

lemma add_merge_same:
  "token_to_id (fst (add_merge st e)) = token_to_id (fst st)"
  "id_to_token (fst (add_merge st e)) = id_to_token (fst st)"
  "added_tokens (fst (add_merge st e)) = added_tokens (fst st)"
  "byte_to_unicode (fst (add_merge st e)) = byte_to_unicode (fst st)"
  "unicode_to_byte (fst (add_merge st e)) = unicode_to_byte (fst st)"
  by (auto simp: add_merge_def split: prod.splits option.splits)

lemma add_merge_from: "merges_from (fst st) \<Longrightarrow> merges_from (fst (add_merge st e))"
  by (auto simp: merges_from_def add_merge_def split: prod.splits option.splits if_splits)

lemma load_merges_same:
  "token_to_id (load_merges tk j) = token_to_id tk" "id_to_token (load_merges tk j) = id_to_token tk"
  "added_tokens (load_merges tk j) = added_tokens tk" "byte_to_unicode (load_merges tk j) = byte_to_unicode tk"
  "unicode_to_byte (load_merges tk j) = unicode_to_byte tk"
proof -
  have "token_to_id (fst (foldl add_merge st es)) = token_to_id (fst st) \<and>
    id_to_token (fst (foldl add_merge st es)) = id_to_token (fst st) \<and>
    added_tokens (fst (foldl add_merge st es)) = added_tokens (fst st) \<and>
    byte_to_unicode (fst (foldl add_merge st es)) = byte_to_unicode (fst st) \<and>
    unicode_to_byte (fst (foldl add_merge st es)) = unicode_to_byte (fst st)" for st es
    by (induction es arbitrary: st) (simp_all add: add_merge_same)
  then show "token_to_id (load_merges tk j) = token_to_id tk" "id_to_token (load_merges tk j) = id_to_token tk"
    "added_tokens (load_merges tk j) = added_tokens tk" "byte_to_unicode (load_merges tk j) = byte_to_unicode tk"
    "unicode_to_byte (load_merges tk j) = unicode_to_byte tk"
    by (simp_all add: load_merges_def)
qed

lemma load_merges_from: "merges tk = Map.empty \<Longrightarrow> merges_from (load_merges tk j)"
proof -
  have "merges_from (fst st) \<Longrightarrow> merges_from (fst (foldl add_merge st es))" for st es
    by (induction es arbitrary: st) (simp_all add: add_merge_from)
  then show "merges tk = Map.empty \<Longrightarrow> merges_from (load_merges tk j)"
    by (simp add: load_merges_def merges_from_def)
qed

subsection \<open>The whole constructor\<close>

lemma byte_tables_rest:
  "token_to_id (byte_tables tk) = token_to_id tk" "merges (byte_tables tk) = merges tk"
  "added_tokens (byte_tables tk) = added_tokens tk"
proof -
  have "token_to_id (foldl set_symbol tk es) = token_to_id tk \<and> merges (foldl set_symbol tk es) = merges tk \<and>
    added_tokens (foldl set_symbol tk es) = added_tokens tk" for es
    by (induction es arbitrary: tk) (auto simp: set_symbol_def split: prod.splits)
  then show "token_to_id (byte_tables tk) = token_to_id tk" "merges (byte_tables tk) = merges tk"
    "added_tokens (byte_tables tk) = added_tokens tk"
    by (simp_all add: byte_tables_def)
qed

definition loaded_vocab :: "tokenizer_json \<Rightarrow> tokenizer \<Rightarrow> bool" where
  "loaded_vocab j tk =
    (merges_from tk \<and> token_to_id tk = map_of (j_vocab j) \<and> added_tokens tk = [] \<and>
     (\<forall>(t, i) \<in> set (j_vocab j). has_token tk i t) \<and>
     byte_to_unicode tk = byte_to_unicode (byte_tables empty_tokenizer) \<and>
     unicode_to_byte tk = unicode_to_byte (byte_tables empty_tokenizer))"

lemma load_vocab_merges:
  assumes "byte_level_files j"
  shows "\<exists>tk. load_vocab (byte_tables empty_tokenizer) j = Inr tk \<and> loaded_vocab j (load_merges tk j)"
proof -
  have f: "distinct (map fst (j_vocab j))" "distinct (map snd (j_vocab j))" "list_all (\<lambda>e. 0 \<le> snd e) (j_vocab j)"
    using assms by (simp_all add: byte_level_files_def)
  let ?t0 = "(byte_tables empty_tokenizer)\<lparr>id_to_token := resize_tokens (id_to_token (byte_tables empty_tokenizer)) (length (j_vocab j))\<rparr>"
  obtain tk where tk: "put_tokens ?t0 (j_vocab j) = Inr tk" using put_tokens_total[OF f(3)] by blast
  have r: "merges tk = Map.empty" "added_tokens tk = []"
      "byte_to_unicode tk = byte_to_unicode (byte_tables empty_tokenizer)"
      "unicode_to_byte tk = unicode_to_byte (byte_tables empty_tokenizer)"
    using put_tokens_rest[OF tk] by (simp_all add: byte_tables_rest empty_tokenizer_def)
  have "token_to_id tk = map_of (j_vocab j)"
    using put_tokens_ids[OF tk f(1)]
    by (auto simp: byte_tables_rest empty_tokenizer_def fun_eq_iff split: option.splits)
  moreover have "has_token tk i t" if "(t, i) \<in> set (j_vocab j)" for t i
    using put_tokens_has(1)[OF tk f(2) that] .
  ultimately have "loaded_vocab j (load_merges tk j)"
    using load_merges_from[OF r(1)] r(2-4)
    by (auto simp: loaded_vocab_def load_merges_same has_token_def)
  then show ?thesis using tk by (auto simp: load_vocab_def)
qed

lemma loaded_vocab_cong:
  assumes "loaded_vocab j tk" "token_to_id tk' = token_to_id tk" "merges tk' = merges tk"
    "added_tokens tk' = added_tokens tk" "id_to_token tk' = id_to_token tk"
    "byte_to_unicode tk' = byte_to_unicode tk" "unicode_to_byte tk' = unicode_to_byte tk"
  shows "loaded_vocab j tk'"
  using assms(1) unfolding loaded_vocab_def merges_from_def has_token_def assms(2-7) .

lemma load_middle:
  assumes "byte_level_files j" "loaded_vocab j tk"
  shows "loaded_vocab j (load_post (load_fallback (load_family tk j) j) j)"
    "tk_family (load_post (load_fallback (load_family tk j) j) j) = ByteLevel"
proof -
  obtain d where "j_pre_tokenizer j = Some d" "contains_str d (ascii ''ByteLevel'')"
    using assms(1) by (auto simp: byte_level_files_def split: option.splits)
  then have f: "load_fallback (load_family tk j) j = tk\<lparr>tk_family := ByteLevel\<rparr>"
    by (simp add: load_family_def load_fallback_def)
  show "tk_family (load_post (load_fallback (load_family tk j) j) j) = ByteLevel"
    unfolding f by (simp add: load_post_def split: option.splits)
  show "loaded_vocab j (load_post (load_fallback (load_family tk j) j) j)"
    unfolding f by (rule loaded_vocab_cong[OF assms(2)]) (simp_all add: load_post_def split: option.splits)
qed

lemma load_added_ok:
  assumes "byte_level_files j" "loaded_vocab j tk" "tk_family tk = ByteLevel"
  shows "\<exists>tk'. load_added tk j = Inr tk' \<and> byte_level_ok tk'"
proof -
  let ?v = "j_vocab j" and ?a = "j_added j"
  have f: "distinct (map fst ?a)" "distinct (map snd ?a)" "list_all (\<lambda>e. 0 \<le> snd e) ?a" "distinct (map fst ?v)"
    "fst ` set ?v \<inter> fst ` set ?a = {}" "snd ` set ?v \<inter> snd ` set ?a = {}"
    using assms(1) by (auto simp: byte_level_files_def)
  obtain t1 where t1: "put_tokens tk ?a = Inr t1" using put_tokens_total[OF f(3)] by blast
  let ?t = "t1\<lparr>added_tokens := sort_key (\<lambda>t. - int (length (fst t))) ?a\<rparr>"
  note rest = put_tokens_rest[OF t1]
  have l: "load_added tk j = Inr ?t" using t1 rest assms(2) by (simp add: load_added_def loaded_vocab_def)
  have added: "is_added ?t i \<longleftrightarrow> i \<in> snd ` set ?a" for i by (auto simp: is_added_def list_ex_iff image_iff)
  have vocab: "has_token ?t i t" "\<not> is_added ?t i" "token_to_id ?t t = Some i" if m: "(t, i) \<in> set ?v" for t i
  proof -
    have i: "i \<notin> snd ` set ?a" "t \<notin> fst ` set ?a" using f(5,6) m by force+
    have "has_token tk i t" using assms(2) m unfolding loaded_vocab_def by blast
    then show "has_token ?t i t" using put_tokens_has(2)[OF t1 f(2) _ i(1)] by (simp add: has_token_def)
    show "\<not> is_added ?t i" using added i(1) by blast
    have "map_of ?a t = None" using i(2) by (simp add: map_of_eq_None_iff)
    moreover have "map_of ?v t = Some i" using m f(4) by simp
    ultimately show "token_to_id ?t t = Some i"
      using put_tokens_ids[OF t1 f(1), of t] assms(2) by (simp add: loaded_vocab_def)
  qed
  have bytes: "\<exists>i. token_to_id ?t (placeholder b) = Some i \<and> has_token ?t i (placeholder b) \<and> \<not> is_added ?t i" for b
  proof -
    obtain c where c: "(unat b, c) \<in> set placeholder_table" "placeholder b = utf8_encode (word_of_nat c)"
      using placeholder_entry by metis
    then have "placeholder b \<in> fst ` set ?v" using assms(1) by (fastforce simp: byte_level_files_def list_all_iff)
    then obtain i where "(placeholder b, i) \<in> set ?v" by force
    then show ?thesis using vocab by blast
  qed
  have merged: "\<exists>ta tb. has_token ?t a ta \<and> has_token ?t b tb \<and> has_token ?t (m_id m) (ta @ tb) \<and> \<not> is_added ?t (m_id m)"
    if m: "merges ?t (a, b) = Some m" for a b m
  proof -
    have "merges tk (a, b) = Some m" using m rest by simp
    then obtain ta tb where "map_of ?v ta = Some a" "map_of ?v tb = Some b" "map_of ?v (ta @ tb) = Some (m_id m)"
      using assms(2) unfolding loaded_vocab_def merges_from_def by metis
    then show ?thesis using vocab map_of_SomeD by (metis (no_types, lifting))
  qed
  have special: "has_token ?t i t \<and> t \<noteq> [] \<and> list_all (\<lambda>c. c < 0x80) t" if "(t, i) \<in> set ?a" for t i
    using put_tokens_has(1)[OF t1 f(2) that] assms(1) that
    by (auto simp: has_token_def byte_level_files_def list_all_iff)
  have "byte_level_ok ?t"
    unfolding byte_level_ok_def
  proof (intro conjI allI impI)
    show "\<forall>(t, i) \<in> set (added_tokens ?t). has_token ?t i t \<and> t \<noteq> [] \<and> list_all (\<lambda>c. c < 0x80) t"
      using special by fastforce
  qed (use bytes merged rest assms(2,3) in \<open>simp_all add: loaded_vocab_def\<close>)
  then show ?thesis using l by blast
qed

lemma byte_level_ok_cong:
  assumes "byte_level_ok tk" "tk_family tk' = tk_family tk" "token_to_id tk' = token_to_id tk" "merges tk' = merges tk"
    "added_tokens tk' = added_tokens tk" "id_to_token tk' = id_to_token tk"
    "byte_to_unicode tk' = byte_to_unicode tk" "unicode_to_byte tk' = unicode_to_byte tk"
  shows "byte_level_ok tk'"
  using assms by (simp add: byte_level_ok_def has_token_def is_added_def)

lemma load_tokenizer_ok:
  assumes "byte_level_files j"
  shows "(\<exists>tk. load_tokenizer (Some j) tc gc = Inr tk \<and> byte_level_ok tk) \<or>
    load_tokenizer (Some j) tc gc = Inl (Runtime_Error ''could not determine eos token id'')"
proof -
  obtain tk where tk: "load_vocab (byte_tables empty_tokenizer) j = Inr tk" "loaded_vocab j (load_merges tk j)"
    using load_vocab_merges[OF assms] by blast
  obtain t1 where t1: "load_added (load_post (load_fallback (load_family (load_merges tk j) j) j) j) j = Inr t1"
      "byte_level_ok t1"
    using load_added_ok[OF assms load_middle[OF assms tk(2)]] by blast
  have "byte_level_ok (load_config t1 tc)"
    by (rule byte_level_ok_cong[OF t1(2)]) (simp_all add: load_config_def Let_def split: option.splits)
  then have "byte_level_ok (load_generation (load_config t1 tc) gc)"
    by (rule byte_level_ok_cong) (simp_all add: load_generation_def split: option.splits eos_field.splits)
  then show ?thesis
    using tk(1) t1(1) assms by (simp add: load_tokenizer_def byte_level_files_def Let_def)
qed

end
