(* ===== verification/Tokenizer_Props.thy ===== *)
theory Tokenizer_Props
  imports Tokenizer_Load
begin

text \<open>
  The properties of the tokenizer: the classifier against the tables, the UTF-8 codec, the
  splitter against its regular expression, merging, the encoding loop, and the round trip of the
  byte-level family from the model's files to a decoded text.
\<close>

text \<open>The binary searches decide exactly membership in the range tables: a code point is a
  letter, a number or white space if and only if some range of the corresponding table of
  \<open>unicode_tables.inc\<close> contains it.\<close>

theorem class_lookup_exact:
  "is_letter cp = in_some_range cp kLetterRanges \<and>
   is_number cp = in_some_range cp kNumberRanges \<and>
   is_space cp = in_some_range cp kSpaceRanges"
  by (simp add: class_member)

text \<open>C23: Encoding code points below \<open>2^21\<close> as UTF-8 and reading the bytes back gives the same
  code points, in order, however many there are.\<close>

theorem utf8_roundtrip:
  assumes "\<forall>c \<in> set cps. c < 0x200000"
  shows "to_codepoints (concat (map utf8_encode cps)) = cps"
  using to_codepoints_text[OF assms] by (simp add: utf8_text_def)

theorem utf8_roundtrip_witness:
  "to_codepoints (concat (map utf8_encode [0x68, 0xE9, 0x20AC, 0x1F600])) = [0x68, 0xE9, 0x20AC, 0x1F600]"
  by (rule utf8_roundtrip) simp


text \<open>The pieces cover the text: no piece is empty, and joined they are the encoding of the
  text's code points, so nothing is dropped or reordered between pieces.\<close>

theorem pre_tokenize_lossless:
  "concat (pre_tokenize s) = utf8_text (to_codepoints s) \<and> [] \<notin> set (pre_tokenize s)"
proof -
  have "[] \<notin> set (pre_tokenize_from cps i)" for cps i
  proof (induction cps i rule: pre_tokenize_from.induct)
    case (1 cps i)
    then show ?case
      using piece_end_bounds[of i cps] by (subst pre_tokenize_from.simps) (auto simp: emit_text eq_commute[of "[]"])
  qed
  then show ?thesis by (simp add: pre_tokenize_def pre_tokenize_concat_from)
qed

text \<open>C25: \<open>bpe_merge\<close> implements byte-pair merging: its result is reached from the symbols by steps
  that each replace every occurrence of a lowest-ranked adjacent pair, and no applicable merge is
  left in it. The loop ends on every input, since each step shortens the sequence.\<close>

theorem bpe_merge_refines:
  "(merge_step tk)\<^sup>*\<^sup>* ids (bpe_merge tk ids) \<and> \<not> mergeable tk (bpe_merge tk ids)"
  by (simp add: bpe_merge_steps bpe_merge_normal)

text \<open>C26: The encoding loop ends for every text when no added token is empty: \<open>encode\<close> returns
  token ids or throws.\<close>

theorem encode_terminates:
  assumes "added_nonempty tk"
  shows "\<exists>r. encode tk s = Some r"
  using encode_loop_returns[OF assms] by (simp add: encode_def)

theorem encode_terminates_witness:
  "\<exists>r. encode (empty_tokenizer\<lparr>added_tokens := [([60, 115, 62], 1)]\<rparr>) [104, 60, 115, 62] = Some r"
  by (rule encode_terminates) (simp add: added_nonempty_def)

lemma encode_loop_stuck:
  assumes "added_tokens tk = [([], i)]" "s \<noteq> []" "encode_loop tk s 0 out = Some r"
  shows False
proof -
  have turn: "encode_turn tk s 0 o' = Inr (0, o' @ [i])" for o'
  proof -
    have "str_find [] s 0 = Some 0" by (subst str_find.simps) simp
    then show ?thesis
      by (simp add: encode_turn_def next_added_def scan_added_def better_match_def assms(1))
  qed
  have "\<not> (tk = tk \<and> s = s \<and> (0::nat) = 0)"
  proof (rule encode_loop.raw_induct[where P = "\<lambda>a b c d y. \<not> (a = tk \<and> b = s \<and> c = 0)", OF _ assms(3)])
    fix f a b c d y
    assume ih: "\<And>a b c d y. f a b c d = Some y \<Longrightarrow> \<not> (a = tk \<and> b = s \<and> c = 0)"
      and step: "(if c < length b then case encode_turn a b c d of Inl e \<Rightarrow> Some (Inl e)
        | Inr (pos', out') \<Rightarrow> f a b pos' out' else Some (Inr d)) = Some y"
    show "\<not> (a = tk \<and> b = s \<and> c = 0)"
    proof
      assume "a = tk \<and> b = s \<and> c = 0"
      then have "f tk s 0 (d @ [i]) = Some y" using step turn assms(2) by simp
      then show False using ih by blast
    qed
  qed
  then show False by simp
qed

text \<open>With an added token whose content is empty the loop never leaves its first position: for
  a tokenizer whose only added token is empty, encoding any non-empty text does not return.\<close>

theorem empty_added_token_diverges:
  assumes "added_tokens tk = [([], i)]" "s \<noteq> []"
  shows "encode tk s = None"
  using encode_loop_stuck[OF assms] by (cases "encode tk s") (auto simp: encode_def)

theorem empty_added_token_diverges_witness:
  "encode (empty_tokenizer\<lparr>added_tokens := [([], 7)]\<rparr>) [104, 105] = None"
  by (rule empty_added_token_diverges) simp_all

subsection \<open>From the files to a text and back\<close>

text \<open>The smallest byte-level files: one token per byte, and one special token.\<close>

definition byte_vocab :: "(bytes \<times> int) list" where
  "byte_vocab = map (\<lambda>(b, c). (utf8_encode (word_of_nat c), int b)) placeholder_table"

definition demo_files :: tokenizer_json where
  "demo_files =
    \<lparr>j_type = ascii ''BPE'', j_vocab = byte_vocab, j_merges = [], j_pre_tokenizer = Some (ascii ''ByteLevel''),
     j_unk_token = None, j_post_processor = None, j_added = [(ascii ''<|end|>'', 300)]\<rparr>"

lemma byte_vocab_fst: "map fst byte_vocab = map (\<lambda>c. utf8_encode (word_of_nat c)) (map snd placeholder_table)"
  by (simp add: byte_vocab_def case_prod_beta)

lemma byte_vocab_snd: "map snd byte_vocab = map int (map fst placeholder_table)"
  by (simp add: byte_vocab_def case_prod_beta)

lemma placeholder_short: "c < 512 \<Longrightarrow> length (utf8_encode (word_of_nat c)) \<le> 2"
  by (simp add: utf8_encode_def word_less_nat_alt unat_of_nat)

lemma demo_files_ok: "byte_level_files demo_files"
proof -
  have small: "c < 512" if "c \<in> set (map snd placeholder_table)" for c using that table_small by fastforce
  have "distinct (map fst byte_vocab)"
    unfolding byte_vocab_fst distinct_map[of _ "map snd placeholder_table"]
    using table_distinct(2) small utf8_encode_inj small_word small_word_inj by (blast intro: inj_onI)
  moreover have "distinct (map snd byte_vocab)"
    unfolding byte_vocab_snd distinct_map[of _ "map fst placeholder_table"] using table_distinct(1) by simp
  moreover have "ascii ''<|end|>'' \<notin> set (map fst byte_vocab)"
  proof
    assume "ascii ''<|end|>'' \<in> set (map fst byte_vocab)"
    then obtain c where "c \<in> set (map snd placeholder_table)" "ascii ''<|end|>'' = utf8_encode (word_of_nat c)"
      unfolding byte_vocab_fst by (auto simp del: map_map)
    then have "length (ascii ''<|end|>'') \<le> 2" using placeholder_short[OF small] by simp
    then show False by (simp add: ascii_def)
  qed
  moreover have "300 \<notin> set (map snd byte_vocab)"
  proof -
    have "300 \<notin> set (map fst placeholder_table)" unfolding table_complete by simp
    then show ?thesis unfolding byte_vocab_snd by force
  qed
  moreover have "list_all (\<lambda>e. 0 \<le> snd e) byte_vocab" by (auto simp: byte_vocab_def list_all_iff)
  moreover have "list_all (\<lambda>(b, c). utf8_encode (word_of_nat c) \<in> set (map fst byte_vocab)) placeholder_table"
    unfolding byte_vocab_fst by (force simp: list_all_iff)
  moreover have "contains_str (ascii ''ByteLevel'') (ascii ''ByteLevel'')"
    by (simp add: contains_str_def str_find.simps)
  moreover have "list_all (\<lambda>c. c < 0x80) (ascii ''<|end|>'')" by (simp add: ascii_def)
  ultimately show ?thesis by (simp add: byte_level_files_def demo_files_def) (simp add: ascii_def)
qed

lemma load_with_eos:
  assumes "byte_level_files j" "0 \<le> e"
  shows "\<exists>tk. load_tokenizer (Some j) tc (Some (Eos_Single e)) = Inr tk"
proof -
  obtain tk where tk: "load_vocab (byte_tables empty_tokenizer) j = Inr tk" "loaded_vocab j (load_merges tk j)"
    using load_vocab_merges[OF assms(1)] by blast
  obtain t1 where t1: "load_added (load_post (load_fallback (load_family (load_merges tk j) j) j) j) j = Inr t1"
    using load_added_ok[OF assms(1) load_middle[OF assms(1) tk(2)]] by blast
  have "eos_id (load_generation (load_config t1 tc) (Some (Eos_Single e))) = e" by (simp add: load_generation_def)
  then show ?thesis using tk(1) t1 assms by (simp add: load_tokenizer_def byte_level_files_def)
qed

text \<open>C27: Encoding then decoding gives the text back, for every tokenizer the constructor builds
  from well-formed byte-level files (distinct tokens and ids, a token per byte, ASCII special
  tokens) and every valid UTF-8 text, special tokens and merges included.\<close>

theorem byte_level_roundtrip:
  assumes "byte_level_files j" "load_tokenizer (Some j) tc gc = Inr tk" "valid_utf8 s"
  shows "\<exists>ids. encode tk s = Some (Inr ids) \<and> decode tk ids = Inr s"
  using encode_decode_byte_level[OF _ assms(3)] load_tokenizer_ok[OF assms(1), of tc gc] assms(2) by auto

theorem byte_level_roundtrip_witness:
  "\<exists>tk ids. load_tokenizer (Some demo_files) None (Some (Eos_Single 300)) = Inr tk \<and>
    encode tk [0x68, 0xC3, 0xA9, 0x21] = Some (Inr ids) \<and> decode tk ids = Inr [0x68, 0xC3, 0xA9, 0x21]"
proof -
  obtain tk where tk: "load_tokenizer (Some demo_files) None (Some (Eos_Single 300)) = Inr tk"
    using load_with_eos[OF demo_files_ok, of 300 None] by auto
  have "valid_utf8 (utf8_text [0x68, 0xE9, 0x21])" by (rule valid_utf8_text) simp
  then have "valid_utf8 [0x68, 0xC3, 0xA9, 0x21]" by (simp add: utf8_encode_def)
  then show ?thesis using byte_level_roundtrip[OF demo_files_ok tk] tk by blast
qed

end
