(* ===== verification/Float_Ops.thy ===== *)
theory Float_Ops
  imports Engine_Prelude
begin

text \<open>
  The floating-point arithmetic the numeric code uses, as a record of operations: \<open>float\<close> is the
  type \<open>'f\<close>, \<open>double\<close> the type \<open>'d\<close>. The definitions of the sampler and of the forward pass take
  the record as an argument and apply the operations in the order the code does, so what is
  proved about them holds for every rounding behaviour. A theorem that needs more (that a
  comparison is an order, say) states it as a hypothesis. \<open>f_of_rat\<close> and \<open>d_of_rat\<close> give the
  literals and stored parameters, which are finite.
\<close>

record ('f, 'd) float_ops =
  f_of_rat :: "rat \<Rightarrow> 'f"
  f_add :: "'f \<Rightarrow> 'f \<Rightarrow> 'f"
  f_sub :: "'f \<Rightarrow> 'f \<Rightarrow> 'f"
  f_mul :: "'f \<Rightarrow> 'f \<Rightarrow> 'f"
  f_div :: "'f \<Rightarrow> 'f \<Rightarrow> 'f"
  f_neg :: "'f \<Rightarrow> 'f"
  f_exp :: "'f \<Rightarrow> 'f"
  f_sqrt :: "'f \<Rightarrow> 'f"
  f_neg_inf :: 'f
  f_gt :: "'f \<Rightarrow> 'f \<Rightarrow> bool"
  f_eq :: "'f \<Rightarrow> 'f \<Rightarrow> bool"
  to_d :: "'f \<Rightarrow> 'd"
  to_f :: "'d \<Rightarrow> 'f"
  d_of_rat :: "rat \<Rightarrow> 'd"
  d_add :: "'d \<Rightarrow> 'd \<Rightarrow> 'd"
  d_sub :: "'d \<Rightarrow> 'd \<Rightarrow> 'd"
  d_mul :: "'d \<Rightarrow> 'd \<Rightarrow> 'd"
  d_div :: "'d \<Rightarrow> 'd \<Rightarrow> 'd"
  d_pow :: "'d \<Rightarrow> 'd \<Rightarrow> 'd"
  d_cos :: "'d \<Rightarrow> 'd"
  d_sin :: "'d \<Rightarrow> 'd"
  d_ge :: "'d \<Rightarrow> 'd \<Rightarrow> bool"

text \<open>An exact instance over the rationals, on which the witnesses evaluate; the transcendental
  operations are stand-ins that keep the signs of the real ones.\<close>

definition rat_ops :: "(rat, rat) float_ops" where
  "rat_ops =
    \<lparr>f_of_rat = (\<lambda>x. x), f_add = (+), f_sub = (-), f_mul = (*), f_div = (/), f_neg = uminus,
     f_exp = (\<lambda>x. if x \<le> 0 then 1 / (1 - x) else 1 + x), f_sqrt = (\<lambda>x. x),
     f_neg_inf = - 1000000, f_gt = (>), f_eq = (=), to_d = (\<lambda>x. x), to_f = (\<lambda>x. x),
     d_of_rat = (\<lambda>x. x), d_add = (+), d_sub = (-), d_mul = (*), d_div = (/),
     d_pow = (\<lambda>x y. x), d_cos = (\<lambda>x. 1), d_sin = (\<lambda>x. x), d_ge = (\<ge>)\<rparr>"

end
