(* ===== verification/Sampler.thy ===== *)
theory Sampler
  imports Float_Ops Seq_State
begin

text \<open>
  \<open>Sampler\<close> of \<open>src/include/engine/sampler.h\<close> and \<open>src/src/model/sampler.cpp\<close>: greedy choice,
  temperature and nucleus sampling, and the sampling of a whole step. The random engine and the
  uniform distribution are arguments, and so is \<open>std::nth_element\<close>, of which only the partition
  it promises is used. The scratch vectors \<open>probs_\<close> and \<open>idx_\<close> are filled anew on every call
  and are local here. The lemmas show that the growing window over a partial sort chooses as a
  full sort would.
\<close>

subsection \<open>The code\<close>

definition argmax :: "('f, 'd) float_ops \<Rightarrow> 'f list \<Rightarrow> nat \<Rightarrow> nat" where
  "argmax ops logits vocab =
    foldl (\<lambda>best i. if f_gt ops (logits ! i) (logits ! best) then i else best) 0 [1..<vocab]"

definition max_element :: "('f, 'd) float_ops \<Rightarrow> 'f list \<Rightarrow> 'f" where
  "max_element ops xs = foldl (\<lambda>m x. if f_gt ops x m then x else m) (hd xs) (tl xs)"

definition softmax :: "('f, 'd) float_ops \<Rightarrow> 'f list \<Rightarrow> rat \<Rightarrow> 'f list" where
  "softmax ops logits temp =
    (let mx = max_element ops logits;
         es = map (\<lambda>x. f_exp ops (f_div ops (f_sub ops x mx) (f_of_rat ops temp))) logits;
         sum = foldl (\<lambda>s e. d_add ops s (to_d ops e)) (d_of_rat ops 0) es in
     map (\<lambda>e. to_f ops (d_div ops (to_d ops e) sum)) es)"

definition by_prob :: "('f, 'd) float_ops \<Rightarrow> 'f list \<Rightarrow> nat \<Rightarrow> nat \<Rightarrow> bool" where
  "by_prob ops probs a b =
    (f_gt ops (probs ! a) (probs ! b) \<or> f_eq ops (probs ! a) (probs ! b) \<and> a < b)"

text \<open>\<open>std::sort\<close> under a strict order.\<close>

fun insert_by :: "('a \<Rightarrow> 'a \<Rightarrow> bool) \<Rightarrow> 'a \<Rightarrow> 'a list \<Rightarrow> 'a list" where
  "insert_by lt x [] = [x]"
| "insert_by lt x (y # ys) = (if lt y x then y # insert_by lt x ys else x # y # ys)"

definition sort_by :: "('a \<Rightarrow> 'a \<Rightarrow> bool) \<Rightarrow> 'a list \<Rightarrow> 'a list" where
  "sort_by lt xs = foldr (insert_by lt) xs []"

text \<open>The scan for the nucleus: the running mass and the number of tokens kept.\<close>

fun nucleus :: "('f, 'd) float_ops \<Rightarrow> 'f list \<Rightarrow> rat \<Rightarrow> 'd \<Rightarrow> nat \<Rightarrow> nat list \<Rightarrow> 'd \<times> nat" where
  "nucleus ops probs tp cum keep [] = (cum, keep)"
| "nucleus ops probs tp cum keep (i # is) =
    (let cum' = d_add ops cum (to_d ops (probs ! i)) in
     if d_ge ops cum' (to_d ops (f_of_rat ops tp)) then (cum', keep + 1)
     else nucleus ops probs tp cum' (keep + 1) is)"

type_synonym nth_element_fun = "(nat \<Rightarrow> nat \<Rightarrow> bool) \<Rightarrow> nat list \<Rightarrow> nat \<Rightarrow> nat list"

text \<open>The widening loop; its turn \<open>n\<close> has \<open>k = 64 * 4^n\<close>.\<close>

definition window_order :: "nth_element_fun \<Rightarrow> (nat \<Rightarrow> nat \<Rightarrow> bool) \<Rightarrow> nat list \<Rightarrow> nat \<Rightarrow> nat list" where
  "window_order nthel lt idx k =
    (if length idx \<le> k then sort_by lt idx
     else (let ys = nthel lt idx k in sort_by lt (take k ys) @ drop k ys))"

function window_loop ::
  "('f, 'd) float_ops \<Rightarrow> nth_element_fun \<Rightarrow> 'f list \<Rightarrow> rat \<Rightarrow> nat \<Rightarrow> nat \<Rightarrow> nat list \<Rightarrow> 'd \<times> nat \<times> nat list" where
  "window_loop ops nthel probs tp vocab n idx =
    (let idx' = window_order nthel (by_prob ops probs) idx (64 * 4 ^ n);
         k = min (64 * 4 ^ n) vocab in
     case nucleus ops probs tp (d_of_rat ops 0) 0 (take k idx') of (cum, keep) \<Rightarrow>
       if keep < k \<or> vocab \<le> 64 * 4 ^ n then (cum, keep, idx')
       else window_loop ops nthel probs tp vocab (n + 1) idx')"
  by pat_completeness auto
termination
proof (relation "measure (\<lambda>(ops, nthel, probs, tp, vocab, n, idx). vocab - 64 * 4 ^ n)", goal_cases)
  case (2 ops nthel probs tp vocab n idx)
  then show ?case by (auto intro!: diff_less_mono2)
qed simp

declare window_loop.simps [simp del]

fun pick :: "('f, 'd) float_ops \<Rightarrow> 'f list \<Rightarrow> 'd \<Rightarrow> nat list \<Rightarrow> nat option" where
  "pick ops probs r [] = None"
| "pick ops probs r (i # is) =
    (let r' = d_sub ops r (to_d ops (probs ! i)) in
     if d_ge ops (d_of_rat ops 0) r' then Some i else pick ops probs r' is)"

record ('g, 'd) random_source =
  rs_seeded :: "nat \<Rightarrow> 'g"
  rs_uniform :: "'g \<Rightarrow> 'd \<Rightarrow> 'd \<Rightarrow> 'd \<times> 'g"

text \<open>The generator a request draws from, and the sampler's own generator afterwards: a request with
  a seed uses a generator of its own.\<close>

definition draw :: "('g, 'd) random_source \<Rightarrow> 'g \<Rightarrow> sampling_params \<Rightarrow> 'd \<Rightarrow> 'd \<Rightarrow> 'd \<times> 'g" where
  "draw rs rng p lo hi =
    (if seed p \<noteq> 0 then (fst (rs_uniform rs (rs_seeded rs (seed p)) lo hi), rng)
     else rs_uniform rs rng lo hi)"

definition choose_nucleus ::
  "('f, 'd) float_ops \<Rightarrow> ('g, 'd) random_source \<Rightarrow> 'g \<Rightarrow> sampling_params \<Rightarrow> 'f list \<Rightarrow>
   'd \<times> nat \<times> nat list \<Rightarrow> nat \<times> 'g" where
  "choose_nucleus ops rs rng p probs w =
    (case w of (cum, keep, idx) \<Rightarrow>
     case draw rs rng p (d_of_rat ops 0) cum of (r, rng') \<Rightarrow>
     case pick ops probs r (take keep idx) of
       Some i \<Rightarrow> (i, rng')
     | None \<Rightarrow> (idx ! (keep - 1), rng'))"

definition sample ::
  "('f, 'd) float_ops \<Rightarrow> ('g, 'd) random_source \<Rightarrow> nth_element_fun \<Rightarrow> 'g \<Rightarrow> 'f list \<Rightarrow> nat \<Rightarrow>
   sampling_params \<Rightarrow> nat \<times> 'g" where
  "sample ops rs nthel rng logits vocab p =
    (if greedy p then (argmax ops logits vocab, rng)
     else
       let probs = softmax ops (take vocab logits) (temperature p) in
       if top_p p < 1 then
         choose_nucleus ops rs rng p probs (window_loop ops nthel probs (top_p p) vocab 0 [0..<vocab])
       else
         case draw rs rng p (d_of_rat ops 0) (d_of_rat ops 1) of (r, rng') \<Rightarrow>
         case pick ops probs r [0..<vocab] of
           Some i \<Rightarrow> (i, rng')
         | None \<Rightarrow> (vocab - 1, rng'))"

fun sample_rows ::
  "('f, 'd) float_ops \<Rightarrow> ('g, 'd) random_source \<Rightarrow> nth_element_fun \<Rightarrow> (seq_ref \<Rightarrow> seq) \<Rightarrow> 'f list \<Rightarrow> nat \<Rightarrow>
   'g \<Rightarrow> nat \<Rightarrow> step_slice list \<Rightarrow> nat list \<times> 'g" where
  "sample_rows ops rs nthel heap logits vocab rng row [] = ([], rng)"
| "sample_rows ops rs nthel heap logits vocab rng row (sl # sls) =
    (if \<not> needs_logits sl then sample_rows ops rs nthel heap logits vocab rng row sls
     else
       case sample ops rs nthel rng (drop (row * vocab) logits) vocab (params (heap (sl_seq sl))) of (t, rng') \<Rightarrow>
       case sample_rows ops rs nthel heap logits vocab rng' (row + 1) sls of (ts, rng'') \<Rightarrow>
         (t # ts, rng''))"

definition sample_step ::
  "('f, 'd) float_ops \<Rightarrow> ('g, 'd) random_source \<Rightarrow> nth_element_fun \<Rightarrow> (seq_ref \<Rightarrow> seq) \<Rightarrow> 'g \<Rightarrow>
   step_input \<Rightarrow> 'f list \<Rightarrow> nat \<Rightarrow> token list \<times> 'g" where
  "sample_step ops rs nthel heap rng st logits vocab =
    (case sample_rows ops rs nthel heap logits vocab rng 0 (slices st) of (ts, rng') \<Rightarrow> (map int ts, rng'))"

subsection \<open>Sorting under a strict total order\<close>

definition strict_total :: "'a set \<Rightarrow> ('a \<Rightarrow> 'a \<Rightarrow> bool) \<Rightarrow> bool" where
  "strict_total A lt =
    ((\<forall>x \<in> A. \<not> lt x x) \<and> (\<forall>x \<in> A. \<forall>y \<in> A. \<forall>z \<in> A. lt x y \<longrightarrow> lt y z \<longrightarrow> lt x z) \<and>
     (\<forall>x \<in> A. \<forall>y \<in> A. x = y \<or> lt x y \<or> lt y x))"

lemma strict_totalD:
  assumes "strict_total A lt"
  shows "x \<in> A \<Longrightarrow> \<not> lt x x"
    "x \<in> A \<Longrightarrow> y \<in> A \<Longrightarrow> z \<in> A \<Longrightarrow> lt x y \<Longrightarrow> lt y z \<Longrightarrow> lt x z"
    "x \<in> A \<Longrightarrow> y \<in> A \<Longrightarrow> x \<noteq> y \<Longrightarrow> \<not> lt x y \<Longrightarrow> lt y x"
  using assms unfolding strict_total_def by blast+

lemma mset_insert_by [simp]: "mset (insert_by lt x xs) = add_mset x (mset xs)"
  by (induction xs) auto

lemma mset_sort_by [simp]: "mset (sort_by lt xs) = mset xs"
  unfolding sort_by_def by (induction xs) auto

lemma set_sort_by [simp]: "set (sort_by lt xs) = set xs"
  by (metis mset_sort_by set_mset_mset)

lemma length_sort_by [simp]: "length (sort_by lt xs) = length xs"
  by (metis mset_sort_by size_mset)

lemma set_insert_by [simp]: "set (insert_by lt x xs) = insert x (set xs)"
  by (metis mset_insert_by set_mset_add_mset_insert set_mset_mset)

lemma sorted_insert_by:
  assumes "strict_total A lt" "set xs \<subseteq> A" "x \<in> A" "x \<notin> set xs" "sorted_wrt lt xs"
  shows "sorted_wrt lt (insert_by lt x xs)"
  using assms(2-)
proof (induction xs)
  case (Cons y ys)
  have y: "y \<in> A" "\<forall>z \<in> set ys. lt y z" using Cons.prems by auto
  show ?case
  proof (cases "lt y x")
    case False
    then have "lt x y" using strict_totalD(3)[OF assms(1) y(1)] Cons.prems by auto
    then have "\<forall>z \<in> set ys. lt x z" using y strict_totalD(2)[OF assms(1)] Cons.prems by (meson list.set_intros(2) subsetD)
    then show ?thesis using False \<open>lt x y\<close> Cons.prems by simp
  qed (use Cons y in auto)
qed simp

lemma sorted_sort_by:
  assumes "strict_total A lt"
  shows "set xs \<subseteq> A \<Longrightarrow> distinct xs \<Longrightarrow> sorted_wrt lt (sort_by lt xs)"
proof (induction xs)
  case (Cons x xs)
  then have "sorted_wrt lt (insert_by lt x (sort_by lt xs))" by (intro sorted_insert_by[OF assms]) auto
  then show ?case by (simp add: sort_by_def)
qed (simp add: sort_by_def)

lemma sorted_unique:
  assumes "strict_total A lt"
  shows "sorted_wrt lt xs \<Longrightarrow> sorted_wrt lt ys \<Longrightarrow> set xs = set ys \<Longrightarrow> set xs \<subseteq> A \<Longrightarrow> xs = ys"
proof (induction xs arbitrary: ys)
  case (Cons x xs)
  then obtain y ys' where ys: "ys = y # ys'" by (cases ys) auto
  note asym = strict_totalD(1,2)[OF assms]
  have "x = y"
  proof (rule ccontr)
    assume "x \<noteq> y"
    then have "lt x y" "lt y x" using Cons.prems ys by auto
    then show False using asym Cons.prems ys by (metis list.set_intros(1) subsetD)
  qed
  moreover have "x \<in> A" "y \<in> A" using Cons.prems(3,4) ys by auto
  then have "\<not> lt x x" "\<not> lt y y" using asym(1) by blast+
  then have "x \<notin> set xs" "y \<notin> set ys'" using Cons.prems(1,2) ys by auto
  ultimately have "set xs = set ys'" using Cons.prems(3) ys by auto
  then show ?case using Cons ys \<open>x = y\<close> by simp
qed simp

subsection \<open>The window agrees with the full sort\<close>

text \<open>What the standard promises of \<open>nth_element\<close>: a permutation whose first \<open>k\<close> elements are not
  preceded by any of the rest.\<close>

definition nth_element_ok :: "nth_element_fun \<Rightarrow> bool" where
  "nth_element_ok nthel =
    (\<forall>lt xs k. k < length xs \<longrightarrow> distinct xs \<longrightarrow> strict_total (set xs) lt \<longrightarrow> mset (nthel lt xs k) = mset xs \<and>
       (\<forall>a \<in> set (take k (nthel lt xs k)). \<forall>b \<in> set (drop k (nthel lt xs k)). \<not> lt b a))"

lemma window_order_take:
  assumes nth: "nth_element_ok nthel" and t: "strict_total (set idx) lt" and d: "distinct idx"
  shows "mset (window_order nthel lt idx k) = mset idx"
    "take k (window_order nthel lt idx k) = take k (sort_by lt idx)"
proof -
  have "mset (window_order nthel lt idx k) = mset idx \<and>
    take k (window_order nthel lt idx k) = take k (sort_by lt idx)"
  proof (cases "length idx \<le> k")
    case False
    define ys where "ys = nthel lt idx k"
    have m: "mset ys = mset idx" and part: "\<forall>a \<in> set (take k ys). \<forall>b \<in> set (drop k ys). \<not> lt b a"
      using nth[unfolded nth_element_ok_def, rule_format, of k idx lt] t d False by (simp_all add: ys_def)
    have sy: "set ys = set idx" "distinct ys" "length ys = length idx"
      using m d by (metis mset_eq_setD, metis mset_eq_imp_distinct_iff, metis mset_eq_length)
    let ?a = "take k ys" and ?b = "drop k ys"
    have ab: "set ?a \<subseteq> set idx" "set ?b \<subseteq> set idx" "distinct ?a" "distinct ?b" "set ?a \<inter> set ?b = {}"
      using sy set_take_subset[of k ys] set_drop_subset[of k ys] by (auto simp: set_take_disj_set_drop_if_distinct)
    have "lt x y" if "x \<in> set ?a" "y \<in> set ?b" for x y
      using strict_totalD(3)[OF t, of y x] part that ab by blast
    then have s: "sorted_wrt lt (sort_by lt ?a @ sort_by lt ?b)"
      using sorted_sort_by[OF t ab(1,3)] sorted_sort_by[OF t ab(2,4)] by (auto simp: sorted_wrt_append)
    have "set (sort_by lt ?a @ sort_by lt ?b) = set (sort_by lt idx)"
      using sy(1) append_take_drop_id[of k ys] by (metis set_append set_sort_by)
    then have e: "sort_by lt ?a @ sort_by lt ?b = sort_by lt idx"
      using sorted_unique[OF t s sorted_sort_by[OF t]] d ab sy by auto
    have w: "window_order nthel lt idx k = sort_by lt ?a @ ?b" using False by (simp add: window_order_def ys_def Let_def)
    have "mset (sort_by lt ?a @ ?b) = mset idx" using m by (metis append_take_drop_id mset_append mset_sort_by)
    moreover have "take k (sort_by lt ?a @ ?b) = take k (sort_by lt idx)"
      using False sy(3) by (simp add: e[symmetric])
    ultimately show ?thesis by (simp add: w)
  qed (simp add: window_order_def)
  then show "mset (window_order nthel lt idx k) = mset idx"
    "take k (window_order nthel lt idx k) = take k (sort_by lt idx)" by auto
qed

text \<open>The nucleus scan stops inside a prefix, or reads past it.\<close>

lemma nucleus_le: "snd (nucleus ops probs tp cum keep xs) \<le> keep + length xs"
proof (induction xs arbitrary: cum keep)
  case (Cons a xs)
  show ?case using Cons[of "d_add ops cum (to_d ops (probs ! a))" "Suc keep"] by (auto simp: Let_def)
qed simp

lemma nucleus_ge: "keep \<le> snd (nucleus ops probs tp cum keep xs)"
proof (induction xs arbitrary: cum keep)
  case (Cons a xs)
  show ?case using Cons[of "Suc keep" "d_add ops cum (to_d ops (probs ! a))"] by (auto simp: Let_def)
qed simp

lemma nucleus_prefix:
  "snd (nucleus ops probs tp cum keep (take k xs)) < keep + length (take k xs) \<Longrightarrow>
   nucleus ops probs tp cum keep xs = nucleus ops probs tp cum keep (take k xs)"
proof (induction xs arbitrary: cum keep k)
  case (Cons x xs)
  show ?case
  proof (cases k)
    case (Suc k')
    then show ?thesis using Cons.IH[where k = k' and keep = "Suc keep"] Cons.prems by (auto simp: Let_def)
  qed (use Cons.prems in simp)
qed simp

lemma window_loop_full:
  fixes ops :: "('f, 'd) float_ops"
  assumes nth: "nth_element_ok nthel" and t: "strict_total {..<vocab} (by_prob ops probs)"
  defines "full \<equiv> sort_by (by_prob ops probs) [0..<vocab]"
  shows "mset idx = mset [0..<vocab] \<Longrightarrow> window_loop ops nthel probs tp vocab n idx = (cum, keep, idx') \<Longrightarrow>
    nucleus ops probs tp (d_of_rat ops 0) 0 full = (cum, keep) \<and> take keep idx' = take keep full \<and>
    mset idx' = mset [0..<vocab]"
proof (induction "vocab - 64 * 4 ^ n" arbitrary: n idx rule: less_induct)
  case less
  let ?lt = "by_prob ops probs" and ?k' = "64 * 4 ^ n :: nat"
  let ?k = "min ?k' vocab"
  have idx: "set idx = {..<vocab}" "distinct idx" "length idx = vocab"
    using mset_eq_setD[OF less.prems(1)] mset_eq_imp_distinct_iff[OF less.prems(1)] mset_eq_length[OF less.prems(1)]
    by (auto simp: atLeast0LessThan)
  have "sort_by ?lt idx = full"
    unfolding full_def
  proof (rule sorted_unique[OF t])
    show "sorted_wrt ?lt (sort_by ?lt idx)" by (rule sorted_sort_by[OF t]) (simp_all add: idx)
    show "sorted_wrt ?lt (sort_by ?lt [0..<vocab])" by (rule sorted_sort_by[OF t]) (simp_all add: atLeast0LessThan)
  qed (simp_all add: idx atLeast0LessThan)
  define ys where "ys = window_order nthel ?lt idx ?k'"
  have ys: "mset ys = mset [0..<vocab]" "take ?k' ys = take ?k' full"
    using window_order_take[OF nth, of idx ?lt ?k'] t idx less.prems(1) \<open>sort_by ?lt idx = full\<close>
    by (simp_all add: ys_def)
  have len: "length ys = vocab" "length full = vocab" using mset_eq_length[OF ys(1)] by (simp_all add: full_def)
  have tk: "take ?k ys = take ?k full" using ys(2) len by (auto simp: min_def)
  obtain c kp where nu: "nucleus ops probs tp (d_of_rat ops 0) 0 (take ?k full) = (c, kp)" by force
  have le: "kp \<le> ?k" using nucleus_le[of ops probs tp "d_of_rat ops 0" 0 "take ?k full"] nu len by simp
  have w: "window_loop ops nthel probs tp vocab n idx =
    (if kp < ?k \<or> vocab \<le> ?k' then (c, kp, ys) else window_loop ops nthel probs tp vocab (n + 1) ys)"
    using nu tk by (subst window_loop.simps) (simp add: ys_def[symmetric])
  show ?case
  proof (cases "kp < ?k \<or> vocab \<le> ?k'")
    case True
    then have r: "cum = c" "keep = kp" "idx' = ys" using w less.prems(2) by auto
    have "take kp ys = take kp full" using arg_cong[OF tk, of "take kp"] le by simp
    moreover have "nucleus ops probs tp (d_of_rat ops 0) 0 full = (c, kp)"
    proof (cases "vocab \<le> ?k'")
      case True
      then show ?thesis using nu len by simp
    next
      case False
      then show ?thesis using nucleus_prefix[of ops probs tp "d_of_rat ops 0" 0 ?k full] nu len \<open>_ \<or> _\<close> by simp
    qed
    ultimately show ?thesis using r ys(1) by simp
  next
    case False
    then have "vocab - 64 * 4 ^ (n + 1) < vocab - ?k'" by (intro diff_less_mono2) auto
    moreover have "window_loop ops nthel probs tp vocab (n + 1) ys = (cum, keep, idx')" using w False less.prems(2) by auto
    ultimately show ?thesis using less.hyps[OF _ ys(1)] by blast
  qed
qed

text \<open>The reference: nucleus sampling with one full sort.\<close>

definition sample_sorted ::
  "('f, 'd) float_ops \<Rightarrow> ('g, 'd) random_source \<Rightarrow> 'g \<Rightarrow> 'f list \<Rightarrow> nat \<Rightarrow> sampling_params \<Rightarrow> nat \<times> 'g" where
  "sample_sorted ops rs rng logits vocab p =
    (let probs = softmax ops (take vocab logits) (temperature p);
         idx = sort_by (by_prob ops probs) [0..<vocab] in
     case nucleus ops probs (top_p p) (d_of_rat ops 0) 0 idx of (cum, keep) \<Rightarrow>
       choose_nucleus ops rs rng p probs (cum, keep, idx))"

lemma nucleus_pos: "xs \<noteq> [] \<Longrightarrow> nucleus ops probs tp cum n xs = (c, keep) \<Longrightarrow> n < keep"
proof (cases xs)
  case (Cons x ys)
  assume n: "nucleus ops probs tp cum n xs = (c, keep)"
  show "n < keep"
    using nucleus_ge[of "Suc n" ops probs tp "d_add ops cum (to_d ops (probs ! x))" ys] n Cons
    by (auto simp: Let_def split: if_splits)
qed simp

lemma choose_nucleus_cong:
  assumes "take keep idx = take keep idx'" "0 < keep" "keep \<le> length idx" "keep \<le> length idx'"
  shows "choose_nucleus ops rs rng p probs (cum, keep, idx) = choose_nucleus ops rs rng p probs (cum, keep, idx')"
proof -
  have "idx ! (keep - 1) = idx' ! (keep - 1)"
    using assms nth_take[of "keep - 1" keep idx] nth_take[of "keep - 1" keep idx'] by simp
  then show ?thesis using assms(1) by (simp add: choose_nucleus_def split: prod.splits option.splits)
qed

lemma sample_window_sorted:
  assumes "nth_element_ok nthel" "0 < vocab" "\<not> greedy p" "top_p p < 1"
    "strict_total {..<vocab} (by_prob ops (softmax ops (take vocab logits) (temperature p)))"
  shows "sample ops rs nthel rng logits vocab p = sample_sorted ops rs rng logits vocab p"
proof -
  let ?probs = "softmax ops (take vocab logits) (temperature p)"
  let ?full = "sort_by (by_prob ops ?probs) [0..<vocab]"
  obtain cum keep idx where w: "window_loop ops nthel ?probs (top_p p) vocab 0 [0..<vocab] = (cum, keep, idx)"
    by (metis prod_cases3)
  note f = window_loop_full[OF assms(1,5) refl w]
  have n: "nucleus ops ?probs (top_p p) (d_of_rat ops 0) 0 ?full = (cum, keep)"
    and tk: "take keep idx = take keep ?full" and m: "mset idx = mset [0..<vocab]" using f by auto
  have len: "length idx = vocab" using mset_eq_length[OF m] by simp
  have ne: "?full \<noteq> []" using assms(2) by (metis length_0_conv length_sort_by length_upt less_numeral_extra(3) minus_nat.diff_0)
  have kp: "0 < keep" "keep \<le> vocab"
    using nucleus_pos[OF ne n] nucleus_le[of ops ?probs "top_p p" "d_of_rat ops 0" 0 ?full] n by simp_all
  have "choose_nucleus ops rs rng p ?probs (cum, keep, idx) = choose_nucleus ops rs rng p ?probs (cum, keep, ?full)"
    by (rule choose_nucleus_cong[OF tk]) (use kp len in simp_all)
  then show ?thesis using assms w n by (simp add: sample_def sample_sorted_def Let_def)
qed

subsection \<open>Greedy choice\<close>

definition gt_order :: "('f, 'd) float_ops \<Rightarrow> 'f set \<Rightarrow> bool" where
  "gt_order ops A =
    ((\<forall>a \<in> A. \<forall>b \<in> A. f_gt ops a b \<longrightarrow> \<not> f_gt ops b a) \<and>
     (\<forall>a \<in> A. \<forall>b \<in> A. \<forall>c \<in> A. \<not> f_gt ops a b \<longrightarrow> \<not> f_gt ops b c \<longrightarrow> \<not> f_gt ops a c))"

lemma argmax_spec:
  assumes g: "gt_order ops (set logits)"
  shows "0 < n \<Longrightarrow> n \<le> length logits \<Longrightarrow>
    argmax ops logits n < n \<and> (\<forall>i<n. \<not> f_gt ops (logits ! i) (logits ! argmax ops logits n)) \<and>
    (\<forall>i<argmax ops logits n. f_gt ops (logits ! argmax ops logits n) (logits ! i))"
proof (induction n)
  case (Suc n)
  have asym: "f_gt ops (logits ! i) (logits ! j) \<Longrightarrow> \<not> f_gt ops (logits ! j) (logits ! i)"
    and neg: "\<not> f_gt ops (logits ! i) (logits ! j) \<Longrightarrow> \<not> f_gt ops (logits ! j) (logits ! k) \<Longrightarrow> \<not> f_gt ops (logits ! i) (logits ! k)"
    if "i \<le> n" "j \<le> n" "k \<le> n" for i j k
    using g that Suc.prems(2) unfolding gt_order_def by (meson le_trans less_Suc_eq_le less_le_trans nth_mem)+
  show ?case
  proof (cases "n = 0")
    case False
    then have ih: "argmax ops logits n < n" "\<forall>i<n. \<not> f_gt ops (logits ! i) (logits ! argmax ops logits n)"
      "\<forall>i<argmax ops logits n. f_gt ops (logits ! argmax ops logits n) (logits ! i)"
      using Suc by auto
    let ?b = "argmax ops logits n"
    have step: "argmax ops logits (Suc n) = (if f_gt ops (logits ! n) (logits ! ?b) then n else ?b)"
      using False by (simp add: argmax_def)
    show ?thesis
    proof (cases "f_gt ops (logits ! n) (logits ! ?b)")
      case True
      then have up: "f_gt ops (logits ! n) (logits ! i)" if "i < n" for i using neg[of n i ?b] ih that by auto
      moreover have "\<not> f_gt ops (logits ! i) (logits ! n)" if "i \<le> n" for i
        using up[of i] asym[of n i n] asym[of n n n] that by (cases "i = n") auto
      ultimately show ?thesis using True by (simp add: step less_Suc_eq_le)
    next
      case False
      then show ?thesis using ih by (auto simp: step less_Suc_eq)
    qed
  qed (use asym[of 0 0 0] in \<open>auto simp: argmax_def\<close>)
qed simp

subsection \<open>Sampling a step\<close>

lemma sample_rows_length:
  "length (fst (sample_rows ops rs nthel hp logits vocab rng row sls)) = length (filter needs_logits sls)"
  by (induction sls arbitrary: rng row) (auto split: prod.splits simp: case_prod_beta)

end
