(* ===== verification/Sampler_Props.thy ===== *)
theory Sampler_Props
  imports Sampler Engine_Inv
begin

text \<open>
  The properties of the sampler: the partial sort against the full one, greedy choice, and the
  contract the engine loop relies on, which the sampler meets on top of any forward pass.
\<close>

text \<open>A partition by sorting: one function that keeps the promise of \<open>nth_element\<close>.\<close>

definition sorting_nth :: nth_element_fun where
  "sorting_nth lt xs k = sort_by lt xs"

definition fixed_source :: "(unit, rat) random_source" where
  "fixed_source = \<lparr>rs_seeded = (\<lambda>_. ()), rs_uniform = (\<lambda>g lo hi. ((lo + hi) / 2, g))\<rparr>"

lemma sorting_nth_ok: "nth_element_ok sorting_nth"
  unfolding nth_element_ok_def
proof (intro allI impI conjI ballI)
  fix lt :: "nat \<Rightarrow> nat \<Rightarrow> bool" and xs k a b
  assume t: "strict_total (set xs) lt" and d: "distinct xs"
    and a: "a \<in> set (take k (sorting_nth lt xs k))" and b: "b \<in> set (drop k (sorting_nth lt xs k))"
  have "sorted_wrt lt (take k (sort_by lt xs) @ drop k (sort_by lt xs))" using sorted_sort_by[OF t subset_refl d] by simp
  then have "lt a b" using a b unfolding sorted_wrt_append sorting_nth_def by blast
  moreover have "a \<in> set xs" "b \<in> set xs"
    using a b by (metis in_set_takeD set_sort_by sorting_nth_def, metis in_set_dropD set_sort_by sorting_nth_def)
  ultimately show "\<not> lt b a" using strict_totalD(1,2)[OF t] by blast
qed (simp add: sorting_nth_def)

lemma rat_by_prob_total: "strict_total A (by_prob rat_ops probs)"
  unfolding strict_total_def by_prob_def rat_ops_def by (auto; force)

text \<open>C29: The widening window over a partial sort chooses exactly as a full sort would: for every
  partition function that keeps the promise of \<open>nth_element\<close>, every vocabulary size, every
  probability threshold and every random source, nucleus sampling returns the same token and
  leaves the same generator state as the reference that sorts all indices. The comparison must
  order the probabilities, that is, none of them is NaN.\<close>

theorem top_p_window_exact:
  assumes "nth_element_ok nthel" "0 < vocab" "\<not> greedy p" "top_p p < 1"
    "strict_total {..<vocab} (by_prob ops (softmax ops (take vocab logits) (temperature p)))"
  shows "sample ops rs nthel rng logits vocab p = sample_sorted ops rs rng logits vocab p"
  by (rule sample_window_sorted[OF assms])

theorem top_p_window_exact_witness:
  "sample rat_ops fixed_source sorting_nth () [1, 3, 2] 3 (default_params\<lparr>top_p := 1 / 2\<rparr>) =
   sample_sorted rat_ops fixed_source () [1, 3, 2] 3 (default_params\<lparr>top_p := 1 / 2\<rparr>)"
  by (rule top_p_window_exact[OF sorting_nth_ok _ _ _ rat_by_prob_total]) (simp_all add: greedy_def default_params_def)

text \<open>Greedy sampling takes the first of the largest logits: the index is in the vocabulary, no
  logit is larger than the chosen one, and every earlier logit is smaller.\<close>

theorem argmax_first_largest:
  assumes "gt_order ops (set logits)" "0 < vocab" "vocab \<le> length logits"
  shows "argmax ops logits vocab < vocab \<and>
    (\<forall>i<vocab. \<not> f_gt ops (logits ! i) (logits ! argmax ops logits vocab)) \<and>
    (\<forall>i<argmax ops logits vocab. f_gt ops (logits ! argmax ops logits vocab) (logits ! i))"
  using argmax_spec[OF assms(1)] assms(2,3) by blast

theorem argmax_first_largest_witness:
  "argmax rat_ops [1, 3, 3] 3 < 3 \<and>
    \<not> f_gt rat_ops ([1, 3, 3] ! 2) ([1, 3, 3] ! argmax rat_ops [1, 3, 3] 3)"
proof -
  have "gt_order rat_ops (set [1, 3, 3])" by (auto simp: gt_order_def rat_ops_def)
  then have am: "argmax rat_ops [1, 3, 3] 3 < 3"
    "\<forall>i<3. \<not> f_gt rat_ops ([1, 3, 3] ! i) ([1, 3, 3] ! argmax rat_ops [1, 3, 3] 3)"
    using argmax_first_largest[of rat_ops "[1, 3, 3]" 3] by simp_all
  show ?thesis using am(1) am(2)[rule_format, of 2] by simp
qed

definition host_compute ::
  "('f, 'd) float_ops \<Rightarrow> ('g, 'd) random_source \<Rightarrow> nth_element_fun \<Rightarrow> 'g \<Rightarrow> nat \<Rightarrow>
   (sched \<Rightarrow> step_input \<Rightarrow> string + 'f list) \<Rightarrow> sched \<Rightarrow> step_input \<Rightarrow> string + token list" where
  "host_compute ops rs nthel rng vocab forward s st =
    (case forward s st of
       Inl msg \<Rightarrow> Inl msg
     | Inr logits \<Rightarrow> Inr (fst (sample_step ops rs nthel (heap s) rng st logits vocab)))"


end
