(* ===== verification/Json_Fields.thy ===== *)
theory Json_Fields
  imports Engine_Prelude
begin

text \<open>
  What the sources read from a JSON object, without the library that parses it: a member is
  absent, has the expected type, or has another one, whose read throws with the library's
  message. \<open>at\<close> throws on an absent member, \<open>value\<close> falls back to a default.
\<close>

datatype 'a json_field = Absent | Value 'a | Wrong_Type string

fun json_at :: "string \<Rightarrow> 'a json_field \<Rightarrow> 'a result" where
  "json_at k Absent = Inl (Out_Of_Range k)"
| "json_at k (Value v) = Inr v"
| "json_at k (Wrong_Type msg) = Inl (Runtime_Error msg)"

fun json_value :: "'a \<Rightarrow> 'a json_field \<Rightarrow> 'a result" where
  "json_value d Absent = Inr d"
| "json_value d (Value v) = Inr v"
| "json_value d (Wrong_Type msg) = Inl (Runtime_Error msg)"

text \<open>Sequencing: the first exception leaves the function.\<close>

fun and_then :: "'a result \<Rightarrow> ('a \<Rightarrow> 'b result) \<Rightarrow> 'b result" where
  "and_then (Inl e) f = Inl e"
| "and_then (Inr v) f = f v"

lemma and_then_Inr: "and_then r f = Inr y \<longleftrightarrow> (\<exists>x. r = Inr x \<and> f x = Inr y)"
  by (cases r) auto

end
