(* ===== verification/Api_Server.thy ===== *)
theory Api_Server
  imports Engine Tokenizer Json_Fields
begin

text \<open>
  The HTTP front end of \<open>src/src/api/server.cpp\<close> and \<open>src/include/engine/api.h\<close>: the request
  handler shared by the two completion endpoints up to the submission and its status codes, the
  answer of a blocking request, the chunks of a streamed one, and the probes.

  The HTTP and JSON libraries are outside the sources. A request body is either the library's
  parse error or the members the handler reads, each absent, of the right type, or of another
  type (whose read throws with the library's message). A handler that lets an exception out is
  answered with status 500 by the HTTP library. The ids, model names and time stamps that the
  handler only passes on, and the documents they go into, are in \<open>Api_Documents\<close>.
\<close>

subsection \<open>The channel from the engine thread\<close>

record stream =
  st_queue :: "(token \<times> finish_reason) list"
  closed :: bool

definition new_stream :: stream where
  "new_stream = \<lparr>st_queue = [], closed = False\<rparr>"

definition stream_push :: "stream \<Rightarrow> token \<Rightarrow> finish_reason \<Rightarrow> stream" where
  "stream_push ch t r = ch\<lparr>st_queue := st_queue ch @ [(t, r)], closed := closed ch \<or> t < 0\<rparr>"

text \<open>\<open>None\<close>: the reader waits.\<close>

definition stream_pop :: "stream \<Rightarrow> ((token \<times> finish_reason) \<times> stream) option" where
  "stream_pop ch = (case st_queue ch of [] \<Rightarrow> None | m # q \<Rightarrow> Some (m, ch\<lparr>st_queue := q\<rparr>))"

subsection \<open>The UTF-8 buffer\<close>

function utf8_valid :: "bytes \<Rightarrow> nat \<Rightarrow> nat" where
  "utf8_valid pending valid =
    (if valid < length pending then
       (let len = (if pending ! valid < 0x80 then 1 else utf8_len (pending ! valid)) in
        if length pending < valid + len then valid else utf8_valid pending (valid + len))
     else valid)"
  by pat_completeness auto
termination
  by (relation "measure (\<lambda>(p, v). length p - v)") (auto simp: utf8_len_def split: if_splits)

declare utf8_valid.simps [simp del]

text \<open>\<open>Utf8Buffer::push\<close>: the text to send and the bytes kept.\<close>

definition utf8_push :: "bytes \<Rightarrow> bytes \<Rightarrow> bytes \<times> bytes" where
  "utf8_push pending bs =
    (let p = pending @ bs; v = utf8_valid p 0 in (take v p, drop v p))"

subsection \<open>Requests\<close>

datatype prompt_json = Prompt_Array "int list" | Prompt_String bytes

record completion_body =
  b_messages :: "chat_message list json_field"
  b_prompt_token_ids :: "int list json_field"
  b_prompt :: "prompt_json json_field"
  b_stream :: "bool json_field"
  b_model :: "bytes json_field"
  b_max_tokens :: "int json_field"
  b_temperature :: "rat json_field"
  b_top_p :: "rat json_field"
  b_seed :: "nat json_field"
  b_ignore_eos :: "bool json_field"
  b_stop_token_ids :: "int list json_field"

text \<open>\<open>e.what()\<close>\<close>

fun error_text :: "engine_error \<Rightarrow> string" where
  "error_text (Invalid_Argument s) = s"
| "error_text (Runtime_Error s) = s"
| "error_text (Out_Of_Range s) = s"
| "error_text Length_Error = ''length_error''"
| "error_text Assertion_Failed = ''''"

definition parse_params :: "completion_body \<Rightarrow> sampling_params result" where
  "parse_params b =
    (case json_value 128 (b_max_tokens b) of Inl e \<Rightarrow> Inl e | Inr mt \<Rightarrow>
     case json_value 1 (b_temperature b) of Inl e \<Rightarrow> Inl e | Inr temp \<Rightarrow>
     case json_value 1 (b_top_p b) of Inl e \<Rightarrow> Inl e | Inr tp \<Rightarrow>
     case json_value 0 (b_seed b) of Inl e \<Rightarrow> Inl e | Inr sd \<Rightarrow>
     case json_value False (b_ignore_eos b) of Inl e \<Rightarrow> Inl e | Inr ie \<Rightarrow>
     case json_value [] (b_stop_token_ids b) of Inl e \<Rightarrow> Inl e | Inr ss \<Rightarrow>
       Inr \<lparr>max_tokens = mt, temperature = temp, top_p = tp, seed = sd, stop_ids = ss, ignore_eos = ie\<rparr>)"

text \<open>The prompt's token ids; \<open>None\<close> is an encoding that does not return.\<close>

definition read_prompt :: "tokenizer \<Rightarrow> bool \<Rightarrow> completion_body \<Rightarrow> int list result option" where
  "read_prompt tk chat b =
    (if chat then
       (case json_at ''messages'' (b_messages b) of
          Inl e \<Rightarrow> Some (Inl e)
        | Inr msgs \<Rightarrow>
            (case apply_chat_template tk msgs of Inl e \<Rightarrow> Some (Inl e) | Inr s \<Rightarrow> encode_for_generation tk s))
     else
       case b_prompt_token_ids b of
         Value ids \<Rightarrow> Some (Inr ids)
       | Wrong_Type msg \<Rightarrow> Some (Inl (Runtime_Error msg))
       | Absent \<Rightarrow>
           (case json_at ''prompt'' (b_prompt b) of
              Inl e \<Rightarrow> Some (Inl e)
            | Inr (Prompt_Array ids) \<Rightarrow> Some (Inr ids)
            | Inr (Prompt_String s) \<Rightarrow> encode_for_generation tk s))"

datatype answer =
    Error_Answer nat string "int option"
  | Blocking seq_ref nat
  | Streaming seq_ref

text \<open>From the parameters on: validation, submission and the status of a refusal.\<close>

definition count_invalid :: "engine \<Rightarrow> engine" where
  "count_invalid en = en\<lparr>en_metrics := (en_metrics en)\<lparr>requests_rejected_invalid := Suc (requests_rejected_invalid (en_metrics en))\<rparr>\<rparr>"

definition count_draining :: "engine \<Rightarrow> engine" where
  "count_draining en = en\<lparr>en_metrics := (en_metrics en)\<lparr>requests_rejected_draining := Suc (requests_rejected_draining (en_metrics en))\<rparr>\<rparr>"

definition submit_request ::
  "tokenizer \<Rightarrow> nat \<Rightarrow> bool \<Rightarrow> int list \<Rightarrow> sampling_params \<Rightarrow> engine \<Rightarrow> engine \<times> answer" where
  "submit_request tk model_max strm prompt ps en =
    (let why = validate en model_max (length prompt) ps in
     if why \<noteq> '''' then (count_invalid en, Error_Answer 400 why None)
     else
       case submit (Tokenizer.stop_ids tk) prompt ps True en of (en', sub) \<Rightarrow>
         if fatal_error en' \<noteq> '''' then (en', Error_Answer 503 (''engine is not running: '' @ fatal_error en') None)
         else
           case (sub_status sub, sub_seq sub) of
             (Accepted, Some q) \<Rightarrow> (en', if strm then Streaming q else Blocking q (length prompt))
           | (Overloaded, _) \<Rightarrow> (en', Error_Answer 429 (sub_reason sub) (Some (retry_after_seconds sub)))
           | _ \<Rightarrow> (count_draining en', Error_Answer 503 (sub_reason sub) None))"

definition handle ::
  "bool \<Rightarrow> tokenizer \<Rightarrow> nat \<Rightarrow> bool \<Rightarrow> string + completion_body \<Rightarrow> engine \<Rightarrow> (engine \<times> answer) option" where
  "handle srv_accepting tk model_max chat req en =
    (if \<not> srv_accepting \<or> \<not> accepting en then Some (en, Error_Answer 503 ''server is draining'' None)
     else
       case req of
         Inl msg \<Rightarrow> Some (en, Error_Answer 400 (''invalid JSON: '' @ msg) None)
       | Inr b \<Rightarrow>
           (case read_prompt tk chat b of
              None \<Rightarrow> None
            | Some (Inl e) \<Rightarrow> Some (en, Error_Answer 400 (error_text e) None)
            | Some (Inr prompt) \<Rightarrow>
                if prompt = [] then Some (en, Error_Answer 400 ''empty prompt'' None)
                else
                  case (json_value False (b_stream b), json_value [] (b_model b), parse_params b) of
                    (Inr strm, Inr _, Inr ps) \<Rightarrow> Some (submit_request tk model_max strm prompt ps en)
                  | _ \<Rightarrow> Some (en, Error_Answer 500 '''' None)))"

subsection \<open>Answers\<close>

text \<open>A blocking request collects tokens until the terminal message; \<open>None\<close> while none has come.\<close>

fun collect :: "(token \<times> finish_reason) list \<Rightarrow> (token list \<times> finish_reason) option" where
  "collect [] = None"
| "collect ((t, r) # ms) =
    (if t < 0 then Some ([], r)
     else case collect ms of None \<Rightarrow> None | Some (ts, fr) \<Rightarrow> Some (t # ts, fr))"

record completion =
  cm_text :: bytes
  cm_finish :: string
  cm_prompt_tokens :: nat
  cm_completion_tokens :: nat
  cm_total_tokens :: nat

text \<open>Every answer is written with \<open>json::dump\<close>, which throws on a string it does not accept; the
  argument \<open>dump_ok\<close> says which ones the library accepts.\<close>

definition dump_error :: engine_error where
  "dump_error = Runtime_Error ''[json.exception.type_error.316]''"

definition blocking_answer ::
  "(bytes \<Rightarrow> bool) \<Rightarrow> tokenizer \<Rightarrow> nat \<Rightarrow> (token \<times> finish_reason) list \<Rightarrow> completion result option" where
  "blocking_answer dump_ok tk prompt_tokens ms =
    (case collect ms of
       None \<Rightarrow> None
     | Some (out, fr) \<Rightarrow>
         Some (case decode tk out of
                 Inl e \<Rightarrow> Inl e
               | Inr txt \<Rightarrow>
                   if \<not> dump_ok txt then Inl dump_error
                   else Inr \<lparr>cm_text = txt, cm_finish = finish_reason_str fr, cm_prompt_tokens = prompt_tokens,
                   cm_completion_tokens = length out, cm_total_tokens = prompt_tokens + length out\<rparr>))"

text \<open>One call of the content provider: the text of the chunk, the kept bytes, and whether it was
  the last. The final chunk of a chat carries an empty delta.\<close>

record stream_piece =
  ck_text :: bytes
  ck_finish :: "string option"

definition stream_chunk ::
  "(bytes \<Rightarrow> bool) \<Rightarrow> tokenizer \<Rightarrow> bool \<Rightarrow> bytes \<Rightarrow> token \<times> finish_reason \<Rightarrow>
   (stream_piece \<times> bytes \<times> bool) result" where
  "stream_chunk dump_ok tk chat pending m =
    (case m of (t, r) \<Rightarrow>
       if 0 \<le> t then
         (case decode_token tk t of
            Inl e \<Rightarrow> Inl e
          | Inr bs \<Rightarrow>
              (case utf8_push pending bs of (piece, rest) \<Rightarrow>
                 if dump_ok piece then Inr (\<lparr>ck_text = piece, ck_finish = None\<rparr>, rest, False) else Inl dump_error))
       else if chat then Inr (\<lparr>ck_text = [], ck_finish = Some (finish_reason_str r)\<rparr>, [], True)
       else if dump_ok pending then Inr (\<lparr>ck_text = pending, ck_finish = Some (finish_reason_str r)\<rparr>, [], True)
       else Inl dump_error)"

text \<open>The calls of the provider while the client reads, up to the final chunk.\<close>

fun stream_chunks :: "(bytes \<Rightarrow> bool) \<Rightarrow> tokenizer \<Rightarrow> bool \<Rightarrow> bytes \<Rightarrow> (token \<times> finish_reason) list \<Rightarrow> stream_piece list result" where
  "stream_chunks dump_ok tk chat pending [] = Inr []"
| "stream_chunks dump_ok tk chat pending (m # ms) =
    (case stream_chunk dump_ok tk chat pending m of
       Inl e \<Rightarrow> Inl e
     | Inr (c, rest, fin) \<Rightarrow>
         if fin then Inr [c]
         else case stream_chunks dump_ok tk chat rest ms of Inl e \<Rightarrow> Inl e | Inr cs \<Rightarrow> Inr (c # cs))"

text \<open>When the connection ends without success the sequence is aborted.\<close>

definition stream_closed :: "bool \<Rightarrow> nat \<Rightarrow> engine \<Rightarrow> engine" where
  "stream_closed success i en = (if success then en else engine_abort i en)"

subsection \<open>Probes\<close>

definition healthz_status :: "(rat \<Rightarrow> string) \<Rightarrow> time_point \<Rightarrow> engine \<Rightarrow> nat" where
  "healthz_status to_str now en = (if alive (health to_str now en) then 200 else 503)"

definition readyz_status :: "(rat \<Rightarrow> string) \<Rightarrow> time_point \<Rightarrow> bool \<Rightarrow> engine \<Rightarrow> nat" where
  "readyz_status to_str now srv_accepting en =
    (if hr_ready (health to_str now en) \<and> srv_accepting then 200 else 503)"

definition demo_status :: "bytes option \<Rightarrow> nat" where
  "demo_status page = (case page of Some _ \<Rightarrow> 200 | None \<Rightarrow> 404)"

subsection \<open>What the buffer keeps\<close>

lemma utf8_push_parts: "utf8_push pending bs = (piece, rest) \<Longrightarrow> piece @ rest = pending @ bs"
  unfolding utf8_push_def Let_def by (metis append_take_drop_id prod.inject)

text \<open>The scan does not look back.\<close>

lemma utf8_valid_shift: "utf8_valid (a @ p) (length a + v) = length a + utf8_valid p v"
proof (induction p v rule: utf8_valid.induct)
  case (1 p v)
  let ?len = "if p ! v < 0x80 then 1 else utf8_len (p ! v)"
  have "utf8_valid (a @ p) (length a + (v + ?len)) = length a + utf8_valid p (v + ?len)"
    if "v < length p" "v + ?len \<le> length p" using 1 that by simp
  then show ?case by (subst (1 2) utf8_valid.simps) (auto simp: Let_def add.assoc)
qed

lemma lead_length:
  assumes "c < 0x200000"
  shows "(if utf8_encode c ! 0 < 0x80 then 1 else utf8_len (utf8_encode c ! 0)) = length (utf8_encode c)"
proof -
  have "utf8_decode (utf8_encode c) 0 = (length (utf8_encode c), c)"
    using utf8_decode_encode[OF assms, of "[]" "[]"] by simp
  moreover have "length (utf8_encode 0xFFFD) \<noteq> 1" by (simp add: utf8_encode_def)
  ultimately show ?thesis by (auto simp: utf8_decode_def Let_def split: if_splits)
qed

text \<open>A prefix of a well-formed text is cut at the last character it holds completely.\<close>

lemma utf8_valid_prefix:
  assumes "p @ r = utf8_text ds" "\<forall>d \<in> set ds. d < 0x200000"
  shows "\<exists>k. take (utf8_valid p 0) p = utf8_text (take k ds) \<and> drop (utf8_valid p 0) p @ r = utf8_text (drop k ds)"
  using assms
proof (induction ds arbitrary: p)
  case Nil
  then show ?case by (simp add: utf8_valid.simps)
next
  case (Cons d ds)
  let ?e = "utf8_encode d"
  show ?case
  proof (cases "length p < length ?e")
    case True
    then have "take (length p) (p @ r) = take (length p) ?e" using Cons.prems(1) by simp
    then have pre: "p = take (length p) ?e" by simp
    have "utf8_valid p 0 = 0"
    proof (cases "p = []")
      case False
      then have "p ! 0 = ?e ! 0" by (metis pre length_greater_0_conv nth_take)
      then have "(if p ! 0 < 0x80 then 1 else utf8_len (p ! 0)) = length ?e"
        using lead_length[of d] Cons.prems(2) by (simp only: list.set_intros)
      then show ?thesis using True by (subst utf8_valid.simps) (auto simp: Let_def split: if_splits)
    qed (simp add: utf8_valid.simps)
    then show ?thesis using Cons.prems(1) by (intro exI[of _ 0]) simp
  next
    case False
    define p' where "p' = drop (length ?e) p"
    have "take (length ?e) (p @ r) = ?e" "drop (length ?e) (p @ r) = utf8_text ds" using Cons.prems(1) by simp_all
    then have p: "p = ?e @ p'" "p' @ r = utf8_text ds"
      using False append_take_drop_id[of "length ?e" p] by (simp_all add: p'_def)
    have h: "p ! 0 = ?e ! 0" "0 < length ?e" by (auto simp: p(1) nth_append)
    have "utf8_valid p 0 = utf8_valid p (length ?e)"
      using lead_length[of d] Cons.prems(2) h p(1) by (subst utf8_valid.simps) (auto simp: Let_def)
    also have "\<dots> = length ?e + utf8_valid p' 0" using utf8_valid_shift[of ?e p' 0] p(1) by simp
    finally have v: "utf8_valid p 0 = length ?e + utf8_valid p' 0" .
    obtain k where "take (utf8_valid p' 0) p' = utf8_text (take k ds)" "drop (utf8_valid p' 0) p' @ r = utf8_text (drop k ds)"
      using Cons.IH[OF p(2)] Cons.prems(2) by auto
    then show ?thesis unfolding v by (intro exI[of _ "Suc k"]) (simp add: p(1))
  qed
qed

lemma utf8_valid_text:
  "\<forall>d \<in> set ds. d < 0x200000 \<Longrightarrow> utf8_valid (utf8_text ds) 0 = length (utf8_text ds)"
proof (induction ds)
  case (Cons d ds)
  let ?e = "utf8_encode d"
  have "(?e @ utf8_text ds) ! 0 = ?e ! 0" by (simp add: nth_append)
  then have "utf8_valid (?e @ utf8_text ds) 0 = utf8_valid (?e @ utf8_text ds) (length ?e)"
    using lead_length[of d] Cons.prems by (subst utf8_valid.simps) (auto simp: Let_def)
  then show ?case using utf8_valid_shift[of ?e "utf8_text ds" 0] Cons by simp
qed (simp add: utf8_valid.simps)

text \<open>Well-formed UTF-8: the encoding of a list of Unicode scalar values.\<close>

definition scalar :: "u32 \<Rightarrow> bool" where
  "scalar c = (c < 0x110000 \<and> \<not> (0xD800 \<le> c \<and> c < 0xE000))"

definition well_formed :: "bytes \<Rightarrow> bool" where
  "well_formed s = (utf8_text (to_codepoints s) = s \<and> list_all scalar (to_codepoints s))"

lemma well_formed_Nil [simp]: "well_formed []"
  by (simp add: well_formed_def to_codepoints_def to_codepoints_from.simps)

lemma scalar_small: "scalar c \<Longrightarrow> c < 0x200000"
  by (simp add: scalar_def order_less_trans[of c "0x110000" "0x200000"])

lemma well_formed_iff: "well_formed s \<longleftrightarrow> (\<exists>cps. s = utf8_text cps \<and> (\<forall>c \<in> set cps. scalar c))"
  using to_codepoints_text by (force simp: well_formed_def list_all_iff scalar_small)

text \<open>What the JSON library documents of \<open>dump\<close> with its default error handler: it writes exactly
  the strings that are well-formed UTF-8.\<close>

definition dump_strict :: "(bytes \<Rightarrow> bool) \<Rightarrow> bool" where
  "dump_strict dump_ok = (\<forall>s. dump_ok s = well_formed s)"

text \<open>A step of the stream over a well-formed text sends whole characters and keeps the rest.\<close>

lemma utf8_push_text:
  assumes "pending @ bs @ r = utf8_text ds" "\<forall>d \<in> set ds. scalar d" "utf8_push pending bs = (piece, rest)"
  shows "\<exists>es. rest @ r = utf8_text es \<and> (\<forall>d \<in> set es. scalar d) \<and> well_formed piece \<and> (r = [] \<longrightarrow> rest = [])"
proof -
  have small: "\<forall>d \<in> set ds. d < 0x200000" using assms(2) scalar_small by blast
  obtain k where "piece = utf8_text (take k ds)" "rest @ r = utf8_text (drop k ds)"
    using utf8_valid_prefix[of "pending @ bs" r ds] small assms(1,3) by (auto simp: utf8_push_def Let_def)
  moreover have "\<forall>d \<in> set (take k ds) \<union> set (drop k ds). scalar d"
    using assms(2) by (meson UnE in_set_dropD in_set_takeD)
  moreover have "r = [] \<Longrightarrow> rest = []"
    using assms(1,3) utf8_valid_text[OF small] by (auto simp: utf8_push_def Let_def)
  ultimately show ?thesis using well_formed_iff by blast
qed

lemma stream_chunks_text:
  assumes "dump_strict dump_ok"
  shows "decode_all tk ts = Inr bs \<Longrightarrow> \<forall>t \<in> set ts. 0 \<le> t \<Longrightarrow> pending @ bs = utf8_text ds \<Longrightarrow>
    \<forall>d \<in> set ds. scalar d \<Longrightarrow> (ts = [] \<longrightarrow> pending = []) \<Longrightarrow>
    \<exists>cs. stream_chunks dump_ok tk chat pending (map (\<lambda>t. (t, Reason_None)) ts @ [(-1, fr)]) =
        Inr (cs @ [\<lparr>ck_text = [], ck_finish = Some (finish_reason_str fr)\<rparr>]) \<and>
      concat (map ck_text cs) = pending @ bs \<and> list_all (\<lambda>c. well_formed (ck_text c)) cs \<and> length cs = length ts"
proof (induction ts arbitrary: pending bs ds)
  case Nil
  then show ?case using assms by (simp add: stream_chunk_def dump_strict_def)
next
  case (Cons t ts)
  obtain b bs' where d: "decode_token tk t = Inr b" "decode_all tk ts = Inr bs'" "bs = b @ bs'"
    using Cons.prems(1) by (auto split: sum.splits)
  obtain piece rest where p: "utf8_push pending b = (piece, rest)" by force
  obtain es where e: "rest @ bs' = utf8_text es" "\<forall>d \<in> set es. scalar d" "well_formed piece" "bs' = [] \<longrightarrow> rest = []"
    using utf8_push_text[of pending b bs' ds] Cons.prems(3,4) d(3) p by auto
  have last: "ts = [] \<longrightarrow> rest = []" using d(2) e(4) by auto
  obtain cs where c: "stream_chunks dump_ok tk chat rest (map (\<lambda>t. (t, Reason_None)) ts @ [(-1, fr)]) =
       Inr (cs @ [\<lparr>ck_text = [], ck_finish = Some (finish_reason_str fr)\<rparr>])"
     "concat (map ck_text cs) = rest @ bs'" "list_all (\<lambda>c. well_formed (ck_text c)) cs" "length cs = length ts"
    using Cons.IH[OF d(2) _ e(1,2) last] Cons.prems(2) by auto
  have "piece @ concat (map ck_text cs) = pending @ bs"
    using c(2) d(3) utf8_push_parts[OF p] by (metis append.assoc)
  moreover have "0 \<le> t" "dump_ok piece" using Cons.prems(2) e(3) assms by (simp_all add: dump_strict_def)
  ultimately show ?case
    using c d(1) p e(3)
    by (intro exI[of _ "\<lparr>ck_text = piece, ck_finish = None\<rparr> # cs"]) (simp add: stream_chunk_def)
qed

end
