(* ===== verification/Api_Props.thy ===== *)
theory Api_Props
  imports Api_Server
begin

text \<open>
  The properties of the HTTP front end: what a client receives of the generated text when it
  streams and when it waits, and two cases in which the answers differ.
\<close>

definition demo_tokenizer :: tokenizer where
  "demo_tokenizer = empty_tokenizer
    \<lparr>tk_family := Metaspace, id_to_token := [kMeta @ ascii ''hi'', ascii ''<0xC3>'', ascii ''<0xA9>'']\<rparr>"

lemma demo_decodes:
  "decode_token demo_tokenizer 0 = Inr [32, 104, 105]"
  "decode_token demo_tokenizer 1 = Inr [0xC3]"
  "decode_token demo_tokenizer 2 = Inr [0xA9]"
  by (simp_all add: decode_token_def demo_tokenizer_def empty_tokenizer_def ascii_def kMeta_def stoi_hex_def
      hex_value_def)

lemma demo_texts: "[32, 104, 105, 0xC3, 0xA9] = utf8_text [32, 104, 105, 0xE9]" "[32, 104, 105] = utf8_text [32, 104, 105]"
  "[104, 105] = utf8_text [104, 105]"
  by (simp_all add: utf8_text_def utf8_encode_def)

lemma demo_scans: "utf8_valid [0xC3] 0 = 0" "utf8_valid [32, 104, 105] 0 = 3"
proof -
  show "utf8_valid [0xC3] 0 = 0" by (subst utf8_valid.simps) (simp add: utf8_len_def)
  show "utf8_valid [32, 104, 105] 0 = 3"
    using utf8_valid_text[of "[32, 104, 105]"] by (simp add: utf8_text_def utf8_encode_def)
qed

lemma dump_strict_texts:
  assumes "dump_strict dump_ok"
  shows "dump_ok []" "dump_ok [32, 104, 105]" "dump_ok [104, 105]" "\<not> dump_ok [0xC3]"
proof -
  have ok: "dump_ok (utf8_text cps)" if "\<forall>c \<in> set cps. scalar c" for cps
    using assms that by (auto simp: dump_strict_def well_formed_iff)
  show "dump_ok []" "dump_ok [32, 104, 105]" "dump_ok [104, 105]"
    using ok[of "[]"] ok[of "[32, 104, 105]"] ok[of "[104, 105]"] unfolding demo_texts[symmetric]
    by (simp_all add: scalar_def)
  have "to_codepoints [0xC3] = [0xFFFD]"
    by (simp add: to_codepoints_def to_codepoints_from.simps utf8_decode_def utf8_len_def)
  then show "\<not> dump_ok [0xC3]" using assms by (simp add: dump_strict_def well_formed_def utf8_encode_def)
qed

text \<open>Streaming is lossless for well-formed text, in both endpoints and for every division of the
  text into tokens: if the bytes the tokens decode to are well-formed UTF-8 as a whole, although
  single tokens may hold parts of characters, then the provider never throws, it sends one chunk
  per token and a final one, every chunk is well-formed by itself, and the chunks joined are the
  text. The hypothesis on the JSON library is that \<open>dump\<close> writes exactly the well-formed
  strings.\<close>

theorem stream_lossless:
  assumes "dump_strict dump_ok" "decode_all tk ts = Inr bs" "well_formed bs" "\<forall>t \<in> set ts. 0 \<le> t"
  shows "\<exists>cs. stream_chunks dump_ok tk chat [] (map (\<lambda>t. (t, Reason_None)) ts @ [(-1, fr)]) = Inr cs \<and>
    concat (map ck_text cs) = bs \<and> list_all (\<lambda>c. well_formed (ck_text c)) cs \<and> length cs = length ts + 1 \<and>
    ck_finish (last cs) = Some (finish_reason_str fr)"
proof -
  obtain ds where "bs = utf8_text ds" "\<forall>d \<in> set ds. scalar d" using assms(3) well_formed_iff by blast
  then obtain cs where "stream_chunks dump_ok tk chat [] (map (\<lambda>t. (t, Reason_None)) ts @ [(-1, fr)]) =
      Inr (cs @ [\<lparr>ck_text = [], ck_finish = Some (finish_reason_str fr)\<rparr>])"
    "concat (map ck_text cs) = bs" "list_all (\<lambda>c. well_formed (ck_text c)) cs" "length cs = length ts"
    using stream_chunks_text[OF assms(1,2,4), of "[]" ds chat fr] by auto
  then show ?thesis by simp
qed

theorem stream_lossless_witness:
  "\<exists>cs. stream_chunks well_formed demo_tokenizer True [] (map (\<lambda>t. (t, Reason_None)) [0, 1, 2] @ [(-1, Stop)]) = Inr cs \<and>
    concat (map ck_text cs) = [32, 104, 105, 0xC3, 0xA9] \<and> list_all (\<lambda>c. well_formed (ck_text c)) cs \<and>
    length cs = length [0, 1, 2 :: int] + 1 \<and> ck_finish (last cs) = Some (finish_reason_str Stop)"
proof (rule stream_lossless)
  show "well_formed [32, 104, 105, 0xC3, 0xA9]"
    unfolding demo_texts(1) well_formed_iff by (rule exI[of _ "[32, 104, 105, 0xE9]"]) (simp add: scalar_def)
qed (simp_all add: demo_decodes dump_strict_def)

text \<open>When the token limit falls inside a character the two endpoints fail differently: the final
  chunk of a chat carries an empty delta, so the buffered bytes are dropped silently, while the
  completion endpoint puts them into the final chunk, where \<open>dump\<close> throws, so the stream ends
  without a finish reason and without its end marker.\<close>

theorem truncated_character:
  assumes "dump_strict dump_ok"
  shows "map_sum id (map ck_text) (stream_chunks dump_ok demo_tokenizer True [] [(1, Reason_None), (-1, Length)]) = Inr [[], []] \<and>
   stream_chunks dump_ok demo_tokenizer False [] [(1, Reason_None), (-1, Length)] = Inl dump_error"
  by (simp add: stream_chunk_def demo_decodes utf8_push_def demo_scans dump_strict_texts[OF assms])

theorem truncated_character_witness:
  "map_sum id (map ck_text) (stream_chunks well_formed demo_tokenizer True [] [(1, Reason_None), (-1, Length)]) = Inr [[], []] \<and>
   stream_chunks well_formed demo_tokenizer False [] [(1, Reason_None), (-1, Length)] = Inl dump_error"
  by (rule truncated_character) (simp add: dump_strict_def)

text \<open>For the metaspace family the two kinds of answer differ: a blocking completion strips the
  leading blank that the decoder attributes to the normaliser, a stream of the same tokens sends
  it.\<close>

theorem blocking_strips_blank:
  assumes "dump_strict dump_ok"
  shows "map_sum id (\<lambda>cs. concat (map ck_text cs)) (stream_chunks dump_ok demo_tokenizer False [] [(0, Reason_None), (-1, Stop)]) =
     Inr [32, 104, 105] \<and>
   map_option (map_sum id cm_text) (blocking_answer dump_ok demo_tokenizer 1 [(0, Reason_None), (-1, Stop)]) =
     Some (Inr [104, 105])"
proof -
  have "tk_family demo_tokenizer = Metaspace" by (simp add: demo_tokenizer_def)
  then show ?thesis
    by (simp add: stream_chunk_def demo_decodes utf8_push_def demo_scans blocking_answer_def decode_def
        dump_strict_texts[OF assms])
qed

theorem blocking_strips_blank_witness:
  "map_sum id (\<lambda>cs. concat (map ck_text cs)) (stream_chunks well_formed demo_tokenizer False [] [(0, Reason_None), (-1, Stop)]) =
     Inr [32, 104, 105] \<and>
   map_option (map_sum id cm_text) (blocking_answer well_formed demo_tokenizer 1 [(0, Reason_None), (-1, Stop)]) =
     Some (Inr [104, 105])"
  by (rule blocking_strips_blank) (simp add: dump_strict_def)

end
