(* ===== verification/Api_Documents.thy ===== *)
theory Api_Documents
  imports Api_Props
begin

text \<open>
  The answers of \<open>src/src/api/server.cpp\<close> as they go over the wire: the JSON documents of the
  endpoints, their status codes and headers, the table of routes, and the event stream of a
  streamed completion with the client's side of it.

  A JSON value is a datatype, its objects lists of members in the order of the source. The
  library's \<open>dump\<close> is the argument \<open>dump\<close>, which gives the bytes or throws. Clock readings are
  arguments, and a status that the handler does not set is 200.
\<close>

subsection \<open>Documents\<close>

datatype json =
    J_Null
  | J_Bool bool
  | J_Int int
  | J_Num rat
  | J_Str bytes
  | J_Arr "json list"
  | J_Obj "(string \<times> json) list"

type_synonym dumper = "json \<Rightarrow> bytes result"

record response =
  rs_status :: nat
  rs_headers :: "(string \<times> string) list"
  rs_type :: string
  rs_body :: bytes

definition http_content :: "nat \<Rightarrow> string \<Rightarrow> bytes \<Rightarrow> response" where
  "http_content code kind body = \<lparr>rs_status = code, rs_headers = [], rs_type = kind, rs_body = body\<rparr>"

definition json_content :: "dumper \<Rightarrow> nat \<Rightarrow> json \<Rightarrow> response result" where
  "json_content dump code j = and_then (dump j) (\<lambda>b. Inr (http_content code ''application/json'' b))"

definition j_text :: "string \<Rightarrow> json" where
  "j_text s = J_Str (ascii s)"

subsection \<open>Ids\<close>

text \<open>The counter is a static atomic of the function; the clock is read in milliseconds.\<close>

definition now_id :: "string \<Rightarrow> int \<Rightarrow> u64 \<Rightarrow> string \<times> u64" where
  "now_id prefix millis n = (prefix @ ''-'' @ dec_int millis @ ''-'' @ digits_of (unat n), n + 1)"

subsection \<open>Probes, metrics, page and models\<close>

definition health_doc :: "health_report \<Rightarrow> json" where
  "health_doc h =
    J_Obj ([(''alive'', J_Bool (alive h)), (''ready'', J_Bool (hr_ready h)),
            (''seconds_since_progress'', J_Num (seconds_since_progress h))] @
           (if problems h = [] then [] else [(''problems'', J_Arr (map j_text (problems h)))]))"

definition get_healthz :: "dumper \<Rightarrow> (rat \<Rightarrow> string) \<Rightarrow> time_point \<Rightarrow> engine \<Rightarrow> response result" where
  "get_healthz dump to_str now en =
    json_content dump (healthz_status to_str now en) (health_doc (health to_str now en))"

definition get_readyz :: "dumper \<Rightarrow> (rat \<Rightarrow> string) \<Rightarrow> time_point \<Rightarrow> bool \<Rightarrow> engine \<Rightarrow> response result" where
  "get_readyz dump to_str now srv_accepting en =
    json_content dump (readyz_status to_str now srv_accepting en) (health_doc (health to_str now en))"

definition get_metrics :: "(rat \<Rightarrow> string) \<Rightarrow> engine \<Rightarrow> response" where
  "get_metrics fmt en = http_content 200 ''text/plain; version=0.0.4'' (ascii (render_prometheus fmt (en_metrics en)))"

definition get_page :: "bytes option \<Rightarrow> response" where
  "get_page page =
    (case page of
       None \<Rightarrow> http_content (demo_status page) ''text/plain''
         (ascii (''web/demo.html not found. Run the server from the repository root.'' @ [CHR 0x0A]))
     | Some b \<Rightarrow> http_content (demo_status page) ''text/html; charset=utf-8'' b)"

definition get_models :: "dumper \<Rightarrow> engine \<Rightarrow> response result" where
  "get_models dump en =
    json_content dump 200
      (J_Obj [(''object'', j_text ''list''),
        (''data'', J_Arr [J_Obj [(''id'', j_text (model_dir (en_cfg en))), (''object'', j_text ''model''),
                               (''owned_by'', j_text ''engine'')]])])"

datatype endpoint = Healthz | Readyz | Metrics_Page | Demo_Page | Models | Completions | Chat_Completions

definition route :: "string \<Rightarrow> string \<Rightarrow> endpoint option" where
  "route method path =
    map_of
      [((''GET'', ''/healthz''), Healthz), ((''GET'', ''/readyz''), Readyz), ((''GET'', ''/metrics''), Metrics_Page),
       ((''GET'', ''/''), Demo_Page), ((''GET'', ''/v1/models''), Models),
       ((''POST'', ''/v1/completions''), Completions), ((''POST'', ''/v1/chat/completions''), Chat_Completions)]
      (method, path)"

subsection \<open>Refusals\<close>

definition error_doc :: "string \<Rightarrow> json" where
  "error_doc msg = J_Obj [(''error'', J_Obj [(''message'', j_text msg), (''type'', j_text ''invalid_request_error'')])]"

definition write_error :: "dumper \<Rightarrow> nat \<Rightarrow> string \<Rightarrow> response result" where
  "write_error dump code msg = json_content dump code (error_doc msg)"

text \<open>An error answer of the handler, with the header that an overloaded engine asks for.\<close>

definition refuse :: "dumper \<Rightarrow> nat \<Rightarrow> string \<Rightarrow> int option \<Rightarrow> response result" where
  "refuse dump code msg retry =
    and_then (write_error dump code msg) (\<lambda>r.
      Inr (case retry of
             None \<Rightarrow> r
           | Some n \<Rightarrow> r\<lparr>rs_headers := [(''Retry-After'', dec_int n)]\<rparr>))"

subsection \<open>Completions\<close>

text \<open>What the handler fixes before it submits: the id, the model's name and the creation time.\<close>

record label =
  lb_chat :: bool
  lb_id :: bytes
  lb_model :: bytes
  lb_created :: int

definition make_label ::
  "bool \<Rightarrow> completion_body \<Rightarrow> engine \<Rightarrow> int \<Rightarrow> u64 \<Rightarrow> (label \<times> u64) result" where
  "make_label chat b en millis n =
    (case now_id (if chat then ''chatcmpl'' else ''cmpl'') millis n of (i, n') \<Rightarrow>
       and_then (json_value (ascii (model_dir (en_cfg en))) (b_model b)) (\<lambda>m.
         Inr (\<lparr>lb_chat = chat, lb_id = ascii i, lb_model = m, lb_created = millis div 1000\<rparr>, n')))"

definition with_label :: "label \<Rightarrow> string \<Rightarrow> json \<Rightarrow> (string \<times> json) list \<Rightarrow> json" where
  "with_label lb object choice usage =
    J_Obj ([(''id'', J_Str (lb_id lb)), (''object'', j_text object), (''created'', J_Int (lb_created lb)),
            (''model'', J_Str (lb_model lb)), (''choices'', J_Arr [choice])] @ usage)"

definition completion_doc :: "label \<Rightarrow> completion \<Rightarrow> json" where
  "completion_doc lb c =
    with_label lb (if lb_chat lb then ''chat.completion'' else ''text_completion'')
      (J_Obj (if lb_chat lb
        then [(''index'', J_Int 0),
              (''message'', J_Obj [(''role'', j_text ''assistant''), (''content'', J_Str (cm_text c))]),
              (''finish_reason'', j_text (cm_finish c))]
        else [(''index'', J_Int 0), (''text'', J_Str (cm_text c)), (''finish_reason'', j_text (cm_finish c))]))
      [(''usage'', J_Obj [(''prompt_tokens'', J_Int (int (cm_prompt_tokens c))),
                        (''completion_tokens'', J_Int (int (cm_completion_tokens c))),
                        (''total_tokens'', J_Int (int (cm_total_tokens c)))])]"

text \<open>The blocking answer: what \<open>blocking_answer\<close> collects, without a check of the text, then the
  dump of the whole document.\<close>

definition blocking_response ::
  "dumper \<Rightarrow> tokenizer \<Rightarrow> label \<Rightarrow> nat \<Rightarrow> (token \<times> finish_reason) list \<Rightarrow> response result option" where
  "blocking_response dump tk lb prompt_tokens ms =
    map_option (\<lambda>r. and_then r (\<lambda>c. json_content dump 200 (completion_doc lb c)))
      (blocking_answer (\<lambda>_. True) tk prompt_tokens ms)"

text \<open>One event. The last one of a chat has an empty delta; the others repeat the role.\<close>

definition chunk_doc :: "label \<Rightarrow> stream_piece \<Rightarrow> json" where
  "chunk_doc lb c =
    with_label lb (if lb_chat lb then ''chat.completion.chunk'' else ''text_completion'')
      (case ck_finish c of
         None \<Rightarrow>
           J_Obj (if lb_chat lb
             then [(''index'', J_Int 0),
                   (''delta'', J_Obj [(''role'', j_text ''assistant''), (''content'', J_Str (ck_text c))]),
                   (''finish_reason'', J_Null)]
             else [(''index'', J_Int 0), (''text'', J_Str (ck_text c)), (''finish_reason'', J_Null)])
       | Some fr \<Rightarrow>
           J_Obj (if lb_chat lb
             then [(''index'', J_Int 0), (''delta'', J_Obj []), (''finish_reason'', j_text fr)]
             else [(''index'', J_Int 0), (''text'', J_Str (ck_text c)), (''finish_reason'', j_text fr)]))
      []"

definition newline :: byte where "newline = 10"

definition event :: "bytes \<Rightarrow> bytes" where
  "event body = ascii ''data: '' @ body @ [newline, newline]"

definition stream_headers :: "(string \<times> string) list" where
  "stream_headers = [(''Cache-Control'', ''no-cache''), (''Content-Type'', ''text/event-stream'')]"

text \<open>One call of the content provider: the bytes to write, the bytes kept, whether it was the last.\<close>

definition stream_event ::
  "dumper \<Rightarrow> tokenizer \<Rightarrow> label \<Rightarrow> bytes \<Rightarrow> token \<times> finish_reason \<Rightarrow> (bytes \<times> bytes \<times> bool) result" where
  "stream_event dump tk lb pending m =
    and_then (stream_chunk (\<lambda>_. True) tk (lb_chat lb) pending m) (\<lambda>(c, rest, fin).
      and_then (dump (chunk_doc lb c)) (\<lambda>b.
        Inr (if fin then event b @ event (ascii ''[DONE]'') else event b, rest, fin)))"

text \<open>The calls of the provider: the writes of a client that goes away fail (\<open>write_ok\<close>, by the
  number of the call); the result of the last write is not looked at.\<close>

datatype stream_end = Open_Stream | Completed | Client_Gone | Provider_Threw engine_error

fun stream_run ::
  "dumper \<Rightarrow> tokenizer \<Rightarrow> label \<Rightarrow> (nat \<Rightarrow> bool) \<Rightarrow> nat \<Rightarrow> bytes \<Rightarrow> (token \<times> finish_reason) list \<Rightarrow>
   bytes list \<times> stream_end" where
  "stream_run dump tk lb write_ok k pending [] = ([], Open_Stream)"
| "stream_run dump tk lb write_ok k pending (m # ms) =
    (case stream_event dump tk lb pending m of
       Inl e \<Rightarrow> ([], Provider_Threw e)
     | Inr (payload, rest, fin) \<Rightarrow>
         if fin then ([payload], Completed)
         else if \<not> write_ok k then ([], Client_Gone)
         else (case stream_run dump tk lb write_ok (Suc k) rest ms of (sent, e) \<Rightarrow> (payload # sent, e)))"

text \<open>The server's own flag, and what \<open>listen\<close> makes of the library's answer.\<close>

record api_server =
  srv_accepting :: bool
  srv_stopped :: bool

definition api_server_new :: api_server where
  "api_server_new = \<lparr>srv_accepting = True, srv_stopped = False\<rparr>"

definition srv_listen :: "bool \<Rightarrow> string \<Rightarrow> int \<Rightarrow> unit result" where
  "srv_listen bound host port =
    (if \<not> bound then Inl (Runtime_Error (''failed to bind '' @ host @ '':'' @ dec_int port)) else Inr ())"

definition stop_accepting :: "api_server \<Rightarrow> api_server" where
  "stop_accepting srv = srv\<lparr>srv_accepting := False\<rparr>"

definition srv_stop :: "api_server \<Rightarrow> api_server" where
  "srv_stop srv = srv\<lparr>srv_stopped := True\<rparr>"

subsection \<open>What the JSON library documents\<close>

text \<open>The strings of a document, the names of its members included.\<close>

fun json_texts :: "json \<Rightarrow> bytes list" where
  "json_texts (J_Str s) = [s]"
| "json_texts (J_Arr js) = concat (map json_texts js)"
| "json_texts (J_Obj ms) = concat (map (\<lambda>m. ascii (fst m) # json_texts (snd m)) ms)"
| "json_texts _ = []"

text \<open>Without indentation \<open>dump\<close> writes one line, control characters being escaped, and it throws
  exactly when some string is not well-formed UTF-8.\<close>

definition dump_law :: "dumper \<Rightarrow> bool" where
  "dump_law dump \<longleftrightarrow>
    (\<forall>j b. dump j = Inr b \<longrightarrow> newline \<notin> set b) \<and>
    (\<forall>j. (\<exists>b. dump j = Inr b) \<longleftrightarrow> list_all well_formed (json_texts j))"

definition label_ok :: "label \<Rightarrow> bool" where
  "label_ok lb \<longleftrightarrow> well_formed (lb_id lb) \<and> well_formed (lb_model lb)"

lemma ascii_well_formed:
  assumes "\<forall>c \<in> set s. (of_char c :: nat) < 128"
  shows "well_formed (ascii s)"
proof -
  have enc: "utf8_encode (of_char c) = [of_char c]" "scalar (of_char c)" if "(of_char c :: nat) < 128" for c
  proof -
    have "unat (of_nat (of_char c) :: u32) = of_char c" using that by (simp add: unat_of_nat)
    then have u: "unat (of_char c :: u32) = of_char c" by (simp only: of_nat_of_char)
    then show "scalar (of_char c)" using that by (simp add: scalar_def word_less_nat_alt word_le_nat_alt)
    have "(of_char c :: u32) < 0x80" using u that by (simp add: word_less_nat_alt)
    moreover have "unat (of_nat (of_char c) :: byte) = of_char c" using that by (simp add: unat_of_nat)
    then have "unat (of_char c :: byte) = of_char c" by (simp only: of_nat_of_char)
    then have "ucast (of_char c :: u32) = (of_char c :: byte)"
      using that u by (simp add: word_unat_eq_iff unsigned_ucast_eq take_bit_nat_eq_self)
    ultimately show "utf8_encode (of_char c) = [of_char c]" by (simp add: utf8_encode_def)
  qed
  have "ascii s = utf8_text (map of_char s)"
    using assms enc(1) by (induction s) (simp_all add: ascii_def utf8_text_def)
  then show ?thesis unfolding well_formed_iff using assms enc(2) by (intro exI[of _ "map of_char s"]) simp
qed

subsection \<open>The client of an event stream\<close>

text \<open>Events are separated by an empty line; what follows the last separator is kept back.\<close>

fun sse_scan :: "bytes \<Rightarrow> bytes \<Rightarrow> bytes list" where
  "sse_scan acc (b # c # bs) =
    (if b = newline \<and> c = newline then rev acc # sse_scan [] bs else sse_scan (b # acc) (c # bs))"
| "sse_scan acc bs = []"

lemma sse_scan_line:
  "newline \<notin> set d \<Longrightarrow> sse_scan acc (d @ [newline, newline] @ rest) = (rev acc @ d) # sse_scan [] rest"
proof (induction d arbitrary: acc)
  case (Cons x d)
  then show ?case by (cases "d @ [newline, newline] @ rest") auto
qed simp

subsection \<open>The stream as its client reads it\<close>

lemma label_texts: "well_formed (ascii ''text_completion'')" "well_formed (ascii ''chat.completion.chunk'')"
  "well_formed (ascii ''chat.completion'')" "well_formed (ascii ''assistant'')"
  "well_formed (ascii (finish_reason_str r))"
  by (rule ascii_well_formed; cases r; simp)+

lemma member_texts: "well_formed (ascii ''id'')" "well_formed (ascii ''object'')" "well_formed (ascii ''created'')"
  "well_formed (ascii ''model'')" "well_formed (ascii ''choices'')" "well_formed (ascii ''index'')"
  "well_formed (ascii ''delta'')" "well_formed (ascii ''role'')" "well_formed (ascii ''content'')"
  "well_formed (ascii ''text'')" "well_formed (ascii ''finish_reason'')" "well_formed (ascii ''message'')"
  "well_formed (ascii ''usage'')" "well_formed (ascii ''prompt_tokens'')" "well_formed (ascii ''completion_tokens'')"
  "well_formed (ascii ''total_tokens'')"
  by (rule ascii_well_formed; simp)+

text \<open>A chunk can be written exactly when its text can.\<close>

lemma chunk_doc_texts:
  assumes "label_ok lb" "ck_finish c = None \<or> (\<exists>r. ck_finish c = Some (finish_reason_str r))"
  shows "list_all well_formed (json_texts (chunk_doc lb c)) \<longleftrightarrow>
    well_formed (ck_text c) \<or> (lb_chat lb \<and> ck_finish c \<noteq> None)"
  using assms
  by (auto simp: chunk_doc_def with_label_def j_text_def label_ok_def label_texts member_texts)

text \<open>One event against one chunk.\<close>

lemma stream_event_chunk:
  assumes "dump_law dump" "label_ok lb" "stream_chunk well_formed tk (lb_chat lb) pending m = Inr (c, rest, fin)"
  shows "\<exists>b. dump (chunk_doc lb c) = Inr b \<and> newline \<notin> set b \<and>
    stream_event dump tk lb pending m =
      Inr (if fin then event b @ event (ascii ''[DONE]'') else event b, rest, fin)"
proof -
  have c: "stream_chunk (\<lambda>_. True) tk (lb_chat lb) pending m = Inr (c, rest, fin)"
    "ck_finish c = None \<or> (\<exists>r. ck_finish c = Some (finish_reason_str r))" "well_formed (ck_text c)"
    using assms(3) by (auto simp: stream_chunk_def split: prod.splits if_splits sum.splits)
  then have "list_all well_formed (json_texts (chunk_doc lb c))" using chunk_doc_texts[OF assms(2) c(2)] by simp
  then obtain b where "dump (chunk_doc lb c) = Inr b" using assms(1) unfolding dump_law_def by blast
  then show ?thesis using c(1) assms(1) by (auto simp: stream_event_def dump_law_def)
qed

lemma event_scan:
  "newline \<notin> set b \<Longrightarrow> sse_scan [] (event b @ rest) = (ascii ''data: '' @ b) # sse_scan [] rest"
  using sse_scan_line[of "ascii ''data: '' @ b" "[]" rest] by (simp add: event_def ascii_def newline_def)

lemma done_scan: "sse_scan [] (event (ascii ''[DONE]'')) = [ascii ''data: '' @ ascii ''[DONE]'']"
  using event_scan[of "ascii ''[DONE]''" "[]"] by (simp add: ascii_def newline_def)

lemma stream_run_chunks:
  assumes "dump_law dump" "label_ok lb"
  shows "stream_chunks well_formed tk (lb_chat lb) pending ms = Inr cs \<Longrightarrow> collect ms \<noteq> None \<Longrightarrow>
    \<exists>sent bodies. stream_run dump tk lb (\<lambda>_. True) k pending ms = (sent, Completed) \<and>
      list_all2 (\<lambda>c b. dump (chunk_doc lb c) = Inr b) cs bodies \<and>
      sse_scan [] (concat sent) = map (\<lambda>b. ascii ''data: '' @ b) bodies @ [ascii ''data: '' @ ascii ''[DONE]'']"
proof (induction ms arbitrary: pending cs k)
  case (Cons m ms)
  obtain c rest fin where c: "stream_chunk well_formed tk (lb_chat lb) pending m = Inr (c, rest, fin)"
    using Cons.prems(1) by (auto split: sum.splits)
  obtain b where b: "dump (chunk_doc lb c) = Inr b" "newline \<notin> set b"
    "stream_event dump tk lb pending m = Inr (if fin then event b @ event (ascii ''[DONE]'') else event b, rest, fin)"
    using stream_event_chunk[OF assms c] by blast
  show ?case
  proof (cases fin)
    case True
    then have "cs = [c]" using Cons.prems(1) c by simp
    then show ?thesis using True b event_scan[OF b(2)]
      by (intro exI[of _ "[event b @ event (ascii ''[DONE]'')]"] exI[of _ "[b]"]) (simp add: done_scan)
  next
    case False
    have "\<not> fst m < 0" using False c by (auto simp: stream_chunk_def split: prod.splits if_splits)
    then have "collect ms \<noteq> None" using Cons.prems(2) by (cases m) (auto split: option.splits)
    moreover obtain ds where ds: "stream_chunks well_formed tk (lb_chat lb) rest ms = Inr ds" "cs = c # ds"
      using Cons.prems(1) c False by (auto split: sum.splits)
    ultimately obtain sent bodies where
      "stream_run dump tk lb (\<lambda>_. True) (Suc k) rest ms = (sent, Completed)"
      "list_all2 (\<lambda>c b. dump (chunk_doc lb c) = Inr b) ds bodies"
      "sse_scan [] (concat sent) = map (\<lambda>b. ascii ''data: '' @ b) bodies @ [ascii ''data: '' @ ascii ''[DONE]'']"
      using Cons.IH by blast
    then show ?thesis using False b ds(2) event_scan[OF b(2)]
      by (intro exI[of _ "event b # sent"] exI[of _ "b # bodies"]) simp
  qed
qed simp

lemma collect_terminated: "collect (map (\<lambda>t. (t, Reason_None)) ts @ [(-1, fr)]) \<noteq> None"
  by (induction ts) (auto split: option.splits)

text \<open>C28: A streamed answer arrives. For a text that is well-formed as a whole, however the tokens cut
  it, the provider runs to its end, and a client that splits the received bytes at empty lines gets
  one event per token, a final one with the finish reason and the end marker, no more and no fewer;
  each event is \<open>data:\<close> and the dump of one document, and the texts of the documents joined are the
  text. Of the JSON library it needs that a dump is one line and fails exactly on ill-formed
  strings.\<close>

theorem stream_received:
  assumes "dump_law dump" "label_ok lb" "decode_all tk ts = Inr bs" "well_formed bs" "\<forall>t \<in> set ts. 0 \<le> t"
  shows "\<exists>sent cs bodies.
    stream_run dump tk lb (\<lambda>_. True) 0 [] (map (\<lambda>t. (t, Reason_None)) ts @ [(-1, fr)]) = (sent, Completed) \<and>
    sse_scan [] (concat sent) = map (\<lambda>b. ascii ''data: '' @ b) bodies @ [ascii ''data: '' @ ascii ''[DONE]''] \<and>
    list_all2 (\<lambda>c b. dump (chunk_doc lb c) = Inr b) cs bodies \<and> length cs = length ts + 1 \<and>
    concat (map ck_text cs) = bs \<and> ck_finish (last cs) = Some (finish_reason_str fr)"
proof -
  obtain ds where "bs = utf8_text ds" "\<forall>d \<in> set ds. scalar d" using assms(4) well_formed_iff by blast
  then obtain cs where cs: "stream_chunks well_formed tk (lb_chat lb) [] (map (\<lambda>t. (t, Reason_None)) ts @ [(-1, fr)]) =
        Inr (cs @ [\<lparr>ck_text = [], ck_finish = Some (finish_reason_str fr)\<rparr>])"
      "concat (map ck_text cs) = bs" "length cs = length ts"
    using stream_chunks_text[of well_formed tk ts bs "[]" ds "lb_chat lb" fr] assms(3,5) by (auto simp: dump_strict_def)
  obtain sent bodies where
    "stream_run dump tk lb (\<lambda>_. True) 0 [] (map (\<lambda>t. (t, Reason_None)) ts @ [(-1, fr)]) = (sent, Completed)"
    "list_all2 (\<lambda>c b. dump (chunk_doc lb c) = Inr b) (cs @ [\<lparr>ck_text = [], ck_finish = Some (finish_reason_str fr)\<rparr>]) bodies"
    "sse_scan [] (concat sent) = map (\<lambda>b. ascii ''data: '' @ b) bodies @ [ascii ''data: '' @ ascii ''[DONE]'']"
    using stream_run_chunks[OF assms(1,2) cs(1) collect_terminated, of 0] by blast
  then show ?thesis
    using cs(2,3)
    by (intro exI[of _ sent] exI[of _ "cs @ [\<lparr>ck_text = [], ck_finish = Some (finish_reason_str fr)\<rparr>]"] exI[of _ bodies])
       simp
qed

text \<open>The blocking answer to the same tokens is one document with status 200 that carries the decoded
  text and counts that add up.\<close>

lemma blocking_delivered:
  assumes "dump_law dump" "label_ok lb" "collect ms = Some (out, fr)" "decode tk out = Inr txt" "well_formed txt"
  shows "\<exists>b. blocking_response dump tk lb n ms = Some (Inr (http_content 200 ''application/json'' b)) \<and>
    dump (completion_doc lb \<lparr>cm_text = txt, cm_finish = finish_reason_str fr, cm_prompt_tokens = n,
      cm_completion_tokens = length out, cm_total_tokens = n + length out\<rparr>) = Inr b"
proof -
  let ?c = "\<lparr>cm_text = txt, cm_finish = finish_reason_str fr, cm_prompt_tokens = n,
      cm_completion_tokens = length out, cm_total_tokens = n + length out\<rparr>"
  have "list_all well_formed (json_texts (completion_doc lb ?c))"
    using assms(2,5) by (simp add: completion_doc_def with_label_def j_text_def label_ok_def label_texts member_texts)
  then obtain b where "dump (completion_doc lb ?c) = Inr b" using assms(1) unfolding dump_law_def by blast
  then show ?thesis using assms(3,4) by (simp add: blocking_response_def blocking_answer_def json_content_def)
qed

text \<open>A client that goes away at the k-th write has received exactly the k events before it.\<close>

lemma stream_run_gone:
  "stream_run dump tk lb (\<lambda>i. i < n) k pending ms = (sent, Client_Gone) \<Longrightarrow> k \<le> n \<Longrightarrow> k + length sent = n"
proof (induction ms arbitrary: k pending sent)
  case (Cons m ms)
  then show ?case by (fastforce split: sum.splits if_splits prod.splits)
qed simp

definition demo_dump :: dumper where
  "demo_dump j = (if list_all well_formed (json_texts j) then Inr (ascii ''{}'') else Inl dump_error)"

definition demo_label :: label where
  "demo_label = \<lparr>lb_chat = True, lb_id = [], lb_model = [], lb_created = 0\<rparr>"

lemma demo_dump_law: "dump_law demo_dump"
  by (auto simp: dump_law_def demo_dump_def ascii_def newline_def)

theorem stream_received_witness:
  "\<exists>sent cs bodies.
    stream_run demo_dump demo_tokenizer demo_label (\<lambda>_. True) 0 [] (map (\<lambda>t. (t, Reason_None)) [0, 1, 2] @ [(-1, Stop)]) = (sent, Completed) \<and>
    sse_scan [] (concat sent) = map (\<lambda>b. ascii ''data: '' @ b) bodies @ [ascii ''data: '' @ ascii ''[DONE]''] \<and>
    list_all2 (\<lambda>c b. demo_dump (chunk_doc demo_label c) = Inr b) cs bodies \<and> length cs = length [0, 1, 2 :: int] + 1 \<and>
    concat (map ck_text cs) = [32, 104, 105, 0xC3, 0xA9] \<and> ck_finish (last cs) = Some (finish_reason_str Stop)"
proof (rule stream_received)
  show "well_formed [32, 104, 105, 0xC3, 0xA9]"
    unfolding demo_texts(1) well_formed_iff by (rule exI[of _ "[32, 104, 105, 0xE9]"]) (simp add: scalar_def)
qed (simp_all add: demo_dump_law demo_decodes demo_label_def label_ok_def)

subsection \<open>Ids are never reused\<close>

fun make_ids :: "(string \<times> int) list \<Rightarrow> u64 \<Rightarrow> string list" where
  "make_ids [] n = []"
| "make_ids (c # cs) n = (case now_id (fst c) (snd c) n of (i, n') \<Rightarrow> i # make_ids cs n')"

lemma now_id_counter: "fst (now_id p t m) = fst (now_id p' t' n) \<Longrightarrow> m = n"
proof -
  have tail: "takeWhile (\<lambda>c. c \<noteq> CHR ''-'') (rev (fst (now_id p t n))) = rev (digits_of (unat n))" for p t and n :: u64
    using digits_of_digits[of "unat n"] digit_other
    by (auto simp: now_id_def takeWhile_append list_all_iff)
  assume "fst (now_id p t m) = fst (now_id p' t' n)"
  then have "digits_of (unat m) = digits_of (unat n)" using tail by (metis rev_rev_ident)
  then show "m = n" using digits_of_inj word_unat_eq_iff by blast
qed

lemma make_ids_counter:
  "i \<in> set (make_ids cs n) \<Longrightarrow> \<exists>k p t. k < length cs \<and> i = fst (now_id p t (n + of_nat k))"
proof (induction cs arbitrary: n)
  case (Cons c cs)
  then consider "i = fst (now_id (fst c) (snd c) n)" | "i \<in> set (make_ids cs (n + 1))"
    by (auto simp: now_id_def)
  then show ?case
  proof cases
    case 1
    then show ?thesis by (intro exI[of _ 0] exI[of _ "fst c"] exI[of _ "snd c"]) simp
  next
    case 2
    then obtain k p t where "k < length cs" "i = fst (now_id p t (n + 1 + of_nat k))" using Cons.IH by blast
    then show ?thesis by (intro exI[of _ "Suc k"] exI[of _ p] exI[of _ t]) (simp add: algebra_simps)
  qed
qed simp

text \<open>C40: Completion ids are unique: whatever the clock does between the calls, and whichever
  endpoint asks, the ids of fewer than \<open>2^64\<close> requests of one process are pairwise different.\<close>

theorem ids_distinct:
  assumes "length cs \<le> 2 ^ 64"
  shows "distinct (make_ids cs n)"
  using assms
proof (induction cs arbitrary: n)
  case (Cons c cs)
  have "fst (now_id (fst c) (snd c) n) \<notin> set (make_ids cs (n + 1))"
  proof
    assume "fst (now_id (fst c) (snd c) n) \<in> set (make_ids cs (n + 1))"
    then obtain k p t where k: "k < length cs" "fst (now_id (fst c) (snd c) n) = fst (now_id p t (n + 1 + of_nat k))"
      using make_ids_counter by blast
    then have "(of_nat (Suc k) :: u64) = 0" using now_id_counter by fastforce
    then have "2 ^ 64 dvd Suc k" by (simp only: word_of_nat_eq_0_iff) simp
    then show False using k(1) Cons.prems by (auto dest: dvd_imp_le)
  qed
  then show ?case using Cons by (simp add: now_id_def)
qed simp

theorem ids_distinct_witness: "distinct (make_ids [(''cmpl'', 5), (''cmpl'', 5), (''chatcmpl'', 4)] (-1))"
  by (rule ids_distinct) simp

end
