(* ===== verification/Tensor_Bits.thy ===== *)
theory Tensor_Bits
  imports Engine_Prelude
begin

text \<open>
  The scalar conversions and the host tensor of \<open>src/include/engine/tensor.h\<close>. A \<open>float\<close> is its bit
  pattern (\<open>32 word\<close>), as the code gets at it with \<open>memcpy\<close>; the half formats are \<open>16 word\<close>.
\<close>

unbundle bit_operations_syntax

datatype dtype = F32 | F16 | BF16

fun dtype_size :: "dtype \<Rightarrow> nat" where
  "dtype_size F32 = 4"
| "dtype_size F16 = 2"
| "dtype_size BF16 = 2"

fun dtype_name :: "dtype \<Rightarrow> string" where
  "dtype_name F32 = ''F32''"
| "dtype_name F16 = ''F16''"
| "dtype_name BF16 = ''BF16''"

definition bf16_to_f32 :: "u16 \<Rightarrow> u32" where
  "bf16_to_f32 h = push_bit 16 (ucast h)"

definition f32_to_bf16 :: "u32 \<Rightarrow> u16" where
  "f32_to_bf16 u =
    (if u AND 0x7F800000 = 0x7F800000 then ucast (drop_bit 16 u)
     else
       let lsb = drop_bit 16 u AND 1; bias = 0x7FFF + lsb in
       ucast (drop_bit 16 (u + bias)))"

text \<open>The loop that normalises a subnormal mantissa: \<open>do { e++; man <<= 1; } while ((man & 0x400) == 0)\<close>.
  A nonzero ten-bit mantissa needs at most ten turns, which the fuel allows.\<close>

fun f16_normalise :: "nat \<Rightarrow> nat \<Rightarrow> u32 \<Rightarrow> nat \<times> u32" where
  "f16_normalise 0 e man = (e, man)"
| "f16_normalise (Suc fuel) e man =
    (let man' = push_bit 1 man in
     if man' AND 0x400 = 0 then f16_normalise fuel (e + 1) man' else (e, man'))"

definition f16_to_f32 :: "u16 \<Rightarrow> u32" where
  "f16_to_f32 h =
    (let sign = push_bit 16 (ucast h AND 0x8000); ex = drop_bit 10 (ucast h) AND 0x1F; man = ucast h AND 0x3FF in
     if ex = 0 then
       (if man = 0 then sign
        else case f16_normalise 10 0 man of (e, m) \<Rightarrow>
          sign OR push_bit 23 (word_of_nat (127 - 15 - e)) OR push_bit 13 (m AND 0x3FF))
     else if ex = 31 then sign OR 0x7F800000 OR push_bit 13 man
     else sign OR push_bit 23 (ex + 127 - 15) OR push_bit 13 man)"

definition f32_to_f16 :: "u32 \<Rightarrow> u16" where
  "f32_to_f16 u =
    (let sign = drop_bit 16 u AND 0x8000;
         field = drop_bit 23 u AND 0xFF;
         ex = uint field - 127 + 15;
         man = u AND 0x7FFFFF in
     if field = 0xFF then ucast (sign OR 0x7C00 OR (if man \<noteq> 0 then 0x200 else 0))
     else if 31 \<le> ex then ucast (sign OR 0x7C00)
     else if ex \<le> 0 then
       (if ex < -10 then ucast sign
        else
          let man1 = man OR 0x800000; shift = nat (14 - ex);
              half = drop_bit shift man1; rem = man1 AND (push_bit shift 1 - 1); mid = push_bit (shift - 1) 1;
              half1 = (if rem > mid \<or> rem = mid \<and> half AND 1 \<noteq> 0 then half + 1 else half) in
          ucast (sign OR half1))
     else
       let half = sign OR push_bit 10 (word_of_int ex) OR drop_bit 13 man; rem = man AND 0x1FFF;
           half1 = (if rem > 0x1000 \<or> rem = 0x1000 \<and> half AND 1 \<noteq> 0 then half + 1 else half) in
       ucast half1)"

subsection \<open>Tensors\<close>

text \<open>\<open>numel_of\<close> multiplies in \<open>size_t\<close>: the product wraps, and a negative dimension is huge.\<close>

definition numel_of :: "int list \<Rightarrow> u64" where
  "numel_of s = foldl (\<lambda>n d. n * word_of_int d) 1 s"

record tensor =
  t_shape :: "int list"
  t_data :: "u32 list"

text \<open>A vector of \<open>n\<close> elements of the given size; above \<open>max_size()\<close> its constructor throws. Memory
  is unbounded otherwise.\<close>

definition vector_fits :: "nat \<Rightarrow> nat \<Rightarrow> bool" where
  "vector_fits elem n = (n \<le> (2 ^ 63 - 1) div elem)"

definition tensor_new :: "int list \<Rightarrow> tensor result" where
  "tensor_new s =
    (let n = unat (numel_of s) in
     if vector_fits 4 n then Inr \<lparr>t_shape = s, t_data = replicate n 0\<rparr> else Inl Length_Error)"

subsection \<open>The half formats survive a round trip\<close>

lemma bf16_fields: "drop_bit 16 (bf16_to_f32 h) = ucast h" "ucast (ucast h :: u32) = h"
proof -
  have "n < 16 \<and> n < 32" if "bit h n" for n using bit_imp_le_length[OF that] by simp
  then show "drop_bit 16 (bf16_to_f32 h) = ucast h" "ucast (ucast h :: u32) = h"
    unfolding bf16_to_f32_def by (auto intro!: bit_word_eqI simp: bit_simps)
qed

lemma bf16_roundtrip: "f32_to_bf16 (bf16_to_f32 h) = h"
proof -
  let ?u = "bf16_to_f32 h"
  have lsb: "unat (ucast h AND 1 :: u32) \<le> 1"
    using mod_less_divisor[of 2 "unat (ucast h :: u32)"] by (simp add: and_one_eq unat_mod_distrib)
  have u: "unat ?u = unat h * 2 ^ 16"
  proof -
    have "unat h < 2 ^ 16" using unsigned_less[of h] by simp
    then show ?thesis unfolding bf16_to_f32_def by (simp add: push_bit_eq_mult unat_word_ariths unsigned_ucast_eq take_bit_nat_eq_self)
  qed
  have h: "unat h < 2 ^ 16" using unsigned_less[of h] by simp
  have b: "unat (0x7FFF + (ucast h AND 1) :: u32) = 0x7FFF + unat (ucast h AND 1 :: u32)"
    using lsb by (simp add: unat_word_ariths)
  have s: "unat (?u + (0x7FFF + (ucast h AND 1))) = unat h * 2 ^ 16 + (0x7FFF + unat (ucast h AND 1 :: u32))"
    using u h b lsb by (simp add: unat_word_ariths)
  then have "unat (drop_bit 16 (?u + (0x7FFF + (ucast h AND 1)))) = unat h"
    using lsb unat_drop_bit_eq[of 16 "?u + (0x7FFF + (ucast h AND 1))"] by (simp only: drop_bit_eq_div) simp
  then have "(ucast (drop_bit 16 (?u + (0x7FFF + (ucast h AND 1)))) :: u16) = h"
    using h by (simp add: word_eq_iff_unsigned[where ?'a = nat] unsigned_ucast_eq take_bit_nat_eq_self)
  then show ?thesis by (simp add: f32_to_bf16_def bf16_fields Let_def)
qed

end
