(* ===== verification/Safetensors.thy ===== *)
theory Safetensors
  imports Tensor_Bits
begin

text \<open>
  The weight files of \<open>src/include/engine/safetensors.h\<close> and \<open>src/src/safetensors/safetensors.cpp\<close>.
  A mapped file is its list of bytes; sizes, offsets and pointers into the mapping are \<open>uint64_t\<close>
  (\<open>64 word\<close>), so the header check and the offset arithmetic wrap as they do in the code. The
  header's JSON text is parsed by the library: the model takes the parsed header as a function
  of the byte range given to it, items in key order. An item is a tensor's members, an object of
  strings (the metadata), or one whose members are missing or of another type, which throws in
  the library.
\<close>

record tensor_view =
  v_dtype :: dtype
  v_shape :: "int list"
  v_data :: u64
  v_nbytes :: u64

definition view_numel :: "tensor_view \<Rightarrow> u64" where
  "view_numel v = numel_of (v_shape v)"

record header_entry =
  h_dtype :: string
  h_shape :: "int list"
  h_offsets :: "u64 list"

datatype header_item =
    Tensor_Entry header_entry
  | Metadata "(string \<times> string) list"
  | Bad_Entry string

record safetensors_file =
  sf_tensors :: "string \<rightharpoonup> tensor_view"
  sf_metadata :: "string \<rightharpoonup> string"

definition parse_dtype :: "string \<Rightarrow> dtype result" where
  "parse_dtype s =
    (if s = ''F32'' then Inr F32 else if s = ''F16'' then Inr F16 else if s = ''BF16'' then Inr BF16
     else Inl (Runtime_Error (''unsupported safetensors dtype: '' @ s)))"

text \<open>The first eight bytes, little-endian.\<close>

definition header_length :: "byte list \<Rightarrow> u64" where
  "header_length bs = foldr (\<lambda>b n. ucast b + 256 * n) (take 8 bs) 0"

definition make_view :: "u64 \<Rightarrow> u64 \<Rightarrow> string \<Rightarrow> header_entry \<Rightarrow> tensor_view result" where
  "make_view blob blob_len name e =
    (case parse_dtype (h_dtype e) of
       Inl x \<Rightarrow> Inl x
     | Inr d \<Rightarrow>
         (case h_offsets e of
            [o0, o1] \<Rightarrow>
              if o1 < o0 \<or> blob_len < o1 then Inl (Runtime_Error (''bad data_offsets for tensor '' @ name))
              else
                let v = \<lparr>v_dtype = d, v_shape = h_shape e, v_data = blob + o0, v_nbytes = o1 - o0\<rparr> in
                if v_nbytes v \<noteq> view_numel v * word_of_nat (dtype_size d)
                then Inl (Runtime_Error (''size mismatch for tensor '' @ name)) else Inr v
          | _ \<Rightarrow> Inl (Runtime_Error (''bad data_offsets for tensor '' @ name))))"

fun load_entries ::
  "u64 \<Rightarrow> u64 \<Rightarrow> (string \<times> header_item) list \<Rightarrow> safetensors_file \<Rightarrow> safetensors_file result" where
  "load_entries blob blob_len [] sf = Inr sf"
| "load_entries blob blob_len ((name, item) # items) sf =
    (if name = ''__metadata__'' then
       (case item of
          Metadata ms \<Rightarrow> load_entries blob blob_len items (sf\<lparr>sf_metadata := sf_metadata sf ++ map_of (rev ms)\<rparr>)
        | Tensor_Entry _ \<Rightarrow> Inl (Runtime_Error ''type must be string'')
        | Bad_Entry msg \<Rightarrow> Inl (Runtime_Error msg))
     else
       case item of
         Tensor_Entry h \<Rightarrow>
           (case make_view blob blob_len name h of
              Inl x \<Rightarrow> Inl x
            | Inr v \<Rightarrow> load_entries blob blob_len items (sf\<lparr>sf_tensors := (sf_tensors sf)(name \<mapsto> v)\<rparr>))
       | Metadata _ \<Rightarrow> Inl (Out_Of_Range name)
       | Bad_Entry msg \<Rightarrow> Inl (Runtime_Error msg))"

type_synonym header_parser = "byte list \<Rightarrow> u64 \<Rightarrow> u64 \<Rightarrow> (string \<times> header_item) list result"

text \<open>\<open>SafeTensorsFile(path)\<close>; \<open>None\<close> is a file that cannot be opened or mapped.\<close>

definition header_overruns :: "u64 \<Rightarrow> u64 \<Rightarrow> bool" where
  "header_overruns map_len hlen = (map_len < 8 + hlen)"

definition load_file :: "header_parser \<Rightarrow> byte list option \<Rightarrow> safetensors_file result" where
  "load_file parse f =
    (case f of
       None \<Rightarrow> Inl (Runtime_Error ''cannot open'')
     | Some bs \<Rightarrow>
         let map_len = word_of_nat (length bs) :: u64 in
         if map_len < 8 then Inl (Runtime_Error ''safetensors file too small'')
         else
           let hlen = header_length bs in
           if header_overruns map_len hlen then Inl (Runtime_Error ''safetensors header overruns file'')
           else
             case parse bs 8 (8 + hlen) of
               Inl e \<Rightarrow> Inl e
             | Inr es \<Rightarrow> load_entries (8 + hlen) (map_len - 8 - hlen) es \<lparr>sf_tensors = Map.empty, sf_metadata = Map.empty\<rparr>)"

definition file_get :: "safetensors_file \<Rightarrow> string \<Rightarrow> tensor_view result" where
  "file_get sf name = (case sf_tensors sf name of None \<Rightarrow> Inl (Runtime_Error (''tensor not found: '' @ name)) | Some v \<Rightarrow> Inr v)"

text \<open>\<open>SafeTensorsDir\<close>: the files in sorted order; a later file's tensor replaces an earlier one's. An
  index entry is the file's position and the view in it.\<close>

fun load_shards ::
  "header_parser \<Rightarrow> nat \<Rightarrow> byte list option list \<Rightarrow> (string \<rightharpoonup> nat \<times> tensor_view) \<Rightarrow> (string \<rightharpoonup> nat \<times> tensor_view) result" where
  "load_shards parse k [] index = Inr index"
| "load_shards parse k (f # fs) index =
    (case load_file parse f of
       Inl e \<Rightarrow> Inl e
     | Inr sf \<Rightarrow>
         load_shards parse (k + 1) fs (\<lambda>n. case sf_tensors sf n of Some v \<Rightarrow> Some (k, v) | None \<Rightarrow> index n))"

definition load_dir :: "header_parser \<Rightarrow> byte list option list \<Rightarrow> (string \<rightharpoonup> nat \<times> tensor_view) result" where
  "load_dir parse fs =
    (if fs = [] then Inl (Runtime_Error ''no *.safetensors in'') else load_shards parse 0 fs Map.empty)"

definition dir_has :: "(string \<rightharpoonup> nat \<times> tensor_view) \<Rightarrow> string \<Rightarrow> bool" where
  "dir_has index name = (index name \<noteq> None)"

definition dir_get :: "(string \<rightharpoonup> nat \<times> tensor_view) \<Rightarrow> string \<Rightarrow> (nat \<times> tensor_view) result" where
  "dir_get index name = (case index name of None \<Rightarrow> Inl (Runtime_Error (''tensor not found: '' @ name)) | Some v \<Rightarrow> Inr v)"

subsection \<open>Reading elements\<close>

definition read_u16 :: "byte list \<Rightarrow> nat \<Rightarrow> u16" where
  "read_u16 bs i = ucast (bs ! i) + 256 * ucast (bs ! (i + 1))"

definition read_u32 :: "byte list \<Rightarrow> nat \<Rightarrow> u32" where
  "read_u32 bs i = ucast (read_u16 bs i) + 65536 * ucast (read_u16 bs (i + 2))"

definition elem_at :: "tensor_view \<Rightarrow> nat \<Rightarrow> nat" where
  "elem_at v i = unat (v_data v) + dtype_size (v_dtype v) * i"

definition to_f32 :: "byte list \<Rightarrow> tensor_view \<Rightarrow> tensor result" where
  "to_f32 bs v =
    (case tensor_new (v_shape v) of
       Inl e \<Rightarrow> Inl e
     | Inr t \<Rightarrow>
         Inr (t\<lparr>t_data := map (\<lambda>i. case v_dtype v of
                         F32 \<Rightarrow> read_u32 bs (elem_at v i)
                       | F16 \<Rightarrow> f16_to_f32 (read_u16 bs (elem_at v i))
                       | BF16 \<Rightarrow> bf16_to_f32 (read_u16 bs (elem_at v i))) [0..<unat (view_numel v)]\<rparr>))"

definition to_f16 :: "byte list \<Rightarrow> tensor_view \<Rightarrow> u16 list result" where
  "to_f16 bs v =
    (let n = unat (view_numel v) in
     if \<not> vector_fits 2 n then Inl Length_Error
     else
       Inr (map (\<lambda>i. case v_dtype v of
                F16 \<Rightarrow> read_u16 bs (elem_at v i)
              | F32 \<Rightarrow> f32_to_f16 (read_u32 bs (elem_at v i))
              | BF16 \<Rightarrow> f32_to_f16 (bf16_to_f32 (read_u16 bs (elem_at v i)))) [0..<n]))"

subsection \<open>Views stay inside the file\<close>

text \<open>The size check of the loader, in 64-bit arithmetic.\<close>

definition exact_size :: "tensor_view \<Rightarrow> bool" where
  "exact_size v = (v_nbytes v = view_numel v * word_of_nat (dtype_size (v_dtype v)))"

lemma make_view_inside:
  assumes "make_view blob blob_len name e = Inr v" "unat blob + unat blob_len < 2 ^ 64"
  shows "unat (v_data v) + unat (v_nbytes v) \<le> unat blob + unat blob_len \<and>
    exact_size v"
proof -
  obtain d o0 o1 where d: "parse_dtype (h_dtype e) = Inr d" "h_offsets e = [o0, o1]"
    using assms(1) by (auto simp: make_view_def split: sum.splits list.splits)
  let ?w = "\<lparr>v_dtype = d, v_shape = h_shape e, v_data = blob + o0, v_nbytes = o1 - o0\<rparr>"
  have o: "\<not> o1 < o0" "\<not> blob_len < o1" "v = ?w" "exact_size ?w"
    using assms(1) d by (auto simp: make_view_def Let_def exact_size_def split: if_splits)
  then have u: "unat o0 \<le> unat o1" "unat o1 \<le> unat blob_len" by (simp_all add: word_less_nat_alt word_le_nat_alt not_less)
  have "unat (blob + o0) = unat blob + unat o0" using assms(2) u by (simp add: unat_word_ariths)
  moreover have "unat (o1 - o0) = unat o1 - unat o0" using u(1) by (simp add: unat_sub word_le_nat_alt)
  ultimately have "unat (v_data v) + unat (v_nbytes v) \<le> unat blob + unat blob_len" using o(3) u by simp
  then show ?thesis using o(3,4) by blast
qed

lemma load_entries_views:
  "load_entries blob blob_len items sf = Inr sf' \<Longrightarrow>
   (\<And>n v. sf_tensors sf n = Some v \<Longrightarrow> P v) \<Longrightarrow> (\<And>name e v. make_view blob blob_len name e = Inr v \<Longrightarrow> P v) \<Longrightarrow>
   sf_tensors sf' name = Some v \<Longrightarrow> P v"
proof (induction items arbitrary: sf)
  case (Cons it items)
  obtain nm item where it: "it = (nm, item)" by force
  show ?case
  proof (cases "nm = ''__metadata__''")
    case True
    then obtain ms where ms: "load_entries blob blob_len items (sf\<lparr>sf_metadata := sf_metadata sf ++ map_of (rev ms)\<rparr>) = Inr sf'"
      using Cons.prems(1) it by (auto split: header_item.splits)
    show ?thesis by (rule Cons.IH[OF ms]) (use Cons.prems(2,3,4) in auto)
  next
    case False
    then obtain h w where h: "make_view blob blob_len nm h = Inr w"
      "load_entries blob blob_len items (sf\<lparr>sf_tensors := (sf_tensors sf)(nm \<mapsto> w)\<rparr>) = Inr sf'"
      using Cons.prems(1) it by (auto split: header_item.splits sum.splits)
    have "P u" if "sf_tensors (sf\<lparr>sf_tensors := (sf_tensors sf)(nm \<mapsto> w)\<rparr>) n = Some u" for n u
      using that Cons.prems(2,3) h(1) by (auto split: if_splits)
    then show ?thesis using Cons.IH[OF h(2)] Cons.prems(3,4) by blast
  qed
qed simp

lemma load_file_inside:
  assumes "load_file parse (Some bs) = Inr sf" "sf_tensors sf name = Some v"
    "length bs < 2 ^ 64" "unat (header_length bs) + 8 < 2 ^ 64"
  shows "unat (v_data v) + unat (v_nbytes v) \<le> length bs \<and>
    exact_size v"
proof -
  let ?len = "word_of_nat (length bs) :: u64" and ?h = "header_length bs"
  have l: "unat ?len = length bs" using assms(3) by (simp add: unat_of_nat)
  have c: "\<not> ?len < 8" "\<not> header_overruns ?len ?h" and
    e: "\<exists>es. load_entries (8 + ?h) (?len - 8 - ?h) es \<lparr>sf_tensors = Map.empty, sf_metadata = Map.empty\<rparr> = Inr sf"
    using assms(1) by (auto simp: load_file_def Let_def split: if_splits sum.splits)
  have h8: "unat (8 + ?h) = 8 + unat ?h" using assms(4) by (simp add: unat_word_ariths)
  then have le: "8 + unat ?h \<le> length bs" using c(2) l by (simp add: header_overruns_def word_less_nat_alt)
  have "unat (?len - (8 + ?h)) = length bs - (8 + unat ?h)"
    using le l h8 by (simp add: unat_sub word_le_nat_alt)
  then have b: "unat (8 + ?h) + unat (?len - 8 - ?h) = length bs" using h8 le by (simp add: diff_diff_add)
  let ?P = "\<lambda>v. unat (v_data v) + unat (v_nbytes v) \<le> length bs \<and>
    exact_size v"
  have "make_view (8 + ?h) (?len - 8 - ?h) nm h = Inr w \<Longrightarrow> ?P w" for nm h w
    using make_view_inside[of "8 + ?h" "?len - 8 - ?h" nm h w] b assms(3) by simp
  moreover obtain es where
    "load_entries (8 + ?h) (?len - 8 - ?h) es \<lparr>sf_tensors = Map.empty, sf_metadata = Map.empty\<rparr> = Inr sf" using e by blast
  ultimately show ?thesis using load_entries_views[where P = ?P, OF _ _ _ assms(2)] by fastforce
qed

lemma dtype_size_bounds: "0 < dtype_size d \<and> dtype_size d \<le> 4"
  by (cases d) simp_all

text \<open>A tensor that can be allocated has an element count whose size in bytes did not wrap.\<close>

lemma elements_inside:
  assumes "exact_size v" "vector_fits 2 (unat (view_numel v))"
    "v_dtype v = F32 \<longrightarrow> vector_fits 4 (unat (view_numel v))" "i < unat (view_numel v)"
  shows "elem_at v i + dtype_size (v_dtype v) \<le> unat (v_data v) + unat (v_nbytes v)"
proof -
  let ?n = "unat (view_numel v)" and ?d = "dtype_size (v_dtype v)"
  have "?n * ?d < 2 ^ 64" using assms(2,3) by (cases "v_dtype v") (auto simp: vector_fits_def)
  moreover have "unat (word_of_nat ?d :: u64) = ?d" using dtype_size_bounds[of "v_dtype v"] by (simp add: unat_of_nat)
  ultimately have "unat (v_nbytes v) = ?n * ?d" using assms(1) by (simp add: exact_size_def unat_word_ariths)
  moreover have "?d * i + ?d \<le> ?n * ?d" using assms(4) by (metis Suc_leI mult.commute mult_Suc_right mult_le_mono2 add.commute)
  ultimately show ?thesis by (simp add: elem_at_def)
qed


definition demo_file :: "byte list" where
  "demo_file = [2, 0, 0, 0, 0, 0, 0, 0, 123, 125, 0, 0, 128, 63]"

definition demo_view :: tensor_view where
  "demo_view = \<lparr>v_dtype = F32, v_shape = [1], v_data = 10, v_nbytes = 4\<rparr>"

definition demo_parse :: header_parser where
  "demo_parse bs a b = Inr [(''w'', Tensor_Entry \<lparr>h_dtype = ''F32'', h_shape = [1], h_offsets = [0, 4]\<rparr>)]"

lemma demo_file_loads:
  "load_file demo_parse (Some demo_file) = Inr \<lparr>sf_tensors = [''w'' \<mapsto> demo_view], sf_metadata = Map.empty\<rparr>"
  by (simp add: load_file_def demo_file_def demo_parse_def header_length_def header_overruns_def make_view_def
      parse_dtype_def view_numel_def numel_of_def demo_view_def)

lemma demo_converts: "to_f32 demo_file demo_view = Inr \<lparr>t_shape = [1], t_data = [read_u32 demo_file (elem_at demo_view 0)]\<rparr>"
  by (simp add: to_f32_def tensor_new_def vector_fits_def view_numel_def numel_of_def demo_view_def)


text \<open>The header check itself can be passed by a header that overruns the file: the sum
  \<open>8 + hlen\<close> is computed in 64 bits, and a length field near \<open>2^64\<close> wraps it below the file's
  length, so the range handed to the JSON parser ends before it begins.\<close>

theorem header_check_wraps:
  "header_length [0xF8, 0xFF, 0xFF, 0xFF, 0xFF, 0xFF, 0xFF, 0xFF] = 0xFFFFFFFFFFFFFFF8 \<and>
   \<not> header_overruns 8 0xFFFFFFFFFFFFFFF8 \<and> (8 + 0xFFFFFFFFFFFFFFF8 :: u64) = 0"
  by (simp add: header_length_def header_overruns_def)

end
