(* ===== verification/Cpu_Ops.thy ===== *)
theory Cpu_Ops
  imports Float_Ops KV_Cache
begin

text \<open>
  The reference operations of \<open>src/include/engine/ops.h\<close> and \<open>linear\<close> of
  \<open>src/src/model/cpu/cpu_model.cpp\<close> (its portable branch; the other one calls the BLAS library).
  Arrays are lists, a pointer into one is the list from there on, and every sum is taken in the
  order of the code's loop, in \<open>float\<close> or \<open>double\<close> as the code has it.
\<close>

definition row :: "'a list \<Rightarrow> nat \<Rightarrow> nat \<Rightarrow> 'a list" where
  "row xs cols r = take cols (drop (r * cols) xs)"

definition dot :: "('f, 'd) float_ops \<Rightarrow> 'f list \<Rightarrow> 'f list \<Rightarrow> nat \<Rightarrow> 'f" where
  "dot ops a b k = foldl (\<lambda>s t. f_add ops s (f_mul ops (a ! t) (b ! t))) (f_of_rat ops 0) [0..<k]"

definition linear :: "('f, 'd) float_ops \<Rightarrow> 'f list \<Rightarrow> nat \<Rightarrow> nat \<Rightarrow> 'f list \<Rightarrow> nat \<Rightarrow> 'f list option \<Rightarrow> 'f list" where
  "linear ops A m k B n bias =
    concat (map (\<lambda>i. map (\<lambda>j.
      (let s = dot ops (row A k i) (row B k j) k in
       case bias of None \<Rightarrow> s | Some b \<Rightarrow> f_add ops s (b ! j))) [0..<n]) [0..<m])"

definition rmsnorm :: "('f, 'd) float_ops \<Rightarrow> 'f list \<Rightarrow> 'f list \<Rightarrow> nat \<Rightarrow> nat \<Rightarrow> rat \<Rightarrow> 'f list" where
  "rmsnorm ops x weight rows cols eps =
    concat (map (\<lambda>r.
      (let xr = row x cols r;
           ss = foldl (\<lambda>s i. d_add ops s (d_mul ops (to_d ops (xr ! i)) (to_d ops (xr ! i)))) (d_of_rat ops 0) [0..<cols];
           inv = f_div ops (f_of_rat ops 1)
             (f_sqrt ops (f_add ops (to_f ops (d_div ops ss (d_of_rat ops (of_nat cols)))) (f_of_rat ops eps))) in
       map (\<lambda>i. f_mul ops (f_mul ops (xr ! i) inv) (weight ! i)) [0..<cols])) [0..<rows])"

subsection \<open>Rotary embedding\<close>

record 'f rope_tables =
  rt_cos :: "'f list"
  rt_sin :: "'f list"
  rt_half :: nat

definition inv_freq :: "('f, 'd) float_ops \<Rightarrow> nat \<Rightarrow> rat \<Rightarrow> nat \<Rightarrow> 'd" where
  "inv_freq ops head_dim theta i =
    d_div ops (d_of_rat ops 1)
      (d_pow ops (to_d ops (f_of_rat ops theta))
        (d_div ops (d_mul ops (d_of_rat ops 2) (d_of_rat ops (of_nat i))) (d_of_rat ops (of_nat head_dim))))"

definition rope_build :: "('f, 'd) float_ops \<Rightarrow> nat \<Rightarrow> nat \<Rightarrow> rat \<Rightarrow> 'f rope_tables" where
  "rope_build ops head_dim max_positions theta =
    (let half = head_dim div 2;
         angle = (\<lambda>p i. d_mul ops (d_of_rat ops (of_nat p)) (inv_freq ops head_dim theta i)) in
     \<lparr>rt_cos = concat (map (\<lambda>p. map (\<lambda>i. to_f ops (d_cos ops (angle p i))) [0..<half]) [0..<max_positions]),
      rt_sin = concat (map (\<lambda>p. map (\<lambda>i. to_f ops (d_sin ops (angle p i))) [0..<half]) [0..<max_positions]),
      rt_half = half\<rparr>)"

text \<open>Element \<open>i\<close> of a head pairs with \<open>i + half\<close>; both are read before either is written, and an odd
  last element is left alone.\<close>

definition rope_inplace :: "('f, 'd) float_ops \<Rightarrow> 'f list \<Rightarrow> nat \<Rightarrow> nat \<Rightarrow> nat \<Rightarrow> 'f rope_tables \<Rightarrow> 'f list" where
  "rope_inplace ops x heads head_dim pos t =
    (let half = head_dim div 2; c = drop (pos * half) (rt_cos t); s = drop (pos * half) (rt_sin t) in
     map (\<lambda>k.
       (let h = k div head_dim; i = k mod head_dim in
        if heads \<le> h then x ! k
        else if i < half then f_sub ops (f_mul ops (x ! k) (c ! i)) (f_mul ops (x ! (k + half)) (s ! i))
        else if i < 2 * half then
          f_add ops (f_mul ops (x ! k) (c ! (i - half))) (f_mul ops (x ! (k - half)) (s ! (i - half)))
        else x ! k)) [0..<length x])"

definition silu_mul :: "('f, 'd) float_ops \<Rightarrow> 'f list \<Rightarrow> 'f list \<Rightarrow> 'f list" where
  "silu_mul ops gate up =
    map (\<lambda>i. f_mul ops (f_div ops (gate ! i)
      (f_add ops (f_of_rat ops 1) (f_exp ops (f_neg ops (gate ! i))))) (up ! i)) [0..<length gate]"

subsection \<open>Attention over the paged cache\<close>

text \<open>The key or value vector of one position, through the block table.\<close>

definition cached_vec :: "'f list \<Rightarrow> block_table \<Rightarrow> nat \<Rightarrow> nat \<Rightarrow> nat \<Rightarrow> nat \<Rightarrow> nat \<Rightarrow> 'f list" where
  "cached_vec cache bt bs kv_head kv_heads head_dim p =
    take head_dim (drop (slot bt p bs * (kv_heads * head_dim) + kv_head * head_dim) cache)"

text \<open>Scores, softmax with the maximum subtracted, and the weighted sum, from one vector of keys and
  one of values per position.\<close>

definition attend :: "('f, 'd) float_ops \<Rightarrow> 'f list \<Rightarrow> nat \<Rightarrow> 'f \<Rightarrow> 'f list list \<Rightarrow> 'f list list \<Rightarrow> 'f list" where
  "attend ops q head_dim scale ks vs =
    (let scores = map (\<lambda>k. f_mul ops (dot ops q k head_dim) scale) ks;
         mx = foldl (\<lambda>m s. if f_gt ops s m then s else m) (f_neg_inf ops) scores;
         es = map (\<lambda>s. f_exp ops (f_sub ops s mx)) scores;
         denom = foldl (\<lambda>d e. d_add ops d (to_d ops e)) (d_of_rat ops 0) es;
         ws = map (\<lambda>e. to_f ops (d_div ops (to_d ops e) denom)) es in
     map (\<lambda>d. foldl (\<lambda>o' (w, v). f_add ops o' (f_mul ops w (v ! d))) (f_of_rat ops 0) (zip ws vs)) [0..<head_dim])"

definition paged_attention_head ::
  "('f, 'd) float_ops \<Rightarrow> 'f list \<Rightarrow> 'f list \<Rightarrow> 'f list \<Rightarrow> block_table \<Rightarrow> nat \<Rightarrow> nat \<Rightarrow> nat \<Rightarrow> nat \<Rightarrow> nat \<Rightarrow> 'f \<Rightarrow> 'f list" where
  "paged_attention_head ops q k_cache v_cache bt bs pos kv_head kv_heads head_dim scale =
    attend ops q head_dim scale
      (map (cached_vec k_cache bt bs kv_head kv_heads head_dim) [0..<pos + 1])
      (map (cached_vec v_cache bt bs kv_head kv_heads head_dim) [0..<pos + 1])"

subsection \<open>Writing to the cache\<close>

text \<open>The \<open>memcpy\<close> of one token's keys or values into its slot.\<close>

definition put_row :: "'f list \<Rightarrow> nat \<Rightarrow> nat \<Rightarrow> 'f list \<Rightarrow> 'f list" where
  "put_row cache kv_dim sl vec = take (sl * kv_dim) cache @ vec @ drop (sl * kv_dim + kv_dim) cache"

lemma put_row_length: "length vec = kv_dim \<Longrightarrow> Suc sl * kv_dim \<le> length cache \<Longrightarrow> length (put_row cache kv_dim sl vec) = length cache"
  by (simp add: put_row_def)

lemma row_put_row_same:
  assumes "length vec = kv_dim" "Suc sl * kv_dim \<le> length cache"
  shows "row (put_row cache kv_dim sl vec) kv_dim sl = vec"
  using assms by (simp add: row_def put_row_def)

lemma row_put_row_other:
  assumes "length vec = kv_dim" "Suc sl * kv_dim \<le> length cache" "sl' \<noteq> sl"
  shows "row (put_row cache kv_dim sl vec) kv_dim sl' = row cache kv_dim sl'"
proof (cases "sl' < sl")
  case True
  then have le: "sl' * kv_dim + kv_dim \<le> sl * kv_dim" by (metis Suc_leI add.commute mult_Suc mult_le_mono1)
  define a b where "a = sl * kv_dim" and "b = sl' * kv_dim"
  have ab: "b + kv_dim \<le> a" "a \<le> length cache" using le assms(2) by (simp_all add: a_def b_def)
  have "take kv_dim (drop b (take a cache @ ys)) = take kv_dim (drop b cache)" for ys
  proof -
    have "drop b (take a cache @ ys) = take (a - b) (drop b cache) @ ys" using ab by (simp add: drop_take)
    moreover have "length (take (a - b) (drop b cache)) = a - b" using ab by simp
    ultimately show ?thesis using ab by simp
  qed
  then show ?thesis unfolding row_def put_row_def a_def[symmetric] b_def[symmetric] by blast
next
  case False
  then have le: "sl * kv_dim + kv_dim \<le> sl' * kv_dim" using assms(3) by (metis Suc_leI add.commute linorder_neqE_nat mult_Suc mult_le_mono1)
  have l: "length (take (sl * kv_dim) cache) = sl * kv_dim" using assms(2) by simp
  have "drop (sl' * kv_dim) (take (sl * kv_dim) cache @ vec @ drop (sl * kv_dim + kv_dim) cache) = drop (sl' * kv_dim) cache"
    using le l assms(1) False by simp
  then show ?thesis by (simp add: row_def put_row_def)
qed

text \<open>The vectors of a head are slices of the slot's row.\<close>

lemma cached_vec_row:
  assumes "kv_head < kv_heads"
  shows "cached_vec cache bt bs kv_head kv_heads head_dim p =
    take head_dim (drop (kv_head * head_dim) (row cache (kv_heads * head_dim) (slot bt p bs)))"
proof -
  have "kv_head * head_dim + head_dim \<le> kv_heads * head_dim"
    using assms by (metis Suc_leI add.commute mult_Suc mult_le_mono1)
  then show ?thesis by (simp add: cached_vec_def row_def drop_take add.commute min_def)
qed

end
