(* ===== verification/Model_Config.thy ===== *)
theory Model_Config
  imports Json_Fields "HOL-Library.Signed_Division"
begin

text \<open>
  \<open>ModelConfig\<close> of \<open>src/include/engine/config.h\<close> and \<open>src/src/config/config.cpp\<close>, from the members
  of \<open>config.json\<close>; \<open>None\<close> in place of the file is one that cannot be opened, \<open>Inl\<close> one that is not
  JSON. Integer division is the truncating one. A division by zero in the head computations is
  undefined in C++; it is an error of its own here. An array of end tokens is taken to have a
  first element, which the code reads unchecked.
\<close>

record model_config =
  model_type :: string
  hidden_size :: int
  intermediate_size :: int
  num_hidden_layers :: int
  num_attention_heads :: int
  num_key_value_heads :: int
  head_dim :: int
  vocab :: int
  max_position_embeddings :: int
  rms_norm_eps :: rat
  rope_theta :: rat
  tie_word_embeddings :: bool
  attention_bias :: bool
  bos_token_id :: int
  eos_token_id :: int

datatype eos_member = Eos_List int "int list" | Eos_Number int

record config_file =
  cf_model_type :: "string json_field"
  cf_hidden_size :: "int json_field"
  cf_intermediate_size :: "int json_field"
  cf_num_hidden_layers :: "int json_field"
  cf_num_attention_heads :: "int json_field"
  cf_num_key_value_heads :: "int json_field"
  cf_head_dim :: "int json_field"
  cf_vocab_size :: "int json_field"
  cf_max_position_embeddings :: "int json_field"
  cf_rms_norm_eps :: "rat json_field"
  cf_rope_theta :: "rat json_field"
  cf_tie_word_embeddings :: "bool json_field"
  cf_attention_bias :: "bool json_field"
  cf_bos_token_id :: "int json_field"
  cf_eos_token_id :: "eos_member json_field"

definition gqa_group :: "model_config \<Rightarrow> int" where
  "gqa_group c = num_attention_heads c sdiv num_key_value_heads c"

fun eos_of :: "eos_member json_field \<Rightarrow> int result" where
  "eos_of Absent = Inr (-1)"
| "eos_of (Value (Eos_List a as)) = Inr a"
| "eos_of (Value (Eos_Number a)) = Inr a"
| "eos_of (Wrong_Type msg) = Inl (Runtime_Error msg)"

text \<open>The default of \<open>head_dim\<close> is computed before the member is looked up.\<close>

definition read_config :: "config_file \<Rightarrow> model_config result" where
  "read_config f =
    (and_then (json_value ''llama'' (cf_model_type f)) (\<lambda>mt.
     and_then (json_at ''hidden_size'' (cf_hidden_size f)) (\<lambda>hs.
     and_then (json_at ''intermediate_size'' (cf_intermediate_size f)) (\<lambda>im.
     and_then (json_at ''num_hidden_layers'' (cf_num_hidden_layers f)) (\<lambda>nl.
     and_then (json_at ''num_attention_heads'' (cf_num_attention_heads f)) (\<lambda>nh.
     and_then (json_value nh (cf_num_key_value_heads f)) (\<lambda>kv.
     if nh = 0 then Inl (Runtime_Error ''division by zero'')
     else
     and_then (json_value (hs sdiv nh) (cf_head_dim f)) (\<lambda>hd.
     and_then (json_at ''vocab_size'' (cf_vocab_size f)) (\<lambda>vs.
     and_then (json_value 4096 (cf_max_position_embeddings f)) (\<lambda>mp.
     and_then (json_value (1 / 1000000) (cf_rms_norm_eps f)) (\<lambda>ep.
     and_then (json_value 10000 (cf_rope_theta f)) (\<lambda>rt.
     and_then (json_value False (cf_tie_word_embeddings f)) (\<lambda>tw.
     and_then (json_value (mt = ''qwen2'') (cf_attention_bias f)) (\<lambda>ab.
     and_then (json_value (-1) (cf_bos_token_id f)) (\<lambda>bo.
     and_then (eos_of (cf_eos_token_id f)) (\<lambda>eo.
     if kv = 0 then Inl (Runtime_Error ''division by zero'')
     else if nh smod kv \<noteq> 0 then Inl (Runtime_Error ''num_attention_heads must be a multiple of num_key_value_heads'')
     else Inr \<lparr>model_type = mt, hidden_size = hs, intermediate_size = im, num_hidden_layers = nl,
       num_attention_heads = nh, num_key_value_heads = kv, head_dim = hd, vocab = vs,
       max_position_embeddings = mp, rms_norm_eps = ep, rope_theta = rt, tie_word_embeddings = tw,
       attention_bias = ab, bos_token_id = bo, eos_token_id = eo\<rparr>))))))))))))))))"

definition load_model_config :: "(string + config_file) option \<Rightarrow> model_config result" where
  "load_model_config f =
    (case f of
       None \<Rightarrow> Inl (Runtime_Error ''cannot open'')
     | Some (Inl msg) \<Rightarrow> Inl (Runtime_Error msg)
     | Some (Inr c) \<Rightarrow> read_config c)"

text \<open>A loaded configuration maps query heads onto whole groups of key heads.\<close>

lemma read_config_heads:
  assumes "read_config f = Inr c"
  shows "num_key_value_heads c \<noteq> 0 \<and> num_attention_heads c = gqa_group c * num_key_value_heads c"
proof -
  have "num_key_value_heads c \<noteq> 0 \<and> num_attention_heads c smod num_key_value_heads c = 0"
    using assms by (auto simp: read_config_def and_then_Inr split: if_splits)
  then show ?thesis
    using smod_sdiv_mult_eq[of "num_attention_heads c" "num_key_value_heads c"] by (simp add: gqa_group_def)
qed

end
