(* ===== verification/Cpu_Model.thy ===== *)
theory Cpu_Model
  imports Cpu_Ops Seq_State Model_Config Safetensors Metrics
begin

text \<open>
  \<open>CpuModel\<close> of \<open>src/src/model/cpu/cpu_model.cpp\<close>: the packing of a step into one batch, the decoder
  layers over the paged cache, and the logits. Weights are lists of floats, read from the weight
  files by name (\<open>of_bits\<close> gives the float of a bit pattern). The tensors handed to the test hook are in \<open>Golden_Dump\<close>;
  the hook only reads. The slices of the heads are consecutive, as they are in the code's buffers when
  the hidden size is the number of heads times the head dimension.
  The attention loop is written in the order of the serial branch; \<open>Parallel_Attention\<close> has the items
  and the buffer they write to, and shows that the pool of \<open>Thread_Pool\<close> computes the same list. Sizes are the natural
  numbers of the configuration's fields.
\<close>

subsection \<open>State\<close>

record 'f layer =
  in_norm :: "'f list"
  post_norm :: "'f list"
  wq :: "'f list"
  wk :: "'f list"
  wv :: "'f list"
  wo :: "'f list"
  bq :: "'f list"
  bk :: "'f list"
  bv :: "'f list"
  wgate :: "'f list"
  wup :: "'f list"
  wdown :: "'f list"

record 'f weights =
  w_embed :: "'f list"
  w_final_norm :: "'f list"
  w_lm_head :: "'f list"
  w_layers :: "'f layer list"

record 'f cpu_model =
  cm_cfg :: model_config
  cm_weights :: "'f weights"
  cm_rope :: "'f rope_tables"
  cm_kv_dim :: nat
  k_cache :: "'f list list"
  v_cache :: "'f list list"

definition cpu_model_new :: "('f, 'd) float_ops \<Rightarrow> model_config \<Rightarrow> 'f weights \<Rightarrow> kv_cache \<Rightarrow> 'f cpu_model" where
  "cpu_model_new ops cfg w kv =
    (let hd = nat (head_dim cfg);
         slots = kv_num_blocks kv * kv_block_size kv;
         kvd = nat (num_key_value_heads cfg) * hd;
         zeros = replicate (nat (num_hidden_layers cfg)) (replicate (slots * kvd) (f_of_rat ops 0)) in
     \<lparr>cm_cfg = cfg, cm_weights = w, cm_rope = rope_build ops hd (nat (max_position_embeddings cfg)) (rope_theta cfg),
      cm_kv_dim = kvd, k_cache = zeros, v_cache = zeros\<rparr>)"

text \<open>The constructor from the model's files: the first tensor that is missing or cannot be
  converted throws. The biases are read together when the one of the queries is there.\<close>

definition load_tensor :: "(u32 \<Rightarrow> 'f) \<Rightarrow> byte list option list \<Rightarrow> (string \<rightharpoonup> nat \<times> tensor_view) \<Rightarrow> string \<Rightarrow> 'f list result" where
  "load_tensor of_bits files index name =
    (and_then (dir_get index name) (\<lambda>(k, v).
     and_then (to_f32 (the (files ! k)) v) (\<lambda>t. Inr (map of_bits (t_data t)))))"

definition load_biases :: "(string \<Rightarrow> bool) \<Rightarrow> (string \<Rightarrow> 'f list result) \<Rightarrow> string \<Rightarrow> ('f list \<times> 'f list \<times> 'f list) result" where
  "load_biases has get p =
    (if has (p @ ''self_attn.q_proj.bias'') then
       and_then (get (p @ ''self_attn.q_proj.bias'')) (\<lambda>q.
       and_then (get (p @ ''self_attn.k_proj.bias'')) (\<lambda>k.
       and_then (get (p @ ''self_attn.v_proj.bias'')) (\<lambda>v. Inr (q, k, v))))
     else Inr ([], [], []))"

definition load_layer :: "(string \<Rightarrow> bool) \<Rightarrow> (string \<Rightarrow> 'f list result) \<Rightarrow> nat \<Rightarrow> 'f layer result" where
  "load_layer has get l =
    (let p = ''model.layers.'' @ digits_of l @ ''.'' in
     and_then (get (p @ ''input_layernorm.weight'')) (\<lambda>inn.
     and_then (get (p @ ''post_attention_layernorm.weight'')) (\<lambda>pon.
     and_then (get (p @ ''self_attn.q_proj.weight'')) (\<lambda>q.
     and_then (get (p @ ''self_attn.k_proj.weight'')) (\<lambda>k.
     and_then (get (p @ ''self_attn.v_proj.weight'')) (\<lambda>v.
     and_then (get (p @ ''self_attn.o_proj.weight'')) (\<lambda>out.
     and_then (load_biases has get p) (\<lambda>(b1, b2, b3).
     and_then (get (p @ ''mlp.gate_proj.weight'')) (\<lambda>g.
     and_then (get (p @ ''mlp.up_proj.weight'')) (\<lambda>u.
     and_then (get (p @ ''mlp.down_proj.weight'')) (\<lambda>d.
       Inr \<lparr>in_norm = inn, post_norm = pon, wq = q, wk = k, wv = v, wo = out, bq = b1, bk = b2, bv = b3,
         wgate = g, wup = u, wdown = d\<rparr>)))))))))))"

fun load_layers :: "(string \<Rightarrow> bool) \<Rightarrow> (string \<Rightarrow> 'f list result) \<Rightarrow> nat list \<Rightarrow> 'f layer list result" where
  "load_layers has get [] = Inr []"
| "load_layers has get (l # ls) =
    and_then (load_layer has get l) (\<lambda>L. and_then (load_layers has get ls) (\<lambda>Ls. Inr (L # Ls)))"

definition load_weights :: "(string \<Rightarrow> bool) \<Rightarrow> (string \<Rightarrow> 'f list result) \<Rightarrow> model_config \<Rightarrow> 'f weights result" where
  "load_weights has get cfg =
    (and_then (get ''model.embed_tokens.weight'') (\<lambda>em.
     and_then (get ''model.norm.weight'') (\<lambda>fn.
     and_then (if tie_word_embeddings cfg then Inr [] else get ''lm_head.weight'') (\<lambda>lm.
     if num_hidden_layers cfg < 0 then Inl Length_Error
     else and_then (load_layers has get [0..<nat (num_hidden_layers cfg)]) (\<lambda>Ls.
       Inr \<lparr>w_embed = em, w_final_norm = fn, w_lm_head = lm, w_layers = Ls\<rparr>)))))"

definition make_cpu_model ::
  "('f, 'd) float_ops \<Rightarrow> (u32 \<Rightarrow> 'f) \<Rightarrow> header_parser \<Rightarrow> (string + config_file) option \<Rightarrow> byte list option list \<Rightarrow>
   kv_cache \<Rightarrow> 'f cpu_model result" where
  "make_cpu_model ops of_bits parse cfg_file files kv =
    (and_then (load_model_config cfg_file) (\<lambda>cfg.
     and_then (load_dir parse files) (\<lambda>index.
     and_then (load_weights (dir_has index) (load_tensor of_bits files index) cfg) (\<lambda>w.
       Inr (cpu_model_new ops cfg w kv)))))"

subsection \<open>Packing a step\<close>

record packed_token =
  tok_seq :: seq_ref
  tok_pos :: nat
  tok_id :: token

definition slice_tokens :: "(seq_ref \<Rightarrow> seq) \<Rightarrow> step_slice \<Rightarrow> packed_token list" where
  "slice_tokens hp sl =
    map (\<lambda>t. \<lparr>tok_seq = sl_seq sl, tok_pos = nat (sl_start sl) + t,
               tok_id = tokens (hp (sl_seq sl)) ! (nat (sl_start sl) + t)\<rparr>) [0..<nat (sl_len sl)]"

fun pack :: "(seq_ref \<Rightarrow> seq) \<Rightarrow> step_slice list \<Rightarrow> packed_token list \<times> nat list \<Rightarrow> packed_token list \<times> nat list" where
  "pack hp [] acc = acc"
| "pack hp (sl # sls) (ts, rows) =
    (let ts' = ts @ slice_tokens hp sl in
     pack hp sls (ts', if needs_logits sl then rows @ [length ts' - 1] else rows))"

definition embed :: "'f cpu_model \<Rightarrow> nat \<Rightarrow> packed_token list \<Rightarrow> 'f list" where
  "embed m H ts = concat (map (\<lambda>t. row (w_embed (cm_weights m)) H (nat (tok_id t))) ts)"

subsection \<open>A layer\<close>

definition bias_of :: "'f list \<Rightarrow> 'f list option" where
  "bias_of b = (if b = [] then None else Some b)"

definition add_into :: "('f, 'd) float_ops \<Rightarrow> 'f list \<Rightarrow> 'f list \<Rightarrow> 'f list" where
  "add_into ops x y = map (\<lambda>i. f_add ops (x ! i) (y ! i)) [0..<length x]"

text \<open>Rotate every token's queries and keys, and write its keys and values to its slot.\<close>

definition rotate_rows :: "('f, 'd) float_ops \<Rightarrow> 'f cpu_model \<Rightarrow> 'f list \<Rightarrow> nat \<Rightarrow> nat \<Rightarrow> packed_token list \<Rightarrow> 'f list" where
  "rotate_rows ops m x cols heads ts =
    concat (map (\<lambda>i. rope_inplace ops (row x cols i) heads (nat (head_dim (cm_cfg m))) (tok_pos (ts ! i)) (cm_rope m))
      [0..<length ts])"

definition store_rows ::
  "(seq_ref \<Rightarrow> seq) \<Rightarrow> nat \<Rightarrow> nat \<Rightarrow> packed_token list \<Rightarrow> 'f list \<Rightarrow> 'f list \<Rightarrow> 'f list" where
  "store_rows hp bs kv_dim ts vecs cache =
    foldl (\<lambda>c i. put_row c kv_dim (slot (block_tab (hp (tok_seq (ts ! i)))) (tok_pos (ts ! i)) bs) (row vecs kv_dim i))
      cache [0..<length ts]"

definition attention_rows ::
  "('f, 'd) float_ops \<Rightarrow> 'f cpu_model \<Rightarrow> (seq_ref \<Rightarrow> seq) \<Rightarrow> nat \<Rightarrow> 'f list \<Rightarrow> 'f list \<Rightarrow> 'f list \<Rightarrow>
   packed_token list \<Rightarrow> 'f list" where
  "attention_rows ops m hp bs q kc vc ts =
    (let cfg = cm_cfg m; H = nat (hidden_size cfg); hd = nat (head_dim cfg); nh = nat (num_attention_heads cfg);
         nkv = nat (num_key_value_heads cfg); group = nat (gqa_group cfg);
         scale = f_div ops (f_of_rat ops 1) (f_sqrt ops (f_of_rat ops (of_nat hd))) in
     concat (map (\<lambda>w.
       (let i = w div nh; h = w mod nh; t = ts ! i in
        paged_attention_head ops (drop (h * hd) (row q H i)) kc vc (block_tab (hp (tok_seq t))) bs (tok_pos t)
          (h div group) nkv hd scale)) [0..<length ts * nh]))"

definition forward_layer ::
  "('f, 'd) float_ops \<Rightarrow> (seq_ref \<Rightarrow> seq) \<Rightarrow> nat \<Rightarrow> packed_token list \<Rightarrow> nat \<Rightarrow> 'f cpu_model \<times> 'f list \<Rightarrow> 'f cpu_model \<times> 'f list" where
  "forward_layer ops hp bs ts l st =
    (case st of (m, x) \<Rightarrow>
     let cfg = cm_cfg m; L = w_layers (cm_weights m) ! l; N = length ts; H = nat (hidden_size cfg);
         I = nat (intermediate_size cfg); kvd = cm_kv_dim m; eps = rms_norm_eps cfg;
         h = rmsnorm ops x (in_norm L) N H eps;
         q = rotate_rows ops m (linear ops h N H (wq L) H (bias_of (bq L))) H (nat (num_attention_heads cfg)) ts;
         k = rotate_rows ops m (linear ops h N H (wk L) kvd (bias_of (bk L))) kvd (nat (num_key_value_heads cfg)) ts;
         v = linear ops h N H (wv L) kvd (bias_of (bv L));
         kc = store_rows hp bs kvd ts k (k_cache m ! l);
         vc = store_rows hp bs kvd ts v (v_cache m ! l);
         attn = attention_rows ops m hp bs q kc vc ts;
         x1 = add_into ops x (linear ops attn N H (wo L) H None);
         h1 = rmsnorm ops x1 (post_norm L) N H eps;
         gate = silu_mul ops (linear ops h1 N H (wgate L) I None) (linear ops h1 N H (wup L) I None);
         x2 = add_into ops x1 (linear ops gate N I (wdown L) H None) in
     (m\<lparr>k_cache := (k_cache m)[l := kc], v_cache := (v_cache m)[l := vc]\<rparr>, x2))"

subsection \<open>The forward pass\<close>

definition forward ::
  "('f, 'd) float_ops \<Rightarrow> (seq_ref \<Rightarrow> seq) \<Rightarrow> nat \<Rightarrow> step_input \<Rightarrow> 'f cpu_model \<Rightarrow> 'f cpu_model \<times> 'f list" where
  "forward ops hp bs st m =
    (let cfg = cm_cfg m; H = nat (hidden_size cfg); V = nat (vocab cfg) in
     if slices st = [] then (m, replicate (nat (num_logits st) * V) (f_of_rat ops 0))
     else
       case pack hp (slices st) ([], []) of (ts, rows) \<Rightarrow>
       case foldl (\<lambda>acc l. forward_layer ops hp bs ts l acc) (m, embed m H ts) [0..<nat (num_hidden_layers cfg)] of
         (m', x) \<Rightarrow>
           if rows = [] then (m', replicate (nat (num_logits st) * V) (f_of_rat ops 0))
           else
             let h = concat (map (\<lambda>r. rmsnorm ops (drop (r * H) x) (w_final_norm (cm_weights m)) 1 H (rms_norm_eps cfg)) rows);
                 hdw = (if tie_word_embeddings cfg then w_embed (cm_weights m) else w_lm_head (cm_weights m)) in
             (m', linear ops h (length rows) H hdw V None @
                  replicate ((nat (num_logits st) - length rows) * V) (f_of_rat ops 0)))"

subsection \<open>The parts of a layer\<close>

text \<open>The intermediate results of \<open>forward_layer\<close> by name.\<close>

definition layer_h :: "('f, 'd) float_ops \<Rightarrow> 'f cpu_model \<Rightarrow> nat \<Rightarrow> nat \<Rightarrow> 'f list \<Rightarrow> 'f list" where
  "layer_h ops m n l x = rmsnorm ops x (in_norm (w_layers (cm_weights m) ! l)) n (nat (hidden_size (cm_cfg m))) (rms_norm_eps (cm_cfg m))"

definition layer_q :: "('f, 'd) float_ops \<Rightarrow> 'f cpu_model \<Rightarrow> packed_token list \<Rightarrow> nat \<Rightarrow> 'f list \<Rightarrow> 'f list" where
  "layer_q ops m ts l x =
    (let L = w_layers (cm_weights m) ! l; H = nat (hidden_size (cm_cfg m)); n = length ts in
     rotate_rows ops m (linear ops (layer_h ops m n l x) n H (wq L) H (bias_of (bq L))) H (nat (num_attention_heads (cm_cfg m))) ts)"

definition layer_k :: "('f, 'd) float_ops \<Rightarrow> 'f cpu_model \<Rightarrow> packed_token list \<Rightarrow> nat \<Rightarrow> 'f list \<Rightarrow> 'f list" where
  "layer_k ops m ts l x =
    (let L = w_layers (cm_weights m) ! l; H = nat (hidden_size (cm_cfg m)); n = length ts in
     rotate_rows ops m (linear ops (layer_h ops m n l x) n H (wk L) (cm_kv_dim m) (bias_of (bk L))) (cm_kv_dim m)
       (nat (num_key_value_heads (cm_cfg m))) ts)"

definition layer_v :: "('f, 'd) float_ops \<Rightarrow> 'f cpu_model \<Rightarrow> packed_token list \<Rightarrow> nat \<Rightarrow> 'f list \<Rightarrow> 'f list" where
  "layer_v ops m ts l x =
    (let L = w_layers (cm_weights m) ! l; H = nat (hidden_size (cm_cfg m)); n = length ts in
     linear ops (layer_h ops m n l x) n H (wv L) (cm_kv_dim m) (bias_of (bv L)))"

definition layer_out :: "('f, 'd) float_ops \<Rightarrow> 'f cpu_model \<Rightarrow> nat \<Rightarrow> nat \<Rightarrow> 'f list \<Rightarrow> 'f list \<Rightarrow> 'f list" where
  "layer_out ops m n l x attn =
    (let L = w_layers (cm_weights m) ! l; H = nat (hidden_size (cm_cfg m)); I = nat (intermediate_size (cm_cfg m));
         x1 = add_into ops x (linear ops attn n H (wo L) H None);
         h1 = rmsnorm ops x1 (post_norm L) n H (rms_norm_eps (cm_cfg m));
         gate = silu_mul ops (linear ops h1 n H (wgate L) I None) (linear ops h1 n H (wup L) I None) in
     add_into ops x1 (linear ops gate n I (wdown L) H None))"

definition layer_caches :: "('f, 'd) float_ops \<Rightarrow> (seq_ref \<Rightarrow> seq) \<Rightarrow> nat \<Rightarrow> 'f cpu_model \<Rightarrow> packed_token list \<Rightarrow> nat \<Rightarrow> 'f list \<Rightarrow> 'f list \<times> 'f list" where
  "layer_caches ops hp bs m ts l x =
    (store_rows hp bs (cm_kv_dim m) ts (layer_k ops m ts l x) (k_cache m ! l),
     store_rows hp bs (cm_kv_dim m) ts (layer_v ops m ts l x) (v_cache m ! l))"

lemma forward_layer_parts:
  "forward_layer ops hp bs ts l (m, x) =
    (let (kc, vc) = layer_caches ops hp bs m ts l x in
     (m\<lparr>k_cache := (k_cache m)[l := kc], v_cache := (v_cache m)[l := vc]\<rparr>,
      layer_out ops m (length ts) l x (attention_rows ops m hp bs (layer_q ops m ts l x) kc vc ts)))"
  by (simp add: forward_layer_def layer_h_def layer_q_def layer_k_def layer_v_def layer_out_def layer_caches_def Let_def)

subsection \<open>The cache after a step\<close>

lemma store_prefix:
  assumes "\<forall>i<n. length (row vecs kv_dim i) = kv_dim \<and> Suc (sl i) * kv_dim \<le> length cache" "inj_on sl {..<n}"
  shows "length (foldl (\<lambda>c i. put_row c kv_dim (sl i) (row vecs kv_dim i)) cache [0..<n]) = length cache \<and>
    (\<forall>i<n. row (foldl (\<lambda>c i. put_row c kv_dim (sl i) (row vecs kv_dim i)) cache [0..<n]) kv_dim (sl i) = row vecs kv_dim i) \<and>
    (\<forall>s. s \<notin> sl ` {..<n} \<longrightarrow>
       row (foldl (\<lambda>c i. put_row c kv_dim (sl i) (row vecs kv_dim i)) cache [0..<n]) kv_dim s = row cache kv_dim s)"
  using assms
proof (induction n)
  case (Suc n)
  let ?c = "foldl (\<lambda>c i. put_row c kv_dim (sl i) (row vecs kv_dim i)) cache [0..<n]"
  have ih: "length ?c = length cache" "\<forall>i<n. row ?c kv_dim (sl i) = row vecs kv_dim i"
    "\<forall>s. s \<notin> sl ` {..<n} \<longrightarrow> row ?c kv_dim s = row cache kv_dim s"
    using Suc.IH[OF _ inj_on_subset[OF Suc.prems(2)]] Suc.prems(1) by (simp_all add: lessThan_Suc subset_insertI)
  have n: "length (row vecs kv_dim n) = kv_dim" "Suc (sl n) * kv_dim \<le> length ?c" using Suc.prems(1) ih(1) by auto
  have other: "sl i \<noteq> sl n" if "i < n" for i using Suc.prems(2) that by (auto simp: inj_on_def)
  show ?case
    using ih put_row_length[OF n] row_put_row_same[OF n] row_put_row_other[OF n] other
    by (auto simp: less_Suc_eq lessThan_Suc)
qed simp

text \<open>A step whose tokens have slots of their own writes exactly their vectors.\<close>

lemma store_rows_exact:
  fixes hp bs ts
  defines "sl \<equiv> \<lambda>i. slot (block_tab (hp (tok_seq (ts ! i)))) (tok_pos (ts ! i)) bs"
  assumes "\<forall>i<length ts. length (row vecs kv_dim i) = kv_dim \<and> Suc (sl i) * kv_dim \<le> length cache"
    "inj_on sl {..<length ts}"
  shows "\<forall>i<length ts. row (store_rows hp bs kv_dim ts vecs cache) kv_dim (sl i) = row vecs kv_dim i"
    "s \<notin> sl ` {..<length ts} \<Longrightarrow> row (store_rows hp bs kv_dim ts vecs cache) kv_dim s = row cache kv_dim s"
  using store_prefix[OF assms(2,3)] by (simp_all add: store_rows_def sl_def)

lemma pack_rows:
  "length (snd (pack hp sls (ts, rows))) = length rows + length (filter needs_logits sls)"
  by (induction sls arbitrary: ts rows) (auto simp: Let_def)

text \<open>Attention over the paged cache reads the rows of the table's slots in position order; a query
  head reads its own slice of each row.\<close>

lemma paged_attention_rows:
  assumes "kv_head < kv_heads"
    "\<And>p. p \<le> pos \<Longrightarrow> row kc (kv_heads * hdim) (slot bt p bs) = kf p"
    "\<And>p. p \<le> pos \<Longrightarrow> row vc (kv_heads * hdim) (slot bt p bs) = vf p"
  shows "paged_attention_head ops q kc vc bt bs pos kv_head kv_heads hdim scale =
    attend ops q hdim scale (map (\<lambda>p. take hdim (drop (kv_head * hdim) (kf p))) [0..<pos + 1])
      (map (\<lambda>p. take hdim (drop (kv_head * hdim) (vf p))) [0..<pos + 1])"
proof -
  have "map (cached_vec kc bt bs kv_head kv_heads hdim) [0..<pos + 1] = map (\<lambda>p. take hdim (drop (kv_head * hdim) (kf p))) [0..<pos + 1]"
    "map (cached_vec vc bt bs kv_head kv_heads hdim) [0..<pos + 1] = map (\<lambda>p. take hdim (drop (kv_head * hdim) (vf p))) [0..<pos + 1]"
    using assms by (auto simp: cached_vec_row simp del: upt_Suc)
  then show ?thesis by (simp only: paged_attention_head_def)
qed

text \<open>The packed tokens are the positions of the slices, each once.\<close>

lemma pack_tokens: "fst (pack hp sls (ts, rows)) = ts @ concat (map (slice_tokens hp) sls)"
  by (induction sls arbitrary: ts rows) (auto simp: Let_def)

lemma slice_token_pos:
  "t \<in> set (slice_tokens hp sl) \<Longrightarrow> tok_seq t = sl_seq sl \<and> nat (sl_start sl) \<le> tok_pos t \<and> tok_pos t < nat (sl_start sl) + nat (sl_len sl)"
  by (auto simp: slice_tokens_def)

lemma distinct_slice_tokens: "distinct (map (\<lambda>t. (tok_seq t, tok_pos t)) (slice_tokens hp sl))"
  by (simp add: slice_tokens_def comp_def distinct_map inj_on_def)

lemma distinct_packed:
  "distinct (map sl_seq sls) \<Longrightarrow> distinct (map (\<lambda>t. (tok_seq t, tok_pos t)) (concat (map (slice_tokens hp) sls)))"
proof (induction sls)
  case (Cons sl sls)
  then show ?case
    using slice_token_pos[of _ hp] by (fastforce simp: distinct_slice_tokens image_iff)
qed simp

end
