(* ===== verification/Forward_Props.thy ===== *)
theory Forward_Props
  imports Scheduler_Props Cpu_Model
begin

text \<open>
  The forward pass on the steps of the scheduler: the writes of a step's keys and values through
  the block tables, and what the attention of each token then reads. The scheduler and the cache
  manager provide the facts about block tables; the model's loops rely on them.
\<close>

text \<open>The packed token that computes a position in this step, and the row a position of a sequence
  stands for after the writes: the new vector if the step computes it, the stored one otherwise.\<close>

definition token_at :: "packed_token list \<Rightarrow> seq_ref \<Rightarrow> nat \<Rightarrow> nat option" where
  "token_at ts r p = List.find (\<lambda>j. tok_seq (ts ! j) = r \<and> tok_pos (ts ! j) = p) [0..<length ts]"

definition logical_row :: "(seq_ref \<Rightarrow> seq) \<Rightarrow> nat \<Rightarrow> nat \<Rightarrow> packed_token list \<Rightarrow> 'f list \<Rightarrow> 'f list \<Rightarrow> seq_ref \<Rightarrow> nat \<Rightarrow> 'f list" where
  "logical_row hp bs kvd ts vecs cache r p =
    (case token_at ts r p of
       Some j \<Rightarrow> row vecs kvd j
     | None \<Rightarrow> row cache kvd (slot (block_tab (hp r)) p bs))"

lemma token_at_Some: "token_at ts r p = Some j \<Longrightarrow> j < length ts \<and> tok_seq (ts ! j) = r \<and> tok_pos (ts ! j) = p"
  by (auto simp: token_at_def find_Some_iff)

lemma token_at_None: "token_at ts r p = None \<longleftrightarrow> (\<forall>j<length ts. \<not> (tok_seq (ts ! j) = r \<and> tok_pos (ts ! j) = p))"
  by (auto simp: token_at_def find_None_iff)

text \<open>What the model relies on: whoever hands it a step promises that the step's slices name distinct
  members, start at the first uncomputed position, have blocks inside the pool, and are written
  to slots that no other position of a member has.\<close>

definition slot_of :: "sched \<Rightarrow> seq_ref \<Rightarrow> nat \<Rightarrow> nat" where
  "slot_of s r p = slot (block_tab (heap s r)) p (kv_block_size (sc_kv s))"

definition has_block :: "sched \<Rightarrow> seq_ref \<Rightarrow> nat \<Rightarrow> bool" where
  "has_block s r p = (p div kv_block_size (sc_kv s) < length (blocks (block_tab (heap s r))))"

definition packed :: "sched \<Rightarrow> step_input \<Rightarrow> packed_token list" where
  "packed s st = concat (map (slice_tokens (heap s)) (slices st))"

locale step_provider =
  fixes provides :: "sched \<Rightarrow> step_input \<Rightarrow> bool"
  assumes distinct_seqs: "provides s st \<Longrightarrow> distinct (map sl_seq (slices st))"
    and slice_start: "provides s st \<Longrightarrow> sl \<in> set (slices st) \<Longrightarrow>
      0 \<le> sl_start sl \<and> sl_start sl = num_computed (heap s (sl_seq sl)) \<and> 1 \<le> sl_len sl"
    and slice_member: "provides s st \<Longrightarrow> sl \<in> set (slices st) \<Longrightarrow> sl_seq sl \<in> set (members s)"
    and slice_has_block: "provides s st \<Longrightarrow> sl \<in> set (slices st) \<Longrightarrow> in_slice sl p \<Longrightarrow> has_block s (sl_seq sl) p"
    and slot_in_pool: "provides s st \<Longrightarrow> r \<in> set (members s) \<Longrightarrow> has_block s r p \<Longrightarrow>
      slot_of s r p < kv_num_blocks (sc_kv s) * kv_block_size (sc_kv s)"
    and slot_apart: "provides s st \<Longrightarrow> sl \<in> set (slices st) \<Longrightarrow> in_slice sl p \<Longrightarrow> r \<in> set (members s) \<Longrightarrow>
      has_block s r p' \<Longrightarrow> (sl_seq sl, p) \<noteq> (r, p') \<Longrightarrow> slot_of s (sl_seq sl) p \<noteq> slot_of s r p'"
begin

lemma token_slice:
  assumes "provides s st" "j < length (packed s st)"
  obtains sl where "sl \<in> set (slices st)" "sl_seq sl = tok_seq (packed s st ! j)" "in_slice sl (tok_pos (packed s st ! j))"
proof -
  obtain sl where sl: "sl \<in> set (slices st)" "packed s st ! j \<in> set (slice_tokens (heap s) sl)"
    using nth_mem[OF assms(2)] by (auto simp: packed_def)
  then have "in_slice sl (tok_pos (packed s st ! j))"
    using slice_token_pos[OF sl(2)] slice_start[OF assms(1) sl(1)] by (auto simp: in_slice_def)
  then show ?thesis using that sl slice_token_pos[OF sl(2)] by simp
qed

lemma slice_token:
  assumes "provides s st" "sl \<in> set (slices st)" "in_slice sl p"
  shows "token_at (packed s st) (sl_seq sl) p \<noteq> None"
proof -
  let ?k = "p - nat (sl_start sl)"
  have k: "?k < nat (sl_len sl)" "nat (sl_start sl) + ?k = p"
    using assms(3) slice_start[OF assms(1,2)] by (auto simp: in_slice_def)
  then have "\<exists>t \<in> set (slice_tokens (heap s) sl). tok_seq t = sl_seq sl \<and> tok_pos t = p"
    unfolding slice_tokens_def by (auto intro!: bexI[of _ ?k])
  then have "\<exists>t \<in> set (packed s st). tok_seq t = sl_seq sl \<and> tok_pos t = p" using assms(2) by (auto simp: packed_def)
  then show ?thesis by (auto simp: token_at_None in_set_conv_nth)
qed

lemma token_apart:
  assumes "provides s st" "j < length (packed s st)" "r \<in> set (members s)" "has_block s r p"
    "(tok_seq (packed s st ! j), tok_pos (packed s st ! j)) \<noteq> (r, p)"
  shows "slot_of s (tok_seq (packed s st ! j)) (tok_pos (packed s st ! j)) \<noteq> slot_of s r p"
  using token_slice[OF assms(1,2)] slot_apart[OF assms(1) _ _ assms(3,4)] assms(5) by metis

lemma token_member:
  assumes "provides s st" "j < length (packed s st)"
  shows "tok_seq (packed s st ! j) \<in> set (members s)" "has_block s (tok_seq (packed s st ! j)) (tok_pos (packed s st ! j))"
  using token_slice[OF assms] slice_member[OF assms(1)] slice_has_block[OF assms(1)] by metis+

lemma slots_inj:
  assumes "provides s st"
  shows "inj_on (\<lambda>i. slot_of s (tok_seq (packed s st ! i)) (tok_pos (packed s st ! i))) {..<length (packed s st)}"
proof (rule inj_onI)
  let ?ts = "packed s st"
  fix i j assume ij: "i \<in> {..<length ?ts}" "j \<in> {..<length ?ts}"
    and eq: "slot_of s (tok_seq (?ts ! i)) (tok_pos (?ts ! i)) = slot_of s (tok_seq (?ts ! j)) (tok_pos (?ts ! j))"
  have "distinct (map (\<lambda>t. (tok_seq t, tok_pos t)) ?ts)"
    using distinct_packed[OF distinct_seqs[OF assms]] by (simp add: packed_def)
  moreover have "(tok_seq (?ts ! i), tok_pos (?ts ! i)) = (tok_seq (?ts ! j), tok_pos (?ts ! j))"
    using token_apart[OF assms, of i "tok_seq (?ts ! j)" "tok_pos (?ts ! j)"] token_member[OF assms, of j] ij eq by auto
  ultimately show "i = j" using ij by (auto simp: distinct_conv_nth)
qed

text \<open>After the writes, every position that has a block holds its logical row.\<close>

lemma stored_row:
  assumes "provides s st" "length vecs = length (packed s st) * kvd"
    "length cache = kv_num_blocks (sc_kv s) * kv_block_size (sc_kv s) * kvd" "r \<in> set (members s)" "has_block s r p"
  shows "row (store_rows (heap s) (kv_block_size (sc_kv s)) kvd (packed s st) vecs cache) kvd (slot_of s r p) =
    logical_row (heap s) (kv_block_size (sc_kv s)) kvd (packed s st) vecs cache r p"
proof -
  let ?ts = "packed s st" and ?sl = "\<lambda>i. slot_of s (tok_seq (packed s st ! i)) (tok_pos (packed s st ! i))"
  have rows: "\<forall>i<length ?ts. length (row vecs kvd i) = kvd \<and> Suc (?sl i) * kvd \<le> length cache"
  proof (intro allI impI conjI)
    fix i assume i: "i < length ?ts"
    then have "Suc i * kvd \<le> length vecs" using assms(2) mult_le_mono1[of "Suc i" "length ?ts" kvd] by simp
    then show "length (row vecs kvd i) = kvd" by (simp add: row_def)
    show "Suc (?sl i) * kvd \<le> length cache"
      unfolding assms(3) using slot_in_pool[OF assms(1) token_member[OF assms(1) i]] by (intro mult_le_mono1) simp
  qed
  note exact = store_rows_exact[OF rows[unfolded slot_of_def] slots_inj[OF assms(1), unfolded slot_of_def], folded slot_of_def]
  show ?thesis
  proof (cases "token_at ?ts r p")
    case None
    then have "slot_of s r p \<notin> ?sl ` {..<length ?ts}"
      using token_apart[OF assms(1) _ assms(4,5)] unfolding token_at_None by fastforce
    then show ?thesis using exact(2) None by (simp add: logical_row_def slot_of_def)
  next
    case (Some j)
    then show ?thesis using exact(1) token_at_Some[OF Some] by (auto simp: logical_row_def)
  qed
qed

text \<open>The positions up to a packed token have blocks, and those not computed before are computed now.\<close>

lemma earlier_positions:
  assumes "provides s st" "i < length (packed s st)" "p \<le> tok_pos (packed s st ! i)"
  shows "has_block s (tok_seq (packed s st ! i)) p"
    "num_computed (heap s (tok_seq (packed s st ! i))) \<le> int p \<Longrightarrow> token_at (packed s st) (tok_seq (packed s st ! i)) p \<noteq> None"
proof -
  show "has_block s (tok_seq (packed s st ! i)) p"
    using token_member(2)[OF assms(1,2)] div_le_mono[OF assms(3), of "kv_block_size (sc_kv s)"] by (simp add: has_block_def)
  obtain sl where sl: "sl \<in> set (slices st)" "sl_seq sl = tok_seq (packed s st ! i)" "in_slice sl (tok_pos (packed s st ! i))"
    using token_slice[OF assms(1,2)] .
  assume "num_computed (heap s (tok_seq (packed s st ! i))) \<le> int p"
  then have "in_slice sl p" using sl slice_start[OF assms(1) sl(1)] assms(3) by (auto simp: in_slice_def)
  then show "token_at (packed s st) (tok_seq (packed s st ! i)) p \<noteq> None" using slice_token[OF assms(1) sl(1)] sl(2) by simp
qed

text \<open>Attention over the written cache is attention over the logical rows.\<close>

lemma attention_logical:
  assumes "provides s st" "length k = length (packed s st) * (kv_heads * hdim)" "length v = length (packed s st) * (kv_heads * hdim)"
    "length kc = kv_num_blocks (sc_kv s) * kv_block_size (sc_kv s) * (kv_heads * hdim)"
    "length vc = kv_num_blocks (sc_kv s) * kv_block_size (sc_kv s) * (kv_heads * hdim)"
    "kv_head < kv_heads" "i < length (packed s st)"
  defines "bs \<equiv> kv_block_size (sc_kv s)" and "r \<equiv> tok_seq (packed s st ! i)" and "pos \<equiv> tok_pos (packed s st ! i)"
    and "kvd \<equiv> kv_heads * hdim" and "ts \<equiv> packed s st"
  shows "paged_attention_head ops q (store_rows (heap s) bs kvd ts k kc) (store_rows (heap s) bs kvd ts v vc)
      (block_tab (heap s r)) bs pos kv_head kv_heads hdim scale =
    attend ops q hdim scale
      (map (\<lambda>p. take hdim (drop (kv_head * hdim) (logical_row (heap s) bs kvd ts k kc r p))) [0..<pos + 1])
      (map (\<lambda>p. take hdim (drop (kv_head * hdim) (logical_row (heap s) bs kvd ts v vc r p))) [0..<pos + 1])"
proof -
  note row = stored_row[OF assms(1) _ _ token_member(1)[OF assms(1,7)] earlier_positions(1)[OF assms(1,7)], unfolded slot_of_def]
  show ?thesis unfolding bs_def r_def pos_def kvd_def ts_def by (intro paged_attention_rows row assms(2-6))
qed

end

text \<open>The scheduler is such a provider, for steps without a fully cached prompt.\<close>

definition scheduled :: "sched \<Rightarrow> step_input \<Rightarrow> bool" where
  "scheduled s' st \<longleftrightarrow> (\<exists>cfg s now. reachable (sched_start cfg) sched_step s \<and> schedule now s = Inr (s', st)) \<and>
     list_all (\<lambda>sl. \<not> fully_cached s' (sl_seq sl)) (slices st)"

lemma scheduled_inv: "scheduled s st \<Longrightarrow> sched_inv s \<and> step_ok s st"
proof -
  assume "scheduled s st"
  then obtain cfg s0 now where r: "reachable (sched_start cfg) sched_step s0" "schedule now s0 = Inr (s, st)"
    by (auto simp: scheduled_def)
  then show ?thesis using schedule_spec[OF reachable_inv(1)[OF r(1)], of now] reachable_inv(2,3)[OF r(1)] by auto
qed

lemma slice_run_ok:
  assumes "sched_inv s" "slice_ok s sl"
  shows "run_ok (continuous (sc_cfg s)) (kv_block_size (sc_kv s)) (heap s (sl_seq sl))"
  using assms by (simp add: sched_inv_def seqs_inv_def slice_ok_def Let_def)

lemma member_slot_in_pool:
  assumes "sched_inv s" "r \<in> set (members s)" "has_block s r p"
  shows "slot_of s r p < kv_num_blocks (sc_kv s) * kv_block_size (sc_kv s)"
proof -
  let ?bs = "kv_block_size (sc_kv s)" and ?b = "blocks (block_tab (heap s r)) ! (p div kv_block_size (sc_kv s))"
  have k: "kv_inv (sc_kv s) (image_mset (tabs s) (mset (members s)))" using sched_inv_D(2)[OF assms(1)] by (simp add: members_def)
  have "?b \<in># all_blocks (image_mset (tabs s) (mset (members s)))"
    using nth_mem[OF assms(3)[unfolded has_block_def]] assms(2) by (auto simp: set_all_blocks tabs_def)
  then have "?b < kv_num_blocks (sc_kv s)" using pool_inv_bound k by (auto simp: kv_inv_def)
  moreover have "p mod ?bs < ?bs" using kv_inv_bs[OF k] by simp
  ultimately show ?thesis
    unfolding slot_of_def slot_def by (metis Suc_leI add.commute add_less_mono1 less_le_trans mult_Suc mult_le_mono1)
qed

interpretation scheduler: step_provider scheduled
proof (unfold_locales, goal_cases)
  case (1 s st)
  then show ?case using scheduled_inv by (auto simp: step_ok_def slices_ok_def)
next
  case (2 s st sl)
  then have ok: "sched_inv s" "slice_ok s sl" using scheduled_inv by (auto simp: step_ok_def slices_ok_def)
  then show ?case using slice_run_ok[OF ok] by (simp add: slice_ok_def run_ok_def Let_def)
next
  case (3 s st sl)
  then have "slice_ok s sl" using scheduled_inv by (auto simp: step_ok_def slices_ok_def)
  then show ?case by (simp add: slice_ok_def members_def Let_def)
next
  case (4 s st sl p)
  then have ok: "sched_inv s" "slice_ok s sl" using scheduled_inv by (auto simp: step_ok_def slices_ok_def)
  then show ?case using slice_block(1)[OF ok 4(3)] by (simp add: has_block_def)
next
  case (5 s st r p)
  then show ?case using member_slot_in_pool scheduled_inv by blast
next
  case (6 s st sl p r p')
  then have ok: "sched_inv s" "slice_ok s sl" "\<not> fully_cached s (sl_seq sl)"
    using scheduled_inv by (auto simp: step_ok_def slices_ok_def scheduled_def list_all_iff)
  then show ?case using written_slot_apart[OF ok(1,2) 6(3) ok(3) 6(4)] 6(5,6) by (simp add: has_block_def slot_of_def)
qed


lemma demo_pack: "pack (heap demo2) (slices demo_step) ([], []) =
  ([\<lparr>tok_seq = 0, tok_pos = 0, tok_id = 1\<rparr>, \<lparr>tok_seq = 0, tok_pos = 1, tok_id = 2\<rparr>, \<lparr>tok_seq = 0, tok_pos = 2, tok_id = 3\<rparr>], [2])"
  by code_simp

lemma demo_sizes: "list_all (\<lambda>sl. \<not> fully_cached demo2 (sl_seq sl)) (slices demo_step)"
  "kv_num_blocks (sc_kv demo2) * kv_block_size (sc_kv demo2) = 8"
  by code_simp+


end
