(* ===== verification/Gpu_Grid.thy ===== *)
theory Gpu_Grid
  imports Float_Ops
begin

text \<open>
  What the CUDA kernels of \<open>src/src/kernels\<close> share: the arithmetic of the device, the strided loops
  of its threads, and the shuffles inside a warp. The \<open>__half\<close> type is \<open>'h\<close> and \<open>float\<close> is \<open>'f\<close>, with
  the conversions as operations, so the definitions hold for every rounding behaviour.

  The threads of a launch run in no particular order. A kernel whose threads write disjoint
  elements takes the order in which the elements are written as an argument \<open>run\<close>, which is any
  permutation of the threads' loops; the lemmas show that the result does not depend on it.
\<close>

subsection \<open>Device arithmetic\<close>

record ('h, 'f) gpu_ops =
  h2f :: "'h \<Rightarrow> 'f"
  f2h :: "'f \<Rightarrow> 'h"
  g_fmax :: "'f \<Rightarrow> 'f \<Rightarrow> 'f"
  g_expf :: "'f \<Rightarrow> 'f"
  g_rsqrt :: "'f \<Rightarrow> 'f"
  g_lowest :: "'f"

text \<open>Exact arithmetic, for the equivalences with the reference operations: every type is the reals
  and nothing is rounded. The argument is the value that stands for \<open>-FLT_MAX\<close> and for minus
  infinity, a number below all others that occur.\<close>

definition real_ops :: "real \<Rightarrow> (real, real) float_ops" where
  "real_ops lo =
    \<lparr>f_of_rat = of_rat, f_add = (+), f_sub = (-), f_mul = (*), f_div = (/), f_neg = uminus, f_exp = exp,
     f_sqrt = sqrt, f_neg_inf = lo, f_gt = (>), f_eq = (=), to_d = (\<lambda>x. x), to_f = (\<lambda>x. x), d_of_rat = of_rat,
     d_add = (+), d_sub = (-), d_mul = (*), d_div = (/), d_pow = (powr), d_cos = cos, d_sin = sin, d_ge = (\<ge>)\<rparr>"

definition real_gpu :: "real \<Rightarrow> (real, real) gpu_ops" where
  "real_gpu lo =
    \<lparr>h2f = (\<lambda>x. x), f2h = (\<lambda>x. x), g_fmax = max, g_expf = exp, g_rsqrt = (\<lambda>x. 1 / sqrt x), g_lowest = lo\<rparr>"

lemma real_ops_simps [simp]:
  "f_of_rat (real_ops lo) = of_rat" "f_add (real_ops lo) = (+)" "f_sub (real_ops lo) = (-)"
  "f_mul (real_ops lo) = (*)" "f_div (real_ops lo) = (/)" "f_neg (real_ops lo) = uminus"
  "f_exp (real_ops lo) = exp" "f_sqrt (real_ops lo) = sqrt" "f_neg_inf (real_ops lo) = lo"
  "f_gt (real_ops lo) = (>)" "f_eq (real_ops lo) = (=)" "to_d (real_ops lo) = (\<lambda>x. x)" "to_f (real_ops lo) = (\<lambda>x. x)"
  "d_of_rat (real_ops lo) = of_rat" "d_add (real_ops lo) = (+)" "d_sub (real_ops lo) = (-)"
  "d_mul (real_ops lo) = (*)" "d_div (real_ops lo) = (/)" "d_pow (real_ops lo) = (powr)"
  "d_cos (real_ops lo) = cos" "d_sin (real_ops lo) = sin" "d_ge (real_ops lo) = (\<ge>)"
  by (simp_all add: real_ops_def)

lemma real_gpu_simps [simp]:
  "h2f (real_gpu lo) = (\<lambda>x. x)" "f2h (real_gpu lo) = (\<lambda>x. x)" "g_fmax (real_gpu lo) = max"
  "g_expf (real_gpu lo) = exp" "g_rsqrt (real_gpu lo) = (\<lambda>x. 1 / sqrt x)" "g_lowest (real_gpu lo) = lo"
  by (simp_all add: real_gpu_def)

subsection \<open>Strided loops\<close>

text \<open>\<open>for (i = start; i < n; i += stride)\<close>\<close>

function thread_loop :: "nat \<Rightarrow> nat \<Rightarrow> nat \<Rightarrow> nat list" where
  "thread_loop i stride n = (if i < n \<and> 0 < stride then i # thread_loop (i + stride) stride n else [])"
  by pat_completeness auto
termination by (relation "measure (\<lambda>(i, stride, n). n - i)") auto

declare thread_loop.simps [simp del]

lemma set_thread_loop: "0 < T \<Longrightarrow> set (thread_loop i T n) = {j. i \<le> j \<and> j < n \<and> j mod T = i mod T}"
proof (induction i T n rule: thread_loop.induct)
  case (1 i T n)
  show ?case
  proof (cases "i < n")
    case True
    have "{j. i \<le> j \<and> j < n \<and> j mod T = i mod T} = insert i {j. i + T \<le> j \<and> j < n \<and> j mod T = i mod T}"
    proof -
      have "i + T \<le> j" if "i \<le> j" "j mod T = i mod T" "j \<noteq> i" for j
      proof -
        have "T dvd j - i" using that(1,2) mod_eq_dvd_iff_nat by metis
        then show ?thesis using that dvd_imp_le[of T "j - i"] by simp
      qed
      then show ?thesis using True by auto
    qed
    then show ?thesis using 1 True by (subst thread_loop.simps) simp
  qed (subst thread_loop.simps, auto)
qed

lemma thread_loop_ge: "j \<in> set (thread_loop i T n) \<Longrightarrow> i \<le> j"
  by (induction i T n rule: thread_loop.induct) (subst (asm) (2) thread_loop.simps, auto split: if_splits)

lemma distinct_thread_loop: "distinct (thread_loop i T n)"
proof (induction i T n rule: thread_loop.induct)
  case (1 i T n)
  then show ?case using thread_loop_ge[of i "i + T" T n] by (subst thread_loop.simps) auto
qed

text \<open>The loops of all threads visit every index once.\<close>

lemma thread_loops_cover:
  assumes "0 < T"
  shows "mset (concat (map (\<lambda>t. thread_loop t T n) [0..<T])) = mset [0..<n]"
proof -
  have "distinct (concat (map (\<lambda>t. thread_loop t T n) [0..<k]))" if "k \<le> T" for k
    using that by (induction k) (auto simp: distinct_thread_loop set_thread_loop[OF assms])
  moreover have "set (concat (map (\<lambda>t. thread_loop t T n) [0..<T])) = {0..<n}"
  proof -
    have "j mod T \<le> j \<and> j mod T < T" for j using assms by simp
    then show ?thesis using assms by (fastforce simp: set_thread_loop[OF assms])
  qed
  ultimately show ?thesis by (metis distinct_upt order_refl set_eq_iff_mset_eq_distinct set_upt)
qed

text \<open>An order in which a launch of \<open>T\<close> threads with strided loops handles \<open>n\<close> elements.\<close>

definition grid_run :: "nat \<Rightarrow> nat \<Rightarrow> nat list \<Rightarrow> bool" where
  "grid_run T n run = (mset run = mset (concat (map (\<lambda>t. thread_loop t T n) [0..<T])))"

lemma grid_run_perm: "grid_run T n run \<Longrightarrow> 0 < T \<Longrightarrow> distinct run \<and> set run = {0..<n}"
  unfolding grid_run_def using thread_loops_cover
  by (metis distinct_upt mset_eq_imp_distinct_iff mset_eq_setD set_upt)

text \<open>Elementwise updates in any order.\<close>

lemma foldl_update_outside:
  "j \<notin> set run \<Longrightarrow> foldl (\<lambda>x i. x[i := f i (x ! i)]) x run ! j = x ! j"
  by (induction run arbitrary: x) auto

lemma foldl_update_length: "length (foldl (\<lambda>x i. x[i := f i (x ! i)]) x run) = length x"
  by (induction run arbitrary: x) auto

lemma foldl_update_inside:
  "distinct run \<Longrightarrow> j \<in> set run \<Longrightarrow> j < length x \<Longrightarrow> foldl (\<lambda>x i. x[i := f i (x ! i)]) x run ! j = f j (x ! j)"
proof (induction run arbitrary: x)
  case (Cons i run)
  then show ?case by (cases "j = i") (auto simp: foldl_update_outside)
qed simp

lemma foldl_update_map:
  assumes "distinct run" "set run = {0..<length x}"
  shows "foldl (\<lambda>x i. x[i := f i (x ! i)]) x run = map (\<lambda>i. f i (x ! i)) [0..<length x]"
  using assms by (intro nth_equalityI) (auto simp: foldl_update_length foldl_update_inside)

subsection \<open>Warps\<close>

text \<open>A warp is the list of its 32 lanes' values. A lane that shuffles down past the end reads its own
  value.\<close>

definition shfl_down :: "nat \<Rightarrow> 'f list \<Rightarrow> 'f list" where
  "shfl_down off vs = map (\<lambda>l. if l + off < 32 then vs ! (l + off) else vs ! l) [0..<32]"

definition shfl_xor :: "nat \<Rightarrow> 'f list \<Rightarrow> 'f list" where
  "shfl_xor off vs = map (\<lambda>l. vs ! xor l off) [0..<32]"

definition down_round :: "('f, 'd) float_ops \<Rightarrow> 'f list \<Rightarrow> nat \<Rightarrow> 'f list" where
  "down_round ops vs off = map (\<lambda>l. f_add ops (vs ! l) (shfl_down off vs ! l)) [0..<32]"

definition xor_round :: "('f, 'd) float_ops \<Rightarrow> 'f list \<Rightarrow> nat \<Rightarrow> 'f list" where
  "xor_round ops vs off = map (\<lambda>l. f_add ops (vs ! l) (shfl_xor off vs ! l)) [0..<32]"

definition warp_reduce_sum :: "('f, 'd) float_ops \<Rightarrow> 'f list \<Rightarrow> 'f list" where
  "warp_reduce_sum ops vs = foldl (down_round ops) vs [16, 8, 4, 2, 1]"

definition warp_all_sum :: "('f, 'd) float_ops \<Rightarrow> 'f list \<Rightarrow> 'f list" where
  "warp_all_sum ops vs = foldl (xor_round ops) vs [16, 8, 4, 2, 1]"

text \<open>In exact arithmetic, lane 0 of the first holds the sum, and so does every lane of the second.\<close>

lemma down_round_sum:
  assumes "2 * off \<le> 32"
  shows "(\<Sum>l<off. down_round (real_ops lo) vs off ! l) = (\<Sum>l<2 * off. vs ! l)"
proof -
  have "(\<Sum>l<off. down_round (real_ops lo) vs off ! l) = (\<Sum>l<off. vs ! l + vs ! (l + off))"
    using assms by (intro sum.cong) (auto simp: down_round_def shfl_down_def)
  also have "\<dots> = (\<Sum>l<off. vs ! l) + (\<Sum>l<off. vs ! (l + off))" by (rule sum.distrib)
  also have "(\<Sum>l<off. vs ! (l + off)) = (\<Sum>l = off..<2 * off. vs ! l)"
    using sum.shift_bounds_nat_ivl[of "(!) vs" 0 off off] by (simp add: lessThan_atLeast0 mult_2)
  also have "(\<Sum>l<off. vs ! l) + (\<Sum>l = off..<2 * off. vs ! l) = (\<Sum>l<2 * off. vs ! l)"
    by (simp add: lessThan_atLeast0 sum.atLeastLessThan_concat)
  finally show ?thesis .
qed

lemma foldl_plus: "foldl (\<lambda>s t. s + f t) (a::real) xs = a + sum_list (map f xs)"
  by (induction xs arbitrary: a) simp_all

lemma sum_nth: "(\<Sum>l<length vs. vs ! l) = sum_list vs" for vs :: "real list"
  by (simp add: sum_list_sum_nth lessThan_atLeast0)

lemma warp_reduce_sum_real:
  assumes "length vs = 32"
  shows "warp_reduce_sum (real_ops lo) vs ! 0 = sum_list vs"
proof -
  let ?r = "down_round (real_ops lo)"
  have "warp_reduce_sum (real_ops lo) vs ! 0 = (\<Sum>l<1. ?r (?r (?r (?r (?r vs 16) 8) 4) 2) 1 ! l)"
    by (simp add: warp_reduce_sum_def)
  also have "\<dots> = (\<Sum>l<32. vs ! l)" by (simp only: down_round_sum) (simp add: down_round_sum)
  finally show ?thesis using sum_nth[of vs] assms by simp
qed

text \<open>After the rounds down to \<open>off\<close>, a lane holds the sum of the lanes congruent to it modulo \<open>off\<close>.\<close>

lemma lane_partner:
  fixes l off :: nat
  shows "off \<in> {1, 2, 4, 8, 16} \<Longrightarrow> l < 32 \<Longrightarrow> xor l off < 32 \<and> xor l off mod (2 * off) = (l + off) mod (2 * off)"
proof -
  have "list_all (\<lambda>off. list_all (\<lambda>l. xor l off < 32 \<and> xor l off mod (2 * off) = (l + off) mod (2 * off)) [0..<32]) [1, 2, 4, 8, 16 :: nat]"
    by code_simp
  then show "off \<in> {1, 2, 4, 8, 16} \<Longrightarrow> l < 32 \<Longrightarrow> xor l off < 32 \<and> xor l off mod (2 * off) = (l + off) mod (2 * off)"
    by (auto simp: list_all_iff)
qed

definition class_sum :: "real list \<Rightarrow> nat \<Rightarrow> nat \<Rightarrow> real" where
  "class_sum vs off l = (\<Sum>j \<in> {j. j < 32 \<and> j mod off = l mod off}. vs ! j)"

lemma mod_half: "0 < off \<Longrightarrow> j mod off = l mod off \<longleftrightarrow> j mod (2 * off) = l mod (2 * off) \<or> j mod (2 * off) = (l + off) mod (2 * off)" for j l off :: nat
proof -
  assume "0 < off"
  then have h: "a mod (2 * off) = off * (a div off mod 2) + a mod off" "(l + off) div off = l div off + 1" "(l + off) mod off = l mod off" for a
    by (simp_all add: mod_mult2_eq mult.commute[of 2])
  have lt: "a mod off < off" for a using \<open>0 < off\<close> by simp
  have uniq: "off * u + a mod off = off * v + b mod off \<longleftrightarrow> u = v \<and> a mod off = b mod off" for u v a b
  proof
    assume e: "off * u + a mod off = off * v + b mod off"
    then have "(off * u + a mod off) div off = (off * v + b mod off) div off" by simp
    then have "u = v" using \<open>0 < off\<close> by simp
    then show "u = v \<and> a mod off = b mod off" using e by simp
  qed simp
  show ?thesis unfolding h uniq by (auto simp: mod_Suc)
qed

lemma xor_round_class:
  assumes "off \<in> {1, 2, 4, 8, 16}" "\<forall>l<32. us ! l = class_sum vs (2 * off) l"
  shows "\<forall>l<32. xor_round (real_ops lo) us off ! l = class_sum vs off l"
proof (intro allI impI)
  fix l :: nat assume l: "l < 32"
  let ?A = "{j. j < 32 \<and> j mod (2 * off) = l mod (2 * off)}" and ?B = "{j. j < 32 \<and> j mod (2 * off) = (l + off) mod (2 * off)}"
  have off: "0 < off" using assms(1) by auto
  have p: "xor l off < 32" "xor l off mod (2 * off) = (l + off) mod (2 * off)" using lane_partner[OF assms(1) l] by auto
  have "l mod (2 * off) \<noteq> (l + off) mod (2 * off)"
  proof
    assume "l mod (2 * off) = (l + off) mod (2 * off)"
    then have "2 * off dvd off" by (metis add_diff_cancel_left' le_add1 mod_eq_dvd_iff_nat)
    then show False using off by (auto dest: dvd_imp_le)
  qed
  then have "?A \<inter> ?B = {}" by auto
  moreover have "{j. j < 32 \<and> j mod off = l mod off} = ?A \<union> ?B" using mod_half[OF off] by auto
  ultimately have "class_sum vs off l = class_sum vs (2 * off) l + (\<Sum>j\<in>?B. vs ! j)"
    by (simp add: class_sum_def sum.union_disjoint)
  then show "xor_round (real_ops lo) us off ! l = class_sum vs off l"
    using l p assms(2) by (simp add: xor_round_def shfl_xor_def class_sum_def)
qed

lemma warp_all_sum_real:
  assumes "length vs = 32" "l < 32"
  shows "warp_all_sum (real_ops lo) vs ! l = sum_list vs"
proof -
  let ?r = "xor_round (real_ops lo)"
  have "\<forall>l<32. vs ! l = class_sum vs (2 * 16) l"
  proof (intro allI impI)
    fix l :: nat assume "l < 32"
    then have "{j. j < 32 \<and> j mod (2 * 16) = l mod (2 * 16)} = {l}" by auto
    then show "vs ! l = class_sum vs (2 * 16) l" by (simp add: class_sum_def)
  qed
  then have "\<forall>l<32. ?r vs 16 ! l = class_sum vs (2 * 8) l" using xor_round_class[of 16 vs vs lo] by simp
  then have "\<forall>l<32. ?r (?r vs 16) 8 ! l = class_sum vs (2 * 4) l" using xor_round_class[of 8] by simp
  then have "\<forall>l<32. ?r (?r (?r vs 16) 8) 4 ! l = class_sum vs (2 * 2) l" using xor_round_class[of 4] by simp
  then have "\<forall>l<32. ?r (?r (?r (?r vs 16) 8) 4) 2 ! l = class_sum vs (2 * 1) l" using xor_round_class[of 2] by simp
  then have "\<forall>l<32. ?r (?r (?r (?r (?r vs 16) 8) 4) 2) 1 ! l = class_sum vs 1 l" using xor_round_class[of 1] by simp
  moreover have "class_sum vs 1 l = sum_list vs"
    using sum_nth[of vs] assms(1) by (simp add: class_sum_def lessThan_def)
  ultimately show ?thesis using assms(2) by (simp add: warp_all_sum_def)
qed

end
