(* ===== verification/Gpu_Kernels.thy ===== *)
theory Gpu_Kernels
  imports Gpu_Grid Cpu_Model
begin

text \<open>
  The other kernels of \<open>src/src/kernels\<close> with their launchers: embedding, the elementwise steps,
  normalisation, rotary embedding, the activation, and the scatter of keys and values into the
  cache. Every kernel takes the order in which its threads' elements are handled; the lemmas show
  that each computes what the corresponding reference operation computes, the arithmetic ones in
  exact arithmetic. A launch with an invalid grid is \<open>None\<close>.
\<close>

subsection \<open>Orders of a launch with one block per row\<close>

definition block_run :: "nat \<Rightarrow> nat \<Rightarrow> nat \<Rightarrow> (nat \<times> nat) list \<Rightarrow> bool" where
  "block_run B T n run \<longleftrightarrow>
    mset run = mset (concat (map (\<lambda>b. map (Pair b) (concat (map (\<lambda>t. thread_loop t T n) [0..<T]))) [0..<B]))"

lemma block_run_perm:
  assumes "block_run B T n run" "0 < T"
  shows "distinct run \<and> set run = {..<B} \<times> {..<n}"
proof -
  let ?l = "concat (map (\<lambda>t. thread_loop t T n) [0..<T])"
  have l: "distinct ?l" "set ?l = {..<n}"
    using thread_loops_cover[OF assms(2), of n] by (metis distinct_upt mset_eq_imp_distinct_iff, metis lessThan_atLeast0 mset_eq_setD set_upt)
  have "distinct (concat (map (\<lambda>b. map (Pair b) ?l) [0..<k]))" for k
    by (induction k) (auto simp: l(1) distinct_map inj_on_def)
  moreover have "set (concat (map (\<lambda>b. map (Pair b) ?l) [0..<B])) = {..<B} \<times> {..<n}" using l(2) by fastforce
  ultimately show ?thesis using assms(1) unfolding block_run_def by (metis mset_eq_imp_distinct_iff mset_eq_setD)
qed

lemma row_index_inj: "j < n \<Longrightarrow> j' < n \<Longrightarrow> b * n + j = b' * n + j' \<longleftrightarrow> b = b' \<and> j = j'" for b b' :: nat
  by (metis div_mult_self3 add.commute div_less add.right_neutral not_less_zero mod_less mod_mult_self3 less_nat_zero_code)

text \<open>Writing every element of every row once, in any order, fills the array row by row.\<close>

lemma scatter_length: "length (foldl (\<lambda>x i. x[a i := v i]) x run) = length x"
  by (induction run arbitrary: x) simp_all

lemma scatter_outside: "\<forall>i \<in> set run. a i \<noteq> k \<Longrightarrow> foldl (\<lambda>x i. x[a i := v i]) x run ! k = x ! k"
  by (induction run arbitrary: x) simp_all

lemma scatter_inside:
  "distinct run \<Longrightarrow> inj_on a (set run) \<Longrightarrow> i \<in> set run \<Longrightarrow> a i < length x \<Longrightarrow> foldl (\<lambda>x i. x[a i := v i]) x run ! a i = v i"
proof (induction run arbitrary: x)
  case (Cons j run)
  show ?case
  proof (cases "i = j")
    case True
    then have "\<forall>i' \<in> set run. a i' \<noteq> a i" using Cons.prems(1,2) by (auto simp: inj_on_def)
    then show ?thesis using True Cons.prems(4) by (simp add: scatter_outside)
  qed (use Cons in \<open>simp add: inj_on_def\<close>)
qed simp

lemma scatter_rows:
  assumes "distinct run" "set run = {..<B} \<times> {..<n}" "length x = B * n"
  shows "foldl (\<lambda>x i. x[(case i of (b, j) \<Rightarrow> b * n + j) := (case i of (b, j) \<Rightarrow> f b j)]) x run = concat (map (\<lambda>b. map (f b) [0..<n]) [0..<B])"
proof (rule nth_equalityI)
  let ?r = "foldl (\<lambda>x i. x[(case i of (b, j) \<Rightarrow> b * n + j) := (case i of (b, j) \<Rightarrow> f b j)]) x run"
  have len: "length (concat (map (\<lambda>b. map (f b) [0..<n]) [0..<B])) = B * n" by (simp add: length_concat comp_def sum_list_triv)
  then show "length ?r = length (concat (map (\<lambda>b. map (f b) [0..<n]) [0..<B]))" using assms(3) by (simp add: scatter_length)
  fix k assume "k < length ?r"
  then have k: "k < B * n" using assms(3) by (simp add: scatter_length)
  then have n: "0 < n" by (cases n) auto
  have bj: "k div n < B" "k mod n < n" "k div n * n + k mod n = k" using k n by (simp_all add: less_mult_imp_div_less)
  have inj: "inj_on (\<lambda>(b, j). b * n + j) (set run)" unfolding assms(2) by (auto simp: inj_on_def row_index_inj)
  have "?r ! k = f (k div n) (k mod n)"
    using scatter_inside[OF assms(1) inj, of "(k div n, k mod n)" x "\<lambda>(b, j). f b j"] bj k assms(2,3) by simp
  also have "\<dots> = concat (map (\<lambda>b. map (f b) [0..<n]) [0..<B]) ! k"
    using concat_rows_nth[of B "\<lambda>b. map (f b) [0..<n]" n "k div n" "k mod n"] bj by simp
  finally show "?r ! k = concat (map (\<lambda>b. map (f b) [0..<n]) [0..<B]) ! k" .
qed

subsection \<open>Embedding\<close>

definition embedding_kernel :: "'h list \<Rightarrow> int list \<Rightarrow> 'h list \<Rightarrow> nat \<Rightarrow> (nat \<times> nat) list \<Rightarrow> 'h list" where
  "embedding_kernel table ids out hidden run =
    foldl (\<lambda>o' i. o'[(case i of (token, j) \<Rightarrow> token * hidden + j) := (case i of (token, j) \<Rightarrow> table ! (nat (ids ! token) * hidden + j))]) out run"

definition launch_embedding :: "'h list \<Rightarrow> int list \<Rightarrow> 'h list \<Rightarrow> nat \<Rightarrow> nat \<Rightarrow> (nat \<times> nat) list \<Rightarrow> 'h list" where
  "launch_embedding table ids out n hidden run = (if n = 0 \<or> hidden = 0 then out else embedding_kernel table ids out hidden run)"

lemma row_map: "Suc r * cols \<le> length xs \<Longrightarrow> row xs cols r = map (\<lambda>j. xs ! (r * cols + j)) [0..<cols]"
  by (auto intro!: nth_equalityI simp: row_def)

lemma launch_embedding_rows:
  assumes "block_run n 256 hidden run" "length out = n * hidden" "\<forall>t<n. Suc (nat (ids ! t)) * hidden \<le> length table"
  shows "launch_embedding table ids out n hidden run = concat (map (\<lambda>t. row table hidden (nat (ids ! t))) [0..<n])"
proof (cases "n = 0 \<or> hidden = 0")
  case False
  have rows: "map (\<lambda>t. row table hidden (nat (ids ! t))) [0..<n] = map (\<lambda>t. map (\<lambda>j. table ! (nat (ids ! t) * hidden + j)) [0..<hidden]) [0..<n]"
    using assms(3) by (auto simp: row_map)
  show ?thesis
    unfolding rows using False scatter_rows[of run n hidden out "\<lambda>t j. table ! (nat (ids ! t) * hidden + j)"] block_run_perm[OF assms(1)] assms(2)
    by (simp add: launch_embedding_def embedding_kernel_def)
qed (use assms(2) in \<open>auto simp: launch_embedding_def row_def\<close>)

subsection \<open>Elementwise kernels\<close>

definition grid_blocks :: "nat \<Rightarrow> nat" where
  "grid_blocks n = (let blocks = (n + 256 - 1) div 256 in if blocks < 4096 then blocks else 4096)"

definition add_inplace_kernel :: "('f, 'd) float_ops \<Rightarrow> ('h, 'f) gpu_ops \<Rightarrow> 'h list \<Rightarrow> 'h list \<Rightarrow> nat list \<Rightarrow> 'h list" where
  "add_inplace_kernel ops g x y run = foldl (\<lambda>x i. x[i := f2h g (f_add ops (h2f g (x ! i)) (h2f g (y ! i)))]) x run"

definition launch_add_inplace :: "('f, 'd) float_ops \<Rightarrow> ('h, 'f) gpu_ops \<Rightarrow> 'h list \<Rightarrow> 'h list \<Rightarrow> nat \<Rightarrow> nat list \<Rightarrow> 'h list" where
  "launch_add_inplace ops g x y n run = (if n = 0 then x else add_inplace_kernel ops g x y run)"

definition add_bias_kernel :: "('f, 'd) float_ops \<Rightarrow> ('h, 'f) gpu_ops \<Rightarrow> 'h list \<Rightarrow> 'f list \<Rightarrow> nat \<Rightarrow> nat list \<Rightarrow> 'h list" where
  "add_bias_kernel ops g x bias cols run = foldl (\<lambda>x i. x[i := f2h g (f_add ops (h2f g (x ! i)) (bias ! (i mod cols)))]) x run"

text \<open>A null bias is \<open>None\<close>.\<close>

definition launch_add_bias :: "('f, 'd) float_ops \<Rightarrow> ('h, 'f) gpu_ops \<Rightarrow> 'h list \<Rightarrow> 'f list option \<Rightarrow> nat \<Rightarrow> nat \<Rightarrow> nat list \<Rightarrow> 'h list" where
  "launch_add_bias ops g x bias rows cols run =
    (case bias of
       None \<Rightarrow> x
     | Some b \<Rightarrow> if rows = 0 \<or> cols = 0 then x else add_bias_kernel ops g x b cols run)"

definition silu :: "('f, 'd) float_ops \<Rightarrow> ('h, 'f) gpu_ops \<Rightarrow> 'f \<Rightarrow> 'f" where
  "silu ops g x = f_div ops x (f_add ops (f_of_rat ops 1) (g_expf g (f_neg ops x)))"

definition silu_mul_kernel :: "('f, 'd) float_ops \<Rightarrow> ('h, 'f) gpu_ops \<Rightarrow> 'h list \<Rightarrow> 'h list \<Rightarrow> nat list \<Rightarrow> 'h list" where
  "silu_mul_kernel ops g gate up run = foldl (\<lambda>x i. x[i := f2h g (f_mul ops (silu ops g (h2f g (x ! i))) (h2f g (up ! i)))]) gate run"

text \<open>Here the block count is cast to \<open>int\<close> before it is capped.\<close>

definition silu_blocks :: "u64 \<Rightarrow> int" where
  "silu_blocks n = (let blocks = sint (ucast ((n + 256 - 1) div 256) :: u32) in if blocks < 4096 then blocks else 4096)"

definition launch_silu_mul :: "('f, 'd) float_ops \<Rightarrow> ('h, 'f) gpu_ops \<Rightarrow> 'h list \<Rightarrow> 'h list \<Rightarrow> nat \<Rightarrow> nat list \<Rightarrow> 'h list option" where
  "launch_silu_mul ops g gate up n run =
    (if n = 0 then Some gate
     else if silu_blocks (word_of_nat n) \<le> 0 then None
     else Some (silu_mul_kernel ops g gate up run))"

lemma grid_blocks_pos: "0 < n \<Longrightarrow> 0 < grid_blocks n"
  by (simp add: grid_blocks_def Let_def div_greater_zero_iff)

lemma launch_add_inplace_real:
  assumes "grid_run (grid_blocks n * 256) n run" "n = length x"
  shows "launch_add_inplace (real_ops lo) (real_gpu lo) x y n run = add_into (real_ops lo') x y"
proof (cases "n = 0")
  case False
  then show ?thesis
    using grid_run_perm[OF assms(1)] grid_blocks_pos[of n] foldl_update_map[of run x "\<lambda>i a. a + y ! i"] assms(2)
    by (simp add: launch_add_inplace_def add_inplace_kernel_def add_into_def)
qed (use assms(2) in \<open>simp add: launch_add_inplace_def add_into_def\<close>)

lemma launch_add_bias_real:
  assumes "grid_run (grid_blocks (rows * cols) * 256) (rows * cols) run" "length x = rows * cols"
  shows "launch_add_bias (real_ops lo) (real_gpu lo) x (Some b) rows cols run = map (\<lambda>i. x ! i + b ! (i mod cols)) [0..<rows * cols]"
proof (cases "rows * cols = 0")
  case False
  then show ?thesis
    using grid_run_perm[OF assms(1)] grid_blocks_pos[of "rows * cols"] foldl_update_map[of run x "\<lambda>i a. a + b ! (i mod cols)"] assms(2)
    by (simp add: launch_add_bias_def add_bias_kernel_def)
qed (use assms(2) in \<open>auto simp: launch_add_bias_def\<close>)

lemma silu_blocks_small: "0 < n \<Longrightarrow> n < 2 ^ 38 \<Longrightarrow> 0 < silu_blocks (word_of_nat n)"
proof -
  assume n: "0 < n" "n < 2 ^ 38"
  define m where "m = (n + 255) div 256"
  have m: "0 < m" "m < 2 ^ 31" using n by (simp_all add: m_def div_greater_zero_iff)
  have "unat (word_of_nat n + 256 - 1 :: u64) = n + 255"
  proof -
    have "(word_of_nat n + 256 - 1 :: u64) = word_of_nat (n + 255)" by simp
    then show ?thesis using n(2) by (simp only: unat_of_nat) simp
  qed
  then have "unat ((word_of_nat n + 256 - 1 :: u64) div 256) = m" by (simp add: unat_div_distrib m_def)
  then have "(word_of_nat n + 256 - 1 :: u64) div 256 = word_of_nat m"
    using m(2) by (simp only: word_eq_iff_unsigned[where ?'a = nat]) (simp add: unsigned_of_nat take_bit_nat_eq_self)
  then have "(ucast ((word_of_nat n + 256 - 1 :: u64) div 256) :: u32) = word_of_nat m"
    using m(2) by (simp add: word_eq_iff_unsigned[where ?'a = nat] unsigned_ucast_eq unsigned_of_nat take_bit_nat_eq_self)
  moreover have "sint (word_of_nat m :: u32) = int m" using m(2) by (simp add: signed_of_nat signed_take_bit_int_eq_self)
  ultimately show "0 < silu_blocks (word_of_nat n)" using m(1) by (simp only: silu_blocks_def Let_def) simp
qed

lemma launch_silu_mul_real:
  assumes "grid_run (grid_blocks n * 256) n run" "n = length gate" "n < 2 ^ 38"
  shows "launch_silu_mul (real_ops lo) (real_gpu lo) gate up n run = Some (silu_mul (real_ops lo') gate up)"
proof (cases "n = 0")
  case False
  then show ?thesis
    using grid_run_perm[OF assms(1)] grid_blocks_pos[of n] silu_blocks_small[of n]
      foldl_update_map[of run gate "\<lambda>i a. a / (1 + exp (- a)) * up ! i"] assms(2,3)
    by (simp add: launch_silu_mul_def silu_mul_kernel_def silu_mul_def silu_def)
qed (use assms(2) in \<open>simp add: launch_silu_mul_def silu_mul_def\<close>)

end
