(* ===== verification/Gpu_Rows.thy ===== *)
theory Gpu_Rows
  imports Gpu_Kernels
begin

text \<open>
  The kernels that work on whole rows: normalisation with its reduction over a block of 256
  threads, the rotation of pairs in place, and the scatter of keys and values to their slots.
\<close>

subsection \<open>RMSNorm\<close>

text \<open>The values of the block's 256 threads; the result is thread 0's.\<close>

definition block_reduce_sum :: "('f, 'd) float_ops \<Rightarrow> 'f list \<Rightarrow> 'f" where
  "block_reduce_sum ops vs =
    (let partial = map (\<lambda>w. warp_reduce_sum ops (take 32 (drop (w * 32) vs)) ! 0) [0..<8] in
     warp_reduce_sum ops (map (\<lambda>t. if t < 8 then partial ! t else f_of_rat ops 0) [0..<32]) ! 0)"

definition rms_thread :: "('f, 'd) float_ops \<Rightarrow> ('h, 'f) gpu_ops \<Rightarrow> 'h list \<Rightarrow> nat \<Rightarrow> nat \<Rightarrow> 'f" where
  "rms_thread ops g src cols t =
    foldl (\<lambda>acc j. f_add ops acc (f_mul ops (h2f g (src ! j)) (h2f g (src ! j)))) (f_of_rat ops 0) (thread_loop t 256 cols)"

definition inv_rms :: "('f, 'd) float_ops \<Rightarrow> ('h, 'f) gpu_ops \<Rightarrow> 'h list \<Rightarrow> nat \<Rightarrow> rat \<Rightarrow> 'f" where
  "inv_rms ops g src cols eps =
    g_rsqrt g (f_add ops (f_div ops (block_reduce_sum ops (map (rms_thread ops g src cols) [0..<256])) (f_of_rat ops (of_nat cols)))
      (f_of_rat ops eps))"

definition rmsnorm_kernel :: "('f, 'd) float_ops \<Rightarrow> ('h, 'f) gpu_ops \<Rightarrow> 'h list \<Rightarrow> 'f list \<Rightarrow> 'h list \<Rightarrow> nat \<Rightarrow> rat \<Rightarrow> (nat \<times> nat) list \<Rightarrow> 'h list" where
  "rmsnorm_kernel ops g x wt out cols eps run =
    foldl (\<lambda>o' i. o'[(case i of (r, j) \<Rightarrow> r * cols + j) :=
      (case i of (r, j) \<Rightarrow> f2h g (f_mul ops (f_mul ops (h2f g (row x cols r ! j)) (inv_rms ops g (row x cols r) cols eps)) (wt ! j)))]) out run"

definition launch_rmsnorm :: "('f, 'd) float_ops \<Rightarrow> ('h, 'f) gpu_ops \<Rightarrow> 'h list \<Rightarrow> 'f list \<Rightarrow> 'h list \<Rightarrow> nat \<Rightarrow> nat \<Rightarrow> rat \<Rightarrow> (nat \<times> nat) list \<Rightarrow> 'h list" where
  "launch_rmsnorm ops g x wt out rows cols eps run =
    (if rows = 0 \<or> cols = 0 then out else rmsnorm_kernel ops g x wt out cols eps run)"

lemma chunk_sums: "(\<Sum>w<n. sum_list (take k (drop (w * k) vs))) = sum_list (take (n * k) vs)" for vs :: "real list"
proof (induction n)
  case (Suc n)
  have "take (Suc n * k) vs = take (n * k) vs @ take k (drop (n * k) vs)" using take_add[of "n * k" k vs] by (simp add: add.commute)
  then show ?case using Suc by simp
qed simp

lemma block_reduce_sum_real:
  assumes "length vs = 256"
  shows "block_reduce_sum (real_ops lo) vs = sum_list vs"
proof -
  let ?p = "\<lambda>w. sum_list (take 32 (drop (w * 32) vs))"
  have part: "warp_reduce_sum (real_ops lo) (take 32 (drop (w * 32) vs)) ! 0 = ?p w" if "w < 8" for w
    using that assms by (intro warp_reduce_sum_real) simp
  have "block_reduce_sum (real_ops lo) vs = sum_list (map (\<lambda>t. if t < 8 then ?p t else 0) [0..<32])"
    unfolding block_reduce_sum_def Let_def
    by (subst warp_reduce_sum_real) (auto intro!: arg_cong[of _ _ sum_list] map_cong simp: part simp del: upt_rec_numeral)
  also have "\<dots> = (\<Sum>t<32. if t < 8 then ?p t else 0)" by (simp only: interv_sum_list_conv_sum_set_nat set_upt lessThan_atLeast0)
  also have "\<dots> = (\<Sum>t<8. ?p t)" by (intro sum.mono_neutral_cong_right) auto
  finally show ?thesis using chunk_sums[of 32 vs 8] assms by simp
qed

lemma rms_threads_sum:
  "sum_list (map (rms_thread (real_ops lo) (real_gpu lo) src cols) [0..<256]) = (\<Sum>j\<leftarrow>[0..<cols]. src ! j * src ! j)"
proof -
  let ?sq = "\<lambda>j. src ! j * src ! j"
  have th: "rms_thread (real_ops lo) (real_gpu lo) src cols = (\<lambda>t. sum_list (map ?sq (thread_loop t 256 cols)))"
    by (simp add: rms_thread_def foldl_plus fun_eq_iff)
  have "sum_list (map f (concat xss)) = (\<Sum>xs\<leftarrow>xss. sum_list (map f xs))" for f :: "nat \<Rightarrow> real" and xss by (induction xss) simp_all
  then have "sum_list (map (rms_thread (real_ops lo) (real_gpu lo) src cols) [0..<256]) =
      sum_list (map ?sq (concat (map (\<lambda>t. thread_loop t 256 cols) [0..<256])))"
    unfolding th by (simp add: comp_def del: upt_rec_numeral)
  also have "\<dots> = sum_mset (image_mset ?sq (mset (concat (map (\<lambda>t. thread_loop t 256 cols) [0..<256]))))"
    by (simp only: mset_map[symmetric] sum_mset_sum_list)
  also have "\<dots> = sum_mset (image_mset ?sq (mset [0..<cols]))" by (simp only: thread_loops_cover[OF zero_less_numeral])
  finally show ?thesis by (simp only: mset_map[symmetric] sum_mset_sum_list)
qed

lemma launch_rmsnorm_real:
  assumes "block_run rows 256 cols run" "length out = rows * cols"
  shows "launch_rmsnorm (real_ops lo) (real_gpu lo) x wt out rows cols eps run = rmsnorm (real_ops lo') x wt rows cols eps"
proof (cases "rows = 0 \<or> cols = 0")
  case False
  have inv: "inv_rms (real_ops lo) (real_gpu lo) src cols eps = 1 / sqrt ((\<Sum>j\<leftarrow>[0..<cols]. src ! j * src ! j) / real cols + of_rat eps)" for src
    using rms_threads_sum[of lo src cols] by (simp add: inv_rms_def block_reduce_sum_real del: upt_rec_numeral)
  have fold: "foldl (\<lambda>s i. s + src ! i * src ! i) 0 xs = (\<Sum>j\<leftarrow>xs. src ! j * src ! j)" for src :: "real list" and xs
    using foldl_plus[of "\<lambda>i. src ! i * src ! i" 0 xs] by simp
  show ?thesis
    using False block_run_perm[OF assms(1)] assms(2)
      scatter_rows[of run rows cols out "\<lambda>r j. row x cols r ! j * inv_rms (real_ops lo) (real_gpu lo) (row x cols r) cols eps * wt ! j"]
    by (simp add: launch_rmsnorm_def rmsnorm_kernel_def rmsnorm_def Let_def inv fold)
qed (use assms(2) in \<open>auto simp: launch_rmsnorm_def rmsnorm_def\<close>)

subsection \<open>Storing keys and values\<close>

definition store_kv_kernel ::
  "'h list \<Rightarrow> 'h list \<Rightarrow> nat list \<Rightarrow> nat \<Rightarrow> 'h list \<times> 'h list \<Rightarrow> (nat \<times> nat) list \<Rightarrow> 'h list \<times> 'h list" where
  "store_kv_kernel k v slots kvd caches run =
    foldl (\<lambda>c i. case c of (kc, vc) \<Rightarrow> case i of (token, d) \<Rightarrow>
      (kc[slots ! token * kvd + d := k ! (token * kvd + d)], vc[slots ! token * kvd + d := v ! (token * kvd + d)])) caches run"

definition launch_store_kv ::
  "'h list \<Rightarrow> 'h list \<Rightarrow> nat list \<Rightarrow> 'h list \<times> 'h list \<Rightarrow> nat \<Rightarrow> nat \<Rightarrow> (nat \<times> nat) list \<Rightarrow> 'h list \<times> 'h list" where
  "launch_store_kv k v slots caches n kvd run = (if n = 0 \<or> kvd = 0 then caches else store_kv_kernel k v slots kvd caches run)"

text \<open>One of the two scatters.\<close>

definition scatter_kv :: "'h list \<Rightarrow> nat list \<Rightarrow> nat \<Rightarrow> 'h list \<Rightarrow> (nat \<times> nat) list \<Rightarrow> 'h list" where
  "scatter_kv k slots kvd kc run =
    foldl (\<lambda>c i. c[(case i of (token, d) \<Rightarrow> slots ! token * kvd + d) := (case i of (token, d) \<Rightarrow> k ! (token * kvd + d))]) kc run"

lemma store_kv_split: "store_kv_kernel k v slots kvd (kc, vc) run = (scatter_kv k slots kvd kc run, scatter_kv v slots kvd vc run)"
  unfolding store_kv_kernel_def scatter_kv_def by (induction run arbitrary: kc vc) (auto split: prod.split)

text \<open>With distinct slots the order of the writes does not matter, and the cache is the one the
  reference's loop leaves.\<close>

lemma scatter_kv_rows:
  assumes "distinct run" "set run = {..<n} \<times> {..<kvd}" "inj_on ((!) slots) {..<n}" "length k = n * kvd"
    "length kc = S * kvd" "\<forall>t<n. slots ! t < S"
  shows "scatter_kv k slots kvd kc run = foldl (\<lambda>c i. put_row c kvd (slots ! i) (row k kvd i)) kc [0..<n]" (is "?l = ?r")
proof (rule nth_equalityI)
  have rows: "\<forall>i<n. length (row k kvd i) = kvd \<and> Suc (slots ! i) * kvd \<le> length kc"
  proof (intro allI impI conjI)
    fix i assume i: "i < n"
    then have "Suc i * kvd \<le> length k" using assms(4) mult_le_mono1[of "Suc i" n kvd] by simp
    then show "length (row k kvd i) = kvd" by (simp add: row_def)
    show "Suc (slots ! i) * kvd \<le> length kc" unfolding assms(5) using assms(6) i by (intro mult_le_mono1 Suc_leI) blast
  qed
  note pre = store_prefix[OF rows assms(3)]
  show "length ?l = length ?r" using pre by (simp add: scatter_kv_def scatter_length)
  fix e assume "e < length ?l"
  then have e: "e < S * kvd" using assms(5) by (simp add: scatter_kv_def scatter_length)
  then have kvd: "0 < kvd" by (cases kvd) auto
  let ?s = "e div kvd" and ?d = "e mod kvd"
  have sd: "?s < S" "?d < kvd" "?s * kvd + ?d = e" using e kvd by (simp_all add: less_mult_imp_div_less)
  have nth: "c ! e = row c kvd ?s ! ?d" if "length c = S * kvd" for c :: "'a list"
  proof -
    have "Suc ?s * kvd \<le> length c" using that sd(1) mult_le_mono1[of "Suc ?s" S kvd] by simp
    then show ?thesis using sd by (simp add: row_map)
  qed
  have inj: "inj_on (\<lambda>(t, d). slots ! t * kvd + d) (set run)"
    unfolding assms(2) using assms(3) by (auto simp: inj_on_def row_index_inj)
  show "?l ! e = ?r ! e"
  proof (cases "?s \<in> (!) slots ` {..<n}")
    case True
    then obtain t where t: "t < n" "slots ! t = ?s" by auto
    have "?l ! e = k ! (t * kvd + ?d)"
      using scatter_inside[OF assms(1) inj, of "(t, ?d)" kc "\<lambda>(t, d). k ! (t * kvd + d)"] t sd e assms(2,5)
      by (simp add: scatter_kv_def)
    moreover have "row k kvd t ! ?d = k ! (t * kvd + ?d)"
      using t(1) sd(2) assms(4) mult_le_mono1[of "Suc t" n kvd] by (simp add: row_map)
    ultimately show ?thesis using nth[of ?r] pre t assms(5) by auto
  next
    case False
    have "slots ! t * kvd + d \<noteq> e" if "t < n" "d < kvd" for t d
      using that sd False row_index_inj[of d kvd ?d "slots ! t" ?s] by (metis image_eqI lessThan_iff)
    then have "?l ! e = kc ! e" unfolding scatter_kv_def by (intro scatter_outside) (auto simp: assms(2))
    then show ?thesis using nth[of ?r] nth[of kc] pre False assms(5) by auto
  qed
qed

subsection \<open>Rotary embedding\<close>

definition rope_pair :: "('f, 'd) float_ops \<Rightarrow> ('h, 'f) gpu_ops \<Rightarrow> nat list \<Rightarrow> 'f list \<Rightarrow> 'f list \<Rightarrow> nat \<Rightarrow> nat \<Rightarrow> 'h list \<Rightarrow> nat \<times> nat \<times> nat \<Rightarrow> 'h list" where
  "rope_pair ops g positions cos_table sin_table hdim stride x it =
    (case it of (token, head, i) \<Rightarrow>
     let half = hdim div 2; v = token * stride + head * hdim; t = positions ! token * half + i;
         c = cos_table ! t; s = sin_table ! t; a = h2f g (x ! (v + i)); b = h2f g (x ! (v + i + half)) in
     x[v + i := f2h g (f_sub ops (f_mul ops a c) (f_mul ops b s)),
       v + i + half := f2h g (f_add ops (f_mul ops b c) (f_mul ops a s))])"

definition rope_kernel :: "('f, 'd) float_ops \<Rightarrow> ('h, 'f) gpu_ops \<Rightarrow> 'h list \<Rightarrow> nat list \<Rightarrow> 'f list \<Rightarrow> 'f list \<Rightarrow> nat \<Rightarrow> nat \<Rightarrow> (nat \<times> nat \<times> nat) list \<Rightarrow> 'h list" where
  "rope_kernel ops g x positions cos_table sin_table hdim stride run = foldl (rope_pair ops g positions cos_table sin_table hdim stride) x run"

definition rope_threads :: "nat \<Rightarrow> nat" where
  "rope_threads hdim = (hdim div 2 + 31) div 32 * 32"

text \<open>The blocks are the tokens and heads; a thread past the last pair returns.\<close>

definition rope_run :: "nat \<Rightarrow> nat \<Rightarrow> nat \<Rightarrow> (nat \<times> nat \<times> nat) list \<Rightarrow> bool" where
  "rope_run n heads hdim run \<longleftrightarrow>
    mset run = mset (concat (map (\<lambda>token. concat (map (\<lambda>head. map (\<lambda>i. (token, head, i))
      (filter (\<lambda>i. i < hdim div 2) [0..<rope_threads hdim])) [0..<heads])) [0..<n]))"

definition launch_rope :: "('f, 'd) float_ops \<Rightarrow> ('h, 'f) gpu_ops \<Rightarrow> 'h list \<Rightarrow> nat list \<Rightarrow> 'f list \<Rightarrow> 'f list \<Rightarrow> nat \<Rightarrow> nat \<Rightarrow> nat \<Rightarrow> nat \<Rightarrow> (nat \<times> nat \<times> nat) list \<Rightarrow> 'h list option" where
  "launch_rope ops g x positions cos_table sin_table n heads hdim stride run =
    (if n = 0 \<or> heads = 0 \<or> hdim = 0 then Some x
     else if rope_threads hdim = 0 \<or> 1024 < rope_threads hdim then None
     else Some (rope_kernel ops g x positions cos_table sin_table hdim stride run))"

lemma rope_run_perm:
  assumes "rope_run n heads hdim run"
  shows "distinct run \<and> set run = {..<n} \<times> {..<heads} \<times> {..<hdim div 2}"
proof -
  let ?is = "filter (\<lambda>i. i < hdim div 2) [0..<rope_threads hdim]"
  have ii: "set ?is = {..<hdim div 2}"
  proof -
    have "hdim div 2 \<le> rope_threads hdim" unfolding rope_threads_def by linarith
    then show ?thesis by auto
  qed
  have "distinct (concat (map (\<lambda>head. map (\<lambda>i. (token, head, i)) ?is) [0..<h]))" for token h
    by (induction h) (auto simp: distinct_map inj_on_def)
  then have "distinct (concat (map (\<lambda>token. concat (map (\<lambda>head. map (\<lambda>i. (token, head, i)) ?is) [0..<heads])) [0..<k]))" for k
    by (induction k) auto
  moreover have "set (concat (map (\<lambda>token. concat (map (\<lambda>head. map (\<lambda>i. (token, head, i)) ?is) [0..<heads])) [0..<n])) =
      {..<n} \<times> {..<heads} \<times> {..<hdim div 2}" using ii by fastforce
  ultimately show ?thesis using assms unfolding rope_run_def by (metis mset_eq_imp_distinct_iff mset_eq_setD)
qed

text \<open>Updates of disjoint pairs, in any order.\<close>

lemma pairs_outside:
  "\<forall>it \<in> set run. A it \<noteq> k \<and> B it \<noteq> k \<Longrightarrow>
   foldl (\<lambda>x it. x[A it := F it (x ! A it) (x ! B it), B it := G it (x ! A it) (x ! B it)]) x run ! k = x ! k"
  by (induction run arbitrary: x) simp_all

lemma pairs_length:
  "length (foldl (\<lambda>x it. x[A it := F it (x ! A it) (x ! B it), B it := G it (x ! A it) (x ! B it)]) x run) = length x"
  by (induction run arbitrary: x) simp_all

lemma pairs_inside:
  assumes "distinct run" "it \<in> set run" "inj_on A (set run)" "inj_on B (set run)" "\<forall>i \<in> set run. \<forall>j \<in> set run. A i \<noteq> B j"
    "A it < length x" "B it < length x"
  shows "foldl (\<lambda>x it. x[A it := F it (x ! A it) (x ! B it), B it := G it (x ! A it) (x ! B it)]) x run ! A it = F it (x ! A it) (x ! B it) \<and>
    foldl (\<lambda>x it. x[A it := F it (x ! A it) (x ! B it), B it := G it (x ! A it) (x ! B it)]) x run ! B it = G it (x ! A it) (x ! B it)"
  using assms
proof (induction run arbitrary: x)
  case (Cons j run)
  let ?x = "x[A j := F j (x ! A j) (x ! B j), B j := G j (x ! A j) (x ! B j)]"
  have ne: "A j \<noteq> B j" "A it \<noteq> B j" "A j \<noteq> B it" using Cons.prems(2,5) by auto
  show ?case
  proof (cases "it = j")
    case True
    then have "\<forall>i \<in> set run. A i \<noteq> A it \<and> B i \<noteq> A it" "\<forall>i \<in> set run. A i \<noteq> B it \<and> B i \<noteq> B it"
      using Cons.prems(1,3,4,5) by (auto simp: inj_on_def)
    then show ?thesis using True ne Cons.prems(6,7) by (simp add: pairs_outside)
  next
    case False
    then have "A j \<noteq> A it" "B j \<noteq> B it" using Cons.prems(2,3,4) by (auto simp: inj_on_def)
    then have "?x ! A it = x ! A it" "?x ! B it = x ! B it" using ne by (simp_all add: nth_list_update)
    moreover have "distinct run" "it \<in> set run" "inj_on A (set run)" "inj_on B (set run)" "\<forall>i \<in> set run. \<forall>j \<in> set run. A i \<noteq> B j"
      using False Cons.prems by (auto simp: inj_on_def)
    ultimately show ?thesis using Cons.IH[of ?x] Cons.prems(6,7) by simp
  qed
qed simp

lemma two_level_index:
  fixes token head j heads hdim :: nat
  assumes "head < heads" "j < hdim"
  shows "(token * (heads * hdim) + head * hdim + j) div (heads * hdim) = token"
    "(token * (heads * hdim) + head * hdim + j) mod (heads * hdim) = head * hdim + j"
    "(head * hdim + j) div hdim = head" "(head * hdim + j) mod hdim = j"
  using assms row_index[OF assms] by (simp_all add: add.assoc)

lemma row_nth: "j < cols \<Longrightarrow> r * cols + j < length xs \<Longrightarrow> row xs cols r ! j = xs ! (r * cols + j)"
  by (simp add: row_def)

lemma rope_inplace_nth:
  assumes "head < heads" "j < hdim" "length xr = heads * hdim" "pos * (hdim div 2) \<le> length (rt_cos t)" "pos * (hdim div 2) \<le> length (rt_sin t)"
  shows "rope_inplace (real_ops lo) xr heads hdim pos t ! (head * hdim + j) =
    (let half = hdim div 2; k = head * hdim + j; c = (\<lambda>i. rt_cos t ! (pos * half + i)); s = (\<lambda>i. rt_sin t ! (pos * half + i)) in
     if j < half then xr ! k * c j - xr ! (k + half) * s j
     else if j < 2 * half then xr ! k * c (j - half) + xr ! (k - half) * s (j - half)
     else xr ! k)"
  using assms two_level_index(3,4)[OF assms(1,2)] row_index[OF assms(1,2)]
  by (simp add: rope_inplace_def Let_def)

text \<open>Where the first element of a pair is, and the disjointness of the pairs of a launch.\<close>

definition pair_at :: "nat \<Rightarrow> nat \<Rightarrow> nat \<times> nat \<times> nat \<Rightarrow> nat" where
  "pair_at heads hdim it = (case it of (token, head, i) \<Rightarrow> token * (heads * hdim) + head * hdim + i)"

lemma pair_at_eq:
  assumes "h < heads" "h' < heads" "i + d < hdim" "i' + d' < hdim"
  shows "pair_at heads hdim (t, h, i) + d = pair_at heads hdim (t', h', i') + d' \<longleftrightarrow> t = t' \<and> h = h' \<and> i + d = i' + d'"
  using two_level_index(1,2)[OF assms(1,3), of t] two_level_index(3,4)[OF assms(1,3)]
    two_level_index(1,2)[OF assms(2,4), of t'] two_level_index(3,4)[OF assms(2,4)]
  unfolding pair_at_def by (metis (no_types, lifting) add.assoc case_prod_conv)

lemma pair_at_inside:
  assumes "tok < n" "head < heads" "i < hdim"
  shows "pair_at heads hdim (tok, head, i) < n * (heads * hdim)" "head * hdim + i < heads * hdim"
  using row_index[OF assms(2,3)] row_index[OF assms(1) row_index[OF assms(2,3)]] by (simp_all add: pair_at_def add.assoc)

lemma pair_cases:
  fixes heads hdim :: nat
  assumes "T \<subseteq> UNIV \<times> {..<heads} \<times> {..<hdim div 2}" "it \<in> T"
  obtains t h i where "it = (t, h, i)" "h < heads" "i < hdim div 2" "i + hdim div 2 < hdim"
proof -
  obtain t h i where it: "it = (t, h, i)" by (metis prod_cases3)
  then have "h < heads" "i < hdim div 2" using assms by auto
  then show ?thesis using that[OF it] by simp
qed

lemma pairs_apart:
  assumes "T \<subseteq> UNIV \<times> {..<heads} \<times> {..<hdim div 2}"
  shows "inj_on (pair_at heads hdim) T" "inj_on (\<lambda>it. pair_at heads hdim it + hdim div 2) T"
    "\<forall>i \<in> T. \<forall>j \<in> T. pair_at heads hdim i \<noteq> pair_at heads hdim j + hdim div 2"
proof -
  have "a = b" if ab: "a \<in> T" "b \<in> T" "pair_at heads hdim a = pair_at heads hdim b" for a b
  proof -
    obtain t h i where a: "a = (t, h, i)" "h < heads" "i < hdim div 2" "i + hdim div 2 < hdim" by (rule pair_cases[OF assms ab(1)])
    obtain t' h' i' where b: "b = (t', h', i')" "h' < heads" "i' < hdim div 2" "i' + hdim div 2 < hdim" by (rule pair_cases[OF assms ab(2)])
    show ?thesis using ab(3) pair_at_eq[OF a(2) b(2), of i 0 hdim i' 0 t t'] a b by simp
  qed
  then show "inj_on (pair_at heads hdim) T" "inj_on (\<lambda>it. pair_at heads hdim it + hdim div 2) T" by (simp_all add: inj_on_def)
  show "\<forall>i \<in> T. \<forall>j \<in> T. pair_at heads hdim i \<noteq> pair_at heads hdim j + hdim div 2"
  proof (intro ballI notI)
    fix a b assume ab: "a \<in> T" "b \<in> T" "pair_at heads hdim a = pair_at heads hdim b + hdim div 2"
    obtain t h i where a: "a = (t, h, i)" "h < heads" "i < hdim div 2" "i + hdim div 2 < hdim" by (rule pair_cases[OF assms ab(1)])
    obtain t' h' i' where b: "b = (t', h', i')" "h' < heads" "i' < hdim div 2" "i' + hdim div 2 < hdim" by (rule pair_cases[OF assms ab(2)])
    show False using ab(3) pair_at_eq[OF a(2) b(2), of i 0 hdim i' "hdim div 2" t t'] a b by simp
  qed
qed

text \<open>Every element lies in one head of one row.\<close>

lemma element_of_head:
  fixes e n heads hdim :: nat
  assumes "e < n * (heads * hdim)"
  obtains tok head j where "tok < n" "head < heads" "j < hdim" "e = pair_at heads hdim (tok, head, j)"
proof -
  define S where "S = heads * hdim"
  have S: "0 < S" "0 < hdim" using assms by (auto simp: S_def intro: Nat.gr0I)
  have "e div S < n" "e mod S mod hdim < hdim" using assms S(2) by (simp_all add: S_def less_mult_imp_div_less)
  moreover have "e mod S div hdim < heads"
    using mod_less_divisor[OF S(1), of e] unfolding S_def by (rule less_mult_imp_div_less)
  moreover have "e = pair_at heads hdim (e div S, e mod S div hdim, e mod S mod hdim)"
    by (simp add: pair_at_def S_def[symmetric] add.assoc)
  ultimately show ?thesis using that by blast
qed

text \<open>What the kernel leaves in the three kinds of elements: the first of a pair, the second, and the
  last of an odd head.\<close>

lemma rope_kernel_nth:
  fixes positions tb heads hdim n x lo
  defines "c \<equiv> \<lambda>tok i. rt_cos tb ! (positions ! tok * (hdim div 2) + i)" and "s \<equiv> \<lambda>tok i. rt_sin tb ! (positions ! tok * (hdim div 2) + i)"
    and "y \<equiv> \<lambda>run. rope_kernel (real_ops lo) (real_gpu lo) x positions (rt_cos tb) (rt_sin tb) hdim (heads * hdim) run"
    and "k \<equiv> \<lambda>tok head j. pair_at heads hdim (tok, head, j)"
  assumes "rope_run n heads hdim run" "length x = n * (heads * hdim)" "tok < n" "head < heads"
  shows "length (y run) = length x"
    "i < hdim div 2 \<Longrightarrow> y run ! k tok head i = x ! k tok head i * c tok i - x ! (k tok head i + hdim div 2) * s tok i"
    "i < hdim div 2 \<Longrightarrow> y run ! (k tok head i + hdim div 2) = x ! (k tok head i + hdim div 2) * c tok i + x ! k tok head i * s tok i"
    "2 * (hdim div 2) \<le> j \<Longrightarrow> j < hdim \<Longrightarrow> y run ! k tok head j = x ! k tok head j"
proof -
  define A B where "A = pair_at heads hdim" and "B = (\<lambda>it. pair_at heads hdim it + hdim div 2)"
  define F where "F = (\<lambda>(tok, head :: nat, i) a b. a * c tok i - b * s tok i)"
  define G where "G = (\<lambda>(tok, head :: nat, i) a b. b * c tok i + a * s tok i)"
  have y: "y run = foldl (\<lambda>x it. x[A it := F it (x ! A it) (x ! B it), B it := G it (x ! A it) (x ! B it)]) x run"
    unfolding y_def rope_kernel_def
    by (intro arg_cong[of _ _ "\<lambda>f. foldl f x run"] ext) (auto simp: rope_pair_def A_def B_def F_def G_def c_def s_def pair_at_def Let_def)
  note run = rope_run_perm[OF assms(5)]
  then have sub: "set run \<subseteq> UNIV \<times> {..<heads} \<times> {..<hdim div 2}" by (simp add: subset_iff)
  show "length (y run) = length x" unfolding y by (rule pairs_length)
  {
    assume i: "i < hdim div 2"
    have mem: "(tok, head, i) \<in> set run" using run assms(7,8) i by simp
    have "i + hdim div 2 < hdim" using i by linarith
    from pair_at_inside(1)[OF assms(7,8) this] have inside: "A (tok, head, i) < length x" "B (tok, head, i) < length x"
      by (simp_all add: A_def B_def assms(6) pair_at_def)
    have apart: "inj_on A (set run)" "inj_on B (set run)" "\<forall>i \<in> set run. \<forall>j \<in> set run. A i \<noteq> B j"
      using pairs_apart[OF sub] by (simp_all add: A_def B_def)
    note eqs = pairs_inside[OF conjunct1[OF run] mem apart inside, of F G]
    have AB: "A (tok, head, i) = k tok head i" "B (tok, head, i) = k tok head i + hdim div 2" by (simp_all only: A_def B_def k_def)
    have FG: "F (tok, head, i) a b = a * c tok i - b * s tok i" "G (tok, head, i) a b = b * c tok i + a * s tok i" for a b
      by (simp_all only: F_def G_def prod.case)
    show "y run ! k tok head i = x ! k tok head i * c tok i - x ! (k tok head i + hdim div 2) * s tok i"
      "y run ! (k tok head i + hdim div 2) = x ! (k tok head i + hdim div 2) * c tok i + x ! k tok head i * s tok i"
      using eqs unfolding y AB FG by blast+
  }
  assume j: "2 * (hdim div 2) \<le> j" "j < hdim"
  have "A it \<noteq> k tok head j \<and> B it \<noteq> k tok head j" if mem: "it \<in> set run" for it
  proof -
    obtain t h i where it: "it = (t, h, i)" "h < heads" "i < hdim div 2" "i + hdim div 2 < hdim" by (rule pair_cases[OF sub mem])
    then show ?thesis
      using pair_at_eq[OF it(2) assms(8), of i 0 hdim j 0 t tok] pair_at_eq[OF it(2) assms(8), of i "hdim div 2" hdim j 0 t tok] j
      by (auto simp: A_def B_def k_def)
  qed
  then show "y run ! k tok head j = x ! k tok head j" unfolding y by (intro pairs_outside) simp
qed

lemma rope_rows_nth:
  assumes "length x = n * (heads * hdim)" "tok < n" "head < heads" "j < hdim"
    "positions ! tok * (hdim div 2) \<le> length (rt_cos tb)" "positions ! tok * (hdim div 2) \<le> length (rt_sin tb)"
  defines "k \<equiv> pair_at heads hdim (tok, head, j)" and "half \<equiv> hdim div 2"
    and "c \<equiv> \<lambda>i. rt_cos tb ! (positions ! tok * (hdim div 2) + i)" and "s \<equiv> \<lambda>i. rt_sin tb ! (positions ! tok * (hdim div 2) + i)"
  shows "concat (map (\<lambda>tok. rope_inplace (real_ops lo) (row x (heads * hdim) tok) heads hdim (positions ! tok) tb) [0..<n]) ! k =
    (if j < half then x ! k * c j - x ! (k + half) * s j
     else if j < 2 * half then x ! k * c (j - half) + x ! (k - half) * s (j - half)
     else x ! k)"
proof -
  let ?S = "heads * hdim" and ?row = "\<lambda>tok. rope_inplace (real_ops lo) (row x (heads * hdim) tok) heads hdim (positions ! tok) tb"
  have lenrow: "length (row x ?S t) = ?S" if "t < n" for t
    using that assms(1) mult_le_mono1[of "Suc t" n ?S] by (simp add: row_def)
  have k: "k = tok * ?S + (head * hdim + j)" by (simp add: k_def pair_at_def add.assoc)
  have xr: "row x ?S tok ! (head * hdim + i) = x ! (tok * ?S + (head * hdim + i))" if "i < hdim" for i
    using row_index[OF assms(2) row_index[OF assms(3) that]] row_index[OF assms(3) that] assms(1) by (intro row_nth) simp_all
  have "concat (map ?row [0..<n]) ! k = ?row tok ! (head * hdim + j)"
    unfolding k using lenrow assms(2) row_index[OF assms(3,4)] by (intro concat_rows_nth) (simp_all add: rope_inplace_def Let_def)
  also note rope_inplace_nth[OF assms(3,4) lenrow[OF assms(2)] assms(5,6), unfolded Let_def]
  also have "row x ?S tok ! (head * hdim + j) = x ! k" using xr[OF assms(4)] by (simp add: k)
  finally show ?thesis
    using xr[of "j + half"] xr[OF less_imp_diff_less[OF assms(4)], of half] assms(4) unfolding k c_def s_def half_def
    by (cases "j < hdim div 2") (simp_all add: add.assoc)
qed

lemma launch_rope_real:
  assumes "rope_run n heads hdim run" "length x = n * (heads * hdim)"
    "\<forall>t<n. positions ! t * (hdim div 2) \<le> length (rt_cos tb) \<and> positions ! t * (hdim div 2) \<le> length (rt_sin tb)"
    "hdim = 0 \<or> 0 < rope_threads hdim \<and> rope_threads hdim \<le> 1024"
  shows "launch_rope (real_ops lo) (real_gpu lo) x positions (rt_cos tb) (rt_sin tb) n heads hdim (heads * hdim) run =
    Some (concat (map (\<lambda>tok. rope_inplace (real_ops lo') (row x (heads * hdim) tok) heads hdim (positions ! tok) tb) [0..<n]))"
proof (cases "n = 0 \<or> heads = 0 \<or> hdim = 0")
  case True
  then show ?thesis using assms(2) by (auto simp: launch_rope_def rope_inplace_def row_def)
next
  case False
  let ?y = "rope_kernel (real_ops lo) (real_gpu lo) x positions (rt_cos tb) (rt_sin tb) hdim (heads * hdim) run"
  let ?z = "concat (map (\<lambda>tok. rope_inplace (real_ops lo') (row x (heads * hdim) tok) heads hdim (positions ! tok) tb) [0..<n])"
  have "length (row x (heads * hdim) t) = heads * hdim" if "t < n" for t
    using that assms(2) mult_le_mono1[of "Suc t" n "heads * hdim"] by (simp add: row_def)
  then have lenz: "length ?z = n * (heads * hdim)" by (intro concat_rows_length) (simp add: rope_inplace_def Let_def)
  have leny: "length ?y = n * (heads * hdim)" using rope_kernel_nth(1)[OF assms(1,2), of 0 0] False assms(2) by simp
  have "?y = ?z"
  proof (rule nth_equalityI)
    fix e assume "e < length ?y"
    then obtain tok head j where ix: "tok < n" "head < heads" "j < hdim" "e = pair_at heads hdim (tok, head, j)"
      using element_of_head leny by metis
    have second: "pair_at heads hdim (tok, head, j - hdim div 2) + hdim div 2 = e" "e - hdim div 2 = pair_at heads hdim (tok, head, j - hdim div 2)"
      if "\<not> j < hdim div 2" using that ix(4) by (simp_all add: pair_at_def)
    have fits: "positions ! tok * (hdim div 2) \<le> length (rt_cos tb)" "positions ! tok * (hdim div 2) \<le> length (rt_sin tb)"
      using assms(3) ix(1) by simp_all
    note y = rope_kernel_nth(2,3,4)[OF assms(1,2) ix(1,2), where positions = positions and tb = tb and lo = lo]
    note z = rope_rows_nth[OF assms(2) ix(1,2,3) fits, of lo', folded ix(4)]
    consider "j < hdim div 2" | "\<not> j < hdim div 2" "j < 2 * (hdim div 2)" | "2 * (hdim div 2) \<le> j" by linarith
    then show "?y ! e = ?z ! e"
    proof cases
      case 1
      then show ?thesis unfolding z using y(1)[OF 1] by (simp add: ix(4))
    next
      case 2
      then have "j - hdim div 2 < hdim div 2" by linarith
      from y(2)[OF this] show ?thesis unfolding z using 2 second[OF 2(1)] by simp
    next
      case 3
      then show ?thesis unfolding z using y(3)[OF 3 ix(3)] by (simp add: ix(4))
    qed
  qed (use lenz leny in simp)
  then show ?thesis using False assms(4) by (simp add: launch_rope_def)
qed

end
