(* ===== verification/Gpu_Attention.thy ===== *)
theory Gpu_Attention
  imports Gpu_Grid Cpu_Ops
begin

text \<open>
  The paged attention kernels: \<open>attention_decode.cu\<close>, one block per token and query head, whose
  threads split the history by position and merge their partial results in a tree, and
  \<open>attention_decode_gqa.cu\<close>, one block per token and key head, whose warps split the history and
  whose lanes split the head's dimensions. Both carry a running maximum and sum instead of the
  score row. The lemmas show that, in exact arithmetic, both compute what \<open>paged_attention_head\<close>
  of the reference computes.
\<close>

subsection \<open>Online softmax\<close>

record 'f online =
  o_max :: 'f
  o_sum :: 'f
  o_acc :: "'f list"

definition online_init :: "('f, 'd) float_ops \<Rightarrow> ('h, 'f) gpu_ops \<Rightarrow> nat \<Rightarrow> 'f online" where
  "online_init ops g n = \<lparr>o_max = g_lowest g, o_sum = f_of_rat ops 0, o_acc = replicate n (f_of_rat ops 0)\<rparr>"

text \<open>The factor that brings values accumulated under the maximum \<open>m\<close> to the maximum \<open>m'\<close>.\<close>

definition rescale :: "('f, 'd) float_ops \<Rightarrow> ('h, 'f) gpu_ops \<Rightarrow> 'f \<Rightarrow> 'f \<Rightarrow> 'f" where
  "rescale ops g m m' = (if f_eq ops m (g_lowest g) then f_of_rat ops 0 else g_expf g (f_sub ops m m'))"

definition online_add :: "('f, 'd) float_ops \<Rightarrow> ('h, 'f) gpu_ops \<Rightarrow> 'f online \<Rightarrow> 'f \<times> 'f list \<Rightarrow> 'f online" where
  "online_add ops g st sv =
    (case sv of (s, v) \<Rightarrow>
     let m' = g_fmax g (o_max st) s; r = rescale ops g (o_max st) m'; w = g_expf g (f_sub ops s m') in
     \<lparr>o_max = m', o_sum = f_add ops (f_mul ops (o_sum st) r) w,
      o_acc = map (\<lambda>d. f_add ops (f_mul ops (o_acc st ! d) r) (f_mul ops w (v ! d))) [0..<length (o_acc st)]\<rparr>)"

definition online_merge :: "('f, 'd) float_ops \<Rightarrow> ('h, 'f) gpu_ops \<Rightarrow> 'f online \<Rightarrow> 'f online \<Rightarrow> 'f online" where
  "online_merge ops g a b =
    (let m' = g_fmax g (o_max a) (o_max b); ca = rescale ops g (o_max a) m'; cb = rescale ops g (o_max b) m' in
     \<lparr>o_max = m', o_sum = f_add ops (f_mul ops (o_sum a) ca) (f_mul ops (o_sum b) cb),
      o_acc = map (\<lambda>d. f_add ops (f_mul ops (o_acc a ! d) ca) (f_mul ops (o_acc b ! d) cb)) [0..<length (o_acc a)]\<rparr>)"

definition online_result :: "('f, 'd) float_ops \<Rightarrow> ('h, 'f) gpu_ops \<Rightarrow> 'f online \<Rightarrow> 'h list" where
  "online_result ops g st =
    (let inv = (if f_gt ops (o_sum st) (f_of_rat ops 0) then f_div ops (f_of_rat ops 1) (o_sum st) else f_of_rat ops 0) in
     map (\<lambda>a. f2h g (f_mul ops a inv)) (o_acc st))"

subsection \<open>The kernel per query head\<close>

text \<open>The slot of a position through one sequence's table, and one head's slice of a cache row.\<close>

definition table_slot :: "nat list \<Rightarrow> nat \<Rightarrow> nat \<Rightarrow> nat" where
  "table_slot table bs p = table ! (p div bs) * bs + p mod bs"

definition head_slice :: "'h list \<Rightarrow> nat list \<Rightarrow> nat \<Rightarrow> nat \<Rightarrow> nat \<Rightarrow> nat \<Rightarrow> nat \<Rightarrow> 'h list" where
  "head_slice cache table bs kv_heads kv_head hdim p =
    take hdim (drop (table_slot table bs p * (kv_heads * hdim) + kv_head * hdim) cache)"

text \<open>One position's score and value vector, for a query in \<open>float\<close>.\<close>

definition scored :: "('f, 'd) float_ops \<Rightarrow> ('h, 'f) gpu_ops \<Rightarrow> 'f list \<Rightarrow> 'f \<Rightarrow> nat \<Rightarrow> (nat \<Rightarrow> 'h list) \<Rightarrow> (nat \<Rightarrow> 'h list) \<Rightarrow> nat \<Rightarrow> 'f \<times> 'f list" where
  "scored ops g s_q scale hdim kf vf p =
    (f_mul ops (dot ops s_q (map (h2f g) (kf p)) hdim) scale, map (h2f g) (vf p))"

definition decode_thread :: "('f, 'd) float_ops \<Rightarrow> ('h, 'f) gpu_ops \<Rightarrow> 'f list \<Rightarrow> 'f \<Rightarrow> nat \<Rightarrow> (nat \<Rightarrow> 'h list) \<Rightarrow> (nat \<Rightarrow> 'h list) \<Rightarrow> nat \<Rightarrow> nat \<Rightarrow> 'f online" where
  "decode_thread ops g s_q scale hdim kf vf pos t =
    foldl (\<lambda>st p. online_add ops g st (scored ops g s_q scale hdim kf vf p)) (online_init ops g hdim) (thread_loop t 64 (pos + 1))"

text \<open>A round of the tree: the threads below \<open>stride\<close> absorb the ones above.\<close>

definition merge_round :: "('f, 'd) float_ops \<Rightarrow> ('h, 'f) gpu_ops \<Rightarrow> 'f online list \<Rightarrow> nat \<Rightarrow> 'f online list" where
  "merge_round ops g sts stride =
    map (\<lambda>t. if t < stride then online_merge ops g (sts ! t) (sts ! (t + stride)) else sts ! t) [0..<length sts]"

definition decode_block :: "('f, 'd) float_ops \<Rightarrow> ('h, 'f) gpu_ops \<Rightarrow> 'h list \<Rightarrow> (nat \<Rightarrow> 'h list) \<Rightarrow> (nat \<Rightarrow> 'h list) \<Rightarrow> nat \<Rightarrow> nat \<Rightarrow> 'f \<Rightarrow> 'h list" where
  "decode_block ops g q kf vf pos hdim scale =
    (let s_q = map (h2f g) (take hdim q);
         sts = map (decode_thread ops g s_q scale hdim kf vf pos) [0..<64] in
     online_result ops g (foldl (merge_round ops g) sts [32, 16, 8, 4, 2, 1] ! 0))"

text \<open>The index arrays of a step, as the host uploads them.\<close>

record step_indices =
  ix_slots :: "nat list"
  ix_token_seq :: "nat list"
  ix_tables :: "nat list"
  ix_table_offset :: "nat list"
  ix_positions :: "nat list"
  ix_token_ids :: "int list"

definition token_table :: "step_indices \<Rightarrow> nat \<Rightarrow> nat list" where
  "token_table ix i = drop (ix_table_offset ix ! (ix_token_seq ix ! i)) (ix_tables ix)"

definition attention_decode_kernel ::
  "('f, 'd) float_ops \<Rightarrow> ('h, 'f) gpu_ops \<Rightarrow> 'h list \<Rightarrow> 'h list \<Rightarrow> 'h list \<Rightarrow> step_indices \<Rightarrow> nat \<Rightarrow> nat \<Rightarrow> nat \<Rightarrow> nat \<Rightarrow> nat \<Rightarrow> 'f \<Rightarrow> 'h list" where
  "attention_decode_kernel ops g q kc vc ix n q_heads kv_heads hdim bs scale =
    concat (map (\<lambda>w.
      (let i = w div q_heads; head = w mod q_heads; kv_head = head div (q_heads div kv_heads); table = token_table ix i in
       decode_block ops g (drop ((i * q_heads + head) * hdim) q) (head_slice kc table bs kv_heads kv_head hdim)
         (head_slice vc table bs kv_heads kv_head hdim) (ix_positions ix ! i) hdim scale)) [0..<n * q_heads])"

definition launch_attention_decode ::
  "('f, 'd) float_ops \<Rightarrow> ('h, 'f) gpu_ops \<Rightarrow> 'h list \<Rightarrow> 'h list \<Rightarrow> 'h list \<Rightarrow> step_indices \<Rightarrow> 'h list \<Rightarrow> nat \<Rightarrow> nat \<Rightarrow> nat \<Rightarrow> nat \<Rightarrow> nat \<Rightarrow> 'f \<Rightarrow> 'h list result" where
  "launch_attention_decode ops g q kc vc ix out n q_heads kv_heads hdim bs scale =
    (if n = 0 \<or> q_heads = 0 then Inr out
     else if 128 < hdim then Inl (Runtime_Error ''attention_decode: head_dim exceeds 128'')
     else Inr (attention_decode_kernel ops g q kc vc ix n q_heads kv_heads hdim bs scale))"

subsection \<open>The kernel per key head\<close>

text \<open>One position in one warp for one query head: the lanes' partial products, their sum in every
  lane, and each lane's update of its own slice.\<close>

definition lane_dot :: "('f, 'd) float_ops \<Rightarrow> nat \<Rightarrow> 'f list \<Rightarrow> 'f list \<Rightarrow> nat \<Rightarrow> 'f" where
  "lane_dot ops dpl s_q kk lane =
    foldl (\<lambda>s d. f_add ops s (f_mul ops (s_q ! (lane * dpl + d)) (kk ! (lane * dpl + d)))) (f_of_rat ops 0) [0..<dpl]"

definition warp_step ::
  "('f, 'd) float_ops \<Rightarrow> ('h, 'f) gpu_ops \<Rightarrow> 'f list \<Rightarrow> 'f \<Rightarrow> nat \<Rightarrow> (nat \<Rightarrow> 'h list) \<Rightarrow> (nat \<Rightarrow> 'h list) \<Rightarrow> 'f online list \<Rightarrow> nat \<Rightarrow> 'f online list" where
  "warp_step ops g s_q scale dpl kf vf lanes p =
    (let kk = map (h2f g) (kf p); vv = map (h2f g) (vf p);
         dots = warp_all_sum ops (map (lane_dot ops dpl s_q kk) [0..<32]) in
     map (\<lambda>lane. online_add ops g (lanes ! lane) (f_mul ops (dots ! lane) scale, take dpl (drop (lane * dpl) vv))) [0..<32])"

text \<open>A warp's partial result for one head, as it is left in shared memory: the slices of all lanes,
  and the maximum and sum of lane 0.\<close>

definition warp_partial ::
  "('f, 'd) float_ops \<Rightarrow> ('h, 'f) gpu_ops \<Rightarrow> 'f list \<Rightarrow> 'f \<Rightarrow> nat \<Rightarrow> (nat \<Rightarrow> 'h list) \<Rightarrow> (nat \<Rightarrow> 'h list) \<Rightarrow> nat \<Rightarrow> nat \<Rightarrow> 'f online" where
  "warp_partial ops g s_q scale dpl kf vf pos w =
    (let lanes = foldl (warp_step ops g s_q scale dpl kf vf) (replicate 32 (online_init ops g dpl)) (thread_loop w 16 (pos + 1)) in
     \<lparr>o_max = o_max (lanes ! 0), o_sum = o_sum (lanes ! 0), o_acc = concat (map o_acc lanes)\<rparr>)"

definition gqa_head ::
  "('f, 'd) float_ops \<Rightarrow> ('h, 'f) gpu_ops \<Rightarrow> 'h list \<Rightarrow> (nat \<Rightarrow> 'h list) \<Rightarrow> (nat \<Rightarrow> 'h list) \<Rightarrow> nat \<Rightarrow> nat \<Rightarrow> 'f \<Rightarrow> 'h list" where
  "gqa_head ops g q kf vf pos hdim scale =
    (let s_q = map (h2f g) (take hdim q); dpl = hdim div 32 in
     online_result ops g
       (foldl (online_merge ops g) (online_init ops g hdim) (map (warp_partial ops g s_q scale dpl kf vf pos) [0..<16])))"

text \<open>The blocks of a token cover its key heads, and a block writes the heads of its group one after
  the other, which is the order of the query heads.\<close>

definition attention_decode_gqa_kernel ::
  "('f, 'd) float_ops \<Rightarrow> ('h, 'f) gpu_ops \<Rightarrow> 'h list \<Rightarrow> 'h list \<Rightarrow> 'h list \<Rightarrow> step_indices \<Rightarrow> nat \<Rightarrow> nat \<Rightarrow> nat \<Rightarrow> nat \<Rightarrow> nat \<Rightarrow> 'f \<Rightarrow> 'h list" where
  "attention_decode_gqa_kernel ops g q kc vc ix n q_heads kv_heads hdim bs scale =
    (let group = q_heads div kv_heads in
     concat (map (\<lambda>w.
       (let i = w div kv_heads; kv_head = w mod kv_heads; table = token_table ix i in
        concat (map (\<lambda>h. gqa_head ops g (drop ((i * q_heads + (kv_head * group + h)) * hdim) q)
          (head_slice kc table bs kv_heads kv_head hdim) (head_slice vc table bs kv_heads kv_head hdim)
          (ix_positions ix ! i) hdim scale) [0..<group]))) [0..<n * kv_heads]))"

definition launch_attention_decode_gqa ::
  "('f, 'd) float_ops \<Rightarrow> ('h, 'f) gpu_ops \<Rightarrow> 'h list \<Rightarrow> 'h list \<Rightarrow> 'h list \<Rightarrow> step_indices \<Rightarrow> 'h list \<Rightarrow> nat \<Rightarrow> nat \<Rightarrow> nat \<Rightarrow> nat \<Rightarrow> nat \<Rightarrow> 'f \<Rightarrow> 'h list result" where
  "launch_attention_decode_gqa ops g q kc vc ix out n q_heads kv_heads hdim bs scale =
    (if n = 0 \<or> q_heads = 0 \<or> kv_heads = 0 then Inr out
     else if q_heads mod kv_heads \<noteq> 0 then Inl (Runtime_Error ''attention_decode_gqa: q_heads is not a multiple of kv_heads'')
     else if 8 < q_heads div kv_heads then Inl (Runtime_Error ''attention_decode_gqa: GQA group exceeds 8'')
     else if 128 < hdim \<or> hdim mod 32 \<noteq> 0 then Inl (Runtime_Error ''attention_decode_gqa: head_dim must be a multiple of 32 and at most 128'')
     else Inr (attention_decode_gqa_kernel ops g q kc vc ix n q_heads kv_heads hdim bs scale))"

subsection \<open>What a partial result stands for\<close>

text \<open>The scores and value vectors a partial result has absorbed, in exact arithmetic: with none it is
  the initial one, otherwise its maximum is some number above the lowest, and sum and accumulator
  are the sums relative to that number.\<close>

definition stands_for :: "real \<Rightarrow> real online \<Rightarrow> (real \<times> real list) multiset \<Rightarrow> bool" where
  "stands_for lo st M \<longleftrightarrow>
    (if M = {#} then o_max st = lo else lo < o_max st) \<and>
    o_sum st = (\<Sum>(s, v) \<in># M. exp (s - o_max st)) \<and>
    (\<forall>d<length (o_acc st). o_acc st ! d = (\<Sum>(s, v) \<in># M. exp (s - o_max st) * v ! d))"

lemma shift_sum:
  "(\<Sum>(s, v) \<in># M. exp (s - m) * f v) * exp (m - m') = (\<Sum>(s, v) \<in># M. exp (s - m') * f v)" for f :: "real list \<Rightarrow> real"
proof (induction M)
  case (add sv M)
  obtain s v where "sv = (s, v)" by force
  moreover have "exp (s - m) * f v * exp (m - m') = exp (s - m') * f v"
    by (simp add: mult_exp_exp[symmetric] exp_diff field_simps)
  ultimately show ?case using add by (simp add: distrib_right)
qed simp

lemmas shift_count = shift_sum[where f = "\<lambda>_. 1", simplified]

lemma rescale_sums:
  assumes "stands_for lo st M"
  shows "o_sum st * rescale (real_ops lo) (real_gpu lo) (o_max st) m' = (\<Sum>(s, v) \<in># M. exp (s - m'))"
    "d < length (o_acc st) \<Longrightarrow> o_acc st ! d * rescale (real_ops lo) (real_gpu lo) (o_max st) m' = (\<Sum>(s, v) \<in># M. exp (s - m') * v ! d)"
  using assms shift_count[where M = M and m = "o_max st" and m' = m'] shift_sum[where M = M and m = "o_max st" and m' = m' and f = "\<lambda>v. v ! d"]
  by (auto simp: stands_for_def rescale_def split: if_splits)

lemma stands_for_init: "stands_for lo (online_init (real_ops lo) g n) {#}" if "g_lowest g = lo"
  using that by (simp add: stands_for_def online_init_def)

lemma online_add_stands:
  assumes "stands_for lo st M" "lo < s"
  shows "stands_for lo (online_add (real_ops lo) (real_gpu lo) st (s, v)) (add_mset (s, v) M)"
  using assms rescale_sums[OF assms(1)] by (auto simp: stands_for_def online_add_def Let_def algebra_simps split: if_splits)

lemma online_merge_stands:
  assumes "stands_for lo a M" "stands_for lo b N" "length (o_acc b) = length (o_acc a)"
  shows "stands_for lo (online_merge (real_ops lo) (real_gpu lo) a b) (M + N)"
  using assms rescale_sums[OF assms(1)] rescale_sums[OF assms(2)]
  by (auto simp: stands_for_def online_merge_def Let_def split: if_splits)

lemma online_lengths [simp]:
  "length (o_acc (online_init ops g n)) = n"
  "length (o_acc (online_add ops g st sv)) = length (o_acc st)"
  "length (o_acc (online_merge ops g a b)) = length (o_acc a)"
  by (simp_all add: online_init_def online_add_def online_merge_def Let_def split: prod.split)

text \<open>The weighted mean of the value vectors, which is what all the variants compute.\<close>

definition softmax_mean :: "(real \<times> real list) multiset \<Rightarrow> nat \<Rightarrow> real list" where
  "softmax_mean M n = map (\<lambda>d. (\<Sum>(s, v) \<in># M. exp s * v ! d) / (\<Sum>(s, v) \<in># M. exp s)) [0..<n]"

lemma sum_exp_pos: "M \<noteq> {#} \<Longrightarrow> 0 < (\<Sum>(s, v) \<in># M. exp (s - m :: real))"
proof (induction M)
  case (add sv M)
  then show ?case by (cases "M = {#}") (auto split: prod.split simp: add_pos_pos)
qed simp

lemma online_result_real:
  assumes "stands_for lo st M" "M \<noteq> {#}"
  shows "online_result (real_ops lo) (real_gpu lo) st = softmax_mean M (length (o_acc st))"
proof -
  let ?m = "o_max st"
  have l: "o_sum st = (\<Sum>(s, v) \<in># M. exp (s - ?m))" and a: "\<forall>d<length (o_acc st). o_acc st ! d = (\<Sum>(s, v) \<in># M. exp (s - ?m) * v ! d)"
    using assms(1) by (simp_all add: stands_for_def)
  have pos: "0 < o_sum st" using sum_exp_pos[OF assms(2)] l by simp
  have "o_acc st ! d / o_sum st = (\<Sum>(s, v) \<in># M. exp s * v ! d) / (\<Sum>(s, v) \<in># M. exp s)" if d: "d < length (o_acc st)" for d
  proof -
    have "o_acc st ! d * exp ?m = (\<Sum>(s, v) \<in># M. exp s * v ! d)" "o_sum st * exp ?m = (\<Sum>(s, v) \<in># M. exp s)"
      using shift_sum[where M = M and m = ?m and m' = 0 and f = "\<lambda>v. v ! d"]
        shift_count[where M = M and m = ?m and m' = 0] a d l by simp_all
    moreover have "o_acc st ! d / o_sum st = (o_acc st ! d * exp ?m) / (o_sum st * exp ?m)" by simp
    ultimately show ?thesis by simp
  qed
  then show ?thesis using pos by (auto intro!: nth_equalityI simp: online_result_def softmax_mean_def)
qed

lemma online_fold_stands:
  assumes "stands_for lo st M" "\<forall>p \<in> set ps. lo < fst (f p)"
  shows "stands_for lo (foldl (\<lambda>st p. online_add (real_ops lo) (real_gpu lo) st (f p)) st ps) (M + mset (map f ps)) \<and>
    length (o_acc (foldl (\<lambda>st p. online_add (real_ops lo) (real_gpu lo) st (f p)) st ps)) = length (o_acc st)"
  using assms
proof (induction ps arbitrary: st M)
  case (Cons p ps)
  have "stands_for lo (online_add (real_ops lo) (real_gpu lo) st (f p)) (add_mset (f p) M)"
    using online_add_stands[of lo st M "fst (f p)" "snd (f p)"] Cons.prems by simp
  then show ?case using Cons.IH[of "online_add (real_ops lo) (real_gpu lo) st (f p)" "add_mset (f p) M"] Cons.prems(2) by simp
qed simp

subsection \<open>Merging in a tree\<close>

fun strides :: "nat \<Rightarrow> nat list" where
  "strides 0 = []"
| "strides (Suc j) = 2 ^ j # strides j"

lemma merge_round_stands:
  assumes "\<forall>t<2 * k. stands_for lo (sts ! t) (F t) \<and> length (o_acc (sts ! t)) = n" "2 * k \<le> length sts" "t < k"
  shows "stands_for lo (merge_round (real_ops lo) (real_gpu lo) sts k ! t) (F t + F (t + k)) \<and>
    length (o_acc (merge_round (real_ops lo) (real_gpu lo) sts k ! t)) = n"
proof -
  have t: "t < 2 * k" "t + k < 2 * k" "t < length sts" using assms(2,3) by simp_all
  then show ?thesis using assms(1)[rule_format, OF t(1)] assms(1)[rule_format, OF t(2)] assms(3)
    by (simp add: merge_round_def online_merge_stands)
qed

lemma merge_tree_stands:
  "2 ^ j \<le> length sts \<Longrightarrow> \<forall>t<2 ^ j. stands_for lo (sts ! t) (F t) \<and> length (o_acc (sts ! t)) = n \<Longrightarrow>
   stands_for lo (foldl (merge_round (real_ops lo) (real_gpu lo)) sts (strides j) ! 0) (\<Sum>t<2 ^ j. F t) \<and>
   length (o_acc (foldl (merge_round (real_ops lo) (real_gpu lo)) sts (strides j) ! 0)) = n"
proof (induction j arbitrary: sts F)
  case (Suc j)
  let ?sts = "merge_round (real_ops lo) (real_gpu lo) sts (2 ^ j)" and ?F = "\<lambda>t. F t + F (t + 2 ^ j)"
  have "\<forall>t<2 ^ j. stands_for lo (?sts ! t) (?F t) \<and> length (o_acc (?sts ! t)) = n"
    using merge_round_stands[of "2 ^ j" lo sts F n] Suc.prems by simp
  moreover have "2 ^ j \<le> length ?sts" using Suc.prems(1) by (simp add: merge_round_def)
  moreover have "(\<Sum>t<2 ^ j. ?F t) = (\<Sum>t<2 ^ Suc j. F t)"
  proof -
    have "(\<Sum>t<2 ^ j. F (t + 2 ^ j)) = (\<Sum>t = 2 ^ j..<2 ^ Suc j. F t)"
      using sum.shift_bounds_nat_ivl[of F 0 "2 ^ j" "2 ^ j"] by (simp add: lessThan_atLeast0 mult_2)
    then show ?thesis by (simp add: sum.distrib lessThan_atLeast0 sum.atLeastLessThan_concat)
  qed
  ultimately show ?case using Suc.IH[of ?sts ?F] by simp
qed simp

lemma loops_multiset: "0 < T \<Longrightarrow> (\<Sum>t<T. mset (map f (thread_loop t T n))) = image_mset f (mset [0..<n])"
proof -
  assume "0 < T"
  have "(\<Sum>t<k. image_mset f (A t)) = image_mset f (\<Sum>t<k. A t)" for k :: nat and A by (induction k) simp_all
  then have "(\<Sum>t<T. mset (map f (thread_loop t T n))) = image_mset f (\<Sum>t<T. mset (thread_loop t T n))" by simp
  also have "(\<Sum>t<T. mset (thread_loop t T n)) = mset (concat (map (\<lambda>t. thread_loop t T n) [0..<T]))"
    by (simp add: mset_concat comp_def interv_sum_list_conv_sum_set_nat lessThan_atLeast0)
  finally show ?thesis using thread_loops_cover[OF \<open>0 < T\<close>] by simp
qed

subsection \<open>The kernels against the reference\<close>

text \<open>The score of a position in exact arithmetic, and the multiset of what is attended to.\<close>

definition exact_pair :: "real list \<Rightarrow> real \<Rightarrow> nat \<Rightarrow> (nat \<Rightarrow> real list) \<Rightarrow> (nat \<Rightarrow> real list) \<Rightarrow> nat \<Rightarrow> real \<times> real list" where
  "exact_pair q scale hdim kf vf p = ((\<Sum>d<hdim. q ! d * kf p ! d) * scale, vf p)"

definition attended :: "real list \<Rightarrow> real \<Rightarrow> nat \<Rightarrow> (nat \<Rightarrow> real list) \<Rightarrow> (nat \<Rightarrow> real list) \<Rightarrow> nat \<Rightarrow> (real \<times> real list) multiset" where
  "attended q scale hdim kf vf pos = mset (map (exact_pair q scale hdim kf vf) [0..<pos + 1])"

lemma dot_real: "dot (real_ops lo) a b k = (\<Sum>t<k. a ! t * b ! t)"
  by (simp add: dot_def foldl_plus interv_sum_list_conv_sum_set_nat lessThan_atLeast0)

lemma decode_block_real:
  assumes "\<forall>p\<le>pos. lo < fst (exact_pair q scale hdim kf vf p)" "hdim \<le> length q"
  shows "decode_block (real_ops lo) (real_gpu lo) q kf vf pos hdim scale = softmax_mean (attended q scale hdim kf vf pos) hdim"
proof -
  let ?f = "exact_pair q scale hdim kf vf" and ?ops = "real_ops lo" and ?g = "real_gpu lo"
  let ?sts = "map (decode_thread ?ops ?g (take hdim q) scale hdim kf vf pos) [0..<64]"
  have sc: "scored ?ops ?g (take hdim q) scale hdim kf vf p = ?f p" for p
    using assms(2) by (simp add: scored_def exact_pair_def dot_real)
  have th: "stands_for lo (?sts ! t) (mset (map ?f (thread_loop t 64 (pos + 1)))) \<and> length (o_acc (?sts ! t)) = hdim" if t: "t < 64" for t
  proof -
    have "\<forall>p \<in> set (thread_loop t 64 (pos + 1)). lo < fst (?f p)" using assms(1) set_thread_loop[of 64 t "pos + 1"] by auto
    then have "stands_for lo (decode_thread ?ops ?g (take hdim q) scale hdim kf vf pos t) (mset (map ?f (thread_loop t 64 (pos + 1)))) \<and>
        length (o_acc (decode_thread ?ops ?g (take hdim q) scale hdim kf vf pos t)) = hdim"
      unfolding decode_thread_def sc using online_fold_stands[OF stands_for_init, of ?g lo _ ?f hdim] by simp
    then show ?thesis using t by (simp del: upt_rec_numeral)
  qed
  have "strides 6 = [32, 16, 8, 4, 2, 1]" by (simp add: numeral_eq_Suc)
  moreover have "(\<Sum>t<2 ^ 6. mset (map ?f (thread_loop t 64 (pos + 1)))) = attended q scale hdim kf vf pos"
    using loops_multiset[of 64 ?f "pos + 1"] by (simp add: attended_def)
  ultimately have "stands_for lo (foldl (merge_round ?ops ?g) ?sts [32, 16, 8, 4, 2, 1] ! 0) (attended q scale hdim kf vf pos) \<and>
      length (o_acc (foldl (merge_round ?ops ?g) ?sts [32, 16, 8, 4, 2, 1] ! 0)) = hdim"
    using merge_tree_stands[of 6 ?sts lo "\<lambda>t. mset (map ?f (thread_loop t 64 (pos + 1)))" hdim] th by simp
  moreover have "attended q scale hdim kf vf pos \<noteq> {#}" by (simp add: attended_def)
  ultimately show ?thesis using online_result_real by (fastforce simp: decode_block_def Let_def)
qed

lemma attended_sum:
  "(\<Sum>(s, v) \<in># attended q scale hdim kf vf pos. F s v) = (\<Sum>p\<leftarrow>[0..<pos + 1]. F (fst (exact_pair q scale hdim kf vf p)) (vf p))"
  for F :: "real \<Rightarrow> real list \<Rightarrow> real"
proof -
  have "(\<Sum>(s, v) \<in># mset (map f xs). F s v) = (\<Sum>p\<leftarrow>xs. F (fst (f p)) (snd (f p)))" for f :: "nat \<Rightarrow> real \<times> real list" and xs
    by (induction xs) (auto split: prod.split)
  then show ?thesis by (simp only: attended_def) (simp add: exact_pair_def)
qed

lemma attend_real:
  "attend (real_ops lo) q hdim scale (map kf [0..<pos + 1]) (map vf [0..<pos + 1]) = softmax_mean (attended q scale hdim kf vf pos) hdim"
proof -
  let ?xs = "[0..<pos + 1]" and ?s = "\<lambda>p. fst (exact_pair q scale hdim kf vf p)" and ?A = "attended q scale hdim kf vf pos"
  define M where "M = foldl (\<lambda>m s. if m < s then s else m) lo (map ?s ?xs)"
  define Z where "Z = (\<Sum>p\<leftarrow>?xs. exp (?s p - M))"
  have Z: "Z * exp M = (\<Sum>(s, v) \<in># ?A. exp s)"
    using shift_count[where M = ?A and m = M and m' = 0] by (simp add: Z_def attended_sum del: upt_Suc)
  have out: "(\<Sum>p\<leftarrow>?xs. exp (?s p - M) / Z * vf p ! d) = (\<Sum>(s, v) \<in># ?A. exp s * v ! d) / (\<Sum>(s, v) \<in># ?A. exp s)" for d
  proof -
    have "(\<Sum>p\<leftarrow>xs. F p / Z * vf p ! d) = (\<Sum>p\<leftarrow>xs. F p * vf p ! d) / Z" for F :: "nat \<Rightarrow> real" and xs
      by (induction xs) (simp_all add: add_divide_distrib)
    then have "(\<Sum>p\<leftarrow>?xs. exp (?s p - M) / Z * vf p ! d) = (\<Sum>p\<leftarrow>?xs. exp (?s p - M) * vf p ! d) / Z" .
    also have "\<dots> = ((\<Sum>p\<leftarrow>?xs. exp (?s p - M) * vf p ! d) * exp M) / (Z * exp M)" by simp
    also have "(\<Sum>p\<leftarrow>?xs. exp (?s p - M) * vf p ! d) * exp M = (\<Sum>(s, v) \<in># ?A. exp s * v ! d)"
      using shift_sum[where M = ?A and m = M and m' = 0 and f = "\<lambda>v. v ! d"] by (simp add: attended_sum del: upt_Suc)
    finally show ?thesis by (simp only: Z)
  qed
  have score: "dot (real_ops lo) q (kf p) hdim * scale = ?s p" for p by (simp add: dot_real exact_pair_def)
  have fold: "foldl (\<lambda>o' (w, v). o' + w * v ! d) 0 (zip (map w xs) (map vf xs)) = (\<Sum>p\<leftarrow>xs. w p * vf p ! d)" for d w and xs :: "nat list"
  proof -
    have "foldl (\<lambda>o' (w, v). o' + w * v ! d) a (zip (map w xs) (map vf xs)) = a + (\<Sum>p\<leftarrow>xs. w p * vf p ! d)" for a
      by (induction xs arbitrary: a) simp_all
    then show ?thesis by simp
  qed
  have "attend (real_ops lo) q hdim scale (map kf ?xs) (map vf ?xs) =
      map (\<lambda>d. foldl (\<lambda>o' (w, v). o' + w * v ! d) 0 (zip (map (\<lambda>p. exp (?s p - M) / Z) ?xs) (map vf ?xs))) [0..<hdim]"
    unfolding attend_def Let_def real_ops_simps map_map comp_def score M_def[symmetric] foldl_plus[where f = "\<lambda>x. x"]
    by (simp add: Z_def comp_def del: upt_Suc)
  then show ?thesis by (simp only: fold out softmax_mean_def)
qed

subsection \<open>The kernel per key head against the reference\<close>

definition sliced :: "nat \<Rightarrow> nat \<Rightarrow> real \<times> real list \<Rightarrow> real \<times> real list" where
  "sliced dpl lane sv = (fst sv, take dpl (drop (lane * dpl) (snd sv)))"

lemma lane_dots_sum:
  "sum_list (map (lane_dot (real_ops lo) dpl q k) [0..<n]) = (\<Sum>d<n * dpl. q ! d * k ! d)"
proof (induction n)
  case (Suc n)
  have "lane_dot (real_ops lo) dpl q k n = (\<Sum>d<dpl. q ! (d + n * dpl) * k ! (d + n * dpl))"
    by (simp add: lane_dot_def foldl_plus interv_sum_list_conv_sum_set_nat lessThan_atLeast0 add.commute)
  also have "\<dots> = (\<Sum>d = n * dpl..<Suc n * dpl. q ! d * k ! d)"
    using sum.shift_bounds_nat_ivl[of "\<lambda>d. q ! d * k ! d" 0 "n * dpl" dpl] by (simp add: lessThan_atLeast0 add.commute)
  finally show ?case using Suc by (simp add: lessThan_atLeast0 sum.atLeastLessThan_concat)
qed simp

lemma warp_step_real:
  assumes "hdim = 32 * dpl" "lane < 32"
  shows "warp_step (real_ops lo) (real_gpu lo) q scale dpl kf vf lanes p ! lane =
    online_add (real_ops lo) (real_gpu lo) (lanes ! lane) (sliced dpl lane (exact_pair q scale hdim kf vf p))"
proof -
  have "warp_all_sum (real_ops lo) (map (lane_dot (real_ops lo) dpl q (kf p)) [0..<32]) ! lane = (\<Sum>d<hdim. q ! d * kf p ! d)"
    using warp_all_sum_real[OF _ assms(2), of "map (lane_dot (real_ops lo) dpl q (kf p)) [0..<32]" lo]
      lane_dots_sum[of lo dpl q "kf p" 32] assms(1) by (simp del: upt_rec_numeral)
  then show ?thesis using assms(2) by (simp add: warp_step_def Let_def sliced_def exact_pair_def del: upt_rec_numeral)
qed

lemma warp_fold_lane:
  assumes "hdim = 32 * dpl" "lane < 32"
  shows "foldl (warp_step (real_ops lo) (real_gpu lo) q scale dpl kf vf) lanes ps ! lane =
    foldl (\<lambda>st p. online_add (real_ops lo) (real_gpu lo) st (sliced dpl lane (exact_pair q scale hdim kf vf p))) (lanes ! lane) ps"
  by (induction ps arbitrary: lanes) (simp_all add: warp_step_real[OF assms])

lemma online_max_scores:
  "o_max (foldl (\<lambda>st p. online_add (real_ops lo) (real_gpu lo) st (sliced dpl lane (f p))) st ps) = foldl (\<lambda>m p. max m (fst (f p))) (o_max st) ps"
  by (induction ps arbitrary: st) (simp_all add: online_add_def sliced_def Let_def)

lemma concat_blocks_nth:
  "\<forall>l<n. length (f l) = k \<Longrightarrow> l < n \<Longrightarrow> e < k \<Longrightarrow> concat (map f [0..<n]) ! (l * k + e) = f l ! e"
proof (induction n)
  case (Suc n)
  have len: "length (concat (map f [0..<n])) = n * k" using Suc.prems(1) by (induction n) auto
  show ?case
  proof (cases "l < n")
    case True
    then have "l * k + e < n * k" using Suc.prems(3) by (metis add_less_cancel_left less_le_trans mult_Suc add.commute Suc_leI mult_le_mono1)
    then show ?thesis using Suc True len by (simp add: nth_append)
  next
    case False
    then have "l = n" using Suc.prems(2) by simp
    then show ?thesis using len by (simp add: nth_append)
  qed
qed simp

lemma warp_partial_stands:
  assumes "hdim = 32 * dpl" "\<forall>p \<in> set (thread_loop w 16 (pos + 1)). lo < fst (exact_pair q scale hdim kf vf p)"
    "\<forall>p\<le>pos. length (vf p) = hdim" 
  shows "stands_for lo (warp_partial (real_ops lo) (real_gpu lo) q scale dpl kf vf pos w)
      (mset (map (exact_pair q scale hdim kf vf) (thread_loop w 16 (pos + 1)))) \<and>
    length (o_acc (warp_partial (real_ops lo) (real_gpu lo) q scale dpl kf vf pos w)) = hdim"
proof -
  let ?ops = "real_ops lo" and ?g = "real_gpu lo" and ?f = "exact_pair q scale hdim kf vf" and ?ps = "thread_loop w 16 (pos + 1)"
  define L where "L l = foldl (\<lambda>st p. online_add ?ops ?g st (sliced dpl l (?f p))) (online_init ?ops ?g dpl) ?ps" for l
  define lanes where "lanes = foldl (warp_step ?ops ?g q scale dpl kf vf) (replicate 32 (online_init ?ops ?g dpl)) ?ps"
  have "length (foldl (warp_step ?ops ?g q scale dpl kf vf) ls ps) = 32" if "length ls = 32" for ls ps
    using that by (induction ps arbitrary: ls) (simp_all add: warp_step_def Let_def)
  then have "length lanes = 32" by (simp add: lanes_def)
  moreover have lane: "lanes ! l = L l" if "l < 32" for l using that warp_fold_lane[OF assms(1) that] by (simp add: lanes_def L_def)
  ultimately have lanes: "lanes = map L [0..<32]" by (intro nth_equalityI) (simp_all del: upt_rec_numeral)
  have st: "stands_for lo (L l) (mset (map (\<lambda>p. sliced dpl l (?f p)) ?ps)) \<and> length (o_acc (L l)) = dpl" for l
    unfolding L_def using online_fold_stands[OF stands_for_init, of ?g lo ?ps "\<lambda>p. sliced dpl l (?f p)" dpl] assms(2)
    by (simp add: sliced_def)
  have mx: "o_max (L l) = o_max (L 0)" for l by (simp add: L_def online_max_scores)
  have part: "warp_partial ?ops ?g q scale dpl kf vf pos w = \<lparr>o_max = o_max (L 0), o_sum = o_sum (L 0), o_acc = concat (map (\<lambda>l. o_acc (L l)) [0..<32])\<rparr>"
    unfolding warp_partial_def lanes_def[symmetric] Let_def lanes by (simp add: comp_def del: upt_rec_numeral)
  have len: "length (concat (map (\<lambda>l. o_acc (L l)) [0..<n])) = n * dpl" for n using st by (induction n) auto
  have v: "(\<Sum>p\<leftarrow>?ps. exp (fst (?f p) - m) * (snd (sliced dpl l (?f p)) ! e)) = (\<Sum>p\<leftarrow>?ps. exp (fst (?f p) - m) * vf p ! (l * dpl + e))"
    if "l < 32" "e < dpl" for l e m
  proof -
    have "l * dpl \<le> hdim" using that(1) assms(1) by simp
    moreover have "p \<le> pos" if "p \<in> set ?ps" for p using that set_thread_loop[of 16 w "pos + 1"] by auto
    ultimately show ?thesis using assms(3) that(2)
      by (intro arg_cong[of _ _ sum_list] map_cong) (auto simp: sliced_def exact_pair_def)
  qed
  have sums: "(\<Sum>(s, v) \<in># mset (map h ps). F s v) = (\<Sum>p\<leftarrow>ps. F (fst (h p)) (snd (h p)))"
    for h :: "nat \<Rightarrow> real \<times> real list" and ps and F :: "real \<Rightarrow> real list \<Rightarrow> real" by (induction ps) (auto split: prod.split)
  have "concat (map (\<lambda>l. o_acc (L l)) [0..<32]) ! d = (\<Sum>(s, v) \<in># mset (map ?f ?ps). exp (s - o_max (L 0)) * v ! d)" if d: "d < hdim" for d
  proof -
    have dpl: "0 < dpl" using d assms(1) by (cases dpl) auto
    then have le: "d div dpl < 32" "d mod dpl < dpl" "d div dpl * dpl + d mod dpl = d"
      using d assms(1) by (auto simp: less_mult_imp_div_less)
    have "concat (map (\<lambda>l. o_acc (L l)) [0..<32]) ! d = o_acc (L (d div dpl)) ! (d mod dpl)"
      using concat_blocks_nth[of 32 "\<lambda>l. o_acc (L l)" dpl "d div dpl" "d mod dpl"] st le by simp
    also have "\<dots> = (\<Sum>(s, v) \<in># mset (map (\<lambda>p. sliced dpl (d div dpl) (?f p)) ?ps). exp (s - o_max (L 0)) * v ! (d mod dpl))"
      using st[of "d div dpl"] le(2) mx[of "d div dpl"] by (simp add: stands_for_def)
    also have "\<dots> = (\<Sum>p\<leftarrow>?ps. exp (fst (?f p) - o_max (L 0)) * vf p ! d)"
      unfolding sums using v[OF le(1,2)] le(3) by (simp add: sliced_def)
    finally show ?thesis unfolding sums by (simp add: exact_pair_def)
  qed
  moreover have "o_sum (L 0) = (\<Sum>(s, v) \<in># mset (map ?f ?ps). exp (s - o_max (L 0)))"
    using st[of 0] unfolding stands_for_def sums by (simp add: sliced_def)
  ultimately show ?thesis
    using st[of 0] len[of 32] assms(1) unfolding part by (auto simp: stands_for_def split: if_splits)
qed

lemma merge_fold_stands:
  assumes "\<forall>a \<in> set as. stands_for lo (f a) (F a) \<and> length (o_acc (f a)) = n" "stands_for lo st M" "length (o_acc st) = n"
  shows "stands_for lo (foldl (online_merge (real_ops lo) (real_gpu lo)) st (map f as)) (M + (\<Sum>a\<leftarrow>as. F a)) \<and>
    length (o_acc (foldl (online_merge (real_ops lo) (real_gpu lo)) st (map f as))) = n"
  using assms
proof (induction as arbitrary: st M)
  case (Cons a as)
  have "stands_for lo (online_merge (real_ops lo) (real_gpu lo) st (f a)) (M + F a)"
    using online_merge_stands[of lo st M "f a" "F a"] Cons.prems by simp
  then show ?case using Cons.IH[of "online_merge (real_ops lo) (real_gpu lo) st (f a)" "M + F a"] Cons.prems by (simp add: add.assoc)
qed simp

lemma gqa_head_real:
  assumes "\<forall>p\<le>pos. lo < fst (exact_pair q scale hdim kf vf p)" "hdim \<le> length q" "hdim mod 32 = 0" "\<forall>p\<le>pos. length (vf p) = hdim"
  shows "gqa_head (real_ops lo) (real_gpu lo) q kf vf pos hdim scale = softmax_mean (attended q scale hdim kf vf pos) hdim"
proof -
  let ?ops = "real_ops lo" and ?g = "real_gpu lo" and ?dpl = "hdim div 32" and ?q = "take hdim q"
  have f: "exact_pair ?q scale hdim kf vf = exact_pair q scale hdim kf vf" using assms(2) by (auto simp: exact_pair_def fun_eq_iff)
  let ?f = "exact_pair q scale hdim kf vf"
  have hdim: "hdim = 32 * ?dpl" using assms(3) by auto
  have w: "stands_for lo (warp_partial ?ops ?g ?q scale ?dpl kf vf pos w) (mset (map ?f (thread_loop w 16 (pos + 1)))) \<and>
      length (o_acc (warp_partial ?ops ?g ?q scale ?dpl kf vf pos w)) = hdim" for w
  proof -
    have "\<forall>p \<in> set (thread_loop w 16 (pos + 1)). lo < fst (exact_pair ?q scale hdim kf vf p)"
      using assms(1) set_thread_loop[of 16 w "pos + 1"] f by auto
    then show ?thesis using warp_partial_stands[OF hdim _ assms(4)] f by metis
  qed
  have "(\<Sum>w\<leftarrow>[0..<16]. mset (map ?f (thread_loop w 16 (pos + 1)))) = attended q scale hdim kf vf pos"
    using loops_multiset[of 16 ?f "pos + 1"] by (simp add: attended_def interv_sum_list_conv_sum_set_nat lessThan_atLeast0 del: upt_rec_numeral)
  then have "stands_for lo (foldl (online_merge ?ops ?g) (online_init ?ops ?g hdim) (map (warp_partial ?ops ?g ?q scale ?dpl kf vf pos) [0..<16]))
      (attended q scale hdim kf vf pos) \<and>
      length (o_acc (foldl (online_merge ?ops ?g) (online_init ?ops ?g hdim) (map (warp_partial ?ops ?g ?q scale ?dpl kf vf pos) [0..<16]))) = hdim"
    using merge_fold_stands[of "[0..<16]" lo "warp_partial ?ops ?g ?q scale ?dpl kf vf pos" "\<lambda>w. mset (map ?f (thread_loop w 16 (pos + 1)))" hdim,
        OF _ stands_for_init[of ?g lo hdim]] w by (simp del: upt_rec_numeral)
  moreover have "attended q scale hdim kf vf pos \<noteq> {#}" by (simp add: attended_def)
  ultimately show ?thesis
    using online_result_real[of lo "foldl (online_merge ?ops ?g) (online_init ?ops ?g hdim) (map (warp_partial ?ops ?g ?q scale ?dpl kf vf pos) [0..<16])"]
    by (simp add: gqa_head_def Let_def del: upt_rec_numeral)
qed

subsection \<open>Every token and head\<close>

text \<open>What attention over a whole step computes, item by item in the order of the output.\<close>

definition attention_spec ::
  "real list \<Rightarrow> (nat \<Rightarrow> nat \<Rightarrow> nat \<Rightarrow> real list) \<Rightarrow> (nat \<Rightarrow> nat \<Rightarrow> nat \<Rightarrow> real list) \<Rightarrow> (nat \<Rightarrow> nat) \<Rightarrow> nat \<Rightarrow> nat \<Rightarrow> nat \<Rightarrow> nat \<Rightarrow> real \<Rightarrow> real list" where
  "attention_spec q kf vf posf n q_heads kv_heads hdim scale =
    concat (map (\<lambda>w.
      (let i = w div q_heads; kv_head = (w mod q_heads) div (q_heads div kv_heads) in
       softmax_mean (attended (drop (w * hdim) q) scale hdim (kf i kv_head) (vf i kv_head) (posf i)) hdim)) [0..<n * q_heads])"

lemma scores_eventually: "\<forall>\<^sub>F lo in at_bot. \<forall>w<(n::nat). \<forall>p\<le>posf w. lo < f w (p::nat)" for f :: "nat \<Rightarrow> nat \<Rightarrow> real"
proof -
  have "\<forall>\<^sub>F lo in at_bot. \<forall>w \<in> {..<n}. \<forall>p \<in> {..posf w}. lo < f w p"
    by (intro eventually_ball_finite ballI eventually_gt_at_bot) auto
  then show ?thesis by (rule eventually_mono) auto
qed

definition item_score :: "real list \<Rightarrow> (nat \<Rightarrow> nat \<Rightarrow> nat \<Rightarrow> real list) \<Rightarrow> nat \<Rightarrow> nat \<Rightarrow> nat \<Rightarrow> real \<Rightarrow> nat \<Rightarrow> nat \<Rightarrow> real" where
  "item_score q kf q_heads kv_heads hdim scale w p =
    fst (exact_pair (drop (w * hdim) q) scale hdim (kf (w div q_heads) ((w mod q_heads) div (q_heads div kv_heads))) (\<lambda>_. []) p)"

lemma item_query:
  assumes "n * q_heads * hdim \<le> length q" "w < n * q_heads"
  shows "hdim \<le> length (drop (w * hdim) q)"
proof -
  have "Suc w * hdim \<le> n * q_heads * hdim" using assms(2) by (intro mult_le_mono1) simp
  then show ?thesis using assms(1) by simp
qed

lemma attention_decode_kernel_exact:
  assumes "n * q_heads * hdim \<le> length q"
  shows "\<forall>\<^sub>F lo in at_bot. attention_decode_kernel (real_ops lo) (real_gpu lo) q kc vc ix n q_heads kv_heads hdim bs scale =
    attention_spec q (\<lambda>i kvh. head_slice kc (token_table ix i) bs kv_heads kvh hdim)
      (\<lambda>i kvh. head_slice vc (token_table ix i) bs kv_heads kvh hdim) (\<lambda>i. ix_positions ix ! i) n q_heads kv_heads hdim scale"
proof -
  let ?kf = "\<lambda>i kvh. head_slice kc (token_table ix i) bs kv_heads kvh hdim"
  have "\<forall>\<^sub>F lo in at_bot. \<forall>w<n * q_heads. \<forall>p\<le>ix_positions ix ! (w div q_heads). lo < item_score q ?kf q_heads kv_heads hdim scale w p"
    by (rule scores_eventually)
  then show ?thesis
  proof (rule eventually_mono)
    fix lo assume lo: "\<forall>w<n * q_heads. \<forall>p\<le>ix_positions ix ! (w div q_heads). lo < item_score q ?kf q_heads kv_heads hdim scale w p"
    show "attention_decode_kernel (real_ops lo) (real_gpu lo) q kc vc ix n q_heads kv_heads hdim bs scale =
      attention_spec q ?kf (\<lambda>i kvh. head_slice vc (token_table ix i) bs kv_heads kvh hdim) (\<lambda>i. ix_positions ix ! i) n q_heads kv_heads hdim scale"
      unfolding attention_decode_kernel_def attention_spec_def Let_def div_mult_mod_eq
      by (intro arg_cong[of _ _ concat] map_cong refl decode_block_real)
         (use lo item_query[OF assms] in \<open>auto simp: item_score_def exact_pair_def simp del: length_drop\<close>)
  qed
qed

lemma concat_nested:
  "concat (map (\<lambda>w. concat (map (\<lambda>h. F (w * g + h)) [0..<g])) [0..<m]) = concat (map F [0..<m * g])"
proof (induction m)
  case (Suc m)
  have "[0..<Suc m * g] = [0..<m * g] @ map (\<lambda>h. m * g + h) [0..<g]"
    using upt_add_eq_append[of 0 "m * g" g] map_add_upt[of "m * g" g] by (simp add: add.commute)
  then show ?case using Suc by (simp add: comp_def)
qed simp

lemma group_index:
  fixes w h :: nat
  assumes "h < g" "q_heads = kv_heads * g" "0 < kv_heads"
  shows "(w div kv_heads) * q_heads + ((w mod kv_heads) * g + h) = w * g + h"
    "(w * g + h) div q_heads = w div kv_heads" "((w * g + h) mod q_heads) div g = w mod kv_heads"
proof -
  have "(w div kv_heads) * q_heads + (w mod kv_heads) * g = (w div kv_heads * kv_heads + w mod kv_heads) * g"
    by (simp only: assms(2) distrib_right mult.assoc)
  then show "(w div kv_heads) * q_heads + ((w mod kv_heads) * g + h) = w * g + h" by simp
  have d: "(w * g + h) div g = w" using assms(1) by simp
  show "(w * g + h) div q_heads = w div kv_heads" using d by (simp add: assms(2) mult.commute[of kv_heads] div_mult2_eq)
  have "(w * g + h) mod q_heads = g * ((w * g + h) div g mod kv_heads) + (w * g + h) mod g"
    by (simp add: assms(2) mult.commute[of kv_heads] mod_mult2_eq)
  then show "((w * g + h) mod q_heads) div g = w mod kv_heads" using d assms(1) by simp
qed

lemma head_slice_length:
  assumes "Suc (table_slot table bs p) * (kv_heads * hdim) \<le> length cache" "kv_head < kv_heads"
  shows "length (head_slice cache table bs kv_heads kv_head hdim p) = hdim"
proof -
  have "Suc kv_head * hdim \<le> kv_heads * hdim" using assms(2) by (intro mult_le_mono1) simp
  then show ?thesis using assms(1) by (simp add: head_slice_def)
qed

text \<open>The rows of every position a token reads are inside the cache.\<close>

definition rows_inside :: "step_indices \<Rightarrow> nat \<Rightarrow> nat \<Rightarrow> nat \<Rightarrow> 'h list \<Rightarrow> bool" where
  "rows_inside ix bs n kvd cache \<longleftrightarrow>
    (\<forall>i<n. \<forall>p\<le>ix_positions ix ! i. Suc (table_slot (token_table ix i) bs p) * kvd \<le> length cache)"

lemma gqa_kernel_items:
  assumes "q_heads = kv_heads * g" "0 < kv_heads" "0 < g"
  shows "attention_decode_gqa_kernel ops gp q kc vc ix n q_heads kv_heads hdim bs scale =
    concat (map (\<lambda>w. let i = w div q_heads; kvh = (w mod q_heads) div g; table = token_table ix i in
      gqa_head ops gp (drop (w * hdim) q) (head_slice kc table bs kv_heads kvh hdim) (head_slice vc table bs kv_heads kvh hdim)
        (ix_positions ix ! i) hdim scale) [0..<n * q_heads])"
proof -
  have g: "q_heads div kv_heads = g" using assms by simp
  have "n * q_heads = n * kv_heads * g" by (simp add: assms(1))
  then show ?thesis
    unfolding attention_decode_gqa_kernel_def Let_def g
    by (simp only: concat_nested[symmetric]) (intro arg_cong[of _ _ concat] map_cong refl, simp only: set_upt atLeastLessThan_iff group_index[OF _ assms(1,2)])
qed

lemma attention_gqa_kernel_exact:
  assumes "n * q_heads * hdim \<le> length q" "q_heads = kv_heads * g" "0 < kv_heads" "0 < g" "hdim mod 32 = 0"
    "rows_inside ix bs n (kv_heads * hdim) vc"
  shows "\<forall>\<^sub>F lo in at_bot. attention_decode_gqa_kernel (real_ops lo) (real_gpu lo) q kc vc ix n q_heads kv_heads hdim bs scale =
    attention_spec q (\<lambda>i kvh. head_slice kc (token_table ix i) bs kv_heads kvh hdim)
      (\<lambda>i kvh. head_slice vc (token_table ix i) bs kv_heads kvh hdim) (\<lambda>i. ix_positions ix ! i) n q_heads kv_heads hdim scale"
proof -
  let ?kf = "\<lambda>i kvh. head_slice kc (token_table ix i) bs kv_heads kvh hdim"
  have g: "q_heads div kv_heads = g" using assms(2,3) by simp
  have len: "length (head_slice vc (token_table ix (w div q_heads)) bs kv_heads (w mod q_heads div g) hdim p) = hdim"
    if "w < n * q_heads" "p \<le> ix_positions ix ! (w div q_heads)" for w p
  proof (rule head_slice_length)
    have "w div q_heads < n" using that(1) by (simp add: less_mult_imp_div_less)
    then show "Suc (table_slot (token_table ix (w div q_heads)) bs p) * (kv_heads * hdim) \<le> length vc"
      using assms(6) that(2) by (simp add: rows_inside_def)
    have "w mod q_heads < kv_heads * g" using that(1) assms(2) by (metis mod_less_divisor mult_0_right not_less_zero neq0_conv)
    then show "w mod q_heads div g < kv_heads" by (rule less_mult_imp_div_less)
  qed
  have "\<forall>\<^sub>F lo in at_bot. \<forall>w<n * q_heads. \<forall>p\<le>ix_positions ix ! (w div q_heads). lo < item_score q ?kf q_heads kv_heads hdim scale w p"
    by (rule scores_eventually)
  then show ?thesis
  proof (rule eventually_mono)
    fix lo assume lo: "\<forall>w<n * q_heads. \<forall>p\<le>ix_positions ix ! (w div q_heads). lo < item_score q ?kf q_heads kv_heads hdim scale w p"
    show "attention_decode_gqa_kernel (real_ops lo) (real_gpu lo) q kc vc ix n q_heads kv_heads hdim bs scale =
      attention_spec q ?kf (\<lambda>i kvh. head_slice vc (token_table ix i) bs kv_heads kvh hdim) (\<lambda>i. ix_positions ix ! i) n q_heads kv_heads hdim scale"
      unfolding gqa_kernel_items[OF assms(2-4)] attention_spec_def Let_def g
      by (intro arg_cong[of _ _ concat] map_cong refl gqa_head_real)
         (use lo item_query[OF assms(1)] len assms(5) in \<open>auto simp: item_score_def exact_pair_def g simp del: length_drop\<close>)
  qed
qed

text \<open>The reference loop over tokens and heads is the same items, in every exact arithmetic.\<close>

lemma head_slice_cached:
  "table ! (p div bs) = blocks bt ! (p div bs) \<Longrightarrow>
   head_slice cache table bs kv_heads kv_head hdim p = cached_vec cache bt bs kv_head kv_heads hdim p"
  by (simp add: head_slice_def cached_vec_def table_slot_def slot_def)

lemma attended_cong:
  assumes "\<And>d. d < hdim \<Longrightarrow> q ! d = q' ! d" "\<And>p. p \<le> pos \<Longrightarrow> kf p = kf' p" "\<And>p. p \<le> pos \<Longrightarrow> vf p = vf' p"
  shows "attended q scale hdim kf vf pos = attended q' scale hdim kf' vf' pos"
  unfolding attended_def using assms by (intro arg_cong[of _ _ mset] map_cong) (auto simp: exact_pair_def)

end
