(* ===== verification/Cuda_Model.thy ===== *)
theory Cuda_Model
  imports Gpu_Rows Gpu_Attention
begin

text \<open>
  \<open>CudaModel\<close> of \<open>src/src/model/cuda/cuda_model.cu\<close>, the host side of the second backend: loading,
  the index arrays of a step, and the sequence of launches of a forward pass. Device arrays are
  lists. Three things outside the repository are arguments: \<open>cublasGemmEx\<close>, \<open>cudaMalloc\<close> with what
  a fresh allocation holds, and the order in which the threads of each launch run. An error code of
  either library is an error value; a launch the device refuses is reported by the check at the
  end of the step in the code and at once here, and the state after an error is not modelled.
  The conversion of the logits on the host is the exact one from half precision, as on the device.
  The profiler's events are left out.
\<close>

subsection \<open>State\<close>

record ('h, 'f) cuda_layer =
  c_in_norm :: "'f list"
  c_post_norm :: "'f list"
  c_wq :: "'h list"
  c_wk :: "'h list"
  c_wv :: "'h list"
  c_wo :: "'h list"
  c_bq :: "'f list option"
  c_bk :: "'f list option"
  c_bv :: "'f list option"
  c_wgate :: "'h list"
  c_wup :: "'h list"
  c_wdown :: "'h list"

text \<open>The scratch buffers of the activations; the capacity of each is its length.\<close>

record 'h buffers =
  b_x :: "'h list"
  b_h :: "'h list"
  b_q :: "'h list"
  b_k :: "'h list"
  b_v :: "'h list"
  b_attn :: "'h list"
  b_o :: "'h list"
  b_gate :: "'h list"
  b_up :: "'h list"
  b_logits :: "'h list"

record ('h, 'f) cuda_model =
  cu_cfg :: model_config
  cu_embed :: "'h list"
  cu_lm_head :: "'h list"
  cu_final_norm :: "'f list"
  cu_cos :: "'f list"
  cu_sin :: "'f list"
  cu_layers :: "('h, 'f) cuda_layer list"
  cu_kv_dim :: nat
  cu_k_cache :: "'h list list"
  cu_v_cache :: "'h list list"
  cu_gqa_attn :: bool
  cu_scratch :: "'h buffers"

definition no_buffers :: "'h buffers" where
  "no_buffers = \<lparr>b_x = [], b_h = [], b_q = [], b_k = [], b_v = [], b_attn = [], b_o = [], b_gate = [], b_up = [], b_logits = []\<rparr>"

subsection \<open>Construction\<close>

definition upload_f16 :: "(u16 \<Rightarrow> 'h) \<Rightarrow> byte list option list \<Rightarrow> (string \<rightharpoonup> nat \<times> tensor_view) \<Rightarrow> string \<Rightarrow> 'h list result" where
  "upload_f16 of_half files index name =
    (and_then (dir_get index name) (\<lambda>(k, v).
     and_then (to_f16 (the (files ! k)) v) (\<lambda>hs. Inr (map of_half hs))))"

definition upload_f32 :: "(u32 \<Rightarrow> 'f) \<Rightarrow> byte list option list \<Rightarrow> (string \<rightharpoonup> nat \<times> tensor_view) \<Rightarrow> string \<Rightarrow> 'f list result" where
  "upload_f32 of_bits files index name =
    (and_then (dir_get index name) (\<lambda>(k, v).
     and_then (to_f32 (the (files ! k)) v) (\<lambda>t. Inr (map of_bits (t_data t)))))"

definition load_cuda_biases :: "(string \<Rightarrow> bool) \<Rightarrow> (string \<Rightarrow> 'f list result) \<Rightarrow> string \<Rightarrow> ('f list option \<times> 'f list option \<times> 'f list option) result" where
  "load_cuda_biases has get32 p =
    (if has (p @ ''self_attn.q_proj.bias'') then
       and_then (get32 (p @ ''self_attn.q_proj.bias'')) (\<lambda>q.
       and_then (get32 (p @ ''self_attn.k_proj.bias'')) (\<lambda>k.
       and_then (get32 (p @ ''self_attn.v_proj.bias'')) (\<lambda>v. Inr (Some q, Some k, Some v))))
     else Inr (None, None, None))"

definition load_cuda_layer ::
  "(string \<Rightarrow> bool) \<Rightarrow> (string \<Rightarrow> 'h list result) \<Rightarrow> (string \<Rightarrow> 'f list result) \<Rightarrow> nat \<Rightarrow> ('h, 'f) cuda_layer result" where
  "load_cuda_layer has get16 get32 l =
    (let p = ''model.layers.'' @ digits_of l @ ''.'' in
     and_then (get32 (p @ ''input_layernorm.weight'')) (\<lambda>inn.
     and_then (get32 (p @ ''post_attention_layernorm.weight'')) (\<lambda>pon.
     and_then (get16 (p @ ''self_attn.q_proj.weight'')) (\<lambda>q.
     and_then (get16 (p @ ''self_attn.k_proj.weight'')) (\<lambda>k.
     and_then (get16 (p @ ''self_attn.v_proj.weight'')) (\<lambda>v.
     and_then (get16 (p @ ''self_attn.o_proj.weight'')) (\<lambda>out.
     and_then (load_cuda_biases has get32 p) (\<lambda>(b1, b2, b3).
     and_then (get16 (p @ ''mlp.gate_proj.weight'')) (\<lambda>g.
     and_then (get16 (p @ ''mlp.up_proj.weight'')) (\<lambda>u.
     and_then (get16 (p @ ''mlp.down_proj.weight'')) (\<lambda>d.
       Inr \<lparr>c_in_norm = inn, c_post_norm = pon, c_wq = q, c_wk = k, c_wv = v, c_wo = out,
         c_bq = b1, c_bk = b2, c_bv = b3, c_wgate = g, c_wup = u, c_wdown = d\<rparr>)))))))))))"

fun load_cuda_layers ::
  "(string \<Rightarrow> bool) \<Rightarrow> (string \<Rightarrow> 'h list result) \<Rightarrow> (string \<Rightarrow> 'f list result) \<Rightarrow> nat list \<Rightarrow> ('h, 'f) cuda_layer list result" where
  "load_cuda_layers has get16 get32 [] = Inr []"
| "load_cuda_layers has get16 get32 (l # ls) =
    and_then (load_cuda_layer has get16 get32 l) (\<lambda>L. and_then (load_cuda_layers has get16 get32 ls) (\<lambda>Ls. Inr (L # Ls)))"

text \<open>The embedding, the final norm, the head (the embedding again when tied) and the layers.\<close>

definition load_cuda_weights ::
  "(string \<Rightarrow> bool) \<Rightarrow> (string \<Rightarrow> 'h list result) \<Rightarrow> (string \<Rightarrow> 'f list result) \<Rightarrow> model_config \<Rightarrow>
   ('h list \<times> 'f list \<times> 'h list \<times> ('h, 'f) cuda_layer list) result" where
  "load_cuda_weights has get16 get32 cfg =
    (and_then (get16 ''model.embed_tokens.weight'') (\<lambda>em.
     and_then (get32 ''model.norm.weight'') (\<lambda>fn.
     and_then (if tie_word_embeddings cfg then Inr em else get16 ''lm_head.weight'') (\<lambda>lm.
     if num_hidden_layers cfg < 0 then Inl Length_Error
     else and_then (load_cuda_layers has get16 get32 [0..<nat (num_hidden_layers cfg)]) (\<lambda>Ls. Inr (em, fn, lm, Ls))))))"

text \<open>The constructor refuses a configuration whose query width is not the hidden size, before it
  loads anything.\<close>

definition make_cuda_model ::
  "('f, 'd) float_ops \<Rightarrow> ('h, 'f) gpu_ops \<Rightarrow> (u32 \<Rightarrow> 'f) \<Rightarrow> (u16 \<Rightarrow> 'h) \<Rightarrow> header_parser \<Rightarrow> (string + config_file) option \<Rightarrow>
   byte list option list \<Rightarrow> bool \<Rightarrow> kv_cache \<Rightarrow> ('h, 'f) cuda_model result" where
  "make_cuda_model ops g of_bits of_half parse cfg_file files gqa_attn kv =
    (and_then (load_model_config cfg_file) (\<lambda>cfg.
     if num_attention_heads cfg * head_dim cfg \<noteq> hidden_size cfg
     then Inl (Runtime_Error ''cuda backend: num_attention_heads * head_dim must equal hidden_size'')
     else
       and_then (load_dir parse files) (\<lambda>index.
       and_then (load_cuda_weights (dir_has index) (upload_f16 of_half files index) (upload_f32 of_bits files index) cfg)
         (\<lambda>(em, fn, lm, Ls).
         let hd = nat (head_dim cfg);
             rope = rope_build ops hd (nat (max_position_embeddings cfg)) (rope_theta cfg);
             kvd = nat (num_key_value_heads cfg) * hd;
             slots = kv_num_blocks kv * kv_block_size kv;
             zeros = replicate (nat (num_hidden_layers cfg)) (replicate (slots * kvd) (f2h g (f_of_rat ops 0))) in
         Inr \<lparr>cu_cfg = cfg, cu_embed = em, cu_lm_head = lm, cu_final_norm = fn, cu_cos = rt_cos rope, cu_sin = rt_sin rope,
           cu_layers = Ls, cu_kv_dim = kvd, cu_k_cache = zeros, cu_v_cache = zeros, cu_gqa_attn = gqa_attn,
           cu_scratch = no_buffers\<rparr>))))"

subsection \<open>The index arrays of a step\<close>

text \<open>The sequences met so far, and the arrays built so far.\<close>

definition seen_index :: "seq_ref list \<Rightarrow> seq_ref \<Rightarrow> nat option" where
  "seen_index seen s = List.find (\<lambda>j. seen ! j = s) [0..<length seen]"

definition upload_token ::
  "(seq_ref \<Rightarrow> seq) \<Rightarrow> nat \<Rightarrow> seq_ref list \<times> step_indices \<Rightarrow> packed_token \<Rightarrow> seq_ref list \<times> step_indices" where
  "upload_token hp bs acc t =
    (case acc of (seen, ix) \<Rightarrow>
     let s = tok_seq t;
         (idx, seen1, ix1) =
           (case seen_index seen s of
              Some j \<Rightarrow> (j, seen, ix)
            | None \<Rightarrow> (length seen, seen @ [s],
                ix\<lparr>ix_table_offset := ix_table_offset ix @ [length (ix_tables ix)],
                   ix_tables := ix_tables ix @ blocks (block_tab (hp s))\<rparr>)) in
     (seen1, ix1\<lparr>ix_token_seq := ix_token_seq ix1 @ [idx],
                 ix_slots := ix_slots ix1 @ [slot (block_tab (hp s)) (tok_pos t) bs]\<rparr>))"

definition upload_step_indices :: "(seq_ref \<Rightarrow> seq) \<Rightarrow> nat \<Rightarrow> packed_token list \<Rightarrow> step_indices" where
  "upload_step_indices hp bs ts =
    snd (foldl (upload_token hp bs)
      ([], \<lparr>ix_slots = [], ix_token_seq = [], ix_tables = [], ix_table_offset = [], ix_positions = map tok_pos ts,
            ix_token_ids = map tok_id ts\<rparr>) ts)"

text \<open>What the arrays say after the tokens \<open>ts\<close>: every sequence met has its table at its offset, and
  every token names its sequence and its slot.\<close>

definition holds_table :: "nat list \<Rightarrow> nat \<Rightarrow> nat list \<Rightarrow> bool" where
  "holds_table tables off bl \<longleftrightarrow> off + length bl \<le> length tables \<and> take (length bl) (drop off tables) = bl"

definition uploaded :: "(seq_ref \<Rightarrow> seq) \<Rightarrow> nat \<Rightarrow> packed_token list \<Rightarrow> seq_ref list \<Rightarrow> step_indices \<Rightarrow> bool" where
  "uploaded hp bs ts seen ix \<longleftrightarrow>
    length (ix_table_offset ix) = length seen \<and> length (ix_token_seq ix) = length ts \<and>
    ix_slots ix = map (\<lambda>t. slot (block_tab (hp (tok_seq t))) (tok_pos t) bs) ts \<and>
    (\<forall>j<length seen. holds_table (ix_tables ix) (ix_table_offset ix ! j) (blocks (block_tab (hp (seen ! j))))) \<and>
    (\<forall>i<length ts. ix_token_seq ix ! i < length seen \<and> seen ! (ix_token_seq ix ! i) = tok_seq (ts ! i))"

lemma holds_table_append:
  "holds_table tables off bl \<Longrightarrow> holds_table (tables @ tail) off bl"
  "holds_table (tables @ bl) (length tables) bl"
  by (simp_all add: holds_table_def)

lemma seen_index_Some: "seen_index seen s = Some j \<Longrightarrow> j < length seen \<and> seen ! j = s"
  by (auto simp: seen_index_def find_Some_iff)

lemma upload_token_step:
  assumes "uploaded hp bs ts seen ix" "upload_token hp bs (seen, ix) t = (seen', ix')"
  shows "uploaded hp bs (ts @ [t]) seen' ix' \<and> ix_positions ix' = ix_positions ix \<and> ix_token_ids ix' = ix_token_ids ix"
proof (cases "seen_index seen (tok_seq t)")
  case None
  then show ?thesis
    using assms by (auto simp: upload_token_def uploaded_def Let_def nth_append holds_table_append less_Suc_eq)
next
  case (Some j)
  then show ?thesis
    using assms seen_index_Some[OF Some] by (auto simp: upload_token_def uploaded_def Let_def nth_append less_Suc_eq)
qed

lemma upload_tokens:
  assumes "uploaded hp bs ts seen ix" "foldl (upload_token hp bs) (seen, ix) us = (seen', ix')"
  shows "uploaded hp bs (ts @ us) seen' ix' \<and> ix_positions ix' = ix_positions ix \<and> ix_token_ids ix' = ix_token_ids ix"
  using assms
proof (induction us arbitrary: ts seen ix)
  case (Cons t us)
  obtain seen1 ix1 where st: "upload_token hp bs (seen, ix) t = (seen1, ix1)" by force
  then show ?case using Cons.IH[of "ts @ [t]" seen1 ix1] upload_token_step[OF Cons.prems(1) st] Cons.prems(2) by simp
qed simp

lemma upload_step_indices_spec:
  fixes hp bs ts
  defines "ix \<equiv> upload_step_indices hp bs ts"
  shows "ix_positions ix = map tok_pos ts" "ix_token_ids ix = map tok_id ts"
    "ix_slots ix = map (\<lambda>t. slot (block_tab (hp (tok_seq t))) (tok_pos t) bs) ts"
    "i < length ts \<Longrightarrow> take (length (blocks (block_tab (hp (tok_seq (ts ! i)))))) (token_table ix i) = blocks (block_tab (hp (tok_seq (ts ! i))))"
proof -
  let ?ix0 = "\<lparr>ix_slots = [], ix_token_seq = [], ix_tables = [], ix_table_offset = [], ix_positions = map tok_pos ts, ix_token_ids = map tok_id ts\<rparr>"
  obtain seen ix' where st: "foldl (upload_token hp bs) ([], ?ix0) ts = (seen, ix')" by force
  then have ix: "ix = ix'" by (simp add: ix_def upload_step_indices_def)
  have "uploaded hp bs [] [] ?ix0" by (simp add: uploaded_def)
  from upload_tokens[OF this st] have u: "uploaded hp bs ts seen ix" "ix_positions ix = map tok_pos ts" "ix_token_ids ix = map tok_id ts"
    by (simp_all add: ix)
  then show "ix_positions ix = map tok_pos ts" "ix_token_ids ix = map tok_id ts"
    "ix_slots ix = map (\<lambda>t. slot (block_tab (hp (tok_seq t))) (tok_pos t) bs) ts" by (simp_all add: uploaded_def)
  assume i: "i < length ts"
  then have "holds_table (ix_tables ix) (ix_table_offset ix ! (ix_token_seq ix ! i)) (blocks (block_tab (hp (tok_seq (ts ! i)))))"
    using u(1) unfolding uploaded_def by metis
  then show "take (length (blocks (block_tab (hp (tok_seq (ts ! i)))))) (token_table ix i) = blocks (block_tab (hp (tok_seq (ts ! i))))"
    by (simp add: holds_table_def token_table_def)
qed

lemmas upload_step_indices_table = upload_step_indices_spec(4)

lemma upload_step_indices_nth:
  assumes "i < length ts" "k < length (blocks (block_tab (hp (tok_seq (ts ! i)))))"
  shows "token_table (upload_step_indices hp bs ts) i ! k = blocks (block_tab (hp (tok_seq (ts ! i)))) ! k"
  using upload_step_indices_table[OF assms(1), of hp bs] assms(2) by (metis nth_take)

subsection \<open>Scratch buffers\<close>

text \<open>\<open>alloc\<close> is the device's allocator: what \<open>n\<close> fresh elements hold, or no memory.\<close>

definition scratch_get :: "(nat \<Rightarrow> 'h list option) \<Rightarrow> 'h list \<Rightarrow> nat \<Rightarrow> 'h list result" where
  "scratch_get alloc buf need =
    (if length buf < need then
       (case alloc need of None \<Rightarrow> Inl (Runtime_Error ''cudaMalloc failed'') | Some fresh \<Rightarrow> Inr fresh)
     else Inr buf)"

definition get_buffers :: "(nat \<Rightarrow> 'h list option) \<Rightarrow> 'h buffers \<Rightarrow> nat \<Rightarrow> nat \<Rightarrow> nat \<Rightarrow> nat \<Rightarrow> 'h buffers result" where
  "get_buffers alloc b n H kvd I =
    (and_then (scratch_get alloc (b_x b) (n * H)) (\<lambda>x.
     and_then (scratch_get alloc (b_h b) (n * H)) (\<lambda>h.
     and_then (scratch_get alloc (b_q b) (n * H)) (\<lambda>q.
     and_then (scratch_get alloc (b_k b) (n * kvd)) (\<lambda>k.
     and_then (scratch_get alloc (b_v b) (n * kvd)) (\<lambda>v.
     and_then (scratch_get alloc (b_attn b) (n * H)) (\<lambda>attn.
     and_then (scratch_get alloc (b_o b) (n * H)) (\<lambda>out.
     and_then (scratch_get alloc (b_gate b) (n * I)) (\<lambda>gate.
     and_then (scratch_get alloc (b_up b) (n * I)) (\<lambda>up.
       Inr \<lparr>b_x = x, b_h = h, b_q = q, b_k = k, b_v = v, b_attn = attn, b_o = out, b_gate = gate, b_up = up,
            b_logits = b_logits b\<rparr>))))))))))"

text \<open>A step works on the front of each buffer; the rest of it stays as it was.\<close>

definition step_view :: "'h buffers \<Rightarrow> nat \<Rightarrow> nat \<Rightarrow> nat \<Rightarrow> nat \<Rightarrow> 'h buffers" where
  "step_view b n H kvd I =
    b\<lparr>b_x := take (n * H) (b_x b), b_h := take (n * H) (b_h b), b_q := take (n * H) (b_q b), b_k := take (n * kvd) (b_k b),
      b_v := take (n * kvd) (b_v b), b_attn := take (n * H) (b_attn b), b_o := take (n * H) (b_o b),
      b_gate := take (n * I) (b_gate b), b_up := take (n * I) (b_up b)\<rparr>"

definition put_front :: "'h list \<Rightarrow> 'h list \<Rightarrow> 'h list" where
  "put_front buf new = new @ drop (length new) buf"

definition keep_view :: "'h buffers \<Rightarrow> 'h buffers \<Rightarrow> 'h buffers" where
  "keep_view b w =
    \<lparr>b_x = put_front (b_x b) (b_x w), b_h = put_front (b_h b) (b_h w), b_q = put_front (b_q b) (b_q w),
     b_k = put_front (b_k b) (b_k w), b_v = put_front (b_v b) (b_v w), b_attn = put_front (b_attn b) (b_attn w),
     b_o = put_front (b_o b) (b_o w), b_gate = put_front (b_gate b) (b_gate w), b_up = put_front (b_up b) (b_up w),
     b_logits = b_logits w\<rparr>"

subsection \<open>Matrix products\<close>

text \<open>\<open>cublasGemmEx\<close> with factors one and zero: whether each matrix is transposed, the sizes, the
  matrices with their leading dimensions, and the memory of the result.\<close>

type_synonym 'h gemm_ex = "bool \<Rightarrow> bool \<Rightarrow> nat \<Rightarrow> nat \<Rightarrow> nat \<Rightarrow> 'h list \<Rightarrow> nat \<Rightarrow> 'h list \<Rightarrow> nat \<Rightarrow> 'h list \<Rightarrow> nat \<Rightarrow> 'h list option"

definition gemm :: "'h gemm_ex \<Rightarrow> 'h list \<Rightarrow> 'h list \<Rightarrow> 'h list \<Rightarrow> nat \<Rightarrow> nat \<Rightarrow> nat \<Rightarrow> 'h list result" where
  "gemm ex A B C m n k =
    (case ex True False n m k B k A k C n of None \<Rightarrow> Inl (Runtime_Error ''cuBLAS status'') | Some C' \<Rightarrow> Inr C')"

subsection \<open>The order of the threads of every launch\<close>

text \<open>By layer and launch: for kernels with a block per row, for the elementwise ones, and for the
  rotation.\<close>

record gpu_order =
  by_row :: "nat \<Rightarrow> nat \<Rightarrow> nat \<Rightarrow> nat \<Rightarrow> nat \<Rightarrow> (nat \<times> nat) list"
  by_element :: "nat \<Rightarrow> nat \<Rightarrow> nat \<Rightarrow> nat list"
  by_pair :: "nat \<Rightarrow> nat \<Rightarrow> nat \<Rightarrow> nat \<Rightarrow> nat \<Rightarrow> (nat \<times> nat \<times> nat) list"

definition launched :: "'a option \<Rightarrow> 'a result" where
  "launched r = (case r of None \<Rightarrow> Inl (Runtime_Error ''invalid configuration argument'') | Some x \<Rightarrow> Inr x)"

subsection \<open>A layer\<close>

definition cuda_attention ::
  "('f, 'd) float_ops \<Rightarrow> ('h, 'f) gpu_ops \<Rightarrow> bool \<Rightarrow> 'h list \<Rightarrow> 'h list \<Rightarrow> 'h list \<Rightarrow> step_indices \<Rightarrow> 'h list \<Rightarrow> nat \<Rightarrow> model_config \<Rightarrow> nat \<Rightarrow> 'h list result" where
  "cuda_attention ops g gqa_attn q kc vc ix attn n cfg bs =
    (let nh = nat (num_attention_heads cfg); nkv = nat (num_key_value_heads cfg); hd = nat (head_dim cfg);
         scale = f_div ops (f_of_rat ops 1) (f_sqrt ops (f_of_rat ops (of_nat hd))) in
     if gqa_attn then launch_attention_decode_gqa ops g q kc vc ix attn n nh nkv hd bs scale
     else launch_attention_decode ops g q kc vc ix attn n nh nkv hd bs scale)"

definition cuda_qkv ::
  "('f, 'd) float_ops \<Rightarrow> ('h, 'f) gpu_ops \<Rightarrow> 'h gemm_ex \<Rightarrow> gpu_order \<Rightarrow> ('h, 'f) cuda_model \<Rightarrow> step_indices \<Rightarrow> nat \<Rightarrow> nat \<Rightarrow> 'h buffers \<Rightarrow> 'h buffers result" where
  "cuda_qkv ops g ex od m ix n l b =
    (let cfg = cu_cfg m; L = cu_layers m ! l; H = nat (hidden_size cfg); kvd = cu_kv_dim m; hd = nat (head_dim cfg);
         nh = nat (num_attention_heads cfg); nkv = nat (num_key_value_heads cfg);
         h = launch_rmsnorm ops g (b_x b) (c_in_norm L) (b_h b) n H (rms_norm_eps cfg) (by_row od l 0 n 256 H) in
     and_then (gemm ex h (c_wq L) (b_q b) n H H) (\<lambda>q0.
     and_then (gemm ex h (c_wk L) (b_k b) n kvd H) (\<lambda>k0.
     and_then (gemm ex h (c_wv L) (b_v b) n kvd H) (\<lambda>v0.
     let q1 = launch_add_bias ops g q0 (c_bq L) n H (by_element od l 0 (n * H));
         k1 = launch_add_bias ops g k0 (c_bk L) n kvd (by_element od l 1 (n * kvd));
         v1 = launch_add_bias ops g v0 (c_bv L) n kvd (by_element od l 2 (n * kvd)) in
     and_then (launched (launch_rope ops g q1 (ix_positions ix) (cu_cos m) (cu_sin m) n nh hd H (by_pair od l 0 n nh hd))) (\<lambda>q2.
     and_then (launched (launch_rope ops g k1 (ix_positions ix) (cu_cos m) (cu_sin m) n nkv hd kvd (by_pair od l 1 n nkv hd))) (\<lambda>k2.
       Inr (b\<lparr>b_h := h, b_q := q2, b_k := k2, b_v := v1\<rparr>)))))))"

definition cuda_mlp ::
  "('f, 'd) float_ops \<Rightarrow> ('h, 'f) gpu_ops \<Rightarrow> 'h gemm_ex \<Rightarrow> gpu_order \<Rightarrow> ('h, 'f) cuda_model \<Rightarrow> nat \<Rightarrow> nat \<Rightarrow> 'h buffers \<Rightarrow> 'h buffers result" where
  "cuda_mlp ops g ex od m n l b =
    (let cfg = cu_cfg m; L = cu_layers m ! l; H = nat (hidden_size cfg); I = nat (intermediate_size cfg) in
     and_then (gemm ex (b_attn b) (c_wo L) (b_o b) n H H) (\<lambda>o1.
     let x1 = launch_add_inplace ops g (b_x b) o1 (n * H) (by_element od l 3 (n * H));
         h1 = launch_rmsnorm ops g x1 (c_post_norm L) (b_h b) n H (rms_norm_eps cfg) (by_row od l 1 n 256 H) in
     and_then (gemm ex h1 (c_wgate L) (b_gate b) n I H) (\<lambda>gate.
     and_then (gemm ex h1 (c_wup L) (b_up b) n I H) (\<lambda>up.
     and_then (launched (launch_silu_mul ops g gate up (n * I) (by_element od l 4 (n * I)))) (\<lambda>act.
     and_then (gemm ex act (c_wdown L) o1 n H I) (\<lambda>o2.
       Inr (b\<lparr>b_x := launch_add_inplace ops g x1 o2 (n * H) (by_element od l 5 (n * H)), b_h := h1, b_o := o2,
              b_gate := act, b_up := up\<rparr>)))))))"

definition cuda_layer_step ::
  "('f, 'd) float_ops \<Rightarrow> ('h, 'f) gpu_ops \<Rightarrow> 'h gemm_ex \<Rightarrow> gpu_order \<Rightarrow> step_indices \<Rightarrow> nat \<Rightarrow> nat \<Rightarrow> nat \<Rightarrow>
   ('h, 'f) cuda_model \<times> 'h buffers \<Rightarrow> (('h, 'f) cuda_model \<times> 'h buffers) result" where
  "cuda_layer_step ops g ex od ix n bs l st =
    (case st of (m, b) \<Rightarrow>
     and_then (cuda_qkv ops g ex od m ix n l b) (\<lambda>b1.
     case launch_store_kv (b_k b1) (b_v b1) (ix_slots ix) (cu_k_cache m ! l, cu_v_cache m ! l) n (cu_kv_dim m)
            (by_row od l 2 n 128 (cu_kv_dim m)) of (kc, vc) \<Rightarrow>
     and_then (cuda_attention ops g (cu_gqa_attn m) (b_q b1) kc vc ix (b_attn b1) n (cu_cfg m) bs) (\<lambda>attn.
     and_then (cuda_mlp ops g ex od m n l (b1\<lparr>b_attn := attn\<rparr>)) (\<lambda>b2.
       Inr (m\<lparr>cu_k_cache := (cu_k_cache m)[l := kc], cu_v_cache := (cu_v_cache m)[l := vc]\<rparr>, b2)))))"

fun cuda_layers_loop ::
  "('f, 'd) float_ops \<Rightarrow> ('h, 'f) gpu_ops \<Rightarrow> 'h gemm_ex \<Rightarrow> gpu_order \<Rightarrow> step_indices \<Rightarrow> nat \<Rightarrow> nat \<Rightarrow> nat list \<Rightarrow>
   ('h, 'f) cuda_model \<times> 'h buffers \<Rightarrow> (('h, 'f) cuda_model \<times> 'h buffers) result" where
  "cuda_layers_loop ops g ex od ix n bs [] st = Inr st"
| "cuda_layers_loop ops g ex od ix n bs (l # ls) st =
    and_then (cuda_layer_step ops g ex od ix n bs l st) (cuda_layers_loop ops g ex od ix n bs ls)"

subsection \<open>The forward pass\<close>

text \<open>The rows that need logits are gathered in front of the buffer of the projections.\<close>

definition gather_rows :: "'h list \<Rightarrow> 'h list \<Rightarrow> nat \<Rightarrow> nat list \<Rightarrow> 'h list" where
  "gather_rows out x H rows = foldl (\<lambda>o' r. put_row o' H r (row x H (rows ! r))) out [0..<length rows]"

definition cuda_head ::
  "('f, 'd) float_ops \<Rightarrow> ('h, 'f) gpu_ops \<Rightarrow> 'h gemm_ex \<Rightarrow> (nat \<Rightarrow> 'h list option) \<Rightarrow> gpu_order \<Rightarrow> ('h, 'f) cuda_model \<Rightarrow> nat list \<Rightarrow>
   'h buffers \<Rightarrow> ('h list \<times> 'h buffers) result" where
  "cuda_head ops g ex alloc od m rows b =
    (let cfg = cu_cfg m; H = nat (hidden_size cfg); V = nat (vocab cfg); R = length rows; Ls = nat (num_hidden_layers cfg);
         out = gather_rows (b_o b) (b_x b) H rows in
     and_then (scratch_get alloc (b_logits b) (R * V)) (\<lambda>dlog.
     let h = launch_rmsnorm ops g out (cu_final_norm m) (take (R * H) (b_h b)) R H (rms_norm_eps cfg) (by_row od Ls 0 R 256 H) in
     and_then (gemm ex h (cu_lm_head m) (take (R * V) dlog) R V H) (\<lambda>dl.
       Inr (dl, b\<lparr>b_o := out, b_h := put_front (b_h b) h, b_logits := put_front dlog dl\<rparr>))))"

definition cuda_forward ::
  "('f, 'd) float_ops \<Rightarrow> ('h, 'f) gpu_ops \<Rightarrow> 'h gemm_ex \<Rightarrow> (nat \<Rightarrow> 'h list option) \<Rightarrow> gpu_order \<Rightarrow> (seq_ref \<Rightarrow> seq) \<Rightarrow> nat \<Rightarrow> step_input \<Rightarrow>
   ('h, 'f) cuda_model \<Rightarrow> (('h, 'f) cuda_model \<times> 'f list) result" where
  "cuda_forward ops g ex alloc od hp bs st m =
    (let cfg = cu_cfg m; H = nat (hidden_size cfg); V = nat (vocab cfg); kvd = cu_kv_dim m; I = nat (intermediate_size cfg);
         Ls = nat (num_hidden_layers cfg); zeros = (\<lambda>k. replicate (k * V) (f_of_rat ops 0)) in
     if slices st = [] then Inr (m, zeros (nat (num_logits st)))
     else
       case pack hp (slices st) ([], []) of (ts, rows) \<Rightarrow>
       let n = length ts; ix = upload_step_indices hp bs ts in
       and_then (get_buffers alloc (cu_scratch m) n H kvd I) (\<lambda>b0.
       let b = step_view b0 n H kvd I;
           x = launch_embedding (cu_embed m) (ix_token_ids ix) (b_x b) n H (by_row od Ls 1 n 256 H) in
       and_then (cuda_layers_loop ops g ex od ix n bs [0..<Ls] (m, b\<lparr>b_x := x\<rparr>)) (\<lambda>(m1, b1).
       if rows = [] then Inr (m1\<lparr>cu_scratch := keep_view b0 b1\<rparr>, zeros (nat (num_logits st)))
       else
         and_then (cuda_head ops g ex alloc od m1 rows b1) (\<lambda>(dlog, b2).
         Inr (m1\<lparr>cu_scratch := keep_view b0 b2\<rparr>, map (h2f g) dlog @ zeros (nat (num_logits st) - length rows))))))"

end
