(* ===== verification/Cuda_Equiv.thy ===== *)
theory Cuda_Equiv
  imports Cuda_Model
begin

text \<open>
  The two backends agree: in exact arithmetic a forward pass on the device leaves the caches and the
  logits that the reference forward pass leaves, whichever attention kernel is chosen, whatever the
  scratch buffers held and in whatever order the threads ran. The value that stands for the lowest
  float has to lie below the scores of the step, so the statements hold for all sufficiently low ones.
\<close>

subsection \<open>The device\<close>

text \<open>The documented behaviour of \<open>cublasGemmEx\<close> for a transposed first and a plain second matrix,
  stored by columns.\<close>

definition gemm_documented :: "real gemm_ex \<Rightarrow> bool" where
  "gemm_documented ex \<longleftrightarrow>
    (\<forall>m n k A lda B ldb C ldc. 0 < m \<and> 0 < n \<and> 0 < k \<and> k \<le> lda \<and> k \<le> ldb \<and> m \<le> ldc \<and>
       m * lda \<le> length A \<and> n * ldb \<le> length B \<and> n * ldc \<le> length C \<longrightarrow>
       (\<exists>C'. ex True False m n k A lda B ldb C ldc = Some C' \<and> length C' = length C \<and>
         (\<forall>i<m. \<forall>j<n. C' ! (j * ldc + i) = (\<Sum>p<k. A ! (i * lda + p) * B ! (j * ldb + p)))))"

text \<open>What the host relies on: the products, launches whose threads all run, and memory.\<close>

locale exact_device =
  fixes ex :: "real gemm_ex" and alloc :: "nat \<Rightarrow> real list option" and od :: gpu_order
  assumes products: "gemm_documented ex"
    and memory: "\<exists>b. alloc n = Some b \<and> length b = n"
    and rows_run: "block_run B T n (by_row od l i B T n)"
    and elements_run: "grid_run (grid_blocks n * 256) n (by_element od l i n)"
    and pairs_run: "rope_run n heads hdim (by_pair od l i n heads hdim)"

text \<open>Exact products, an allocator that never runs out, and one order of the threads.\<close>

definition exact_gemm :: "real gemm_ex" where
  "exact_gemm ta tb m n k A lda B ldb C ldc =
    Some (map (\<lambda>e. let i = e mod ldc; j = e div ldc in
      if i < m \<and> j < n then \<Sum>p<k. A ! (if ta then i * lda + p else p * lda + i) * B ! (if tb then p * ldb + j else j * ldb + p)
      else C ! e) [0..<length C])"

definition zero_alloc :: "nat \<Rightarrow> real list option" where
  "zero_alloc n = Some (replicate n 0)"

definition serial_order :: gpu_order where
  "serial_order =
    \<lparr>by_row = (\<lambda>l i B T n. concat (map (\<lambda>b. map (Pair b) (concat (map (\<lambda>t. thread_loop t T n) [0..<T]))) [0..<B])),
     by_element = (\<lambda>l i n. concat (map (\<lambda>t. thread_loop t (grid_blocks n * 256) n) [0..<grid_blocks n * 256])),
     by_pair = (\<lambda>l i n heads hdim. concat (map (\<lambda>token. concat (map (\<lambda>head. map (\<lambda>i. (token, head, i))
       (filter (\<lambda>i. i < hdim div 2) [0..<rope_threads hdim])) [0..<heads])) [0..<n]))\<rparr>"

lemma exact_gemm_documented: "gemm_documented exact_gemm"
  unfolding gemm_documented_def
proof (intro allI impI)
  fix m n k lda ldb ldc and A B C :: "real list"
  assume a: "0 < m \<and> 0 < n \<and> 0 < k \<and> k \<le> lda \<and> k \<le> ldb \<and> m \<le> ldc \<and> m * lda \<le> length A \<and> n * ldb \<le> length B \<and> n * ldc \<le> length C"
  let ?C = "the (exact_gemm True False m n k A lda B ldb C ldc)"
  have "?C ! (j * ldc + i) = (\<Sum>p<k. A ! (i * lda + p) * B ! (j * ldb + p))" if "i < m" "j < n" for i j
  proof -
    have "j * ldc + i < n * ldc" using a that by (intro row_index) auto
    then show ?thesis using a that by (simp add: exact_gemm_def)
  qed
  then show "\<exists>C'. exact_gemm True False m n k A lda B ldb C ldc = Some C' \<and> length C' = length C \<and>
      (\<forall>i<m. \<forall>j<n. C' ! (j * ldc + i) = (\<Sum>p<k. A ! (i * lda + p) * B ! (j * ldb + p)))"
    by (intro exI[of _ ?C]) (simp add: exact_gemm_def)
qed

interpretation device: exact_device exact_gemm zero_alloc serial_order
  by unfold_locales
    (simp_all add: exact_gemm_documented zero_alloc_def serial_order_def block_run_def grid_run_def rope_run_def)

subsection \<open>Products\<close>

lemma linear_length: "length (linear ops A m k B n bias) = m * n"
  unfolding linear_def by (intro concat_rows_length) simp

lemma linear_nth:
  assumes "i < m" "j < n" "length A = m * k" "length B = n * k"
  shows "linear (real_ops lo) A m k B n bias ! (i * n + j) =
    (\<Sum>p<k. A ! (i * k + p) * B ! (j * k + p)) + (case bias of None \<Rightarrow> 0 | Some b \<Rightarrow> b ! j)"
proof -
  have "row A k i ! p = A ! (i * k + p)" "row B k j ! p = B ! (j * k + p)" if "p < k" for p
    using that assms row_index[of i m p k] row_index[of j n p k] by (simp_all add: row_nth)
  then have "dot (real_ops lo) (row A k i) (row B k j) k = (\<Sum>p<k. A ! (i * k + p) * B ! (j * k + p))" by (simp add: dot_real)
  moreover have "linear (real_ops lo) A m k B n bias ! (i * n + j) =
      (\<lambda>i. map (\<lambda>j. let s = dot (real_ops lo) (row A k i) (row B k j) k in case bias of None \<Rightarrow> s | Some b \<Rightarrow> s + b ! j) [0..<n]) i ! j"
    unfolding linear_def real_ops_simps by (rule concat_rows_nth) (use assms(1,2) in simp_all)
  ultimately show ?thesis using assms(2) by (simp split: option.split)
qed

lemma nth_rows_eqI:
  assumes "length xs = m * n" "length ys = m * n" "\<And>i j. i < m \<Longrightarrow> j < n \<Longrightarrow> xs ! (i * n + j) = ys ! (i * n + j)"
  shows "xs = ys"
proof (rule nth_equalityI)
  fix e assume "e < length xs"
  then have e: "e < m * n" using assms(1) by simp
  then have "0 < n" by (cases n) auto
  then show "xs ! e = ys ! e" using assms(3)[of "e div n" "e mod n"] e by (simp add: less_mult_imp_div_less)
qed (use assms in simp)

text \<open>A bias added afterwards is the bias inside the product.\<close>

lemma add_bias_linear:
  assumes "grid_run (grid_blocks (m * n) * 256) (m * n) run" "length A = m * k" "length B = n * k"
  shows "launch_add_bias (real_ops lo) (real_gpu lo) (linear (real_ops lo') A m k B n None) bias m n run =
    linear (real_ops lo') A m k B n bias"
proof (cases bias)
  case (Some b)
  show ?thesis
    unfolding Some launch_add_bias_real[OF assms(1) linear_length]
  proof (rule nth_rows_eqI)
    fix i j assume ij: "i < m" "j < n"
    show "map (\<lambda>i. linear (real_ops lo') A m k B n None ! i + b ! (i mod n)) [0..<m * n] ! (i * n + j) =
        linear (real_ops lo') A m k B n (Some b) ! (i * n + j)"
      using ij row_index[OF ij] assms by (simp add: linear_nth)
  qed (simp_all add: linear_length)
qed (simp add: launch_add_bias_def)

context exact_device
begin

text \<open>Asking the column-major library for the transposed product gives the product by rows.\<close>

lemma gemm_linear:
  assumes "length A = m * k" "length B = n * k" "length C = m * n" "0 < m" "0 < n" "0 < k"
  shows "gemm ex A B C m n k = Inr (linear (real_ops lo) A m k B n None)"
proof -
  obtain C' where C': "ex True False n m k B k A k C n = Some C'" "length C' = length C"
    "\<forall>i<n. \<forall>j<m. C' ! (j * n + i) = (\<Sum>p<k. B ! (i * k + p) * A ! (j * k + p))"
    using products[unfolded gemm_documented_def, rule_format, of n m k k k n B A C] assms by auto
  have "C' = linear (real_ops lo) A m k B n None"
    using C'(2,3) assms(1-3) by (intro nth_rows_eqI[of _ m n]) (simp_all add: linear_length linear_nth mult.commute)
  then show ?thesis by (simp add: gemm_def C'(1))
qed

end

subsection \<open>The two models\<close>

definition cuda_layer_of :: "real layer \<Rightarrow> (real, real) cuda_layer" where
  "cuda_layer_of L =
    \<lparr>c_in_norm = in_norm L, c_post_norm = post_norm L, c_wq = wq L, c_wk = wk L, c_wv = wv L, c_wo = wo L,
     c_bq = bias_of (bq L), c_bk = bias_of (bk L), c_bv = bias_of (bv L), c_wgate = wgate L, c_wup = wup L, c_wdown = wdown L\<rparr>"

text \<open>The device's model of the same weights and caches, with a kernel chosen and some buffers.\<close>

definition cuda_of :: "bool \<Rightarrow> real buffers \<Rightarrow> real cpu_model \<Rightarrow> (real, real) cuda_model" where
  "cuda_of gqa_attn sc m =
    \<lparr>cu_cfg = cm_cfg m, cu_embed = w_embed (cm_weights m),
     cu_lm_head = (if tie_word_embeddings (cm_cfg m) then w_embed (cm_weights m) else w_lm_head (cm_weights m)),
     cu_final_norm = w_final_norm (cm_weights m), cu_cos = rt_cos (cm_rope m), cu_sin = rt_sin (cm_rope m),
     cu_layers = map cuda_layer_of (w_layers (cm_weights m)), cu_kv_dim = cm_kv_dim m, cu_k_cache = k_cache m, cu_v_cache = v_cache m,
     cu_gqa_attn = gqa_attn, cu_scratch = sc\<rparr>"

lemma cuda_of_simps [simp]:
  "cu_cfg (cuda_of gqa_attn sc m) = cm_cfg m" "cu_embed (cuda_of gqa_attn sc m) = w_embed (cm_weights m)"
  "cu_kv_dim (cuda_of gqa_attn sc m) = cm_kv_dim m" "cu_scratch (cuda_of gqa_attn sc m) = sc"
  by (simp_all add: cuda_of_def)

definition layer_shaped :: "nat \<Rightarrow> nat \<Rightarrow> nat \<Rightarrow> 'f layer \<Rightarrow> bool" where
  "layer_shaped H kvd I L \<longleftrightarrow>
    length (wq L) = H * H \<and> length (wk L) = kvd * H \<and> length (wv L) = kvd * H \<and> length (wo L) = H * H \<and>
    length (wgate L) = I * H \<and> length (wup L) = I * H \<and> length (wdown L) = H * I"

text \<open>A configuration the device accepts, and arrays of the sizes it gives; \<open>S\<close> is the number of slots.\<close>

definition config_fits :: "bool \<Rightarrow> model_config \<Rightarrow> bool" where
  "config_fits gqa_attn c \<longleftrightarrow>
    0 < intermediate_size c \<and> 0 < vocab c \<and> 0 < num_key_value_heads c \<and> 0 < num_attention_heads c \<and>
    2 \<le> head_dim c \<and> head_dim c \<le> 128 \<and> num_attention_heads c mod num_key_value_heads c = 0 \<and>
    num_attention_heads c * head_dim c = hidden_size c \<and>
    (gqa_attn \<longrightarrow> num_attention_heads c div num_key_value_heads c \<le> 8 \<and> head_dim c mod 32 = 0)"

definition shaped :: "bool \<Rightarrow> nat \<Rightarrow> 'f cpu_model \<Rightarrow> bool" where
  "shaped gqa_attn S m \<longleftrightarrow>
    (let c = cm_cfg m; H = nat (hidden_size c); kvd = nat (num_key_value_heads c) * nat (head_dim c); n = nat (num_hidden_layers c) in
     config_fits gqa_attn c \<and> cm_kv_dim m = kvd \<and>
     length (w_layers (cm_weights m)) = n \<and> list_all (layer_shaped H kvd (nat (intermediate_size c))) (w_layers (cm_weights m)) \<and>
     length (k_cache m) = n \<and> length (v_cache m) = n \<and>
     list_all (\<lambda>a. length a = S * kvd) (k_cache m) \<and> list_all (\<lambda>a. length a = S * kvd) (v_cache m) \<and>
     length (if tie_word_embeddings c then w_embed (cm_weights m) else w_lm_head (cm_weights m)) = nat (vocab c) * H)"

text \<open>The tokens of a step: their ids are in the embedding, their positions in the rotation tables and
  the block tables, and their slots inside the cache and apart.\<close>

definition token_slot :: "(seq_ref \<Rightarrow> seq) \<Rightarrow> nat \<Rightarrow> packed_token \<Rightarrow> nat" where
  "token_slot hp bs t = slot (block_tab (hp (tok_seq t))) (tok_pos t) bs"

definition step_fits :: "(seq_ref \<Rightarrow> seq) \<Rightarrow> nat \<Rightarrow> nat \<Rightarrow> 'f cpu_model \<Rightarrow> packed_token list \<Rightarrow> bool" where
  "step_fits hp bs S m ts \<longleftrightarrow>
    ts \<noteq> [] \<and> length ts * nat (intermediate_size (cm_cfg m)) < 2 ^ 38 \<and> distinct (map (token_slot hp bs) ts) \<and>
    list_all (\<lambda>t. let half = nat (head_dim (cm_cfg m)) div 2; bt = block_tab (hp (tok_seq t)) in
      Suc (nat (tok_id t)) * nat (hidden_size (cm_cfg m)) \<le> length (w_embed (cm_weights m)) \<and>
      tok_pos t * half \<le> length (rt_cos (cm_rope m)) \<and> tok_pos t * half \<le> length (rt_sin (cm_rope m)) \<and>
      tok_pos t div bs < length (blocks bt) \<and> list_all (\<lambda>p. slot bt p bs < S) [0..<Suc (tok_pos t)]) ts"

subsection \<open>Sizes\<close>

definition sized :: "nat \<Rightarrow> nat \<Rightarrow> nat \<Rightarrow> nat \<Rightarrow> 'h buffers \<Rightarrow> bool" where
  "sized n H kvd I b \<longleftrightarrow>
    length (b_x b) = n * H \<and> length (b_h b) = n * H \<and> length (b_q b) = n * H \<and> length (b_k b) = n * kvd \<and> length (b_v b) = n * kvd \<and>
    length (b_attn b) = n * H \<and> length (b_o b) = n * H \<and> length (b_gate b) = n * I \<and> length (b_up b) = n * I"

lemma rmsnorm_length: "length (rmsnorm ops x wt rows cols eps) = rows * cols"
  unfolding rmsnorm_def by (intro concat_rows_length) (simp add: Let_def)

lemma rotate_rows_length:
  assumes "length x = length ts * cols"
  shows "length (rotate_rows ops m x cols heads ts) = length ts * cols"
proof -
  have "length (row x cols i) = cols" if "i < length ts" for i
    using that assms mult_le_mono1[of "Suc i" "length ts" cols] by (simp add: row_def)
  then show ?thesis unfolding rotate_rows_def by (intro concat_rows_length) (simp add: rope_inplace_def Let_def)
qed

lemma layer_lengths:
  "length (layer_h ops m n l x) = n * nat (hidden_size (cm_cfg m))"
  "length (layer_q ops m ts l x) = length ts * nat (hidden_size (cm_cfg m))"
  "length (layer_k ops m ts l x) = length ts * cm_kv_dim m"
  "length (layer_v ops m ts l x) = length ts * cm_kv_dim m"
  "length (layer_out ops m n l x attn) = length x"
  by (simp_all add: layer_h_def layer_q_def layer_k_def layer_v_def layer_out_def Let_def rmsnorm_length rotate_rows_length linear_length add_into_def)

lemma shapedD:
  assumes "shaped gqa_attn S m" "l < nat (num_hidden_layers (cm_cfg m))"
  defines "c \<equiv> cm_cfg m" and "L \<equiv> w_layers (cm_weights m) ! l"
  shows "config_fits gqa_attn c" "cm_kv_dim m = nat (num_key_value_heads c) * nat (head_dim c)"
    "cu_layers (cuda_of gqa_attn sc m) ! l = cuda_layer_of L"
    "layer_shaped (nat (hidden_size c)) (cm_kv_dim m) (nat (intermediate_size c)) L"
    "length (k_cache m ! l) = S * cm_kv_dim m" "length (v_cache m ! l) = S * cm_kv_dim m"
  using assms by (auto simp: shaped_def Let_def list_all_length cuda_of_def)

lemma config_fitsD:
  assumes "config_fits gqa_attn c"
  shows "nat (hidden_size c) = nat (num_attention_heads c) * nat (head_dim c)" "0 < nat (hidden_size c)" "0 < nat (intermediate_size c)"
    "0 < nat (vocab c)" "0 < nat (num_key_value_heads c) * nat (head_dim c)" "0 < nat (num_attention_heads c)" "0 < nat (num_key_value_heads c)"
    "nat (head_dim c) \<le> 128" "0 < rope_threads (nat (head_dim c))" "rope_threads (nat (head_dim c)) \<le> 1024"
    "nat (num_attention_heads c) = nat (num_key_value_heads c) * nat (gqa_group c)" "0 < nat (gqa_group c)"
proof -
  have c: "0 < num_key_value_heads c" "0 < num_attention_heads c" "2 \<le> head_dim c" "head_dim c \<le> 128"
    "num_attention_heads c mod num_key_value_heads c = 0" "num_attention_heads c * head_dim c = hidden_size c"
    using assms by (auto simp: config_fits_def)
  show "nat (hidden_size c) = nat (num_attention_heads c) * nat (head_dim c)" using c by (simp add: nat_mult_distrib flip: c(6))
  then show "0 < nat (hidden_size c)" using c by simp
  show "0 < nat (intermediate_size c)" "0 < nat (vocab c)" using assms by (auto simp: config_fits_def)
  show "0 < nat (num_key_value_heads c) * nat (head_dim c)" "0 < nat (num_attention_heads c)" "0 < nat (num_key_value_heads c)" "nat (head_dim c) \<le> 128"
    using c by simp_all
  show "0 < rope_threads (nat (head_dim c))" "rope_threads (nat (head_dim c)) \<le> 1024" using c(3,4) unfolding rope_threads_def by linarith+
  have g: "gqa_group c = num_attention_heads c div num_key_value_heads c" using c(1,2) by (simp add: gqa_group_def signed_divide_int_def)
  then have eq: "num_attention_heads c = num_key_value_heads c * gqa_group c" using c(5) by auto
  then have pos: "0 < gqa_group c" using c(1,2) zero_less_mult_pos by metis
  then show "0 < nat (gqa_group c)" by simp
  show "nat (num_attention_heads c) = nat (num_key_value_heads c) * nat (gqa_group c)" using c(1) pos by (subst eq) (simp add: nat_mult_distrib)
qed

subsection \<open>A layer on the device\<close>

lemma rope_rows:
  assumes "rope_run (length ts) heads (nat (head_dim (cm_cfg m))) run" "length x = length ts * cols" "cols = heads * nat (head_dim (cm_cfg m))"
    "0 < rope_threads (nat (head_dim (cm_cfg m)))" "rope_threads (nat (head_dim (cm_cfg m))) \<le> 1024" "step_fits hp bs S m ts"
  shows "launch_rope (real_ops lo) (real_gpu lo) x (map tok_pos ts) (rt_cos (cm_rope m)) (rt_sin (cm_rope m)) (length ts) heads (nat (head_dim (cm_cfg m))) cols run =
    Some (rotate_rows (real_ops lo') m x cols heads ts)"
proof -
  have "\<forall>t<length ts. map tok_pos ts ! t * (nat (head_dim (cm_cfg m)) div 2) \<le> length (rt_cos (cm_rope m)) \<and>
      map tok_pos ts ! t * (nat (head_dim (cm_cfg m)) div 2) \<le> length (rt_sin (cm_rope m))"
    using assms(6) by (auto simp: step_fits_def list_all_length Let_def)
  note r = launch_rope_real[OF assms(1) assms(2)[unfolded assms(3)] this disjI2[OF conjI[OF assms(4,5)]], of lo lo', folded assms(3)]
  show ?thesis unfolding r rotate_rows_def by (auto intro!: arg_cong[of _ _ concat])
qed

context exact_device
begin

lemma cuda_qkv_exact:
  assumes "shaped gqa_attn S m" "l < nat (num_hidden_layers (cm_cfg m))" "step_fits hp bs S m ts"
    "sized (length ts) (nat (hidden_size (cm_cfg m))) (cm_kv_dim m) (nat (intermediate_size (cm_cfg m))) b" "ix_positions ix = map tok_pos ts"
  shows "cuda_qkv (real_ops lo) (real_gpu lo) ex od (cuda_of gqa_attn sc m) ix (length ts) l b =
    Inr (b\<lparr>b_h := layer_h (real_ops lo') m (length ts) l (b_x b), b_q := layer_q (real_ops lo') m ts l (b_x b),
           b_k := layer_k (real_ops lo') m ts l (b_x b), b_v := layer_v (real_ops lo') m ts l (b_x b)\<rparr>)"
proof -
  let ?c = "cm_cfg m" and ?n = "length ts" and ?L = "w_layers (cm_weights m) ! l" and ?h = "layer_h (real_ops lo') m (length ts) l (b_x b)"
  let ?H = "nat (hidden_size ?c)"
  note s = shapedD[OF assms(1,2)] and f = config_fitsD[OF shapedD(1)[OF assms(1,2)]]
  have n: "0 < ?n" using assms(3) by (simp add: step_fits_def)
  have kvd: "0 < cm_kv_dim m" using s(2) f(5) by simp
  have norm: "launch_rmsnorm (real_ops lo) (real_gpu lo) (b_x b) (in_norm ?L) (b_h b) ?n ?H (rms_norm_eps ?c) (by_row od l 0 ?n 256 ?H) = ?h"
    unfolding layer_h_def using assms(4) by (intro launch_rmsnorm_real rows_run) (simp add: sized_def)
  have h: "length ?h = ?n * ?H" by (rule layer_lengths)
  have products:
    "gemm ex ?h (wq ?L) (b_q b) ?n ?H ?H = Inr (linear (real_ops lo') ?h ?n ?H (wq ?L) ?H None)"
    "gemm ex ?h (wk ?L) (b_k b) ?n (cm_kv_dim m) ?H = Inr (linear (real_ops lo') ?h ?n ?H (wk ?L) (cm_kv_dim m) None)"
    "gemm ex ?h (wv ?L) (b_v b) ?n (cm_kv_dim m) ?H = Inr (linear (real_ops lo') ?h ?n ?H (wv ?L) (cm_kv_dim m) None)"
    by (rule gemm_linear; use s(4) assms(4) n f(2) kvd h in \<open>simp add: layer_shaped_def sized_def\<close>)+
  have biased: "launch_add_bias (real_ops lo) (real_gpu lo) (linear (real_ops lo') ?h ?n ?H B cols None) bias ?n cols (by_element od l i (?n * cols)) =
      linear (real_ops lo') ?h ?n ?H B cols bias" if "length B = cols * ?H" for B cols bias i
    using that h by (intro add_bias_linear elements_run)
  have rot: "launched (launch_rope (real_ops lo) (real_gpu lo) x (ix_positions ix) (rt_cos (cm_rope m)) (rt_sin (cm_rope m)) ?n heads (nat (head_dim ?c)) cols
        (by_pair od l i ?n heads (nat (head_dim ?c)))) = Inr (rotate_rows (real_ops lo') m x cols heads ts)"
    if "length x = ?n * cols" "cols = heads * nat (head_dim ?c)" for x cols heads i
    using rope_rows[OF pairs_run that f(9,10) assms(3), where lo' = lo'] by (simp add: launched_def assms(5))
  show ?thesis
    using s(3)[of sc] s(4)
    by (simp add: cuda_qkv_def Let_def cuda_of_def norm products biased layer_shaped_def cuda_layer_of_def
        rot[OF linear_length f(1)] rot[OF linear_length s(2)] layer_q_def layer_k_def layer_v_def)
qed

lemma cuda_mlp_exact:
  assumes "shaped gqa_attn S m" "l < nat (num_hidden_layers (cm_cfg m))" "step_fits hp bs S m ts"
    "sized (length ts) (nat (hidden_size (cm_cfg m))) (cm_kv_dim m) (nat (intermediate_size (cm_cfg m))) b"
  obtains b' where "cuda_mlp (real_ops lo) (real_gpu lo) ex od (cuda_of gqa_attn sc m) (length ts) l b = Inr b'"
    "b_x b' = layer_out (real_ops lo') m (length ts) l (b_x b) (b_attn b)" "b_logits b' = b_logits b"
    "sized (length ts) (nat (hidden_size (cm_cfg m))) (cm_kv_dim m) (nat (intermediate_size (cm_cfg m))) b'"
proof -
  let ?c = "cm_cfg m" and ?n = "length ts" and ?L = "w_layers (cm_weights m) ! l"
  let ?H = "nat (hidden_size ?c)" and ?I = "nat (intermediate_size ?c)"
  note s = shapedD[OF assms(1,2)] and f = config_fitsD[OF shapedD(1)[OF assms(1,2)]]
  have n: "0 < ?n" "?n * ?I < 2 ^ 38" using assms(3) by (auto simp: step_fits_def)
  define o1 where "o1 = linear (real_ops lo') (b_attn b) ?n ?H (wo ?L) ?H None"
  define x1 where "x1 = add_into (real_ops lo') (b_x b) o1"
  define h1 where "h1 = rmsnorm (real_ops lo') x1 (post_norm ?L) ?n ?H (rms_norm_eps ?c)"
  define gate where "gate = linear (real_ops lo') h1 ?n ?H (wgate ?L) ?I None"
  define up where "up = linear (real_ops lo') h1 ?n ?H (wup ?L) ?I None"
  define act where "act = silu_mul (real_ops lo') gate up"
  define o2 where "o2 = linear (real_ops lo') act ?n ?I (wdown ?L) ?H None"
  have len: "length x1 = ?n * ?H" "length h1 = ?n * ?H" "length gate = ?n * ?I" "length up = ?n * ?I" "length act = ?n * ?I" "length o1 = ?n * ?H" "length o2 = ?n * ?H"
    using assms(4) by (simp_all add: x1_def h1_def gate_def up_def act_def o1_def o2_def sized_def add_into_def rmsnorm_length linear_length silu_mul_def)
  note sizes = assms(4)[unfolded sized_def] n f(2,3) len
  have w: "length (wo ?L) = ?H * ?H" "length (wgate ?L) = ?I * ?H" "length (wup ?L) = ?I * ?H" "length (wdown ?L) = ?H * ?I"
    and bl: "length (b_attn b) = ?n * ?H" "length (b_o b) = ?n * ?H" "length (b_gate b) = ?n * ?I" "length (b_up b) = ?n * ?I"
    using s(4) assms(4) by (auto simp: layer_shaped_def sized_def)
  have gemms: "gemm ex (b_attn b) (wo ?L) (b_o b) ?n ?H ?H = Inr o1" "gemm ex h1 (wgate ?L) (b_gate b) ?n ?I ?H = Inr gate"
    "gemm ex h1 (wup ?L) (b_up b) ?n ?I ?H = Inr up" "gemm ex act (wdown ?L) o1 ?n ?H ?I = Inr o2"
    using gemm_linear[OF bl(1) w(1) bl(2) n(1) f(2,2)] gemm_linear[OF len(2) w(2) bl(3) n(1) f(3,2)]
      gemm_linear[OF len(2) w(3) bl(4) n(1) f(3,2)] gemm_linear[OF len(5) w(4) len(6) n(1) f(2,3)]
    by (simp_all only: o1_def gate_def up_def o2_def)
  have adds: "launch_add_inplace (real_ops lo) (real_gpu lo) (b_x b) o1 (?n * ?H) (by_element od l 3 (?n * ?H)) = x1"
    "launch_add_inplace (real_ops lo) (real_gpu lo) x1 o2 (?n * ?H) (by_element od l 5 (?n * ?H)) = add_into (real_ops lo') x1 o2"
    by (unfold x1_def) (rule launch_add_inplace_real[OF elements_run]; use sizes in \<open>simp add: x1_def\<close>)+
  have norm: "launch_rmsnorm (real_ops lo) (real_gpu lo) x1 (post_norm ?L) (b_h b) ?n ?H (rms_norm_eps ?c) (by_row od l 1 ?n 256 ?H) = h1"
    unfolding h1_def using assms(4) by (intro launch_rmsnorm_real rows_run) (simp add: sized_def)
  have act: "launch_silu_mul (real_ops lo) (real_gpu lo) gate up (?n * ?I) (by_element od l 4 (?n * ?I)) = Some act"
    unfolding act_def by (rule launch_silu_mul_real[OF elements_run len(3)[symmetric] n(2)])
  let ?b = "b\<lparr>b_x := add_into (real_ops lo') x1 o2, b_h := h1, b_o := o2, b_gate := act, b_up := up\<rparr>"
  have "cuda_mlp (real_ops lo) (real_gpu lo) ex od (cuda_of gqa_attn sc m) ?n l b = Inr ?b"
    using s(3)[of sc] by (simp add: cuda_mlp_def Let_def cuda_of_def cuda_layer_of_def gemms adds norm act launched_def del: One_nat_def)
  then show ?thesis
  proof (rule that)
    have "b_x ?b = add_into (real_ops lo') x1 o2" by simp
    then show "b_x ?b = layer_out (real_ops lo') m ?n l (b_x b) (b_attn b)"
      by (simp only: layer_out_def Let_def o2_def act_def gate_def up_def h1_def x1_def o1_def)
    show "sized ?n ?H (cm_kv_dim m) ?I ?b" using assms(4) len by (simp add: sized_def add_into_def)
  qed simp
qed

end

subsection \<open>Storing and attention\<close>

lemma step_fitsD:
  assumes "step_fits hp bs S m ts" "i < length ts"
  shows "tok_pos (ts ! i) div bs < length (blocks (block_tab (hp (tok_seq (ts ! i)))))"
    "p \<le> tok_pos (ts ! i) \<Longrightarrow> slot (block_tab (hp (tok_seq (ts ! i)))) p bs < S"
    "Suc (nat (tok_id (ts ! i))) * nat (hidden_size (cm_cfg m)) \<le> length (w_embed (cm_weights m))"
  using assms by (auto simp: step_fits_def list_all_length Let_def simp del: upt_Suc)

lemma store_kv_exact:
  fixes k v kc vc :: "'f list"
  assumes "block_run (length ts) 128 kvd run" "step_fits hp bs S m ts" "length k = length ts * kvd" "length v = length ts * kvd"
    "length kc = S * kvd" "length vc = S * kvd" "0 < kvd"
  shows "launch_store_kv k v (map (token_slot hp bs) ts) (kc, vc) (length ts) kvd run =
    (store_rows hp bs kvd ts k kc, store_rows hp bs kvd ts v vc)"
proof -
  have "inj_on ((!) (map (token_slot hp bs) ts)) {..<length ts}"
    using assms(2) inj_on_nth[of "map (token_slot hp bs) ts" "{..<length ts}"] by (simp add: step_fits_def)
  moreover have "\<forall>t<length ts. map (token_slot hp bs) ts ! t < S"
    using step_fitsD(2)[OF assms(2)] by (simp add: token_slot_def)
  ultimately have "scatter_kv w (map (token_slot hp bs) ts) kvd c run = store_rows hp bs kvd ts w c"
    if "length w = length ts * kvd" "length c = S * kvd" for w c :: "'f list"
    unfolding store_rows_def using that block_run_perm[OF assms(1)]
    by (subst scatter_kv_rows[where n = "length ts" and S = S]) (auto intro!: foldl_cong simp: token_slot_def)
  then show ?thesis using assms(2-) by (simp add: launch_store_kv_def store_kv_split step_fits_def)
qed

lemma attention_rows_spec:
  fixes m :: "real cpu_model"
  defines "c \<equiv> cm_cfg m"
  defines "hdm \<equiv> nat (head_dim c)" and "nkv \<equiv> nat (num_key_value_heads c)" and "nh \<equiv> nat (num_attention_heads c)"
  assumes "config_fits gqa_attn c" "step_fits hp bs S m ts" "length q = length ts * nat (hidden_size c)"
  defines "ix \<equiv> upload_step_indices hp bs ts"
  shows "attention_rows (real_ops lo) m hp bs q kc vc ts =
    attention_spec q (\<lambda>i kvh. head_slice kc (token_table ix i) bs nkv kvh hdm) (\<lambda>i kvh. head_slice vc (token_table ix i) bs nkv kvh hdm)
      (\<lambda>i. ix_positions ix ! i) (length ts) nh nkv hdm (1 / sqrt (of_rat (of_nat hdm)))"
proof -
  note f = config_fitsD[OF assms(5), folded hdm_def nkv_def nh_def]
  let ?H = "nat (hidden_size c)"
  have group: "nh div nkv = nat (gqa_group c)" using f(7,11) by simp
  have item: "paged_attention_head (real_ops lo) (drop (w mod nh * hdm) (row q ?H (w div nh))) kc vc (block_tab (hp (tok_seq (ts ! (w div nh))))) bs
        (tok_pos (ts ! (w div nh))) kvh nkv hdm scale =
      softmax_mean (attended (drop (w * hdm) q) scale hdm (head_slice kc (token_table ix (w div nh)) bs nkv kvh hdm)
        (head_slice vc (token_table ix (w div nh)) bs nkv kvh hdm) (ix_positions ix ! (w div nh))) hdm"
    if w: "w < length ts * nh" for w kvh scale
  proof -
    let ?i = "w div nh" and ?bt = "block_tab (hp (tok_seq (ts ! (w div nh))))"
    have i: "?i < length ts" "w mod nh < nh" using w f(6) by (simp_all add: less_mult_imp_div_less)
    have pos: "ix_positions ix ! ?i = tok_pos (ts ! ?i)" using i upload_step_indices_spec(1) by (simp add: ix_def)
    have table: "token_table ix ?i ! (p div bs) = blocks ?bt ! (p div bs)" if "p \<le> tok_pos (ts ! ?i)" for p
      unfolding ix_def using step_fitsD(1)[OF assms(6) i(1)] div_le_mono[OF that, of bs] by (intro upload_step_indices_nth i(1)) simp
    have q: "drop (w mod nh * hdm) (row q ?H ?i) ! d = drop (w * hdm) q ! d" if "d < hdm" for d
    proof -
      have k: "w mod nh * hdm + d < ?H" unfolding f(1) using i(2) that by (rule row_index)
      have e: "?i * ?H + (w mod nh * hdm + d) = w * hdm + d" unfolding f(1) by (metis add.assoc add_mult_distrib div_mult_mod_eq mult.assoc)
      have "?i * ?H + (w mod nh * hdm + d) < length q" unfolding assms(7) by (rule row_index[OF i(1) k])
      moreover have "Suc ?i * ?H \<le> length q" unfolding assms(7) using i(1) by (intro mult_le_mono1) simp
      ultimately show ?thesis using k row_nth[of "w mod nh * hdm + d" ?H ?i q] e by (simp add: row_def flip: add.assoc)
    qed
    show ?thesis
      unfolding paged_attention_head_def attend_real pos
      by (intro arg_cong[of _ _ "\<lambda>M. softmax_mean M hdm"] attended_cong q head_slice_cached[symmetric] table)
  qed
  show ?thesis
    unfolding attention_rows_def attention_spec_def Let_def group c_def[symmetric] hdm_def[symmetric] nkv_def[symmetric] nh_def[symmetric]
    by (intro arg_cong[of _ _ concat] map_cong refl) (simp add: item)
qed

lemma attention_exact:
  fixes m :: "real cpu_model"
  defines "c \<equiv> cm_cfg m"
  assumes "config_fits gqa_attn c" "step_fits hp bs S m ts" "length q = length ts * nat (hidden_size c)"
    "length vc = S * (nat (num_key_value_heads c) * nat (head_dim c))"
  shows "\<forall>\<^sub>F lo in at_bot. \<forall>attn. cuda_attention (real_ops lo) (real_gpu lo) gqa_attn q kc vc (upload_step_indices hp bs ts) attn (length ts) c bs =
    Inr (attention_rows (real_ops lo') m hp bs q kc vc ts)"
proof -
  let ?hd = "nat (head_dim c)" and ?nkv = "nat (num_key_value_heads c)" and ?nh = "nat (num_attention_heads c)" and ?n = "length ts"
  let ?ix = "upload_step_indices hp bs ts"
  note f = config_fitsD[OF assms(2)]
  note spec = attention_rows_spec[OF assms(2)[unfolded c_def] assms(3) assms(4)[unfolded c_def], of lo' kc vc, folded c_def]
  have n: "?n \<noteq> 0" using assms(3) by (simp add: step_fits_def)
  have q: "?n * ?nh * ?hd \<le> length q" using assms(4) f(1) by (simp add: mult.assoc)
  have inside: "rows_inside ?ix bs ?n (?nkv * ?hd) vc"
    unfolding rows_inside_def assms(5)
  proof (intro allI impI mult_le_mono1)
    fix i p assume i: "i < ?n" and "p \<le> ix_positions ?ix ! i"
    then have p: "p \<le> tok_pos (ts ! i)" using upload_step_indices_spec(1)[of hp bs ts] by simp
    have "token_table ?ix i ! (p div bs) = blocks (block_tab (hp (tok_seq (ts ! i)))) ! (p div bs)"
      using step_fitsD(1)[OF assms(3) i] div_le_mono[OF p, of bs] by (intro upload_step_indices_nth i) simp
    then show "Suc (table_slot (token_table ?ix i) bs p) \<le> S" using step_fitsD(2)[OF assms(3) i p] by (simp add: table_slot_def slot_def)
  qed
  show ?thesis
  proof (cases gqa_attn)
    case True
    have "?nh div ?nkv \<le> 8" "?hd mod 32 = 0" "?nh mod ?nkv = 0"
    proof -
      have "num_attention_heads c div num_key_value_heads c \<le> 8" "head_dim c mod 32 = 0" "0 \<le> num_attention_heads c" "0 < head_dim c"
        using assms(2) True by (auto simp: config_fits_def)
      then show "?nh div ?nkv \<le> 8" "?hd mod 32 = 0"
        using nat_div_distrib[of "num_attention_heads c" "num_key_value_heads c"] nat_mod_distrib[of "head_dim c" 32] by simp_all
      show "?nh mod ?nkv = 0" using f(11) by simp
    qed
    then show ?thesis
      using attention_gqa_kernel_exact[OF q f(11,7,12) _ inside, of kc "1 / sqrt (of_rat (of_nat ?hd))"] True n f(6,7,8) spec
      by (simp add: cuda_attention_def Let_def launch_attention_decode_gqa_def)
  next
    case False
    then show ?thesis
      using attention_decode_kernel_exact[OF q, of kc vc ?ix ?nkv bs "1 / sqrt (of_rat (of_nat ?hd))"] n f(6,8) spec
      by (simp add: cuda_attention_def Let_def launch_attention_decode_def)
  qed
qed

subsection \<open>All layers\<close>

lemma store_rows_length:
  assumes "step_fits hp bs S m ts" "length vecs = length ts * kvd" "length cache = S * kvd"
  shows "length (store_rows hp bs kvd ts vecs cache) = length cache"
proof -
  let ?sl = "\<lambda>i. slot (block_tab (hp (tok_seq (ts ! i)))) (tok_pos (ts ! i)) bs"
  have "\<forall>i<length ts. length (row vecs kvd i) = kvd \<and> Suc (?sl i) * kvd \<le> length cache"
  proof (intro allI impI conjI)
    fix i assume i: "i < length ts"
    then show "length (row vecs kvd i) = kvd" using assms(2) mult_le_mono1[of "Suc i" "length ts" kvd] by (simp add: row_def)
    show "Suc (?sl i) * kvd \<le> length cache" unfolding assms(3) using step_fitsD(2)[OF assms(1) i order_refl] by (intro mult_le_mono1) simp
  qed
  moreover have "inj_on ?sl {..<length ts}"
    using assms(1) by (auto simp: step_fits_def token_slot_def inj_on_def distinct_conv_nth)
  ultimately show ?thesis using store_prefix[of "length ts" vecs kvd ?sl cache] by (simp add: store_rows_def)
qed

text \<open>A layer changes the caches only, and keeps the sizes.\<close>

lemma forward_layer_keeps:
  assumes "forward_layer ops hp bs ts l (m, x) = (m', x')"
  shows "cm_cfg m' = cm_cfg m" "cm_weights m' = cm_weights m" "cm_rope m' = cm_rope m" "cm_kv_dim m' = cm_kv_dim m" "length x' = length x"
  using assms by (auto simp: forward_layer_parts Let_def layer_lengths split: prod.splits)

lemma step_fits_keeps:
  "cm_cfg m' = cm_cfg m \<Longrightarrow> cm_weights m' = cm_weights m \<Longrightarrow> cm_rope m' = cm_rope m \<Longrightarrow> step_fits hp bs S m' ts = step_fits hp bs S m ts"
  by (simp add: step_fits_def)

lemma list_all_update: "list_all P xs \<Longrightarrow> P x \<Longrightarrow> list_all P (xs[i := x])"
  by (cases "i < length xs") (auto simp: list_all_length nth_list_update)

lemma forward_layer_shaped:
  fixes m :: "real cpu_model"
  assumes "forward_layer ops hp bs ts l (m, x) = (m', x')" "shaped gqa_attn S m" "l < nat (num_hidden_layers (cm_cfg m))" "step_fits hp bs S m ts"
  shows "shaped gqa_attn S m'"
proof -
  note s = shapedD[OF assms(2,3)]
  obtain kc vc where c: "layer_caches ops hp bs m ts l x = (kc, vc)" by force
  have "length kc = S * cm_kv_dim m" "length vc = S * cm_kv_dim m"
    using c s(5,6) layer_lengths(3,4)[of ops m ts l x] by (auto simp: layer_caches_def store_rows_length[OF assms(4)])
  moreover have "m' = m\<lparr>k_cache := (k_cache m)[l := kc], v_cache := (v_cache m)[l := vc]\<rparr>"
    using assms(1) c by (simp add: forward_layer_parts)
  ultimately show ?thesis
    using assms(2) by (simp add: shaped_def Let_def list_all_update split: if_splits)
qed

definition layers_run :: "('f, 'd) float_ops \<Rightarrow> (seq_ref \<Rightarrow> seq) \<Rightarrow> nat \<Rightarrow> packed_token list \<Rightarrow> 'f cpu_model \<times> 'f list \<Rightarrow> nat \<Rightarrow> 'f cpu_model \<times> 'f list" where
  "layers_run ops hp bs ts st k = foldl (\<lambda>acc l. forward_layer ops hp bs ts l acc) st [0..<k]"

lemma layers_run_Suc: "layers_run ops hp bs ts st (Suc k) = forward_layer ops hp bs ts k (layers_run ops hp bs ts st k)"
  by (simp add: layers_run_def)

lemma layers_run_keeps:
  fixes m :: "real cpu_model"
  assumes "layers_run ops hp bs ts (m, x) k = (m', x')" "shaped gqa_attn S m" "k \<le> nat (num_hidden_layers (cm_cfg m))" "step_fits hp bs S m ts"
  shows "shaped gqa_attn S m' \<and> step_fits hp bs S m' ts \<and> cm_cfg m' = cm_cfg m \<and> cm_weights m' = cm_weights m \<and> cm_rope m' = cm_rope m \<and>
    cm_kv_dim m' = cm_kv_dim m \<and> length x' = length x"
  using assms(1,3)
proof (induction k arbitrary: m' x')
  case 0
  then show ?case using assms(2,4) by (simp add: layers_run_def)
next
  case (Suc k)
  obtain m1 x1 where st: "layers_run ops hp bs ts (m, x) k = (m1, x1)" by force
  have ih: "shaped gqa_attn S m1" "step_fits hp bs S m1 ts" "cm_cfg m1 = cm_cfg m" "cm_weights m1 = cm_weights m" "cm_rope m1 = cm_rope m"
      "cm_kv_dim m1 = cm_kv_dim m" "length x1 = length x"
    using Suc.IH[OF st] Suc.prems(2) by auto
  have step: "forward_layer ops hp bs ts k (m1, x1) = (m', x')" using Suc.prems(1) st by (simp add: layers_run_Suc)
  have "step_fits hp bs S m' ts" using step_fits_keeps[OF forward_layer_keeps(1-3)[OF step]] ih(2) by blast
  then show ?case
    using forward_layer_shaped[OF step ih(1) _ ih(2)] forward_layer_keeps[OF step] ih Suc.prems(2) by simp
qed

text \<open>The attention of a layer, as the device computes it from the reference's state before the layer.\<close>

definition attention_agrees :: "real \<Rightarrow> real \<Rightarrow> bool \<Rightarrow> (seq_ref \<Rightarrow> seq) \<Rightarrow> nat \<Rightarrow> packed_token list \<Rightarrow> nat \<Rightarrow> real cpu_model \<times> real list \<Rightarrow> bool" where
  "attention_agrees lo lo' gqa_attn hp bs ts l st \<longleftrightarrow>
    (case st of (m, x) \<Rightarrow> case layer_caches (real_ops lo') hp bs m ts l x of (kc, vc) \<Rightarrow>
     \<forall>attn. cuda_attention (real_ops lo) (real_gpu lo) gqa_attn (layer_q (real_ops lo') m ts l x) kc vc (upload_step_indices hp bs ts) attn
         (length ts) (cm_cfg m) bs =
       Inr (attention_rows (real_ops lo') m hp bs (layer_q (real_ops lo') m ts l x) kc vc ts))"

lemma attention_agrees_eventually:
  assumes "shaped gqa_attn S m" "step_fits hp bs S m ts"
  shows "\<forall>\<^sub>F lo in at_bot. \<forall>l \<in> {..<nat (num_hidden_layers (cm_cfg m))}. attention_agrees lo lo' gqa_attn hp bs ts l (layers_run (real_ops lo') hp bs ts (m, x) l)"
proof (intro eventually_ball_finite ballI)
  fix l assume l: "l \<in> {..<nat (num_hidden_layers (cm_cfg m))}"
  obtain m1 x1 where st: "layers_run (real_ops lo') hp bs ts (m, x) l = (m1, x1)" by force
  have k: "shaped gqa_attn S m1" "step_fits hp bs S m1 ts" "cm_cfg m1 = cm_cfg m" using layers_run_keeps[OF st assms(1) _ assms(2)] l by auto
  have l1: "l < nat (num_hidden_layers (cm_cfg m1))" using l k(3) by simp
  note s = shapedD[OF k(1) l1]
  obtain kc vc where c: "layer_caches (real_ops lo') hp bs m1 ts l x1 = (kc, vc)" by force
  then have "length vc = S * cm_kv_dim m1"
    using s(6) layer_lengths(4)[of "real_ops lo'" m1 ts l x1] by (auto simp: layer_caches_def store_rows_length[OF k(2)])
  then show "\<forall>\<^sub>F lo in at_bot. attention_agrees lo lo' gqa_attn hp bs ts l (layers_run (real_ops lo') hp bs ts (m, x) l)"
    using attention_exact[OF s(1) k(2) layer_lengths(2), of vc "real_ops lo'" l x1 kc lo'] s(2) c st by (simp add: attention_agrees_def)
qed simp

lemma loop_snoc:
  "cuda_layers_loop ops g ex od ix n bs (ls @ [l]) st = and_then (cuda_layers_loop ops g ex od ix n bs ls st) (cuda_layer_step ops g ex od ix n bs l)"
proof (induction ls arbitrary: st)
  case Nil
  show ?case by (cases "cuda_layer_step ops g ex od ix n bs l st") simp_all
next
  case (Cons a ls)
  show ?case by (cases "cuda_layer_step ops g ex od ix n bs a st") (simp_all add: Cons.IH)
qed

context exact_device
begin

lemma cuda_layer_exact:
  assumes "shaped gqa_attn S m" "l < nat (num_hidden_layers (cm_cfg m))" "step_fits hp bs S m ts"
    "sized (length ts) (nat (hidden_size (cm_cfg m))) (cm_kv_dim m) (nat (intermediate_size (cm_cfg m))) b"
    "attention_agrees lo lo' gqa_attn hp bs ts l (m, b_x b)" "forward_layer (real_ops lo') hp bs ts l (m, b_x b) = (m', x')"
  obtains b' where "cuda_layer_step (real_ops lo) (real_gpu lo) ex od (upload_step_indices hp bs ts) (length ts) bs l (cuda_of gqa_attn sc m, b) =
      Inr (cuda_of gqa_attn sc m', b')" "b_x b' = x'"
    "sized (length ts) (nat (hidden_size (cm_cfg m))) (cm_kv_dim m) (nat (intermediate_size (cm_cfg m))) b'"
proof -
  let ?n = "length ts" and ?ops = "real_ops lo'" and ?ix = "upload_step_indices hp bs ts"
  let ?k = "layer_k ?ops m ts l (b_x b)" and ?v = "layer_v ?ops m ts l (b_x b)"
  note s = shapedD[OF assms(1,2)] and f = config_fitsD[OF shapedD(1)[OF assms(1,2)]]
  let ?b1 = "b\<lparr>b_h := layer_h ?ops m ?n l (b_x b), b_q := layer_q ?ops m ts l (b_x b), b_k := ?k, b_v := ?v\<rparr>"
  have qkv: "cuda_qkv (real_ops lo) (real_gpu lo) ex od (cuda_of gqa_attn sc m) ?ix ?n l b = Inr ?b1"
    by (rule cuda_qkv_exact[OF assms(1-4) upload_step_indices_spec(1)])
  obtain kc vc where c: "layer_caches ?ops hp bs m ts l (b_x b) = (kc, vc)" by force
  have slots: "ix_slots ?ix = map (token_slot hp bs) ts" by (simp add: upload_step_indices_spec(3) token_slot_def)
  have "launch_store_kv ?k ?v (map (token_slot hp bs) ts) (k_cache m ! l, v_cache m ! l) ?n (cm_kv_dim m) (by_row od l 2 ?n 128 (cm_kv_dim m)) =
      (store_rows hp bs (cm_kv_dim m) ts ?k (k_cache m ! l), store_rows hp bs (cm_kv_dim m) ts ?v (v_cache m ! l))"
    by (intro store_kv_exact[OF rows_run assms(3)] layer_lengths s(5,6)) (use s(2) f(5) in simp)
  then have store: "launch_store_kv ?k ?v (ix_slots ?ix) (k_cache m ! l, v_cache m ! l) ?n (cm_kv_dim m) (by_row od l 2 ?n 128 (cm_kv_dim m)) = (kc, vc)"
    using c slots by (simp add: layer_caches_def)
  define attn where "attn = attention_rows ?ops m hp bs (layer_q ?ops m ts l (b_x b)) kc vc ts"
  have att: "cuda_attention (real_ops lo) (real_gpu lo) gqa_attn (layer_q ?ops m ts l (b_x b)) kc vc ?ix (b_attn b) ?n (cm_cfg m) bs = Inr attn"
    using assms(5) c by (simp add: attention_agrees_def attn_def)
  have alen: "length attn = ?n * nat (hidden_size (cm_cfg m))"
  proof -
    have "length attn = ?n * nat (num_attention_heads (cm_cfg m)) * nat (head_dim (cm_cfg m))"
      unfolding attn_def attention_rows_def Let_def by (rule concat_rows_length) (simp add: paged_attention_head_def attend_def Let_def)
    then show ?thesis using f(1) by (simp add: mult.assoc)
  qed
  have sized: "sized ?n (nat (hidden_size (cm_cfg m))) (cm_kv_dim m) (nat (intermediate_size (cm_cfg m))) (?b1\<lparr>b_attn := attn\<rparr>)"
    using assms(4) alen by (simp add: sized_def layer_lengths)
  obtain b' where mlp: "cuda_mlp (real_ops lo) (real_gpu lo) ex od (cuda_of gqa_attn sc m) ?n l (?b1\<lparr>b_attn := attn\<rparr>) = Inr b'"
    "b_x b' = layer_out ?ops m ?n l (b_x b) attn" "sized ?n (nat (hidden_size (cm_cfg m))) (cm_kv_dim m) (nat (intermediate_size (cm_cfg m))) b'"
    using cuda_mlp_exact[OF assms(1-3) sized, of lo sc lo'] by auto
  have m': "m' = m\<lparr>k_cache := (k_cache m)[l := kc], v_cache := (v_cache m)[l := vc]\<rparr>" "x' = layer_out ?ops m ?n l (b_x b) attn"
    using assms(6) c by (simp_all add: forward_layer_parts attn_def)
  have "cuda_layer_step (real_ops lo) (real_gpu lo) ex od ?ix ?n bs l (cuda_of gqa_attn sc m, b) = Inr (cuda_of gqa_attn sc m', b')"
    unfolding cuda_layer_step_def prod.case qkv and_then.simps using store att mlp(1) by (simp add: m' cuda_of_def)
  then show ?thesis using that mlp m' by simp
qed

lemma cuda_layers_exact:
  assumes "shaped gqa_attn S m" "step_fits hp bs S m ts" "k \<le> nat (num_hidden_layers (cm_cfg m))"
    "sized (length ts) (nat (hidden_size (cm_cfg m))) (cm_kv_dim m) (nat (intermediate_size (cm_cfg m))) b"
    "\<forall>l \<in> {..<nat (num_hidden_layers (cm_cfg m))}. attention_agrees lo lo' gqa_attn hp bs ts l (layers_run (real_ops lo') hp bs ts (m, b_x b) l)"
    "layers_run (real_ops lo') hp bs ts (m, b_x b) k = (m', x')"
  shows "\<exists>b'. cuda_layers_loop (real_ops lo) (real_gpu lo) ex od (upload_step_indices hp bs ts) (length ts) bs [0..<k] (cuda_of gqa_attn sc m, b) =
      Inr (cuda_of gqa_attn sc m', b') \<and> b_x b' = x' \<and>
      sized (length ts) (nat (hidden_size (cm_cfg m))) (cm_kv_dim m) (nat (intermediate_size (cm_cfg m))) b'"
  using assms(3,6)
proof (induction k arbitrary: m' x')
  case 0
  then show ?case using assms(4) by (simp add: layers_run_def)
next
  case (Suc k)
  obtain m1 x1 where st: "layers_run (real_ops lo') hp bs ts (m, b_x b) k = (m1, x1)" by force
  have k: "k \<le> nat (num_hidden_layers (cm_cfg m))" "k < nat (num_hidden_layers (cm_cfg m))" using Suc.prems(1) by simp_all
  obtain b1 where b1: "cuda_layers_loop (real_ops lo) (real_gpu lo) ex od (upload_step_indices hp bs ts) (length ts) bs [0..<k] (cuda_of gqa_attn sc m, b) =
      Inr (cuda_of gqa_attn sc m1, b1)" "b_x b1 = x1"
      "sized (length ts) (nat (hidden_size (cm_cfg m))) (cm_kv_dim m) (nat (intermediate_size (cm_cfg m))) b1"
    using Suc.IH[OF k(1) st] by blast
  have keep: "shaped gqa_attn S m1" "step_fits hp bs S m1 ts" "cm_cfg m1 = cm_cfg m" "cm_kv_dim m1 = cm_kv_dim m"
    using layers_run_keeps[OF st assms(1) k(1) assms(2)] by auto
  have agree: "attention_agrees lo lo' gqa_attn hp bs ts k (m1, b_x b1)" using bspec[OF assms(5), of k] k(2) st b1(2) by simp
  have step: "forward_layer (real_ops lo') hp bs ts k (m1, b_x b1) = (m', x')" using Suc.prems(2) st b1(2) by (simp add: layers_run_Suc)
  obtain b2 where b2: "cuda_layer_step (real_ops lo) (real_gpu lo) ex od (upload_step_indices hp bs ts) (length ts) bs k (cuda_of gqa_attn sc m1, b1) =
      Inr (cuda_of gqa_attn sc m', b2)" "b_x b2 = x'"
      "sized (length ts) (nat (hidden_size (cm_cfg m))) (cm_kv_dim m) (nat (intermediate_size (cm_cfg m))) b2"
    using cuda_layer_exact[OF keep(1) _ keep(2) _ agree step, of sc] k(2) b1(3) keep(3,4) by auto
  have "[0..<Suc k] = [0..<k] @ [k]" by simp
  then show ?case using b1(1) b2 by (simp only: loop_snoc and_then.simps) blast
qed

end

end
