(* ===== verification/Cuda_Props.thy ===== *)
theory Cuda_Props
  imports Cuda_Equiv Forward_Props
begin

text \<open>
  A whole step on the device: the buffers, the embedding, the layers and the head, against the
  forward pass of the reference, and the properties of the CUDA backend.
\<close>

subsection \<open>Packing\<close>

text \<open>With no empty slice, the rows that need logits are distinct packed tokens.\<close>

lemma pack_rows_bounds:
  assumes "\<forall>sl \<in> set sls. 1 \<le> sl_len sl" "distinct rows" "\<forall>r \<in> set rows. r < length ts" "pack hp sls (ts, rows) = (ts', rows')"
  shows "distinct rows' \<and> (\<forall>r \<in> set rows'. r < length ts')"
  using assms
proof (induction sls arbitrary: ts rows)
  case (Cons sl sls)
  have pos: "0 < length (slice_tokens hp sl)" using Cons.prems(1) by (simp add: slice_tokens_def)
  have "length (ts @ slice_tokens hp sl) - 1 \<notin> set rows"
    using bspec[OF Cons.prems(3), of "length (ts @ slice_tokens hp sl) - 1"] pos unfolding length_append by linarith
  with pos have new: "distinct (if needs_logits sl then rows @ [length (ts @ slice_tokens hp sl) - 1] else rows)"
    "\<forall>r \<in> set (if needs_logits sl then rows @ [length (ts @ slice_tokens hp sl) - 1] else rows). r < length (ts @ slice_tokens hp sl)"
    using Cons.prems(2,3) by auto
  show ?case by (rule Cons.IH[OF _ new]) (use Cons.prems(1,4) in \<open>simp_all add: Let_def\<close>)
qed simp

lemma rows_few:
  assumes "distinct rows" "\<forall>r \<in> set rows. r < n"
  shows "length rows \<le> n"
proof -
  have "set rows \<subseteq> {..<n}" using assms(2) by auto
  then have "card (set rows) \<le> n" using card_mono[of "{..<n}" "set rows"] by simp
  then show ?thesis using assms(1) by (simp add: distinct_card)
qed

subsection \<open>Gathering the rows of the head\<close>

lemma row_length: "r < n \<Longrightarrow> length x = n * H \<Longrightarrow> length (row x H r) = H"
  using mult_le_mono1[of "Suc r" n H] by (simp add: row_def)

lemma row_concat:
  assumes "\<And>i. i < m \<Longrightarrow> length (f i) = H" "r < m"
  shows "row (concat (map f [0..<m]) @ ys) H r = f r"
proof -
  have "[0..<m] = [0..<r] @ r # [Suc r..<m]" using assms(2) upt_add_eq_append[of 0 r "m - r"] by (simp add: upt_conv_Cons)
  moreover have "length (concat (map f [0..<r])) = r * H" using assms by (intro concat_rows_length) simp
  ultimately show ?thesis using assms by (simp add: row_def)
qed

lemma gather_rows_prefix:
  assumes "length x = n * H" "\<forall>r \<in> set rows. r < n"
  shows "gather_rows out x H rows = concat (map (\<lambda>r. row x H (rows ! r)) [0..<length rows]) @ drop (length rows * H) out"
proof -
  have "foldl (\<lambda>o' r. put_row o' H r (row x H (rows ! r))) out [0..<k] = concat (map (\<lambda>r. row x H (rows ! r)) [0..<k]) @ drop (k * H) out"
    if "k \<le> length rows" for k
    using that
  proof (induction k)
    case (Suc k)
    have "length (concat (map (\<lambda>r. row x H (rows ! r)) [0..<k])) = k * H" using Suc.prems assms by (intro concat_rows_length row_length[OF _ assms(1)]) simp
    then show ?case using Suc by (simp add: put_row_def add.commute)
  qed simp
  then show ?thesis by (simp add: gather_rows_def)
qed

lemma rmsnorm_single: "rmsnorm ops y wt n H eps = concat (map (\<lambda>r. rmsnorm ops (row y H r) wt 1 H eps) [0..<n])"
  by (simp add: rmsnorm_def row_def Let_def)

lemma rmsnorm_gathered:
  assumes "length x = n * H" "\<forall>r \<in> set rows. r < n"
  shows "rmsnorm ops (gather_rows out x H rows) wt (length rows) H eps = concat (map (\<lambda>r. rmsnorm ops (drop (r * H) x) wt 1 H eps) rows)"
proof -
  have "row (gather_rows out x H rows) H r = row x H (rows ! r)" if "r < length rows" for r
    unfolding gather_rows_prefix[OF assms] using that assms row_length[OF _ assms(1)] by (intro row_concat) simp_all
  then have "rmsnorm ops (gather_rows out x H rows) wt (length rows) H eps = concat (map (\<lambda>r. rmsnorm ops (row x H (rows ! r)) wt 1 H eps) [0..<length rows])"
    by (subst rmsnorm_single) (auto intro!: arg_cong[of _ _ concat])
  moreover have "rmsnorm ops (drop (r * H) x) wt 1 H eps = rmsnorm ops (row x H r) wt 1 H eps" for r by (simp add: rmsnorm_def row_def)
  moreover have "map (\<lambda>r. rmsnorm ops (row x H (rows ! r)) wt 1 H eps) [0..<length rows] = map (\<lambda>r. rmsnorm ops (row x H r) wt 1 H eps) rows"
    by (rule nth_equalityI) simp_all
  ultimately show ?thesis by simp
qed

subsection \<open>The step\<close>

lemma embed_exact:
  assumes "block_run (length ts) 256 H run" "length out = length ts * H" "step_fits hp bs S m ts" "H = nat (hidden_size (cm_cfg m))"
  shows "launch_embedding (w_embed (cm_weights m)) (map tok_id ts) out (length ts) H run = embed m H ts"
proof -
  have "launch_embedding (w_embed (cm_weights m)) (map tok_id ts) out (length ts) H run =
      concat (map (\<lambda>t. row (w_embed (cm_weights m)) H (nat (map tok_id ts ! t))) [0..<length ts])"
    using step_fitsD(3)[OF assms(3)] assms(4) by (intro launch_embedding_rows[OF assms(1,2)]) simp
  moreover have "map (\<lambda>t. row (w_embed (cm_weights m)) H (nat (map tok_id ts ! t))) [0..<length ts] = map (\<lambda>t. row (w_embed (cm_weights m)) H (nat (tok_id t))) ts"
    by (rule nth_equalityI) simp_all
  ultimately show ?thesis by (simp add: embed_def)
qed

context exact_device
begin

lemma scratch_fits: "\<exists>b. scratch_get alloc buf need = Inr b \<and> need \<le> length b"
  using memory[of need] by (auto simp: scratch_get_def)

lemma buffers_fit: "\<exists>b0. get_buffers alloc b n H kvd I = Inr b0 \<and> sized n H kvd I (step_view b0 n H kvd I)"
proof -
  define G where "G = (\<lambda>buf need. projr (scratch_get alloc buf need))"
  have "scratch_get alloc buf need = Inr (G buf need)" "need \<le> length (G buf need)" for buf need
    using scratch_fits[of buf need] by (auto simp: G_def)
  then show ?thesis by (simp add: get_buffers_def sized_def step_view_def)
qed

lemma cuda_head_exact:
  assumes "shaped gqa_attn S m" "sized n (nat (hidden_size (cm_cfg m))) kvd I b" "rows \<noteq> []" "distinct rows" "\<forall>r \<in> set rows. r < n"
  defines "H \<equiv> nat (hidden_size (cm_cfg m))" and "V \<equiv> nat (vocab (cm_cfg m))"
  shows "\<exists>b'. cuda_head (real_ops lo) (real_gpu lo) ex alloc od (cuda_of gqa_attn sc m) rows b =
    Inr (linear (real_ops lo') (concat (map (\<lambda>r. rmsnorm (real_ops lo') (drop (r * H) (b_x b)) (w_final_norm (cm_weights m)) 1 H (rms_norm_eps (cm_cfg m))) rows))
      (length rows) H (if tie_word_embeddings (cm_cfg m) then w_embed (cm_weights m) else w_lm_head (cm_weights m)) V None, b')"
proof -
  let ?R = "length rows" and ?c = "cm_cfg m" and ?hd = "if tie_word_embeddings (cm_cfg m) then w_embed (cm_weights m) else w_lm_head (cm_weights m)"
  have s: "config_fits gqa_attn ?c" "length ?hd = V * H" using assms(1) by (simp_all add: shaped_def Let_def H_def V_def)
  note f = config_fitsD[OF s(1), folded H_def V_def]
  have R: "?R \<le> n" "0 < ?R" using rows_few[OF assms(4,5)] assms(3) by auto
  then have le: "?R * H \<le> n * H" by simp
  have b: "length (b_x b) = n * H" "length (b_h b) = n * H" using assms(2) by (simp_all add: sized_def H_def)
  obtain dlog where d: "scratch_get alloc (b_logits b) (?R * V) = Inr dlog" "?R * V \<le> length dlog" using scratch_fits by blast
  define h where "h = rmsnorm (real_ops lo') (gather_rows (b_o b) (b_x b) H rows) (w_final_norm (cm_weights m)) ?R H (rms_norm_eps ?c)"
  have norm: "launch_rmsnorm (real_ops lo) (real_gpu lo) (gather_rows (b_o b) (b_x b) H rows) (w_final_norm (cm_weights m)) (take (?R * H) (b_h b)) ?R H
      (rms_norm_eps ?c) (by_row od l 0 ?R 256 H) = h" for l
    unfolding h_def using b le by (intro launch_rmsnorm_real rows_run) simp
  have "gemm ex h ?hd (take (?R * V) dlog) ?R V H = Inr (linear (real_ops lo') h ?R H ?hd V None)"
    using d R f(2,4) by (intro gemm_linear s(2)) (simp_all add: h_def rmsnorm_length)
  then show ?thesis
    unfolding rmsnorm_gathered[OF b(1) assms(5), symmetric, where out = "b_o b"]
    using d norm by (simp add: cuda_head_def cuda_of_def Let_def h_def H_def V_def)
qed

end

context exact_device
begin

lemma forward_exact:
  assumes "shaped gqa_attn S m" "\<forall>sl \<in> set (slices st). 1 \<le> sl_len sl" "pack hp (slices st) ([], []) = (ts, rows)"
    "slices st \<noteq> []" "step_fits hp bs S m ts"
  shows "\<forall>\<^sub>F lo in at_bot. \<exists>sc'. cuda_forward (real_ops lo) (real_gpu lo) ex alloc od hp bs st (cuda_of gqa_attn sc m) =
    (case forward (real_ops lo') hp bs st m of (m', logits) \<Rightarrow> Inr (cuda_of gqa_attn sc' m', logits))"
proof -
  let ?c = "cm_cfg m" and ?n = "length ts"
  let ?H = "nat (hidden_size ?c)" and ?I = "nat (intermediate_size ?c)" and ?V = "nat (vocab ?c)" and ?Ls = "nat (num_hidden_layers ?c)"
  obtain b0 where b0: "get_buffers alloc sc ?n ?H (cm_kv_dim m) ?I = Inr b0" "sized ?n ?H (cm_kv_dim m) ?I (step_view b0 ?n ?H (cm_kv_dim m) ?I)"
    using buffers_fit by blast
  let ?b = "step_view b0 ?n ?H (cm_kv_dim m) ?I" and ?x = "embed m ?H ts" and ?ix = "upload_step_indices hp bs ts"
  have emb: "launch_embedding (w_embed (cm_weights m)) (map tok_id ts) (b_x ?b) ?n ?H (by_row od ?Ls 1 ?n 256 ?H) = ?x"
    using b0(2) by (intro embed_exact[OF rows_run _ assms(5)]) (simp_all add: sized_def)
  have xlen: "length ?x = ?n * ?H"
  proof -
    have "length (map (\<lambda>t. row (w_embed (cm_weights m)) ?H (nat (tok_id t))) ts ! i) = ?H" if "i < ?n" for i
      using step_fitsD(3)[OF assms(5) that] that by (simp add: row_def)
    then show ?thesis
      using concat_rows_length[of ?n "(!) (map (\<lambda>t. row (w_embed (cm_weights m)) ?H (nat (tok_id t))) ts)" ?H]
        map_nth[of "map (\<lambda>t. row (w_embed (cm_weights m)) ?H (nat (tok_id t))) ts"] by (simp add: embed_def)
  qed
  let ?b1 = "?b\<lparr>b_x := ?x\<rparr>"
  have sz: "sized ?n ?H (cm_kv_dim m) ?I ?b1" using b0(2) xlen by (simp add: sized_def)
  obtain m' x' where run: "layers_run (real_ops lo') hp bs ts (m, ?x) ?Ls = (m', x')" by force
  note keep = layers_run_keeps[OF run assms(1) order_refl assms(5)]
  note rows = pack_rows_bounds[OF assms(2) _ _ assms(3), simplified]
  have cpu: "forward (real_ops lo') hp bs st m =
      (m', if rows = [] then replicate (nat (num_logits st) * ?V) 0
           else linear (real_ops lo') (concat (map (\<lambda>r. rmsnorm (real_ops lo') (drop (r * ?H) x') (w_final_norm (cm_weights m)) 1 ?H (rms_norm_eps ?c)) rows))
             (length rows) ?H (if tie_word_embeddings ?c then w_embed (cm_weights m) else w_lm_head (cm_weights m)) ?V None @
             replicate ((nat (num_logits st) - length rows) * ?V) 0)"
    using assms(3,4) run by (simp add: forward_def Let_def layers_run_def)
  show ?thesis
  proof (rule eventually_mono[OF attention_agrees_eventually[OF assms(1,5), of lo' ?x]])
    fix lo assume agree: "\<forall>l \<in> {..<?Ls}. attention_agrees lo lo' gqa_attn hp bs ts l (layers_run (real_ops lo') hp bs ts (m, ?x) l)"
    obtain b2 where loop: "cuda_layers_loop (real_ops lo) (real_gpu lo) ex od ?ix ?n bs [0..<?Ls] (cuda_of gqa_attn sc m, ?b1) =
        Inr (cuda_of gqa_attn sc m', b2)" "b_x b2 = x'" "sized ?n ?H (cm_kv_dim m) ?I b2"
      using cuda_layers_exact[OF assms(1,5) order_refl sz, of lo lo' m' x' sc] agree run by auto
    have front: "cuda_forward (real_ops lo) (real_gpu lo) ex alloc od hp bs st (cuda_of gqa_attn sc m) =
        (if rows = [] then Inr ((cuda_of gqa_attn sc m')\<lparr>cu_scratch := keep_view b0 b2\<rparr>, replicate (nat (num_logits st) * ?V) 0)
         else and_then (cuda_head (real_ops lo) (real_gpu lo) ex alloc od (cuda_of gqa_attn sc m') rows b2) (\<lambda>(dlog, b3).
           Inr ((cuda_of gqa_attn sc m')\<lparr>cu_scratch := keep_view b0 b3\<rparr>, dlog @ replicate ((nat (num_logits st) - length rows) * ?V) 0)))"
      by (simp add: cuda_forward_def Let_def assms(3,4) b0(1) emb loop(1) upload_step_indices_spec(2) keep del: One_nat_def)
    have sc': "(cuda_of gqa_attn sc m')\<lparr>cu_scratch := k\<rparr> = cuda_of gqa_attn k m'" for k by (simp add: cuda_of_def)
    show "\<exists>sc'. cuda_forward (real_ops lo) (real_gpu lo) ex alloc od hp bs st (cuda_of gqa_attn sc m) =
      (case forward (real_ops lo') hp bs st m of (m', logits) \<Rightarrow> Inr (cuda_of gqa_attn sc' m', logits))"
    proof (cases "rows = []")
      case True
      then show ?thesis unfolding front cpu sc' by auto
    next
      case False
      have sz': "sized ?n (nat (hidden_size (cm_cfg m'))) (cm_kv_dim m) ?I b2" using loop(3) keep by simp
      obtain b3 where "cuda_head (real_ops lo) (real_gpu lo) ex alloc od (cuda_of gqa_attn sc m') rows b2 = Inr (linear (real_ops lo')
          (concat (map (\<lambda>r. rmsnorm (real_ops lo') (drop (r * ?H) x') (w_final_norm (cm_weights m)) 1 ?H (rms_norm_eps ?c)) rows))
          (length rows) ?H (if tie_word_embeddings ?c then w_embed (cm_weights m) else w_lm_head (cm_weights m)) ?V None, b3)"
        using cuda_head_exact[OF conjunct1[OF keep] sz' False, of lo sc lo'] rows keep loop(2) by auto
      then show ?thesis unfolding front cpu sc' using False by auto
    qed
  qed
qed

end

subsection \<open>Properties\<close>

text \<open>What the model asks of a token besides its block table: its id is a row of the embedding and
  its position is in the rotation tables.\<close>

definition token_fits :: "'f cpu_model \<Rightarrow> packed_token \<Rightarrow> bool" where
  "token_fits m t \<longleftrightarrow>
    Suc (nat (tok_id t)) * nat (hidden_size (cm_cfg m)) \<le> length (w_embed (cm_weights m)) \<and>
    tok_pos t * (nat (head_dim (cm_cfg m)) div 2) \<le> length (rt_cos (cm_rope m)) \<and>
    tok_pos t * (nat (head_dim (cm_cfg m)) div 2) \<le> length (rt_sin (cm_rope m))"

text \<open>The scheduler provides the rest.\<close>

lemma scheduled_step_fits:
  assumes "scheduled s st" "slices st \<noteq> []" "list_all (token_fits m) (packed s st)"
    "length (packed s st) * nat (intermediate_size (cm_cfg m)) < 2 ^ 38"
  shows "step_fits (heap s) (kv_block_size (sc_kv s)) (kv_num_blocks (sc_kv s) * kv_block_size (sc_kv s)) m (packed s st)"
proof -
  let ?ts = "packed s st" and ?bs = "kv_block_size (sc_kv s)" and ?S = "kv_num_blocks (sc_kv s) * kv_block_size (sc_kv s)"
  obtain sl sls where sls: "slices st = sl # sls" using assms(2) by (cases "slices st") auto
  have "slice_tokens (heap s) sl \<noteq> []" using scheduler.slice_start[OF assms(1), of sl] sls by (simp add: slice_tokens_def)
  then have ne: "?ts \<noteq> []" using sls by (simp add: packed_def)
  have d: "distinct (map (token_slot (heap s) ?bs) ?ts)"
    using scheduler.slots_inj[OF assms(1)] unfolding slot_of_def token_slot_def distinct_conv_nth inj_on_def by auto
  have "list_all (\<lambda>t. tok_pos t div ?bs < length (blocks (block_tab (heap s (tok_seq t)))) \<and>
      list_all (\<lambda>p. slot (block_tab (heap s (tok_seq t))) p ?bs < ?S) [0..<Suc (tok_pos t)]) ?ts"
    unfolding list_all_length
  proof (intro allI impI conjI)
    fix i assume i: "i < length ?ts"
    show "tok_pos (?ts ! i) div ?bs < length (blocks (block_tab (heap s (tok_seq (?ts ! i)))))"
      using scheduler.token_member(2)[OF assms(1) i] by (simp add: has_block_def)
    fix p assume p: "p < length [0..<Suc (tok_pos (?ts ! i))]"
    then have "[0..<Suc (tok_pos (?ts ! i))] ! p = p" "p \<le> tok_pos (?ts ! i)" by (simp_all del: upt_Suc)
    then show "slot (block_tab (heap s (tok_seq (?ts ! i)))) ([0..<Suc (tok_pos (?ts ! i))] ! p) ?bs < ?S"
      using scheduler.slot_in_pool[OF assms(1) scheduler.token_member(1)[OF assms(1) i] scheduler.earlier_positions(1)[OF assms(1) i]]
      by (simp add: slot_of_def del: upt_Suc)
  qed
  then show ?thesis
    using ne d assms(3,4) by (simp add: step_fits_def token_fits_def list_all_iff Let_def del: upt_Suc)
qed


definition tiny_config :: model_config where
  "tiny_config =
    \<lparr>model_type = ''tiny'', hidden_size = 2, intermediate_size = 1, num_hidden_layers = 1, num_attention_heads = 1,
     num_key_value_heads = 1, head_dim = 2, vocab = 4, max_position_embeddings = 8, rms_norm_eps = 0, rope_theta = 1,
     tie_word_embeddings = True, attention_bias = False, bos_token_id = -1, eos_token_id = -1\<rparr>"

definition tiny_model :: "real cpu_model" where
  "tiny_model = cpu_model_new (real_ops 0) tiny_config
    \<lparr>w_embed = [1, 0, 0, 1, 1, 1, 2, 1], w_final_norm = [1, 1], w_lm_head = [], w_layers =
      [\<lparr>in_norm = [1, 1], post_norm = [1, 1], wq = [1, 0, 0, 1], wk = [1, 0, 0, 1], wv = [1, 0, 0, 1], wo = [1, 0, 0, 1],
        bq = [1, 2], bk = [], bv = [], wgate = [1, 1], wup = [1, 1], wdown = [1, 1]\<rparr>]\<rparr> (sc_kv demo2)"

lemma tiny_shaped: "shaped False (kv_num_blocks (sc_kv demo2) * kv_block_size (sc_kv demo2)) tiny_model"
  by (simp add: tiny_model_def cpu_model_new_def tiny_config_def shaped_def config_fits_def layer_shaped_def Let_def)

lemma tiny_rope: "length (rt_cos (cm_rope tiny_model)) = 8" "length (rt_sin (cm_rope tiny_model)) = 8"
  by (simp_all add: tiny_model_def cpu_model_new_def tiny_config_def rope_build_def Let_def)

lemma tiny_tokens: "list_all (token_fits tiny_model) (fst (pack (heap demo2) (slices demo_step) ([], [])))"
  by (simp add: demo_pack token_fits_def tiny_rope) (simp add: tiny_model_def cpu_model_new_def tiny_config_def Let_def)


text \<open>The index arrays of a step are faithful to the block tables. After every sequence's table has
  been uploaded once, however its tokens are spread over the step, each packed token finds at its
  sequence's offset the blocks of its own table in order, and its slot is the one the block table
  gives for its position.\<close>

theorem step_indices_faithful:
  assumes "i < length ts"
  shows "ix_slots (upload_step_indices hp bs ts) ! i = slot (block_tab (hp (tok_seq (ts ! i)))) (tok_pos (ts ! i)) bs \<and>
    ix_positions (upload_step_indices hp bs ts) ! i = tok_pos (ts ! i) \<and>
    take (length (blocks (block_tab (hp (tok_seq (ts ! i)))))) (token_table (upload_step_indices hp bs ts) i) = blocks (block_tab (hp (tok_seq (ts ! i))))"
  using assms upload_step_indices_spec(1,3)[of hp bs ts] upload_step_indices_table[OF assms] by simp

theorem step_indices_faithful_witness:
  "take (length (blocks (block_tab (heap demo2 0)))) (token_table (upload_step_indices (heap demo2) 2 (fst (pack (heap demo2) (slices demo_step) ([], [])))) 2) =
    blocks (block_tab (heap demo2 0))"
  using step_indices_faithful[of 2 "fst (pack (heap demo2) (slices demo_step) ([], []))" "heap demo2" 2] by (simp add: demo_pack)

text \<open>The row-major products through the column-major library are right: for every routine with
  the documented behaviour of \<open>cublasGemmEx\<close>, the call the backend makes with the operands swapped
  and the first one transposed gives the product of the reference, element by element.\<close>

theorem gemm_is_linear:
  assumes "gemm_documented ex" "length A = m * k" "length B = n * k" "length C = m * n" "0 < m" "0 < n" "0 < k"
  shows "gemm ex A B C m n k = Inr (linear (real_ops lo) A m k B n None)"
proof -
  have "exact_device ex zero_alloc serial_order"
    using assms(1) device.memory device.rows_run device.elements_run device.pairs_run by unfold_locales auto
  then show ?thesis by (rule exact_device.gemm_linear[OF _ assms(2-)])
qed

theorem gemm_is_linear_witness:
  "gemm exact_gemm [1, 2, 3, 4, 5, 6] [1, 0, 1, 0, 1, 0] [0, 0, 0, 0] 2 2 3 =
     Inr (linear (real_ops 0) [1, 2, 3, 4, 5, 6] 2 3 [1, 0, 1, 0, 1, 0] 2 None) \<and>
   linear (real_ops 0) [1, 2, 3, 4, 5, 6] 2 3 [1, 0, 1, 0, 1, 0] 2 None = [4, 2, 10, 5]"
proof
  show "gemm exact_gemm [1, 2, 3, 4, 5, 6] [1, 0, 1, 0, 1, 0] [0, 0, 0, 0] 2 2 3 =
     Inr (linear (real_ops 0) [1, 2, 3, 4, 5, 6] 2 3 [1, 0, 1, 0, 1, 0] 2 None)"
    by (rule gemm_is_linear[OF exact_gemm_documented]) simp_all
  show "linear (real_ops 0) [1, 2, 3, 4, 5, 6] 2 3 [1, 0, 1, 0, 1, 0] 2 None = [4, 2, 10, 5]"
    by (simp add: linear_def dot_def row_def upt_rec)
qed

subsection \<open>Construction\<close>

lemma load_cuda_layers_length: "load_cuda_layers has get16 get32 ls = Inr Ls \<Longrightarrow> length Ls = length ls"
  by (induction ls arbitrary: Ls) (auto simp: and_then_Inr)

lemma rope_build_length:
  "length (rt_cos (rope_build ops hdim n theta)) = n * (hdim div 2)" "length (rt_sin (rope_build ops hdim n theta)) = n * (hdim div 2)"
  by (simp_all add: rope_build_def Let_def concat_rows_length)


definition demo_weights :: header_parser where
  "demo_weights bs a b =
    Inr [(''model.embed_tokens.weight'', Tensor_Entry \<lparr>h_dtype = ''F32'', h_shape = [1], h_offsets = [0, 4]\<rparr>),
         (''model.norm.weight'', Tensor_Entry \<lparr>h_dtype = ''F32'', h_shape = [1], h_offsets = [0, 4]\<rparr>)]"

definition demo_config :: config_file where
  "demo_config =
    \<lparr>cf_model_type = Absent, cf_hidden_size = Value 2, cf_intermediate_size = Value 1, cf_num_hidden_layers = Value 0,
     cf_num_attention_heads = Value 1, cf_num_key_value_heads = Absent, cf_head_dim = Absent, cf_vocab_size = Value 1,
     cf_max_position_embeddings = Value 4, cf_rms_norm_eps = Absent, cf_rope_theta = Absent, cf_tie_word_embeddings = Value True,
     cf_attention_bias = Absent, cf_bos_token_id = Absent, cf_eos_token_id = Absent\<rparr>"

definition demo_half_ops :: "(nat, rat) gpu_ops" where
  "demo_half_ops = \<lparr>h2f = of_nat, f2h = (\<lambda>x. 0), g_fmax = max, g_expf = f_exp rat_ops, g_rsqrt = (\<lambda>x. 1 / x), g_lowest = - 1000000\<rparr>"

definition demo_cuda :: "(nat, rat) cuda_model result" where
  "demo_cuda = make_cuda_model rat_ops demo_half_ops (\<lambda>w. of_nat (unat w)) unat demo_weights (Some (Inr demo_config)) [Some demo_file] False demo_kv"

lemma demo_cuda_loads: "\<exists>m. demo_cuda = Inr m"
proof -
  have "load_file demo_weights (Some demo_file) =
      Inr \<lparr>sf_tensors = [''model.embed_tokens.weight'' \<mapsto> demo_view, ''model.norm.weight'' \<mapsto> demo_view], sf_metadata = Map.empty\<rparr>"
    by (simp add: load_file_def demo_file_def demo_weights_def header_length_def header_overruns_def make_view_def
        parse_dtype_def view_numel_def numel_of_def demo_view_def)
  moreover have "load_model_config (Some (Inr demo_config)) = Inr
      \<lparr>model_type = ''llama'', hidden_size = 2, intermediate_size = 1, num_hidden_layers = 0, num_attention_heads = 1, num_key_value_heads = 1,
       head_dim = 2, vocab = 1, max_position_embeddings = 4, rms_norm_eps = 1 / 1000000, rope_theta = 10000, tie_word_embeddings = True,
       attention_bias = False, bos_token_id = -1, eos_token_id = -1\<rparr>" by code_simp
  ultimately show ?thesis
    by (simp add: demo_cuda_def make_cuda_model_def load_dir_def load_cuda_weights_def upload_f16_def upload_f32_def dir_get_def to_f16_def
        vector_fits_def view_numel_def numel_of_def demo_view_def demo_converts[unfolded demo_view_def] Let_def)
qed


subsection \<open>The block count of the activation kernel\<close>

text \<open>The other elementwise launchers cap the number of blocks before they narrow it to \<open>int\<close>; this one
  narrows first, and from \<open>2\<close> to the power \<open>39\<close> elements on the count is negative and the launch is
  refused.\<close>

lemma silu_blocks_negative: "silu_blocks (2 ^ 39) = - 2147483648"
  by code_simp

end
