(* ===== verification/Scheduler_Drain.thy ===== *)
theory Scheduler_Drain
  imports Scheduler_Props
begin

text \<open>
  Continuous batching ends: when nobody joins, the iterations of the engine loop empty the
  scheduler, through preemption and recomputation included. Each iteration that neither releases a
  request nor generates a token leaves every resident sequence with the blocks of its next token, so
  the following one evicts nobody and computes at least one token more. The measure is the tokens
  still to generate, whether some resident sequence lacks a block, and the tokens still to compute.
\<close>

subsection \<open>What scheduling keeps of the sequences\<close>

text \<open>The text of no sequence changes.\<close>

definition same_text :: "sched \<Rightarrow> sched \<Rightarrow> bool" where
  "same_text s s' \<longleftrightarrow> (\<forall>p. tokens (heap s' p) = tokens (heap s p) \<and> prompt_len (heap s' p) = prompt_len (heap s p) \<and>
     params (heap s' p) = params (heap s p))"

lemma same_text_refl [simp]: "same_text s s"
  by (simp add: same_text_def)

lemma same_text_trans: "same_text s s1 \<Longrightarrow> same_text s1 s2 \<Longrightarrow> same_text s s2"
  by (simp add: same_text_def)

lemma same_text_simps [simp]:
  "same_text s (set_kv_table u r kv bt) = same_text s u" "same_text s (upd_stats u g) = same_text s u"
  "same_text s (free_seq u r) = same_text s u" "same_text s (u\<lparr>waiting := W\<rparr>) = same_text s u"
  "same_text s (u\<lparr>running := R\<rparr>) = same_text s u" "same_text s (preempt u r) = same_text s u"
  "same_text s (start_seq now u r kv bt c) = same_text s u" "same_text s (fire u r t reason) = same_text s u"
  "same_text s (retire now u r reason) = same_text s u" "same_text s (open_step u) = same_text s u"
  "same_text s (close_batch u b) = same_text s u" "same_text s (moved_to_running u i r) = same_text s u"
  by (auto simp: same_text_def start_seq_def moved_to_running_def)

lemma evict_text:
  "evict_for_memory s mid dec = (ok, s', mid', dec') \<Longrightarrow> same_text s s'"
  by (auto simp: evict_for_memory_def Let_def split: option.splits if_splits)

lemma place_decode_text: "place_decode s mid dec i = (s', mid', dec') \<Longrightarrow> same_text s s'"
proof (induction s mid dec i rule: place_decode.induct)
  case (1 s mid dec i)
  show ?case
  proof (cases "i < length dec")
    case False
    then show ?thesis using "1.prems" by (simp add: place_decode.simps)
  next
    case True
    obtain ok kv bt where es: "ensure_slot (sc_kv s) (block_tab (heap s (dec ! i))) (num_tokens (heap s (dec ! i))) = (ok, kv, bt)"
      by (metis prod_cases3)
    let ?s = "set_kv_table s (dec ! i) kv bt"
    obtain b s1 mid1 dec1 where ev: "evict_for_memory ?s mid dec = (b, s1, mid1, dec1)" by (metis prod_cases4)
    have t: "same_text s s1" using evict_text[OF ev] same_text_trans[of s ?s] by simp
    consider "ok" "place_decode ?s mid dec (Suc i) = (s', mid', dec')"
      | "\<not> ok" "b" "place_decode s1 mid1 dec1 i = (s', mid', dec')"
      | "\<not> ok" "\<not> b" "place_decode s1 mid (take i dec @ drop (Suc i) dec) i = (s', mid', dec')"
      using "1.prems" True es ev by (subst (asm) place_decode.simps) (auto simp: Let_def split: if_splits bool.splits)
    then show ?thesis
    proof cases
      case 1
      then show ?thesis using "1.IH"(1)[OF True refl es[symmetric]] same_text_trans[of s ?s] by simp
    next
      case 2
      then show ?thesis using "1.IH"(2)[OF True refl es[symmetric] _ refl ev[symmetric] _ refl refl] same_text_trans[OF t] by simp
    next
      case 3
      then show ?thesis using "1.IH"(3)[OF True refl es[symmetric] _ refl ev[symmetric] _ refl refl] same_text_trans[OF t] by simp
    qed
  qed
qed

text \<open>With a slot for everyone the placement loop does nothing.\<close>

lemma place_decode_ready:
  assumes "\<forall>r \<in> set dec. slot_ready s r"
  shows "place_decode s mid dec i = (s, mid, dec)"
proof (induction "length dec - i" arbitrary: i)
  case 0
  then show ?case by (simp add: place_decode.simps)
next
  case (Suc k)
  then have i: "i < length dec" by simp
  then have "slot_ready s (dec ! i)" using assms by simp
  then have "ensure_slot (sc_kv s) (block_tab (heap s (dec ! i))) (num_tokens (heap s (dec ! i))) = (True, sc_kv s, block_tab (heap s (dec ! i)))"
    by (simp add: ensure_slot_def slot_ready_def)
  moreover have "set_kv_table s (dec ! i) (sc_kv s) (block_tab (heap s (dec ! i))) = s"
    by (simp add: set_kv_table_def upd_seq_def)
  ultimately have "place_decode s mid dec i = place_decode s mid dec (Suc i)" using i by (subst place_decode.simps) simp
  then show ?case using Suc.hyps(1)[of "Suc i"] Suc.hyps(2) by simp
qed

text \<open>
  Admission touches queued sequences only, and who becomes resident gets a slice of the step.
\<close>

definition grows :: "sched \<Rightarrow> step_input \<Rightarrow> sched \<Rightarrow> step_input \<Rightarrow> bool" where
  "grows s st s' st' \<longleftrightarrow> same_text s s' \<and> set (waiting s') \<subseteq> set (waiting s) \<and> set (slices st) \<subseteq> set (slices st') \<and>
     (\<forall>p. p \<notin> set (waiting s) \<longrightarrow> heap s' p = heap s p) \<and>
     set (running s') \<subseteq> set (running s) \<union> sl_seq ` set (slices st') \<and>
     same_config (sc_kv s) (sc_kv s')"

lemma grows_refl [simp]: "grows s st s st"
  by (simp add: grows_def)

lemma grows_trans: "grows s st s1 st1 \<Longrightarrow> grows s1 st1 s2 st2 \<Longrightarrow> grows s st s2 st2"
  unfolding grows_def using same_text_trans[of s s1 s2] same_config_trans[of "sc_kv s" "sc_kv s1" "sc_kv s2"] by (auto simp: subset_iff image_iff) metis+

lemma grows_table:
  "r \<in> set (waiting s) \<Longrightarrow> same_config (sc_kv s) kv \<Longrightarrow> grows s st (set_kv_table s r kv bt) st"
  "r \<in> set (waiting s) \<Longrightarrow> same_config (sc_kv s) kv \<Longrightarrow> grows s st (start_seq now s r kv bt c) st"
  by (auto simp: grows_def same_text_def start_seq_def)

lemma take_hits_config: "take_hits kv bt hits = (kv', bt') \<Longrightarrow> same_config kv kv'"
proof (induction hits arbitrary: kv bt)
  case (Cons hb hits)
  obtain h b where hb: "hb = (h, b)" by force
  show ?case
    using Cons.IH[of "add_ref kv b"] Cons.prems same_config_trans[OF add_ref_simps(3)] unfolding hb take_hits_Cons by blast
qed simp

lemma alloc_fresh_config: "alloc_fresh n kv bt = Some (kv', bt') \<Longrightarrow> same_config kv kv'"
proof (induction n kv bt rule: alloc_fresh.induct)
  case (2 n kv bt)
  obtain b kv1 where tb: "take_block kv = (Some b, kv1)" using "2.prems" by (auto split: prod.splits option.splits)
  then have c: "same_config kv (fst (own_block kv1 bt b))" using take_block_config[OF tb] by (simp add: own_block_def same_config_def)
  obtain kv2 bt2 where ob: "own_block kv1 bt b = (kv2, bt2)" by force
  then show ?case using "2.IH"[OF tb[symmetric] refl ob[symmetric]] "2.prems" tb c same_config_trans by (simp add: ob)
qed simp

lemma allocate_prompt_config:
  "allocate_prompt kv bt ts = Some (res, kv', bt') \<Longrightarrow> same_config kv kv'"
  by (auto simp: allocate_prompt_def Let_def count_query_def count_failure_def count_hits_def same_config_def
      split: if_splits prod.splits option.splits dest!: take_hits_config alloc_fresh_config)

lemma admit_candidate_grows:
  assumes "admit_candidate s st budget i r = (ok, s', st', b')" "i < length (waiting s)" "r = waiting s ! i"
  shows "grows s st s' st'"
proof -
  define len where "len = min (min (int (num_tokens (heap s r)) - num_computed (heap s r)) budget) (prefill_chunk_size (sc_cfg s))"
  have "s' = s \<and> st' = st \<or> s' = moved_to_running s i r \<and> st' = add_prefill_slice st s r len"
    using assms(1) by (auto simp: admit_candidate_def moved_to_running_def len_def Let_def split: if_splits)
  moreover have "grows s st (moved_to_running s i r) (add_prefill_slice st s r len)"
    using assms(2,3) by (auto simp: grows_def same_text_def moved_to_running_def add_prefill_slice_def Let_def dest: in_set_takeD in_set_dropD)
  ultimately show ?thesis by auto
qed

lemma admit_loop_grows:
  "admit_loop now s st budget i n = Inr (ok, s', st', b') \<Longrightarrow> i + n \<le> length (waiting s) \<Longrightarrow> grows s st s' st'"
proof (induction now s st budget i n rule: admit_loop.induct)
  case (2 now s st budget i n)
  let ?r = "waiting s ! i"
  show ?case
  proof (cases "bt_empty (block_tab (heap s ?r)) \<and> admission_fits s ?r")
    case False
    then show ?thesis using "2.prems" "2.IH"(1)[OF refl refl refl] admit_candidate_grows[of s st budget i ?r]
      by (auto simp: Let_def split: if_splits)
  next
    case True
    obtain hit kv bt where al: "allocate_prompt (sc_kv s) (block_tab (heap s ?r)) (tokens (heap s ?r)) = Some (hit, kv, bt)"
      using "2.prems"(1) True by (auto simp: Let_def split: option.splits)
    have rw: "?r \<in> set (waiting s)" using "2.prems"(2) by simp
    note g = grows_table[OF rw allocate_prompt_config[OF al], where st = st and bt = bt]
    show ?thesis
    proof (cases hit)
      case None
      let ?s = "set_kv_table s ?r kv bt"
      have "s' = ?s \<and> st' = st \<or> wait_steps (heap s ?r) < starvation_wait_steps (sc_cfg s) \<and> admit_loop now ?s st budget (Suc i) n = Inr (ok, s', st', b')"
        using "2.prems"(1) True al None by (auto simp: Let_def split: if_splits)
      then show ?thesis
        using "2.IH"(2)[OF refl refl refl] True al None "2.prems"(2) g(1) grows_trans[OF g(1)] by auto
    next
      case (Some c)
      have "admit_candidate (start_seq now s ?r kv bt c) st budget i ?r = (ok, s', st', b')"
        using "2.prems"(1) True al Some by (simp add: Let_def)
      then have "grows (start_seq now s ?r kv bt c) st s' st'" using "2.prems"(2) by (intro admit_candidate_grows) auto
      then show ?thesis using grows_trans[OF g(2)] by blast
    qed
  qed
qed simp

lemma admit_all_grows: "admit_all now s st b = Inr (s', st', b') \<Longrightarrow> grows s st s' st'"
proof (induction now s st b rule: admit_all.induct)
  case (1 now s st b)
  obtain ok s1 st1 b1 where one: "admit_one now s st b = Inr (ok, s1, st1, b1)"
    using "1.prems" by (subst (asm) admit_all.simps) (auto split: sum.splits prod.splits)
  have "waiting s \<noteq> [] \<Longrightarrow> 0 + admission_limit s \<le> length (waiting s)" by (auto simp: admission_limit_def Suc_le_eq)
  then have q: "grows s st s1 st1" using one admit_loop_grows[of now s st b 0 "admission_limit s" ok s1 st1 b1]
    by (auto simp: admit_one_def split: if_splits)
  show ?case
  proof (cases ok)
    case True
    then have "admit_all now s1 st1 b1 = Inr (s', st', b')" using one "1.prems" by (subst (asm) admit_all.simps) simp
    then show ?thesis using "1.IH"[OF one refl _ refl refl] True grows_trans[OF q] by simp
  next
    case False
    then show ?thesis using one "1.prems" q by (subst (asm) admit_all.simps) simp
  qed
qed

lemma count_wait_grows: "set rs \<subseteq> set (waiting s) \<Longrightarrow> grows s st (count_wait s rs) st"
proof (induction s rs rule: count_wait.induct)
  case (2 s r rs)
  have "grows s st (upd_seq s r (\<lambda>q. q\<lparr>wait_steps := wait_steps q + 1\<rparr>)) st"
    using "2.prems" by (auto simp: grows_def same_text_def)
  then show ?case using grows_trans "2.IH" "2.prems" by (metis count_wait.simps(2) insert_subset list.simps(15) waiting_frame(1))
qed simp

lemma retire_grows:
  "r \<in> set (waiting s) \<Longrightarrow> set W \<subseteq> set (waiting s) \<Longrightarrow> grows s st (retire now (s\<lparr>waiting := W\<rparr>) r reason) st"
  by (auto simp: grows_def free_table_config)

lemma retire_expired_frame:
  "same_text s (retire_expired now s rs) \<and> waiting (retire_expired now s rs) = waiting s \<and> running (retire_expired now s rs) = running s \<and>
   (\<forall>p. p \<notin> set rs \<longrightarrow> heap (retire_expired now s rs) p = heap s p) \<and>
   same_config (sc_kv s) (sc_kv (retire_expired now s rs))"
proof (induction now s rs rule: retire_expired.induct)
  case (2 now s r rs)
  let ?s = "retire now (upd_stats s (\<lambda>t. t\<lparr>timed_out := Suc (timed_out t)\<rparr>)) r Timeout"
  have t: "same_text s ?s" and c: "same_config (sc_kv s) (sc_kv ?s)" by (simp_all add: free_table_config)
  show ?case using "2.IH" same_text_trans[OF t] same_config_trans[OF c] by simp
qed simp

lemma admission_grows:
  assumes "admission_phase now s st b dec = Inr (s', st')"
  shows "grows s st s' st'"
proof -
  obtain s1 b1 where a: "admit_all now (count_wait s (waiting s)) st b = Inr (s1, st', b1)" "s' = reject_head now (close_batch s1 b1) dec"
    using assms by (auto simp: admission_phase_def split: sum.splits)
  have "grows s st s1 st'" using grows_trans[OF count_wait_grows admit_all_grows[OF a(1)]] by simp
  moreover have "grows s1 st' (close_batch s1 b1) st'" by (simp add: grows_def)
  moreover have "grows t st' (reject_head now t dec) st'" for t
    by (cases "waiting t") (auto simp: reject_head_def intro!: retire_grows)
  ultimately show ?thesis unfolding a(2) using grows_trans by blast
qed

lemma expire_grows: "grows s st (expire_waiting now s) st"
  using retire_expired_frame[of "s\<lparr>waiting := filter (\<lambda>r. \<not> waited_too_long now s r) (waiting s)\<rparr>" now "filter (waited_too_long now s) (waiting s)"]
  by (auto simp: expire_waiting_def Let_def grows_def same_text_def)


subsection \<open>One call of schedule\<close>

definition all_ready :: "sched \<Rightarrow> bool" where
  "all_ready s \<longleftrightarrow> (\<forall>r \<in> set (running s). slot_ready s r)"

lemma schedule_parts:
  assumes "schedule now s = Inr (s', st)" "continuous (sc_cfg s)"
  obtains s1 mid dec st0 b dec1 st1 where
    "place_decode (open_step s) (split_mid (open_step s)) (split_decode (open_step s)) 0 = (s1, mid, dec)"
    "build_prefill s1 empty_step (max_num_batched_tokens (sc_cfg s)) mid = (st0, b)" "trim_decode dec b = Inr dec1"
    "grows s1 st0 s' st1" "st = add_decode_slices s' st1 dec1"
proof -
  obtain s1 mid dec where pd: "place_decode (open_step s) (split_mid (open_step s)) (split_decode (open_step s)) 0 = (s1, mid, dec)"
    by (metis prod_cases3)
  obtain st0 b where bp: "build_prefill s1 empty_step (max_num_batched_tokens (sc_cfg s)) mid = (st0, b)" by fastforce
  obtain dec1 where tr: "trim_decode dec b = Inr dec1"
    using assms pd bp by (simp add: schedule_def Let_def split: sum.splits)
  obtain st1 where ad: "admission_phase now (expire_waiting now s1) st0 (b - int (length dec1)) dec1 = Inr (s', st1)"
    "st = add_decode_slices s' st1 dec1"
    using assms pd bp tr by (auto simp: schedule_def Let_def split: sum.splits)
  show ?thesis using that[OF pd bp tr grows_trans[OF expire_grows admission_grows[OF ad(1)]] ad(2)] .
qed

text \<open>Afterwards every resident sequence has the blocks of its next token. When that held before, nobody
  is evicted and what a resident sequence has computed stays computed.\<close>

lemma schedule_keeps:
  assumes inv: "sched_inv s" and sane: "sane_cfg (sc_cfg s)" and cont: "continuous (sc_cfg s)"
    and sch: "schedule now s = Inr (s', st)"
  shows "same_text s s'" "all_ready s'"
    "all_ready s \<Longrightarrow> p \<in> set (running s) \<Longrightarrow> p \<in> set (members s') \<Longrightarrow> p \<in> set (running s') \<and> heap s' p = heap s p"
proof -
  obtain s1 mid dec st0 b dec1 st1 where
    pd: "place_decode (open_step s) (split_mid (open_step s)) (split_decode (open_step s)) 0 = (s1, mid, dec)" and
    g: "grows s1 st0 s' st1" and st: "st = add_decode_slices s' st1 dec1"
    by (rule schedule_parts[OF sch cont])
  have inv0: "sched_inv (open_step s)" by (rule sched_inv_frame[OF inv]) simp_all
  note pl = place_decode_spec[OF split_placing[OF inv0] _ _ pd]
  have P: "placing s1 mid dec" "\<forall>r \<in> set dec. slot_ready s1 r" "sc_cfg s1 = sc_cfg s" using pl by simp_all
  have inv1: "sched_inv s1" using P(1) by (simp add: placing_def)
  have off: "p \<notin> set (waiting s1)" if "p \<in> set (running s1)" for p using sched_inv_D(1)[OF inv1] that by auto
  show "same_text s s'" using place_decode_text[OF pd] g same_text_trans[of s s1] by (simp add: grows_def same_text_def)
  have ready1: "slot_ready s1 r" if r: "r \<in> set (running s1)" for r
  proof -
    have q: "run_ok True (kv_block_size (sc_kv s1)) (heap s1 r)" using sched_inv_D(4)[OF inv1 r] cont P(3) by simp
    then have "\<not> is_finished (heap s1 r)" by (auto simp: run_ok_def is_finished_def)
    then have "r \<in> set mid \<union> set dec" using P(1) r by (auto simp: placing_def)
    then show ?thesis using q P(1,2) by (auto simp: placing_def run_ok_def blocks_ok_def slot_ready_def prefill_done_def)
  qed
  have ok: "step_ok s' st" using schedule_spec[OF inv sane, of now] sch by auto
  show "all_ready s'"
    unfolding all_ready_def
  proof
    fix r assume r: "r \<in> set (running s')"
    show "slot_ready s' r"
    proof (cases "r \<in> set (running s1)")
      case True
      then show ?thesis using ready1[OF True] off[OF True] g by (simp add: grows_def slot_ready_def same_config_def)
    next
      case False
      then obtain sl where sl: "sl \<in> set (slices st1)" "sl_seq sl = r" using g r by (auto simp: grows_def)
      then have "sl \<in> set (slices st)" using add_decode_slices_eq[of s' st1 dec1] st by auto
      then show ?thesis using ok sl(2) by (auto simp: step_ok_def slices_ok_def slice_ok_def Let_def)
    qed
  qed
  assume rdy: "all_ready s" and p: "p \<in> set (running s)" "p \<in> set (members s')"
  have "\<forall>r \<in> set (split_decode (open_step s)). slot_ready (open_step s) r"
    using rdy by (auto simp: all_ready_def split_decode_def slot_ready_def)
  from place_decode_ready[OF this] pd have s1: "s1 = open_step s" by simp
  then show "p \<in> set (running s') \<and> heap s' p = heap s p" using off p g by (auto simp: grows_def members_def)
qed

subsection \<open>The measure\<close>

definition weight :: "seq \<Rightarrow> nat" where
  "weight q = Suc (nat (max_tokens (params q) - num_generated q))"

definition to_generate :: "sched \<Rightarrow> nat" where
  "to_generate s = (\<Sum>p \<in> set (members s). weight (heap s p))"

definition left_to_compute :: "sched \<Rightarrow> seq_ref \<Rightarrow> nat" where
  "left_to_compute s p =
    (if p \<in> set (running s) then nat (int (num_tokens (heap s p)) - num_computed (heap s p)) else num_tokens (heap s p))"

definition to_compute :: "sched \<Rightarrow> nat" where
  "to_compute s = (\<Sum>p \<in> set (members s). left_to_compute s p)"

lemma sum_shrinks:
  fixes f g :: "'a \<Rightarrow> nat"
  assumes "finite A" "B \<subseteq> A" "\<And>p. p \<in> B \<Longrightarrow> f p \<le> g p"
  shows "sum f B \<le> sum g A" "r \<in> A \<Longrightarrow> 0 < g r \<Longrightarrow> r \<notin> B \<or> f r < g r \<Longrightarrow> sum f B < sum g A"
proof -
  have B: "finite B" using assms(1,2) finite_subset by blast
  have le: "sum f B \<le> sum g B" using assms(3) by (rule sum_mono)
  have "sum g B \<le> sum g A" using assms(1,2) by (rule sum_mono2) simp
  then show "sum f B \<le> sum g A" using le by linarith
  assume r: "r \<in> A" "0 < g r" "r \<notin> B \<or> f r < g r"
  show "sum f B < sum g A"
  proof (cases "r \<in> B")
    case True
    then have "sum f B < sum g B" using r(3) assms(3) B by (intro sum_strict_mono_ex1) auto
    then show ?thesis using \<open>sum g B \<le> sum g A\<close> by linarith
  next
    case False
    then have "sum g B < sum g A" using assms(1,2) r(1,2) by (intro sum_strict_mono2[where b = r]) auto
    then show ?thesis using le by linarith
  qed
qed

lemma weight_text: "same_text s s' \<Longrightarrow> weight (heap s' p) = weight (heap s p)"
  by (simp add: weight_def same_text_def num_generated_def)

lemma load_card: "sched_inv s \<Longrightarrow> load s = card (set (members s))"
  using sched_inv_D(1)[of s] by (simp add: load_def members_def card_Un_disjoint distinct_card)

lemma schedule_measure:
  assumes inv: "sched_inv s" and sane: "sane_cfg (sc_cfg s)" and cont: "continuous (sc_cfg s)"
    and sch: "schedule now s = Inr (s', st)"
  shows "to_generate s' \<le> to_generate s" "load s' < load s \<Longrightarrow> to_generate s' < to_generate s"
    "load s' = load s \<Longrightarrow> all_ready s \<Longrightarrow> to_compute s' \<le> to_compute s"
proof -
  note k = schedule_keeps[OF assms]
  have inv': "sched_inv s'" using schedule_spec[OF inv sane, of now] sch by auto
  have sub: "set (members s') \<subseteq> set (members s)" using schedule_hands[OF assms] by (simp add: hands_def)
  have w: "weight (heap s' p) \<le> weight (heap s p)" for p using weight_text[OF k(1)] by simp
  show "to_generate s' \<le> to_generate s" unfolding to_generate_def by (rule sum_shrinks(1)[OF _ sub]) (use w in simp_all)
  show "to_generate s' < to_generate s" if less: "load s' < load s"
  proof -
    have "set (members s') \<noteq> set (members s)" using less by (auto simp: load_card[OF inv] load_card[OF inv'])
    then obtain r where "r \<in> set (members s)" "r \<notin> set (members s')" using sub by blast
    then show ?thesis unfolding to_generate_def by (intro sum_shrinks(2)[OF _ sub]) (use w in \<open>auto simp: weight_def\<close>)
  qed
  assume same: "load s' = load s" and rdy: "all_ready s"
  have eq: "set (members s') = set (members s)"
    using same sub by (intro card_subset_eq) (simp_all add: load_card[OF inv] load_card[OF inv'])
  have "left_to_compute s' p \<le> left_to_compute s p" if p: "p \<in> set (members s')" for p
  proof (cases "p \<in> set (running s)")
    case True
    then show ?thesis using k(3)[OF rdy True p] by (simp add: left_to_compute_def)
  next
    case False
    have "num_tokens (heap s' p) = num_tokens (heap s p)" using k(1) by (simp add: same_text_def num_tokens_def)
    moreover have "0 \<le> num_computed (heap s' p)" if "p \<in> set (running s')"
      using sched_inv_D(4)[OF inv' that] by (simp add: run_ok_def)
    ultimately show ?thesis using False by (auto simp: left_to_compute_def)
  qed
  then show "to_compute s' \<le> to_compute s" unfolding to_compute_def by (intro sum_shrinks(1)) (use eq in auto)
qed


subsection \<open>One call of on_step_done\<close>

text \<open>A slice without logits computes its tokens and changes nothing else that matters here.\<close>

lemma advance_measure:
  assumes ap: "applying s dn" and ok: "slice_ok s sl"
  defines "s1 \<equiv> advance s sl"
  shows "to_generate s1 = to_generate s" "to_compute s1 < to_compute s" "all_ready s \<Longrightarrow> all_ready s1"
proof -
  let ?r = "sl_seq sl"
  obtain kv bt where adv: "s1 = set_kv_table (upd_seq s ?r (\<lambda>q. q\<lparr>num_computed := num_computed q + sl_len sl\<rparr>)) ?r kv bt"
    and kv: "kv_block_size kv = kv_block_size (sc_kv s)" "bt_num_blocks bt = blocks_needed (num_tokens (heap s ?r)) (kv_block_size (sc_kv s))"
    by (rule advance_spec[OF ap ok]) (unfold s1_def)
  have same: "members s1 = members s" "running s1 = running s" "same_text s s1" unfolding adv by (simp_all add: members_def same_text_def)
  show "to_generate s1 = to_generate s" by (simp add: to_generate_def same weight_text[OF same(3)])
  have r: "?r \<in> set (running s)" "1 \<le> sl_len sl" "num_computed (heap s ?r) + sl_len sl \<le> int (num_tokens (heap s ?r))"
    using ok by (simp_all add: slice_ok_def Let_def)
  have less: "left_to_compute s1 ?r < left_to_compute s ?r"
    using r by (simp add: left_to_compute_def same(2)) (simp add: adv num_tokens_def)
  have "left_to_compute s1 p \<le> left_to_compute s p" for p
    using less by (cases "p = ?r") (simp_all add: left_to_compute_def same(2), simp add: adv)
  then show "to_compute s1 < to_compute s"
    unfolding to_compute_def same(1) using r(1) less by (intro sum_shrinks(2)[where r = ?r]) (auto simp: members_def)
  show "all_ready s \<Longrightarrow> all_ready s1"
    using kv by (auto simp: all_ready_def slot_ready_def same(2)) (simp_all add: adv num_tokens_def)
qed

text \<open>A slice with logits adds a token to a sequence or takes it off the resident list.\<close>

lemma on_slice_measure:
  assumes ap: "applying s dn" and ok: "slice_ok s sl" and k: "needs_logits sl \<Longrightarrow> k < length sampled"
    and cont: "continuous (sc_cfg s)" and os: "on_slice now sampled s k dn sl = Inr (s', k', dn')"
  shows "to_generate s' \<le> to_generate s" "needs_logits sl \<Longrightarrow> to_generate s' < to_generate s"
    "\<not> needs_logits sl \<Longrightarrow> s' = advance s sl \<and> dn' = dn"
proof -
  let ?r = "sl_seq sl"
  show plain: "\<not> needs_logits sl \<Longrightarrow> s' = advance s sl \<and> dn' = dn" using os by (auto simp: on_slice_def Let_def)
  have less: "to_generate s' < to_generate s" if lg: "needs_logits sl"
  proof -
    define s1 where "s1 = advance s sl"
    obtain kv bt where adv: "s1 = set_kv_table (upd_seq s ?r (\<lambda>q. q\<lparr>num_computed := num_computed q + sl_len sl\<rparr>)) ?r kv bt"
      by (rule advance_spec[OF ap ok]) (unfold s1_def)
    define tok where "tok = sampled ! k"
    define q2 where "q2 = append_token now tok (heap s1 ?r)"
    define s3 where "s3 = (if stop_hit q2 tok then upd_seq s1 ?r (append_token now tok)
                           else fire (upd_seq s1 ?r (append_token now tok)) ?r tok Reason_None)"
    define s4 where "s4 = upd_seq s3 ?r (finish_update (\<lambda>_. finish_check q2 tok))"
    have r: "?r \<in> set (running s)" "\<not> is_finished (heap s ?r)" using ok by (simp_all add: slice_ok_def Let_def)
    have s1: "waiting s1 = waiting s" "running s1 = running s" "sc_cfg s1 = sc_cfg s" "weight (heap s1 p) = weight (heap s p)"
      "is_finished (heap s1 p) = is_finished (heap s p)" for p
      unfolding adv by (simp_all add: weight_def num_generated_def is_finished_def)
    have s3: "waiting s3 = waiting s" "running s3 = running s" "sc_cfg s3 = sc_cfg s" "heap s3 = (heap s1)(?r := q2)"
      using s1 by (simp_all add: s3_def q2_def)
    have "Inr (s', k', dn') = (if finish_check q2 tok = Reason_None then Inr (s3, Suc k, dn)
        else Inr (s4\<lparr>running := remove1 ?r (running s4)\<rparr>, Suc k, dn @ [?r]) :: (sched \<times> nat \<times> seq_ref list) result)"
      using on_slice_logits[OF lg k[OF lg] refl s1_def _ _ tok_def q2_def s3_def s4_def, of dn] os r s1 s3 cont
      by (simp add: s4_def split: if_splits)
    then consider "s' = s3" "finish_check q2 tok = Reason_None" | "s' = s4\<lparr>running := remove1 ?r (running s)\<rparr>"
      using s3 by (auto simp: s4_def split: if_splits)
    then show ?thesis
    proof cases
      case 1
      have "num_generated q2 < max_tokens (params q2)" using 1(2) by (auto simp: finish_check_def split: if_splits)
      then have "weight q2 < weight (heap s1 ?r)" by (simp add: weight_def q2_def append_token_def num_generated_def)
      then show ?thesis
        unfolding to_generate_def using r(1) s1(4) s3 1(1)
        by (intro sum_shrinks(2)[where r = ?r]) (auto simp: members_def)
    next
      case 2
      have d: "distinct (waiting s @ running s @ dn)" by (rule applying_distinct[OF ap])
      have "weight (heap s' p) = weight (heap s p)" if "p \<noteq> ?r" for p using that 2 s1(4) s3(4) by (simp add: s4_def)
      moreover have "set (members s') = set (members s) - {?r}" using 2 d r(1) s3 by (auto simp: members_def s4_def)
      ultimately show ?thesis
        unfolding to_generate_def using r(1) by (intro sum_shrinks(2)[where r = ?r]) (auto simp: members_def weight_def)
    qed
  qed
  then show "needs_logits sl \<Longrightarrow> to_generate s' < to_generate s" .
  show "to_generate s' \<le> to_generate s"
    using less plain advance_measure(1)[OF ap ok] by (cases "needs_logits sl") auto
qed

lemma on_slices_measure:
  assumes "applying s dn" "slices_ok s sls" "k + length (filter needs_logits sls) \<le> length sampled"
    "continuous (sc_cfg s)" "on_slices now sampled s k dn sls = Inr (s', k', dn')"
  shows "to_generate s' \<le> to_generate s \<and> ((\<exists>sl \<in> set sls. needs_logits sl) \<longrightarrow> to_generate s' < to_generate s) \<and>
    ((\<forall>sl \<in> set sls. \<not> needs_logits sl) \<longrightarrow> dn' = dn \<and> (all_ready s \<longrightarrow> all_ready s') \<and>
      to_compute s' \<le> to_compute s \<and> (sls \<noteq> [] \<longrightarrow> to_compute s' < to_compute s))"
  using assms
proof (induction sls arbitrary: s k dn)
  case (Cons sl sls)
  have ok: "slice_ok s sl" using Cons.prems(2) by (simp add: slices_ok_def)
  have k: "needs_logits sl \<Longrightarrow> k < length sampled" using Cons.prems(3) by simp
  from on_slice_spec[OF Cons.prems(1) ok k, of now] obtain s1 dn1 where one:
    "on_slice now sampled s k dn sl = Inr (s1, (if needs_logits sl then Suc k else k), dn1)"
    "applying s1 dn1" "sc_cfg s1 = sc_cfg s" "kv_block_size (sc_kv s1) = kv_block_size (sc_kv s)"
    "\<forall>p. p \<noteq> sl_seq sl \<longrightarrow> heap s1 p = heap s p \<and> (p \<in> set (running s1) \<longleftrightarrow> p \<in> set (running s))" by blast
  have sok: "slices_ok s1 sls" using slices_ok_tail[OF Cons.prems(2) one(5,4)] .
  note m = on_slice_measure[OF Cons.prems(1) ok k Cons.prems(4) one(1)]
  have "on_slices now sampled s1 (if needs_logits sl then Suc k else k) dn1 sls = Inr (s', k', dn')"
    using Cons.prems(5) one(1) by simp
  moreover have "(if needs_logits sl then Suc k else k) + length (filter needs_logits sls) \<le> length sampled"
    using Cons.prems(3) by auto
  ultimately have ih: "to_generate s' \<le> to_generate s1 \<and> ((\<exists>sl \<in> set sls. needs_logits sl) \<longrightarrow> to_generate s' < to_generate s1) \<and>
    ((\<forall>sl \<in> set sls. \<not> needs_logits sl) \<longrightarrow> dn' = dn1 \<and> (all_ready s1 \<longrightarrow> all_ready s') \<and>
      to_compute s' \<le> to_compute s1 \<and> (sls \<noteq> [] \<longrightarrow> to_compute s' < to_compute s1))"
    using Cons.IH[OF one(2) sok] Cons.prems(4) one(3) by simp
  show ?case
  proof (cases "needs_logits sl")
    case True
    then show ?thesis using ih m(2) by auto
  next
    case False
    then show ?thesis using ih m(1,3) advance_measure[OF Cons.prems(1) ok] by auto
  qed
qed simp

lemma retire_done_text: "same_text s (retire_done now s rs) \<and> members (retire_done now s rs) = members s"
proof (induction now s rs rule: retire_done.induct)
  case (2 now s r rs)
  have "same_text s (retire now s r (finish (heap s r)))" by simp
  then show ?case using "2.IH" same_text_trans[of s "retire now s r (finish (heap s r))"] by (simp add: members_def)
qed simp

lemma on_step_done_measure:
  assumes inv: "sched_inv s" and ok: "step_ok s st" and n: "num_logits st \<le> int (length sampled)"
    and cont: "continuous (sc_cfg s)" and os: "on_step_done now s st sampled = Inr s'" and ne: "\<not> step_empty st" and rdy: "all_ready s"
  shows "to_generate s' < to_generate s \<or> to_generate s' \<le> to_generate s \<and> all_ready s' \<and> to_compute s' < to_compute s"
proof -
  have ap: "applying s []" using inv by (simp add: applying_def sched_inv_def)
  obtain s1 k dn where sl: "on_slices now sampled s 0 [] (slices st) = Inr (s1, k, dn)"
    "s' = drain_static (retire_done now s1 dn)" using os by (auto simp: on_step_done_def split: sum.splits)
  have so: "slices_ok s (slices st)" "0 + length (filter needs_logits (slices st)) \<le> length sampled"
    using ok n by (simp_all add: step_ok_def counters_ok_def)
  note m = on_slices_measure[OF ap so cont sl(1)]
  have "applying s1 dn" "sc_cfg s1 = sc_cfg s" using on_slices_spec[OF ap so, of now] sl(1) by auto
  then have "sc_cfg (retire_done now s1 dn) = sc_cfg s" using retire_done_spec by simp
  then have s': "s' = retire_done now s1 dn" using cont sl(2) by (simp add: drain_static_def)
  have g: "to_generate s' = to_generate s1"
    unfolding s' to_generate_def using retire_done_text[of s1 now dn] weight_text[of s1 "retire_done now s1 dn"] by simp
  show ?thesis
  proof (cases "\<exists>sl \<in> set (slices st). needs_logits sl")
    case True
    then show ?thesis using m g by simp
  next
    case False
    then have "dn = []" "all_ready s1" "to_compute s1 < to_compute s" using m rdy ne by (auto simp: step_empty_def)
    then show ?thesis using m g by (simp add: s')
  qed
qed

subsection \<open>Iterations\<close>

definition rank :: "sched \<Rightarrow> nat \<times> nat \<times> nat" where
  "rank s = (to_generate s, if all_ready s then 0 else 1, to_compute s)"

definition closer :: "(sched \<times> sched) set" where
  "closer = inv_image (less_than <*lex*> less_than <*lex*> less_than) rank"

lemma wf_closer: "wf closer"
  by (auto simp: closer_def)

lemma iteration_closer:
  assumes inv: "sched_inv s" and sane: "sane_cfg (sc_cfg s)" and cont: "continuous (sc_cfg s)"
    and b: "1 \<le> max_num_batched_tokens (sc_cfg s)" and work: "has_work s" and sch: "schedule now s = Inr (s1, st)"
  shows "step_empty st \<Longrightarrow> (s1, s) \<in> closer"
    "\<not> step_empty st \<Longrightarrow> num_logits st \<le> int (length sampled) \<Longrightarrow> on_step_done now' s1 st sampled = Inr s2 \<Longrightarrow> (s2, s) \<in> closer"
proof -
  note m = schedule_measure[OF inv sane cont sch]
  have sp: "sched_inv s1" "step_ok s1 st" "sc_cfg s1 = sc_cfg s" "load s1 \<le> load s" "\<not> step_empty st \<or> load s1 < load s"
    using schedule_spec[OF inv sane, of now] sch cont b work by auto
  show "step_empty st \<Longrightarrow> (s1, s) \<in> closer" using sp(5) m(2) by (simp add: closer_def rank_def)
  assume a: "\<not> step_empty st" "num_logits st \<le> int (length sampled)" "on_step_done now' s1 st sampled = Inr s2"
  note d = on_step_done_measure[OF sp(1,2) a(2) _ a(3,1) schedule_keeps(2)[OF inv sane cont sch]]
  show "(s2, s) \<in> closer"
    using d m sp(3,4) cont by (cases "load s1 < load s") (auto simp: closer_def rank_def)
qed


text \<open>The loop around the two calls, from iteration \<open>k\<close> on: \<open>pick\<close> gives the sampled tokens, and after \<open>n\<close>
  iterations the state is whatever it is.\<close>

fun run_turns :: "(nat \<Rightarrow> time_point) \<Rightarrow> (nat \<Rightarrow> step_input \<Rightarrow> token list) \<Rightarrow> nat \<Rightarrow> nat \<Rightarrow> sched \<Rightarrow> sched result" where
  "run_turns clk pick k 0 s = Inr s"
| "run_turns clk pick k (Suc n) s =
    (if \<not> has_work s then Inr s
     else
       case schedule (clk k) s of
         Inl e \<Rightarrow> Inl e
       | Inr (s1, st) \<Rightarrow>
           if step_empty st then run_turns clk pick (Suc k) n s1
           else
             (case on_step_done (clk k) s1 st (pick k st) of
                Inl e \<Rightarrow> Inl e
              | Inr s2 \<Rightarrow> run_turns clk pick (Suc k) n s2))"

lemma iterate_reachable:
  assumes "reachable (sched_start cfg) sched_step s" "schedule now s = Inr (s1, step)" "\<not> step_empty step" "int (length toks) = num_logits step"
    "\<forall>t \<in> set toks. 0 \<le> t"
  shows "\<exists>s2. on_step_done now' s1 step toks = Inr s2 \<and> reachable (sched_start cfg) sched_step s2"
proof -
  have "sched_inv s1" "step_ok s1 step"
    using schedule_spec[OF reachable_inv(1)[OF assms(1)], of now] reachable_inv(2,3)[OF assms(1)] assms(2) by auto
  then obtain s2 where "on_step_done now' s1 step toks = Inr s2" using on_step_done_spec[of s1 step toks now'] assms(4) by auto
  then show ?thesis using assms by (blast intro: reachable.reach_step sched_step.step_iterate)
qed

definition picks :: "(nat \<Rightarrow> step_input \<Rightarrow> token list) \<Rightarrow> bool" where
  "picks pick \<longleftrightarrow> (\<forall>k st. length (pick k st) = nat (num_logits st) \<and> (\<forall>t \<in> set (pick k st). 0 \<le> t))"

text \<open>One turn from a reachable state with work: nothing fails and the state comes closer to the end.\<close>

lemma turn_closer:
  assumes s: "reachable (sched_start cfg) sched_step s" "has_work s" and cfg: "continuous cfg" "1 \<le> max_num_batched_tokens cfg" and p: "picks pick"
  obtains s2 where "\<And>n. run_turns clk pick k (Suc n) s = run_turns clk pick (Suc k) n s2" "reachable (sched_start cfg) sched_step s2"
    "(s2, s) \<in> closer" "hands s (members s) s2 (members s2)"
proof -
  note inv = reachable_inv(1)[OF s(1)] and sc = reachable_inv(2,3)[OF s(1)]
  obtain s1 st where sch: "schedule (clk k) s = Inr (s1, st)" "step_ok s1 st" "sched_inv s1" "sc_cfg s1 = sc_cfg s"
    using schedule_spec[OF inv, of "clk k"] sc by auto
  have h1: "hands s (members s) s1 (members s1)" using schedule_hands[OF inv _ _ sch(1)] sc cfg by simp
  note c = iteration_closer[OF inv _ _ _ s(2) sch(1)]
  show ?thesis
  proof (cases "step_empty st")
    case True
    then show ?thesis
      using that[of s1] sch(1) s c(1) sc cfg h1 reachable.reach_step[OF s(1) sched_step.step_idle[OF sch(1) True]] by simp
  next
    case False
    have n: "int (length (pick k st)) = num_logits st" "\<forall>t \<in> set (pick k st). 0 \<le> t"
      using p sch(2) by (auto simp: picks_def step_ok_def counters_ok_def)
    obtain s2 where s2: "on_step_done (clk k) s1 st (pick k st) = Inr s2" "reachable (sched_start cfg) sched_step s2"
      using iterate_reachable[OF s(1) sch(1) False n] by blast
    have "hands s1 (members s1) s2 (members s2)" using on_step_done_hands[OF sch(3,2) _ _ s2(1) n(2)] n(1) sch(4) sc cfg by simp
    then show ?thesis using that[of s2] sch(1) s False s2 c(2)[OF _ _ _ False _ s2(1)] n(1) sc cfg hands_trans[OF h1] by simp
  qed
qed

lemma run_turns_drain:
  assumes "reachable (sched_start cfg) sched_step s" "continuous cfg" "1 \<le> max_num_batched_tokens cfg" "picks pick"
  shows "\<exists>n s'. run_turns clk pick k n s = Inr s' \<and> \<not> has_work s' \<and> reachable (sched_start cfg) sched_step s' \<and>
    hands s (members s) s' (members s')"
  using wf_closer assms(1)
proof (induction s arbitrary: k rule: wf_induct_rule)
  case (less s)
  show ?case
  proof (cases "has_work s")
    case False
    then have "run_turns clk pick k 0 s = Inr s \<and> \<not> has_work s \<and> reachable (sched_start cfg) sched_step s \<and> hands s (members s) s (members s)"
      using less.prems by (simp add: hands_frame)
    then show ?thesis by blast
  next
    case True
    obtain s2 where s2: "\<And>n. run_turns clk pick k (Suc n) s = run_turns clk pick (Suc k) n s2" "reachable (sched_start cfg) sched_step s2"
      "(s2, s) \<in> closer" "hands s (members s) s2 (members s2)"
      using turn_closer[OF less.prems True assms(2-4)] by metis
    from less.IH[OF s2(3,2), of "Suc k"] obtain n s' where
      "run_turns clk pick (Suc k) n s2 = Inr s' \<and> \<not> has_work s' \<and> reachable (sched_start cfg) sched_step s' \<and>
        hands s2 (members s2) s' (members s')" by blast
    then have "run_turns clk pick k (Suc n) s = Inr s' \<and> \<not> has_work s' \<and> reachable (sched_start cfg) sched_step s' \<and>
        hands s (members s) s' (members s')" using s2(1)[of n] hands_trans[OF s2(4)] by auto
    then show ?thesis by blast
  qed
qed

text \<open>C4: Every request is served: in continuous mode with a positive token budget, from every reachable
  state, with any clock and any sampled tokens, finitely many iterations leave the scheduler without
  work, none of them fails, and each request that was there has been told its end exactly once. No
  amount of preemption keeps the loop from ending.\<close>

theorem scheduler_drains:
  assumes "reachable (sched_start cfg) sched_step s" "continuous cfg" "1 \<le> max_num_batched_tokens cfg"
    "\<forall>k st. length (pick k st) = nat (num_logits st) \<and> list_all (\<lambda>t. 0 \<le> t) (pick k st)"
  shows "\<exists>n s'. run_turns clk pick k n s = Inr s' \<and> \<not> has_work s' \<and>
    (\<forall>r \<in> set (waiting s @ running s). on_token (heap s r) \<longrightarrow> count_list (terminals s') r = 1)"
proof -
  have "picks pick" using assms(4) by (simp add: picks_def list_all_iff)
  from run_turns_drain[OF assms(1-3) this, of clk k] obtain n s' where
    n: "run_turns clk pick k n s = Inr s'" "\<not> has_work s'" "reachable (sched_start cfg) sched_step s'" "hands s (members s) s' (members s')" by blast
  note told = reachable_inv(4)[OF n(3) assms(2)]
  have "members s' = []" using n(2) by (simp add: has_work_def members_def)
  then show ?thesis using n(1,2) hands_told[OF told n(4)] by (auto simp: members_def)
qed

theorem scheduler_drains_witness:
  "\<exists>n s'. run_turns (\<lambda>_. 2) (\<lambda>_ st. replicate (nat (num_logits st)) 7) 0 n demo1 = Inr s' \<and> \<not> has_work s' \<and> count_list (terminals s') 0 = 1"
proof -
  have "\<forall>k st. length (replicate (nat (num_logits st)) (7 :: int)) = nat (num_logits st) \<and> list_all (\<lambda>t. 0 \<le> t) (replicate (nat (num_logits st)) (7 :: int))"
    by (simp add: list_all_iff)
  moreover have "continuous demo_cfg" "1 \<le> max_num_batched_tokens demo_cfg" "0 \<in> set (waiting demo1 @ running demo1)" "on_token (heap demo1 0)"
    by code_simp+
  ultimately show ?thesis
    using scheduler_drains[OF demo_reach1, of "\<lambda>_ st. replicate (nat (num_logits st)) 7" "\<lambda>_. 2" 0] by blast
qed

end
