(* ===== verification/Scheduler_Served.thy ===== *)
theory Scheduler_Served
  imports Scheduler_Drain Engine_Props
begin

text \<open>
  What continuous batching promises a request that fits the pool: however often it is preempted and
  recomputed, its text only grows, the scheduler never gives it up, and it ends by its length limit
  or by a stop token, with exactly the tokens it asked for in the first case.
\<close>

subsection \<open>Texts grow, pools stay\<close>

definition grown :: "seq \<Rightarrow> seq \<Rightarrow> bool" where
  "grown p q \<longleftrightarrow> prompt_len q = prompt_len p \<and> params q = params p \<and> (\<exists>ts. tokens q = tokens p @ ts)"

lemma grown_refl [simp]: "grown q q"
  by (simp add: grown_def)

lemma grown_trans: "grown p q \<Longrightarrow> grown q u \<Longrightarrow> grown p u"
  by (auto simp: grown_def)

lemma same_text_grown: "same_text s s' \<Longrightarrow> grown (heap s p) (heap s' p)"
  by (simp add: grown_def same_text_def)

lemma ensure_slot_config: "ensure_slot kv bt n = (ok, kv', bt') \<Longrightarrow> same_config kv kv'"
  by (auto simp: ensure_slot_def own_block_def count_failure_def same_config_def Let_def
      split: if_splits prod.splits option.splits dest!: take_block_config)

lemma evict_config: "evict_for_memory s mid dec = (ok, s', mid', dec') \<Longrightarrow> same_config (sc_kv s) (sc_kv s')"
  by (auto simp: evict_for_memory_def Let_def free_table_config split: option.splits if_splits)

lemma place_decode_config: "place_decode s mid dec i = (s', mid', dec') \<Longrightarrow> same_config (sc_kv s) (sc_kv s')"
proof (induction s mid dec i rule: place_decode.induct)
  case (1 s mid dec i)
  show ?case
  proof (cases "i < length dec")
    case False
    then show ?thesis using "1.prems" by (simp add: place_decode.simps)
  next
    case True
    obtain ok kv bt where es: "ensure_slot (sc_kv s) (block_tab (heap s (dec ! i))) (num_tokens (heap s (dec ! i))) = (ok, kv, bt)"
      by (metis prod_cases3)
    let ?s = "set_kv_table s (dec ! i) kv bt"
    obtain b s1 mid1 dec1 where ev: "evict_for_memory ?s mid dec = (b, s1, mid1, dec1)" by (metis prod_cases4)
    have c: "same_config (sc_kv s) (sc_kv ?s)" using ensure_slot_config[OF es] by simp
    note t = same_config_trans[OF c evict_config[OF ev]]
    consider "ok" "place_decode ?s mid dec (Suc i) = (s', mid', dec')"
      | "\<not> ok" "b" "place_decode s1 mid1 dec1 i = (s', mid', dec')"
      | "\<not> ok" "\<not> b" "place_decode s1 mid (take i dec @ drop (Suc i) dec) i = (s', mid', dec')"
      using "1.prems" True es ev by (subst (asm) place_decode.simps) (auto simp: Let_def split: if_splits bool.splits)
    then show ?thesis
    proof cases
      case 1
      then show ?thesis using "1.IH"(1)[OF True refl es[symmetric]] same_config_trans[OF c] by simp
    next
      case 2
      then show ?thesis using "1.IH"(2)[OF True refl es[symmetric] _ refl ev[symmetric] _ refl refl] same_config_trans[OF t] by simp
    next
      case 3
      then show ?thesis using "1.IH"(3)[OF True refl es[symmetric] _ refl ev[symmetric] _ refl refl] same_config_trans[OF t] by simp
    qed
  qed
qed

lemma commit_computed_config: "commit_computed kv bt ts n = (kv', bt') \<Longrightarrow> same_config kv kv'"
proof -
  have h: "hash_full_block kv bt i ts = (kv', bt') \<Longrightarrow> same_config kv kv'" for kv bt i ts kv' bt'
    by (auto simp: hash_full_block_def same_config_def Let_def split: if_splits)
  have "commit_loop kv bt ts n = (kv', bt') \<Longrightarrow> same_config kv kv'" for kv bt ts n kv' bt'
  proof (induction kv bt ts n rule: commit_loop.induct)
    case (1 kv bt ts n)
    obtain kv1 bt1 where hb: "hash_full_block kv bt (num_committed bt) ts = (kv1, bt1)" by force
    show ?case using 1 hb same_config_trans[OF h[OF hb]]
      by (subst (asm) (2) commit_loop.simps) (auto split: if_splits)
  qed
  then show "commit_computed kv bt ts n = (kv', bt') \<Longrightarrow> same_config kv kv'"
    by (auto simp: commit_computed_def split: if_splits)
qed

subsection \<open>How a request ends\<close>

text \<open>A finished sequence that is about to be told.\<close>

definition due :: "seq \<Rightarrow> finish_reason \<Rightarrow> bool" where
  "due q reason \<longleftrightarrow> reason = Length \<and> num_generated q = gen_cap q \<or> reason = Stop \<and> stop_hit q (last (tokens q))"

definition served :: "seq \<Rightarrow> callback \<Rightarrow> bool" where
  "served q e \<longleftrightarrow> grown q (cb_seq e) \<and> due (cb_seq e) (cb_reason e)"

text \<open>From one state to another: texts only grow, and every end told in between is such an end.\<close>

definition serves :: "sched \<Rightarrow> sched \<Rightarrow> bool" where
  "serves s s' \<longleftrightarrow> (\<forall>p. grown (heap s p) (heap s' p)) \<and> same_config (sc_kv s) (sc_kv s') \<and>
     (\<exists>es. events s' = events s @ es \<and> (\<forall>e\<in>set es. cb_token e < 0 \<longrightarrow> served (heap s (cb_ref e)) e))"

lemma serves_refl [simp]: "serves s s"
  by (simp add: serves_def)

lemma serves_trans:
  assumes "serves s s1" "serves s1 s2"
  shows "serves s s2"
proof -
  obtain es fs where e: "events s1 = events s @ es" "\<forall>e\<in>set es. cb_token e < 0 \<longrightarrow> served (heap s (cb_ref e)) e"
    "events s2 = events s1 @ fs" "\<forall>e\<in>set fs. cb_token e < 0 \<longrightarrow> served (heap s1 (cb_ref e)) e"
    using assms by (auto simp: serves_def)
  have "\<forall>e\<in>set (es @ fs). cb_token e < 0 \<longrightarrow> served (heap s (cb_ref e)) e"
    using e assms grown_trans by (fastforce simp: serves_def served_def)
  moreover have "\<forall>p. grown (heap s p) (heap s2 p)" "same_config (sc_kv s) (sc_kv s2)"
    using assms grown_trans same_config_trans unfolding serves_def by blast+
  ultimately show ?thesis using e by (auto simp: serves_def)
qed

text \<open>Silent steps.\<close>

lemma serves_silent:
  assumes "log_ext s s'" "terminals s' = terminals s" "\<And>p. grown (heap s p) (heap s' p)" "same_config (sc_kv s) (sc_kv s')"
  shows "serves s s'"
proof -
  obtain es where es: "events s' = events s @ es" using assms(1) by (auto simp: log_ext_def)
  then have "filter (\<lambda>e. cb_token e < 0) es = []" using assms(2) by (simp add: terminals_def)
  then have "\<forall>e\<in>set es. \<not> cb_token e < 0" by (simp add: filter_empty_conv)
  then show ?thesis using assms(3,4) es by (auto simp: serves_def)
qed

subsection \<open>schedule\<close>

text \<open>What a configuration and a state need for nobody to be given up.\<close>

definition serving_cfg :: "sched_config \<Rightarrow> bool" where
  "serving_cfg c \<longleftrightarrow> sane_cfg c \<and> continuous c \<and> watermark_blocks c \<le> 0 \<and> 1 \<le> max_num_seqs c \<and>
     1 \<le> max_num_batched_tokens c \<and> max_queue_wait_seconds c \<le> 0"

definition all_fit :: "sched \<Rightarrow> bool" where
  "all_fit s \<longleftrightarrow> (\<forall>r \<in> set (members s). prompt_len (heap s r) + gen_cap (heap s r) \<le> int (capacity_tokens (sc_kv s)))"

lemma fit_tokens:
  assumes "sched_inv s" "continuous (sc_cfg s)" "all_fit s" "r \<in> set (members s)"
  shows "num_tokens (heap s r) \<le> capacity_tokens (sc_kv s)"
proof -
  have "num_generated (heap s r) < gen_cap (heap s r)"
    using assms(1,2,4) sched_inv_D(3,4)[OF assms(1), of r] by (auto simp: members_def wait_ok_def run_ok_def)
  moreover have "prompt_len (heap s r) + gen_cap (heap s r) \<le> int (capacity_tokens (sc_kv s))"
    using assms(3,4) by (simp add: all_fit_def)
  ultimately show ?thesis by (simp add: num_generated_def num_tokens_def)
qed

text \<open>The queue is never left behind an empty batch, so nobody is rejected.\<close>

lemma admit_all_fills:
  assumes fil: "filling s st dec" and cfg: "serving_cfg (sc_cfg s)" and b: "running s = [] \<Longrightarrow> 0 < b" "0 \<le> b"
    and fit: "\<forall>r \<in> set (waiting s). num_tokens (heap s r) \<le> capacity_tokens (sc_kv s)"
    and ad: "admit_all now s st b = Inr (s', st', b')"
  shows "waiting s' = [] \<or> running s' \<noteq> []"
proof (cases "waiting s = [] \<or> running s \<noteq> []")
  case True
  have "set (waiting s') \<subseteq> set (waiting s)" using admit_all_grows[OF ad] by (simp add: grows_def)
  then show ?thesis using True admit_all_running[OF ad] by auto
next
  case False
  then obtain r rest where "waiting s = r # rest" by (cases "waiting s") simp_all
  moreover have "running s = []" using False by simp
  ultimately have w: "waiting s = r # rest" "running s = []" by simp_all
  have n: "num_tokens (heap s r) \<le> capacity_tokens (sc_kv s)" using fit w(1) by simp
  obtain s1 st1 b1 where one: "admit_one now s st b = Inr (True, s1, st1, b1)" "running s1 = [r]"
    using head_admitted[OF fil w(2,1) _ _ _ b(1)[OF w(2)] n, of now] cfg by (auto simp: serving_cfg_def sane_cfg_def)
  then have "admit_all now s1 st1 b1 = Inr (s', st', b')" using ad by (subst (asm) admit_all.simps) simp
  then show ?thesis using admit_all_running one(2) by fastforce
qed

lemma schedule_serves:
  assumes inv: "sched_inv s" and cfg: "serving_cfg (sc_cfg s)" and fit: "all_fit s" and sch: "schedule now s = Inr (s', st)"
  shows "serves s s'" "set (members s') = set (members s)"
proof -
  have cont: "continuous (sc_cfg s)" and sane: "sane_cfg (sc_cfg s)" using cfg by (simp_all add: serving_cfg_def)
  let ?s0 = "open_step s"
  have inv0: "sched_inv ?s0" by (rule sched_inv_frame[OF inv]) simp_all
  obtain s1 mid dec where pd: "place_decode ?s0 (split_mid ?s0) (split_decode ?s0) 0 = (s1, mid, dec)"
    by (metis prod_cases3)
  note pl = place_decode_spec[OF split_placing[OF inv0] _ _ pd]
  have P: "placing s1 mid dec" "sched_inv s1" "sc_cfg s1 = sc_cfg s" "\<forall>r \<in> set dec. slot_ready s1 r"
    using pl by (simp_all add: placing_def)
  have "\<not> is_finished (heap s r)" if "r \<in> set (running s)" for r
    using sched_inv_D(4)[OF inv that] cont by (auto simp: run_ok_def is_finished_def)
  moreover have "set (split_decode ?s0) \<subseteq> set (running ?s0)" "distinct (running ?s0)"
    using sched_inv_D(1)[OF inv] by (auto simp: split_decode_def)
  ultimately have q1: "quiet s s1" using place_decode_quiet[OF pd] quiet_trans[OF quiet_simps(3)] by simp
  have g1: "same_text s s1" "same_config (sc_kv s) (sc_kv s1)"
    using place_decode_text[OF pd] place_decode_config[OF pd] by (simp_all add: same_text_def)
  have m1: "set (members s1) = set (members s)" using q1 by (auto simp: quiet_def dest: mset_eq_setD)
  have fit1: "\<forall>r \<in> set (waiting s1). num_tokens (heap s1 r) \<le> capacity_tokens (sc_kv s1)"
  proof
    fix r assume "r \<in> set (waiting s1)"
    then have "r \<in> set (members s)" using m1 by (auto simp: members_def)
    then show "num_tokens (heap s1 r) \<le> capacity_tokens (sc_kv s1)"
      using fit_tokens[OF inv cont fit] g1 by (simp add: same_text_def num_tokens_def same_config_def capacity_tokens_def)
  qed
  have ex: "expire_waiting now s1 = s1" using cfg P(3) by (simp add: expire_waiting_def serving_cfg_def)
  obtain st0 b where bp: "build_prefill s1 empty_step (max_num_batched_tokens (sc_cfg s)) mid = (st0, b)" by fastforce
  have sub: "set mid \<subseteq> set (running s1)" "set dec \<subseteq> set (running s1)" using placing_subset[OF P(1)] by auto
  have dd: "distinct mid" "distinct dec" using P(1) sched_inv_D(1)[OF P(2)] unfolding placing_def by (metis distinct_append distinct_filter)+
  have fil0: "filling s1 empty_step dec" using P sub(2) dd(2) by (auto simp: filling_empty placing_def)
  have "r \<in> set (running s1) \<and> \<not> is_finished (heap s1 r) \<and> slot_ready s1 r \<and> num_computed (heap s1 r) < int (num_tokens (heap s1 r))"
    if m: "r \<in> set mid" for r
  proof -
    have r: "r \<in> set (running s1)" using m sub by auto
    show ?thesis using sched_inv_D(4)[OF P(2) r] m r P(1)
      by (auto simp: placing_def run_ok_def blocks_ok_def slot_ready_def prefill_done_def)
  qed
  then have B: "filling s1 st0 dec" "0 \<le> b" "mid = [] \<Longrightarrow> st0 = empty_step"
    "num_prefill_tokens st0 + b = max_num_batched_tokens (sc_cfg s)"
    using build_prefill_spec[OF fil0 bp dd(1)] P(1,3) sane by (auto simp: placing_def empty_step_def sane_cfg_def)
  from trim_decode_spec[OF B(2), of dec] obtain dec1 where
    tr: "trim_decode dec b = Inr dec1" "dec1 = take (nat b) dec" "int (length dec1) \<le> b" by blast
  have fil1: "filling (count_wait s1 (waiting s1)) st0 dec1"
  proof (rule filling_frame)
    show "filling s1 st0 dec1" by (rule filling_dec[OF B(1)]) (use tr(2) dd(2) in \<open>auto dest: in_set_takeD\<close>)
  qed (use count_wait_inv[OF P(2)] count_wait_core in simp_all)
  have empty: "0 < b - int (length dec1)" if "running s1 = []"
  proof -
    have "mid = []" "dec = []" using sub that by auto
    then show ?thesis using B(3,4) cfg tr(2) by (simp add: empty_step_def serving_cfg_def)
  qed
  obtain s3 st1 b1 where ad: "admit_all now (count_wait s1 (waiting s1)) st0 (b - int (length dec1)) = Inr (s3, st1, b1)"
    "s' = reject_head now (close_batch s3 b1) dec1"
    using sch pd bp tr(1) cont ex by (auto simp: schedule_def Let_def admission_phase_def split: sum.splits)
  have "waiting s3 = [] \<or> running s3 \<noteq> []"
    by (rule admit_all_fills[OF fil1 _ _ _ _ ad(1)])
      (use cfg P(3) empty tr(3) fit1 count_wait_core[of s1 "waiting s1"] in \<open>auto simp: core_eq_def num_tokens_def\<close>)
  then have s': "s' = close_batch s3 b1" using ad(2) by (auto simp: reject_head_def close_batch_def split: list.split)
  have q3: "quiet s1 s'"
    unfolding s' using quiet_trans[OF count_wait_quiet quiet_trans[OF admit_all_quiet[OF ad(1)]]] by (simp add: members_def)
  have "grows s1 st0 s' st1"
    unfolding s' using grows_trans[OF count_wait_grows admit_all_grows[OF ad(1)]] by (simp add: grows_def)
  then have g: "same_text s s'" "same_config (sc_kv s) (sc_kv s')"
    using same_text_trans[OF g1(1)] same_config_trans[OF g1(2)] by (simp_all add: grows_def)
  have q: "quiet s s'" by (rule quiet_trans[OF q1 q3])
  then show "serves s s'" using g same_text_grown by (intro serves_silent) (simp_all add: quiet_def)
  show "set (members s') = set (members s)" using q by (auto simp: quiet_def dest: mset_eq_setD)
qed

subsection \<open>on_step_done\<close>

lemma append_due:
  assumes run: "run_ok cont bs q" "\<not> is_finished q"
    and p: "tokens p = tokens q" "prompt_len p = prompt_len q" "params p = params q"
    and q2: "q2 = append_token now tok p" and r: "finish_check q2 tok \<noteq> Reason_None"
  shows "due q2 (finish_check q2 tok)"
proof -
  have "num_generated q < gen_cap q" "0 \<le> num_generated q" using run_ok_running[OF run] run(1) by (auto simp: run_ok_def)
  moreover have "num_generated q2 = num_generated q + 1" "gen_cap q2 = gen_cap q" "max_tokens (params q2) = max_tokens (params q)"
    "last (tokens q2) = tok"
    using p by (simp_all add: q2 append_token_def num_generated_def gen_cap_def num_tokens_def)
  ultimately show ?thesis using r by (auto simp: due_def finish_check_def gen_cap_def split: if_splits)
qed

lemma sched_apart: "applying s dn \<Longrightarrow> distinct (running s)"
  using applying_distinct by (metis distinct_append)

lemma on_slice_serves:
  assumes ap: "applying s dn" and ok: "slice_ok s sl" and k: "needs_logits sl \<Longrightarrow> k < length sampled"
    and cont: "continuous (sc_cfg s)" and os: "on_slice now sampled s k dn sl = Inr (s', k', dn')"
    and nn: "\<forall>t\<in>set sampled. 0 \<le> t"
  shows "serves s s' \<and> set (members s' @ dn') = set (members s @ dn) \<and>
    (dn' = dn \<or> dn' = dn @ [sl_seq sl] \<and> due (heap s' (sl_seq sl)) (finish (heap s' (sl_seq sl))))"
proof -
  let ?r = "sl_seq sl" and ?q = "heap s (sl_seq sl)"
  define s1 where "s1 = advance s sl"
  obtain kv bt where cc: "commit_computed (sc_kv s) (block_tab ?q) (tokens ?q) (num_computed ?q + sl_len sl) = (kv, bt)" by force
  have adv: "s1 = set_kv_table (upd_seq s ?r (\<lambda>q. q\<lparr>num_computed := num_computed q + sl_len sl\<rparr>)) ?r kv bt"
    using cc by (simp add: s1_def advance_def Let_def)
  have s1: "terminals s1 = terminals s" "waiting s1 = waiting s" "running s1 = running s" "sc_cfg s1 = sc_cfg s" "log_ext s s1"
    "same_config (sc_kv s) (sc_kv s1)" "same_text s s1" "is_finished (heap s1 ?r) = is_finished ?q"
    using commit_computed_config[OF cc] by (simp_all add: adv is_finished_def same_text_def)
  have r: "?r \<in> set (running s)" "\<not> is_finished ?q" using ok by (simp_all add: slice_ok_def Let_def)
  show ?thesis
  proof (cases "needs_logits sl")
    case False
    then have "s' = s1" "dn' = dn" using os by (simp_all add: on_slice_def Let_def s1_def)
    then show ?thesis using s1 same_text_grown by (auto simp: members_def intro: serves_silent)
  next
    case True
    define tok where "tok = sampled ! k"
    have tok: "0 \<le> tok" using nn k[OF True] by (simp add: tok_def)
    define q2 where "q2 = append_token now tok (heap s1 ?r)"
    define s3 where "s3 = (if stop_hit q2 tok then upd_seq s1 ?r (append_token now tok)
                           else fire (upd_seq s1 ?r (append_token now tok)) ?r tok Reason_None)"
    define s4 where "s4 = upd_seq s3 ?r (finish_update (\<lambda>_. finish_check q2 tok))"
    have s3: "heap s3 = (heap s1)(?r := q2)" "waiting s3 = waiting s" "running s3 = running s" "sc_cfg s3 = sc_cfg s" "sc_kv s3 = sc_kv s1"
      "terminals s3 = terminals s" "log_ext s s3"
      using s1 tok by (simp_all add: s3_def q2_def)
    have same: "tokens (heap s1 p) = tokens (heap s p)" "prompt_len (heap s1 p) = prompt_len (heap s p)"
      "params (heap s1 p) = params (heap s p)" for p using s1(7) by (simp_all add: same_text_def)
    have g2: "grown ?q q2" by (simp add: grown_def q2_def append_token_def same)
    have g3: "grown (heap s p) (heap s3 p)" "grown (heap s p) (heap s4 p)" for p
      using g2 same_text_grown[OF s1(7)] by (simp_all add: s4_def s3(1)) (simp_all add: grown_def)
    have sv: "serves s s3" "serves s (s4\<lparr>running := R\<rparr>)" for R
      using g3 s1(6) s3 by (auto simp: s4_def intro!: serves_silent)
    have "Inr (s', k', dn') = (if finish_check q2 tok = Reason_None then Inr (s3, Suc k, dn)
        else Inr (s4\<lparr>running := remove1 ?r (running s4)\<rparr>, Suc k, dn @ [?r]) :: (sched \<times> nat \<times> seq_ref list) result)"
      using on_slice_logits[OF True k[OF True] refl s1_def _ _ tok_def q2_def s3_def s4_def, of dn] os r s1 s3 cont
      by (simp add: s4_def split: if_splits)
    then consider "s' = s3" "dn' = dn" | "s' = s4\<lparr>running := remove1 ?r (running s4)\<rparr>" "dn' = dn @ [?r]"
      "finish_check q2 tok \<noteq> Reason_None" by (auto split: if_splits)
    then show ?thesis
    proof cases
      case 2
      have "set (members s' @ dn') = set (members s @ dn)"
        using 2(1,2) s3(2,3) r(1) sched_apart[OF ap] by (auto simp: members_def s4_def)
      moreover have "due q2 (finish_check q2 tok)"
        by (rule append_due[OF applying_run_ok[OF ap r(1)] r(2) _ _ _ q2_def 2(3)]) (simp_all add: same)
      then have "due (heap s' ?r) (finish (heap s' ?r))"
        using 2(1) s3(1) by (simp add: s4_def due_def num_generated_def num_tokens_def gen_cap_def stop_hit_def)
      ultimately show ?thesis using 2 sv by simp
    qed (use sv s3(2,3) in \<open>simp add: members_def\<close>)
  qed
qed

lemma on_slices_serves:
  assumes "applying s dn" "slices_ok s sls" "k + length (filter needs_logits sls) \<le> length sampled"
    "continuous (sc_cfg s)" "on_slices now sampled s k dn sls = Inr (s', k', dn')" "\<forall>t\<in>set sampled. 0 \<le> t"
    "\<forall>r\<in>set dn. due (heap s r) (finish (heap s r))"
  shows "serves s s' \<and> set (members s' @ dn') = set (members s @ dn) \<and> (\<forall>r\<in>set dn'. due (heap s' r) (finish (heap s' r)))"
  using assms
proof (induction sls arbitrary: s k dn)
  case (Cons sl sls)
  have ok: "slice_ok s sl" using Cons.prems(2) by (simp add: slices_ok_def)
  have k: "needs_logits sl \<Longrightarrow> k < length sampled" using Cons.prems(3) by simp
  from on_slice_spec[OF Cons.prems(1) ok k, of now] obtain s1 dn1 where one:
    "on_slice now sampled s k dn sl = Inr (s1, (if needs_logits sl then Suc k else k), dn1)"
    "applying s1 dn1" "sc_cfg s1 = sc_cfg s" "kv_block_size (sc_kv s1) = kv_block_size (sc_kv s)"
    "\<forall>p. p \<noteq> sl_seq sl \<longrightarrow> heap s1 p = heap s p \<and> (p \<in> set (running s1) \<longleftrightarrow> p \<in> set (running s))" by blast
  have sok: "slices_ok s1 sls" using slices_ok_tail[OF Cons.prems(2) one(5,4)] .
  note h1 = on_slice_serves[OF Cons.prems(1) ok k Cons.prems(4) one(1) Cons.prems(6)]
  have "sl_seq sl \<notin> set dn"
    using applying_distinct[OF Cons.prems(1)] ok by (auto simp: slice_ok_def Let_def)
  then have "\<forall>r\<in>set dn. heap s1 r = heap s r" using one(5) by metis
  then have due: "\<forall>r\<in>set dn1. due (heap s1 r) (finish (heap s1 r))" using h1 Cons.prems(7) by auto
  have "on_slices now sampled s1 (if needs_logits sl then Suc k else k) dn1 sls = Inr (s', k', dn')"
    using Cons.prems(5) one(1) by simp
  moreover have "(if needs_logits sl then Suc k else k) + length (filter needs_logits sls) \<le> length sampled"
    using Cons.prems(3) by auto
  ultimately have "serves s1 s' \<and> set (members s' @ dn') = set (members s1 @ dn1) \<and> (\<forall>r\<in>set dn'. due (heap s' r) (finish (heap s' r)))"
    using Cons.IH[OF one(2) sok] Cons.prems(4,6) one(3) due by simp
  then show ?case using serves_trans h1 by auto
qed simp

lemma retire_serves: "due (heap s r) reason \<Longrightarrow> serves s (retire now s r reason)"
proof -
  assume d: "due (heap s r) reason"
  define q where "q = (heap s r)\<lparr>status := Finished, finish := reason, t_finish := now, block_tab := empty_table\<rparr>"
  have h: "heap (retire now s r reason) = (heap s)(r := q)" by (simp add: q_def)
  have "events (retire now s r reason) =
      events s @ (if on_token (heap s r) then [\<lparr>cb_ref = r, cb_seq = q, cb_token = -1, cb_reason = reason\<rparr>] else [])"
    by (simp add: retire_def Let_def fire_def q_def upd_stats_def free_seq_def set_kv_table_def upd_seq_def split: prod.split)
      (simp add: free_table_def)
  moreover have "grown (heap s r) q" "due q reason"
    using d by (simp_all add: q_def grown_def due_def num_generated_def num_tokens_def gen_cap_def stop_hit_def)
  ultimately show ?thesis unfolding serves_def h by (auto simp: served_def free_table_config)
qed

lemma retire_done_serves:
  "\<forall>r\<in>set rs. due (heap s r) (finish (heap s r)) \<Longrightarrow> serves s (retire_done now s rs)"
proof (induction now s rs rule: retire_done.induct)
  case (2 now s r rs)
  let ?s1 = "retire now s r (finish (heap s r))"
  have "\<forall>p\<in>set rs. due (heap ?s1 p) (finish (heap ?s1 p))"
    using "2.prems" by (auto simp: due_def num_generated_def num_tokens_def gen_cap_def stop_hit_def)
  moreover have "due (heap s r) (finish (heap s r))" using "2.prems" by simp
  ultimately show ?case using serves_trans[OF retire_serves "2.IH"] by simp
qed simp

lemma retire_done_due:
  "members (retire_done now s rs) = members s \<and>
   (due (heap s p) (finish (heap s p)) \<longrightarrow> due (heap (retire_done now s rs) p) (finish (heap (retire_done now s rs) p)))"
proof (induction now s rs rule: retire_done.induct)
  case (2 now s r rs)
  let ?s1 = "retire now s r (finish (heap s r))"
  have "due (heap s p) (finish (heap s p)) \<Longrightarrow> due (heap ?s1 p) (finish (heap ?s1 p))"
    by (auto simp: due_def num_generated_def num_tokens_def gen_cap_def stop_hit_def)
  then show ?case using "2.IH" by (simp add: members_def)
qed simp

text \<open>Those who have left keep the reason in their record.\<close>

definition left_due :: "sched \<Rightarrow> sched \<Rightarrow> bool" where
  "left_due s s' \<longleftrightarrow> (\<forall>p \<in> set (members s) - set (members s'). due (heap s' p) (finish (heap s' p)))"

lemma left_due_trans:
  "left_due s s1 \<Longrightarrow> left_due s1 s2 \<Longrightarrow> hands s1 (members s1) s2 (members s2) \<Longrightarrow> left_due s s2"
  unfolding left_due_def hands_def by (metis DiffD1 DiffD2 DiffI)

lemma on_step_done_serves:
  assumes inv: "sched_inv s" and ok: "step_ok s st" and n: "num_logits st \<le> int (length sampled)"
    and cont: "continuous (sc_cfg s)" and os: "on_step_done now s st sampled = Inr s'"
    and nn: "\<forall>t\<in>set sampled. 0 \<le> t"
  shows "serves s s'" "left_due s s'"
proof -
  have ap: "applying s []" using inv by (simp add: applying_def sched_inv_def)
  obtain s1 k dn where sl: "on_slices now sampled s 0 [] (slices st) = Inr (s1, k, dn)"
    "s' = drain_static (retire_done now s1 dn)" using os by (auto simp: on_step_done_def split: sum.splits)
  have sls: "slices_ok s (slices st)" "0 + length (filter needs_logits (slices st)) \<le> length sampled"
    using ok n by (simp_all add: step_ok_def counters_ok_def)
  have h: "sc_cfg s1 = sc_cfg s" "applying s1 dn" using on_slices_hands[OF ap sls cont sl(1) nn] by simp_all
  have v: "serves s s1" "set (members s1 @ dn) = set (members s)" "\<forall>r\<in>set dn. due (heap s1 r) (finish (heap s1 r))"
    using on_slices_serves[OF ap sls cont sl(1) nn] by simp_all
  have "sc_cfg (retire_done now s1 dn) = sc_cfg s" using h retire_done_spec[of s1 dn now] by simp
  then have "s' = retire_done now s1 dn" using cont sl(2) by (simp add: drain_static_def)
  then have s': "s' = retire_done now s1 dn" .
  show "serves s s'" unfolding s' using v retire_done_serves serves_trans by blast
  show "left_due s s'"
    unfolding left_due_def
  proof
    fix p assume "p \<in> set (members s) - set (members s')"
    then have "p \<in> set dn" using v retire_done_due[of now s1 dn p] by (auto simp: s')
    then show "due (heap s' p) (finish (heap s' p))" using v retire_done_due[of now s1 dn p] by (auto simp: s')
  qed
qed

subsection \<open>The loop\<close>

lemma serves_fit: "serves s s' \<Longrightarrow> set (members s') \<subseteq> set (members s) \<Longrightarrow> all_fit s \<Longrightarrow> all_fit s'"
  by (fastforce simp: serves_def all_fit_def grown_def gen_cap_def same_config_def capacity_tokens_def)

text \<open>What a run has done since it began: the texts have grown, the log accounts for those who left,
  and each of them ended as it should.\<close>

definition carried :: "sched \<Rightarrow> sched \<Rightarrow> bool" where
  "carried s s' \<longleftrightarrow> serves s s' \<and> hands s (members s) s' (members s') \<and> left_due s s' \<and> all_fit s'"

lemma carried_refl: "all_fit s \<Longrightarrow> carried s s"
  by (simp add: carried_def left_due_def hands_def log_ext_def)

lemma carried_trans: "carried s s1 \<Longrightarrow> carried s1 s2 \<Longrightarrow> carried s s2"
  unfolding carried_def using serves_trans hands_trans left_due_trans by blast

lemma carried_steps: "carried s0 s \<Longrightarrow> (all_fit s \<Longrightarrow> carried s s') \<Longrightarrow> carried s0 s'"
  using carried_trans carried_def by blast

lemma schedule_carries:
  assumes "sched_inv s" "serving_cfg (sc_cfg s)" "all_fit s" "schedule now s = Inr (s', st)"
  shows "carried s s'"
proof -
  note v = schedule_serves[OF assms]
  have "hands s (members s) s' (members s')"
    using schedule_hands[OF assms(1) _ _ assms(4)] assms(2) by (simp add: serving_cfg_def)
  then show ?thesis using v serves_fit[OF v(1)] assms(3) by (simp add: carried_def left_due_def)
qed

lemma on_step_done_carries:
  assumes "sched_inv s" "step_ok s st" "num_logits st \<le> int (length sampled)" "continuous (sc_cfg s)" "all_fit s"
    "on_step_done now s st sampled = Inr s'" "\<forall>t\<in>set sampled. 0 \<le> t"
  shows "carried s s'"
proof -
  note v = on_step_done_serves[OF assms(1-4,6,7)] and h = on_step_done_hands[OF assms(1-4,6,7)]
  show ?thesis using v h serves_fit[OF v(1)] assms(5) by (simp add: carried_def hands_def)
qed

lemma run_turns_carries:
  assumes "serving_cfg cfg" "picks pick"
  shows "run_turns clk pick k n s = Inr s' \<Longrightarrow> reachable (sched_start cfg) sched_step s \<Longrightarrow> all_fit s \<Longrightarrow> carried s s'"
proof (induction n arbitrary: s k)
  case (Suc n)
  note ri = reachable_inv[OF Suc.prems(2)]
  have cfg: "serving_cfg (sc_cfg s)" "continuous (sc_cfg s)" using ri(2) assms(1) by (simp_all add: serving_cfg_def)
  show ?case
  proof (cases "has_work s")
    case True
    obtain s1 st where sch: "schedule (clk k) s = Inr (s1, st)" "step_ok s1 st" "sched_inv s1" "sc_cfg s1 = sc_cfg s"
      using schedule_spec[OF ri(1), of "clk k"] ri(2,3) by auto
    note v1 = schedule_carries[OF ri(1) cfg(1) Suc.prems(3) sch(1)]
    have f1: "all_fit s1" using v1 by (simp add: carried_def)
    show ?thesis
    proof (cases "step_empty st")
      case True
      then have "run_turns clk pick (Suc k) n s1 = Inr s'" using Suc.prems(1) sch(1) \<open>has_work s\<close> by simp
      then show ?thesis
        using Suc.IH reachable.reach_step[OF Suc.prems(2) sched_step.step_idle[OF sch(1) True]] f1 carried_trans[OF v1] by blast
    next
      case False
      have n: "int (length (pick k st)) = num_logits st" "\<forall>t \<in> set (pick k st). 0 \<le> t"
        using assms(2) sch(2) by (auto simp: picks_def step_ok_def counters_ok_def)
      obtain s2 where s2: "on_step_done (clk k) s1 st (pick k st) = Inr s2" "reachable (sched_start cfg) sched_step s2"
        using iterate_reachable[OF Suc.prems(2) sch(1) False n] by blast
      have "carried s1 s2" by (rule on_step_done_carries[OF sch(3,2) _ _ f1 s2(1) n(2)]) (use sch(4) cfg n(1) in simp_all)
      moreover have "run_turns clk pick (Suc k) n s2 = Inr s'" using Suc.prems(1) sch(1) True False s2(1) by simp
      ultimately show ?thesis using Suc.IH s2(2) carried_trans[OF v1] unfolding carried_def by (meson carried_def carried_trans)
    qed
  qed (use Suc.prems carried_refl in simp)
qed (simp add: carried_refl)

lemma told_new:
  assumes "serves s s'" "r \<notin> set (terminals s)" "r \<in> set (terminals s')"
  shows "\<exists>e \<in> set (events s'). cb_ref e = r \<and> cb_token e < 0 \<and> served (heap s r) e"
  using assms by (fastforce simp: serves_def terminals_def)

lemma served_unfold:
  "served q e \<Longrightarrow> take (num_tokens q) (tokens (cb_seq e)) = tokens q \<and>
    (cb_reason e = Length \<and> num_generated (cb_seq e) = max 1 (max_tokens (params q)) \<or>
     cb_reason e = Stop \<and> stop_hit q (last (tokens (cb_seq e))))"
  by (auto simp: served_def grown_def due_def gen_cap_def stop_hit_def num_tokens_def)



end
