(* ===== verification/Kv_Waste.thy ===== *)
theory Kv_Waste
  imports Scheduler_Served Float_Ops Json_Fields
begin

text \<open>
  The allocator benchmark of \<open>src/bench/kv_waste.cpp\<close>: the workload, the simulated allocator that
  reserves a contiguous region per request, and the run of the real scheduler against a fake model.
  The draws of the random distributions are arguments. Averages are taken in the arithmetic of
  \<open>float_ops\<close> in the order of the code. What is printed is in \<open>Kv_Waste_Tool\<close>.
\<close>

subsection \<open>The workload\<close>

record workload =
  prompt_lens :: "int list"
  output_lens :: "int list"
  mean_output :: int
  max_output :: int
  max_model_len :: int

definition clamp :: "int \<Rightarrow> int \<Rightarrow> int \<Rightarrow> int" where
  "clamp v lo hi = (if v < lo then lo else if hi < v then hi else v)"

definition draw_output :: "bool \<Rightarrow> int \<Rightarrow> int \<Rightarrow> int" where
  "draw_output fixed_output mean drawn = (if fixed_output then mean else clamp (drawn + 1) 1 (8 * mean))"

text \<open>A negative count makes \<open>reserve\<close> throw; with no request the code reads the maximum of an empty
  range, which is an error here.\<close>

definition make_workload :: "(nat \<Rightarrow> nat) \<Rightarrow> (nat \<Rightarrow> int) \<Rightarrow> int \<Rightarrow> int \<Rightarrow> bool \<Rightarrow> bool \<Rightarrow> workload result" where
  "make_workload pick drawn n mean fixed_output hol =
    (let lens = (if hol then [64, 96, 2048] else [128, 512, 1024]);
         outs = map (\<lambda>i. draw_output fixed_output mean (drawn i)) [0..<nat n] in
     if n < 0 then Inl Length_Error
     else if n = 0 then Inl (Out_Of_Range ''max_element'')
     else Inr \<lparr>prompt_lens = map (\<lambda>i. lens ! pick i) [0..<nat n], output_lens = outs, mean_output = mean,
       max_output = foldl max (outs ! 0) outs, max_model_len = 32768\<rparr>)"

subsection \<open>Contiguous reservation\<close>

record live =
  lv_reserved :: int
  lv_len :: int
  lv_remaining :: int

text \<open>The loop's variables; the requests from \<open>next\<close> on are a list of prompt and output lengths.\<close>

record 'd contig =
  ct_pending :: "(int \<times> int) list"
  ct_live :: "live list"
  ct_free :: int
  ct_util_sum :: 'd
  ct_resident_sum :: int
  ct_active_sum :: int
  ct_peak :: int
  ct_steps :: nat

definition reservation_for :: "workload \<Rightarrow> bool \<Rightarrow> int \<Rightarrow> int" where
  "reservation_for w reserve_max_model_len prompt =
    (if reserve_max_model_len then max_model_len w else prompt + max_output w)"

fun admit_live :: "(int \<Rightarrow> int) \<Rightarrow> int \<Rightarrow> (int \<times> int) list \<Rightarrow> live list \<Rightarrow> int \<Rightarrow> (int \<times> int) list \<times> live list \<times> int" where
  "admit_live need cap [] lv free = ([], lv, free)"
| "admit_live need cap ((p, out) # ps) lv free =
    (if int (length lv) < cap \<and> need p \<le> free
     then admit_live need cap ps (lv @ [\<lparr>lv_reserved = need p, lv_len = p, lv_remaining = out\<rparr>]) (free - need p)
     else ((p, out) # ps, lv, free))"

definition contig_admit :: "(int \<Rightarrow> int) \<Rightarrow> int \<Rightarrow> bool \<Rightarrow> 'd contig \<Rightarrow> 'd contig" where
  "contig_admit need cap static_batching st =
    (if \<not> static_batching \<or> ct_live st = [] then
       (case admit_live need cap (ct_pending st) (ct_live st) (ct_free st) of (ps, lv, free) \<Rightarrow>
          st\<lparr>ct_pending := ps, ct_live := lv, ct_free := free\<rparr>)
     else st)"

definition grow_live :: "live \<Rightarrow> live" where
  "grow_live l = (if 0 < lv_remaining l then l\<lparr>lv_len := lv_len l + 1, lv_remaining := lv_remaining l - 1\<rparr> else l)"

text \<open>Continuous batching releases what has finished, static batching the whole batch once all of it has.\<close>

definition release_live :: "bool \<Rightarrow> live list \<Rightarrow> live list \<times> live list" where
  "release_live static_batching lv =
    (if \<not> static_batching then (filter (\<lambda>l. lv_remaining l \<le> 0) lv, filter (\<lambda>l. \<not> lv_remaining l \<le> 0) lv)
     else if list_all (\<lambda>l. lv_remaining l \<le> 0) lv then (lv, []) else ([], lv))"

definition contig_step :: "('f, 'd) float_ops \<Rightarrow> bool \<Rightarrow> 'd contig \<Rightarrow> 'd contig" where
  "contig_step ops static_batching st =
    (let lv = ct_live st;
         allocated = sum_list (map lv_reserved lv); used = sum_list (map lv_len lv);
         active = length (filter (\<lambda>l. 0 < lv_remaining l) lv);
         (gone, kept) = release_live static_batching (map grow_live lv) in
     st\<lparr>ct_live := kept, ct_free := ct_free st + sum_list (map lv_reserved gone),
        ct_util_sum := d_add ops (ct_util_sum st) (d_div ops (d_of_rat ops (of_int used)) (d_of_rat ops (of_int allocated))),
        ct_resident_sum := ct_resident_sum st + int (length lv), ct_peak := max (ct_peak st) (int (length lv)),
        ct_active_sum := ct_active_sum st + int active, ct_steps := ct_steps st + 1\<rparr>)"

text \<open>The output tokens still to come, and a bound on the steps left.\<close>

definition live_tokens :: "live list \<Rightarrow> nat" where
  "live_tokens lv = sum_list (map (\<lambda>l. nat (lv_remaining l)) lv)"

definition pending_tokens :: "(int \<times> int) list \<Rightarrow> nat" where
  "pending_tokens ps = sum_list (map (\<lambda>(p, out). nat out) ps)"

definition steps_left :: "'d contig \<Rightarrow> nat" where
  "steps_left st = pending_tokens (ct_pending st) + length (ct_pending st) + live_tokens (ct_live st) + length (ct_live st)"

lemma token_sums [simp]:
  "live_tokens [] = 0" "live_tokens (l # lv) = nat (lv_remaining l) + live_tokens lv" "live_tokens (lv @ lv') = live_tokens lv + live_tokens lv'"
  "pending_tokens [] = 0" "pending_tokens (po # ps) = nat (snd po) + pending_tokens ps"
  by (simp_all add: live_tokens_def pending_tokens_def split: prod.split)

lemma admit_live_sums:
  "admit_live need cap ps lv free = (ps', lv', free') \<Longrightarrow>
    pending_tokens ps' + live_tokens lv' = pending_tokens ps + live_tokens lv \<and> length ps' + length lv' = length ps + length lv \<and>
    free' + sum_list (map lv_reserved lv') = free + sum_list (map lv_reserved lv) \<and>
    (int (length lv) \<le> cap \<longrightarrow> int (length lv') \<le> cap) \<and> set ps' \<subseteq> set ps"
proof (induction need cap ps lv free rule: admit_live.induct)
  case (2 need cap p out ps lv free)
  show ?case
  proof (cases "int (length lv) < cap \<and> need p \<le> free")
    case True
    then show ?thesis using 2 by auto
  qed (use 2 in auto)
qed auto

lemma grow_live_tokens:
  "live_tokens lv = live_tokens (map grow_live lv) + length (filter (\<lambda>l. 0 < lv_remaining l) lv)"
  "sum_list (map lv_reserved (map grow_live lv)) = sum_list (map lv_reserved lv)"
  by (induction lv) (auto simp: grow_live_def)

lemma release_live_sums:
  assumes "release_live static_batching lv = (gone, kept)"
  shows "live_tokens kept = live_tokens lv" "sum_list (map lv_reserved gone) + sum_list (map lv_reserved kept) = sum_list (map lv_reserved lv)"
    "length kept \<le> length lv"
proof -
  have "live_tokens (filter (\<lambda>l. \<not> lv_remaining l \<le> 0) xs) = live_tokens xs" for xs by (induction xs) auto
  moreover have "list_all (\<lambda>l. lv_remaining l \<le> 0) xs \<Longrightarrow> live_tokens xs = 0" for xs by (induction xs) auto
  moreover have "sum_list (map lv_reserved (filter P xs)) + sum_list (map lv_reserved (filter (\<lambda>l. \<not> P l) xs)) = sum_list (map lv_reserved xs)" for P xs
    by (induction xs) auto
  ultimately show "live_tokens kept = live_tokens lv" "sum_list (map lv_reserved gone) + sum_list (map lv_reserved kept) = sum_list (map lv_reserved lv)"
    "length kept \<le> length lv"
    using assms by (auto simp: release_live_def split: if_splits)
qed

text \<open>Either some request produces a token or all of them have finished and leave.\<close>

lemma contig_step_decreases:
  assumes "ct_live st \<noteq> []"
  shows "steps_left (contig_step ops static_batching st) < steps_left st"
proof -
  let ?lv = "ct_live st"
  obtain gone kept where r: "release_live static_batching (map grow_live ?lv) = (gone, kept)" by force
  note rs = release_live_sums[OF r] and g = grow_live_tokens(1)[of ?lv]
  have kept: "ct_live (contig_step ops static_batching st) = kept" "ct_pending (contig_step ops static_batching st) = ct_pending st"
    by (simp_all add: contig_step_def Let_def r)
  have "live_tokens kept + length kept < live_tokens ?lv + length ?lv"
  proof (cases "filter (\<lambda>l. 0 < lv_remaining l) ?lv = []")
    case True
    then have "list_all (\<lambda>l. lv_remaining l \<le> 0) (map grow_live ?lv)" by (auto simp: filter_empty_conv list_all_iff grow_live_def)
    then have "kept = []" using r by (auto simp: release_live_def list_all_iff split: if_splits)
    then show ?thesis using assms by simp
  next
    case False
    then have "0 < length (filter (\<lambda>l. 0 < lv_remaining l) ?lv)" by simp
    then show ?thesis using rs(1,3) g unfolding length_map by linarith
  qed
  then show ?thesis by (simp add: steps_left_def kept)
qed

lemma contig_admit_left: "steps_left (contig_admit need cap static_batching st) = steps_left st"
proof -
  obtain ps lv free where a: "admit_live need cap (ct_pending st) (ct_live st) (ct_free st) = (ps, lv, free)" by (metis prod_cases3)
  show ?thesis using admit_live_sums[OF a] by (simp add: contig_admit_def a steps_left_def)
qed

function contig_loop :: "('f, 'd) float_ops \<Rightarrow> (int \<Rightarrow> int) \<Rightarrow> int \<Rightarrow> bool \<Rightarrow> 'd contig \<Rightarrow> 'd contig" where
  "contig_loop ops need cap static_batching st =
    (if ct_pending st = [] \<and> ct_live st = [] then st
     else
       let st1 = contig_admit need cap static_batching st in
       if ct_live st1 = [] then st1
       else contig_loop ops need cap static_batching (contig_step ops static_batching st1))"
  by pat_completeness auto
termination
  by (relation "measure (\<lambda>(ops, need, cap, static_batching, st). steps_left st)")
     (simp_all add: less_le_trans[OF contig_step_decreases] contig_admit_left)

declare contig_loop.simps [simp del]

text \<open>The budget is split between the free slots and the reservations, and every output token still
  to come or already counted is accounted for.\<close>

definition contig_ok :: "int \<Rightarrow> int \<Rightarrow> int \<Rightarrow> 'd contig \<Rightarrow> bool" where
  "contig_ok budget cap toks st \<longleftrightarrow>
    ct_free st + sum_list (map lv_reserved (ct_live st)) = budget \<and> int (length (ct_live st)) \<le> max 0 cap \<and> ct_peak st \<le> max 0 cap \<and>
    ct_active_sum st + int (live_tokens (ct_live st)) + int (pending_tokens (ct_pending st)) = toks"

lemma contig_admit_ok:
  assumes "contig_ok budget cap toks st"
  shows "contig_ok budget cap toks (contig_admit need cap static_batching st) \<and>
    set (ct_pending (contig_admit need cap static_batching st)) \<subseteq> set (ct_pending st)"
proof -
  obtain ps lv free where a: "admit_live need cap (ct_pending st) (ct_live st) (ct_free st) = (ps, lv, free)" by (metis prod_cases3)
  have "int (length (ct_live st)) \<le> max 0 cap \<Longrightarrow> int (length lv) \<le> max 0 cap"
  proof (cases "int (length (ct_live st)) \<le> cap")
    case False
    assume "int (length (ct_live st)) \<le> max 0 cap"
    then have "\<not> int (length (ct_live st)) < cap" "ct_live st = []" using False by (auto simp: max_def split: if_splits)
    then have "lv = []" using a by (cases "ct_pending st") auto
    then show ?thesis by simp
  qed (use admit_live_sums[OF a] in auto)
  then show ?thesis using admit_live_sums[OF a] assms by (auto simp: contig_admit_def a contig_ok_def)
qed

lemma contig_step_ok:
  assumes "contig_ok budget cap toks st"
  shows "contig_ok budget cap toks (contig_step ops static_batching st) \<and> ct_pending (contig_step ops static_batching st) = ct_pending st"
proof -
  let ?lv = "ct_live st"
  obtain gone kept where r: "release_live static_batching (map grow_live ?lv) = (gone, kept)" by force
  have "live_tokens ?lv = live_tokens kept + length (filter (\<lambda>l. 0 < lv_remaining l) ?lv)"
    "sum_list (map lv_reserved gone) + sum_list (map lv_reserved kept) = sum_list (map lv_reserved ?lv)" "length kept \<le> length ?lv"
    using release_live_sums[OF r] grow_live_tokens[of ?lv] by simp_all
  then show ?thesis using assms by (auto simp: contig_step_def Let_def r contig_ok_def)
qed

text \<open>An idle allocator with a request that fits admits it.\<close>

lemma admit_live_grows: "admit_live need cap ps lv free = (ps', lv', free') \<Longrightarrow> length lv \<le> length lv'"
  by (induction need cap ps lv free rule: admit_live.induct) (force split: if_splits)+

lemma contig_admit_progress:
  assumes "ct_live (contig_admit need cap static_batching st) = []" "contig_ok budget cap toks st" "1 \<le> cap"
    "\<forall>(p, out) \<in> set (ct_pending st). need p \<le> budget"
  shows "ct_pending (contig_admit need cap static_batching st) = []"
proof -
  obtain ps lv free where a: "admit_live need cap (ct_pending st) (ct_live st) (ct_free st) = (ps, lv, free)" by (metis prod_cases3)
  have nil: "ct_live st = []" using admit_live_grows[OF a] assms(1) by (auto simp: contig_admit_def a split: if_splits)
  then have free: "ct_free st = budget" using assms(2) by (simp add: contig_ok_def)
  have lv: "lv = []" using assms(1) a nil by (simp add: contig_admit_def)
  show ?thesis
  proof (cases "ct_pending st")
    case (Cons po ps')
    obtain p out where po: "po = (p, out)" by force
    have "need p \<le> budget" using assms(4) Cons po by auto
    then have "admit_live need cap ps' [\<lparr>lv_reserved = need p, lv_len = p, lv_remaining = out\<rparr>] (budget - need p) = (ps, lv, free)"
      using a nil free assms(3) Cons po by simp
    from admit_live_grows[OF this] show ?thesis using lv by simp
  qed (use a nil in \<open>auto simp: contig_admit_def\<close>)
qed

lemma contig_loop_ok:
  assumes "contig_ok budget cap toks st"
  shows "contig_ok budget cap toks (contig_loop ops need cap static_batching st) \<and> ct_live (contig_loop ops need cap static_batching st) = [] \<and>
    (1 \<le> cap \<and> (\<forall>(p, out) \<in> set (ct_pending st). need p \<le> budget) \<longrightarrow> ct_pending (contig_loop ops need cap static_batching st) = [])"
  using assms
proof (induction ops need cap static_batching st rule: contig_loop.induct)
  case (1 ops need cap static_batching st)
  let ?st1 = "contig_admit need cap static_batching st" and ?st2 = "contig_step ops static_batching (contig_admit need cap static_batching st)"
  note ok1 = contig_admit_ok[OF 1(2), of need static_batching]
  note ok2 = contig_step_ok[OF conjunct1[OF ok1], of ops static_batching]
  show ?case
  proof (cases "ct_pending st = [] \<and> ct_live st = []")
    case False
    show ?thesis
    proof (cases "ct_live ?st1 = []")
      case True
      then have "contig_loop ops need cap static_batching st = ?st1" using False by (subst contig_loop.simps) (auto simp: Let_def)
      then show ?thesis using True ok1 contig_admit_progress[OF True 1(2)] by auto
    next
      case live: False
      then have "contig_loop ops need cap static_batching st = contig_loop ops need cap static_batching ?st2"
        using False by (subst contig_loop.simps) (auto simp: Let_def)
      then show ?thesis using 1(1)[OF False refl live conjunct1[OF ok2]] ok1 ok2 by auto
    qed
  qed (use 1(2) in \<open>simp add: contig_loop.simps\<close>)
qed

subsection \<open>Results\<close>

record 'd bench_result =
  slot_utilization :: 'd
  mean_resident :: 'd
  mean_active :: 'd
  peak_resident :: int
  bench_steps :: nat
  bench_preemptions :: nat
  bench_recomputed :: int
  useful_tokens :: int

definition per_step :: "('f, 'd) float_ops \<Rightarrow> 'd \<Rightarrow> nat \<Rightarrow> 'd" where
  "per_step ops x n = (if n = 0 then d_of_rat ops 0 else d_div ops x (d_of_rat ops (of_nat n)))"

definition contig_start :: "('f, 'd) float_ops \<Rightarrow> workload \<Rightarrow> int \<Rightarrow> 'd contig" where
  "contig_start ops w total_slots =
    \<lparr>ct_pending = zip (prompt_lens w) (output_lens w), ct_live = [], ct_free = total_slots, ct_util_sum = d_of_rat ops 0,
     ct_resident_sum = 0, ct_active_sum = 0, ct_peak = 0, ct_steps = 0\<rparr>"

definition run_contiguous :: "('f, 'd) float_ops \<Rightarrow> workload \<Rightarrow> int \<Rightarrow> bool \<Rightarrow> int \<Rightarrow> bool \<Rightarrow> 'd bench_result" where
  "run_contiguous ops w total_slots reserve_max_model_len cap static_batching =
    (let st = contig_loop ops (reservation_for w reserve_max_model_len) cap static_batching (contig_start ops w total_slots) in
     \<lparr>slot_utilization = per_step ops (ct_util_sum st) (ct_steps st),
      mean_resident = per_step ops (d_of_rat ops (of_int (ct_resident_sum st))) (ct_steps st),
      mean_active = per_step ops (d_of_rat ops (of_int (ct_active_sum st))) (ct_steps st),
      peak_resident = ct_peak st, bench_steps = ct_steps st, bench_preemptions = 0, bench_recomputed = 0, useful_tokens = 0\<rparr>)"

text \<open>C37: The contiguous baseline is simulated fairly: the loop ends for every workload, with every
  region returned to the budget and never more sequences resident than the limit; and when each
  request fits the budget on its own, every request is served and the active count is exactly the
  number of output tokens of the workload, under static and under continuous batching.\<close>

theorem contiguous_serves_all:
  fixes ops :: "('f, 'd) float_ops" and static_batching :: bool
  assumes "1 \<le> cap" "list_all (\<lambda>(p, out). reservation_for w reserve_max p \<le> total_slots) (zip (prompt_lens w) (output_lens w))"
  defines "r \<equiv> contig_loop ops (reservation_for w reserve_max) cap static_batching (contig_start ops w total_slots)"
  shows "ct_live r = [] \<and> ct_pending r = [] \<and> ct_free r = total_slots \<and> ct_peak r \<le> cap \<and>
    ct_active_sum r = int (pending_tokens (zip (prompt_lens w) (output_lens w)))"
proof -
  have "contig_ok total_slots cap (int (pending_tokens (zip (prompt_lens w) (output_lens w)))) (contig_start ops w total_slots)"
    by (simp add: contig_ok_def contig_start_def)
  from contig_loop_ok[OF this, of ops "reservation_for w reserve_max" static_batching, folded r_def]
  show ?thesis using assms(1,2) by (auto simp: contig_ok_def contig_start_def list_all_iff)
qed

definition demo_workload :: workload where
  "demo_workload = \<lparr>prompt_lens = [4, 8, 4], output_lens = [2, 1, 3], mean_output = 2, max_output = 3, max_model_len = 32\<rparr>"

theorem contiguous_serves_all_witness:
  "ct_active_sum (contig_loop rat_ops (reservation_for demo_workload False) 2 True (contig_start rat_ops demo_workload 16)) = 6 \<and>
   ct_free (contig_loop rat_ops (reservation_for demo_workload False) 2 True (contig_start rat_ops demo_workload 16)) = 16"
proof -
  have "list_all (\<lambda>(p, out). reservation_for demo_workload False p \<le> 16) (zip (prompt_lens demo_workload) (output_lens demo_workload))" by code_simp
  moreover have "pending_tokens (zip (prompt_lens demo_workload) (output_lens demo_workload)) = 6" by code_simp
  ultimately show ?thesis using contiguous_serves_all[where cap = 2 and w = demo_workload and reserve_max = False and total_slots = 16 and ops = rat_ops and static_batching = True] by simp
qed

text \<open>Every output length is at most the cap that a length-declaring allocator reserves.\<close>

lemma foldl_max: "x \<le> foldl max x ys \<and> (\<forall>y \<in> set ys. y \<le> foldl max x ys)" for x :: int
proof (induction ys arbitrary: x)
  case (Cons y ys)
  show ?case using Cons[of "max x y"] by auto
qed simp

lemma make_workload_ok:
  assumes "make_workload pick drawn n mean fixed_output hol = Inr w"
  shows "length (prompt_lens w) = nat n" "length (output_lens w) = nat n" "\<forall>out \<in> set (output_lens w). out \<le> max_output w"
  using assms foldl_max by (auto simp: make_workload_def Let_def split: if_splits)

subsection \<open>The run of the real scheduler\<close>

text \<open>\<open>draw i j\<close> is the token drawn for position \<open>j\<close> of request \<open>i\<close>, \<open>clk k\<close> the time of the \<open>k\<close>-th
  iteration.\<close>

definition bench_seq :: "workload \<Rightarrow> (nat \<Rightarrow> nat \<Rightarrow> token) \<Rightarrow> nat \<Rightarrow> seq" where
  "bench_seq w draw i =
    (let n = nat (prompt_lens w ! i) in
     default_seq\<lparr>seq_id := i + 1, tokens := map (draw i) [0..<n], prompt_len := int n,
       params := default_params\<lparr>max_tokens := output_lens w ! i, ignore_eos := True\<rparr>\<rparr>)"

definition add_request :: "workload \<Rightarrow> (nat \<Rightarrow> nat \<Rightarrow> token) \<Rightarrow> time_point \<Rightarrow> sched \<Rightarrow> nat \<Rightarrow> sched" where
  "add_request w draw now s i = sched_add now (s\<lparr>heap := (heap s)(i := bench_seq w draw i)\<rparr>) i"

definition paged_start :: "workload \<Rightarrow> (nat \<Rightarrow> nat \<Rightarrow> token) \<Rightarrow> int \<Rightarrow> int \<Rightarrow> sched_config \<Rightarrow> bool \<Rightarrow> time_point \<Rightarrow> sched result" where
  "paged_start w draw num_blocks block_size cfg prefix_caching now =
    (case kv_init num_blocks block_size prefix_caching of
       Inl e \<Rightarrow> Inl e
     | Inr kv \<Rightarrow> Inr (foldl (add_request w draw now) (sched_init cfg kv (\<lambda>_. default_seq)) [0..<length (prompt_lens w)]))"

record 'd paged =
  pg_sched :: sched
  pg_util_sum :: 'd
  pg_resident_sum :: int
  pg_active_sum :: int
  pg_peak :: int
  pg_steps :: nat
  pg_idle :: nat

datatype run_end = Out_Of_Fuel | Completed | Stalled

text \<open>What a stalled run prints on the error stream.\<close>

definition stall_note :: "run_end \<Rightarrow> string" where
  "stall_note e = (if e = Stalled then ''scheduler stalled with work pending'' @ [CHR 0x0A] else [])"

definition paged_sample :: "('f, 'd) float_ops \<Rightarrow> sched \<Rightarrow> step_input \<Rightarrow> 'd paged \<Rightarrow> 'd paged" where
  "paged_sample ops s1 step st =
    (let allocated = sum_list (map (\<lambda>r. int (bt_num_blocks (block_tab (heap s1 r))) * int (kv_block_size (sc_kv s1))) (running s1));
         used = sum_list (map (\<lambda>r. int (num_tokens (heap s1 r))) (running s1)) in
     st\<lparr>pg_util_sum := (if 0 < allocated
          then d_add ops (pg_util_sum st) (d_div ops (d_of_rat ops (of_int used)) (d_of_rat ops (of_int allocated))) else pg_util_sum st),
        pg_resident_sum := pg_resident_sum st + int (length (running s1)), pg_peak := max (pg_peak st) (int (length (running s1))),
        pg_active_sum := pg_active_sum st + num_decode_tokens step, pg_steps := pg_steps st + 1, pg_idle := 0\<rparr>)"

fun paged_loop :: "('f, 'd) float_ops \<Rightarrow> (nat \<Rightarrow> time_point) \<Rightarrow> nat \<Rightarrow> nat \<Rightarrow> 'd paged \<Rightarrow> ('d paged \<times> run_end) result" where
  "paged_loop ops clk k 0 st = Inr (st, Out_Of_Fuel)"
| "paged_loop ops clk k (Suc fuel) st =
    (if \<not> has_work (pg_sched st) then Inr (st, Completed)
     else
       case schedule (clk k) (pg_sched st) of
         Inl e \<Rightarrow> Inl e
       | Inr (s1, step) \<Rightarrow>
           if step_empty step then
             (if 1000 < pg_idle st + 1 then Inr (st\<lparr>pg_sched := s1, pg_idle := pg_idle st + 1\<rparr>, Stalled)
              else paged_loop ops clk (Suc k) fuel (st\<lparr>pg_sched := s1, pg_idle := pg_idle st + 1\<rparr>))
           else
             (case on_step_done (clk k) s1 step (replicate (nat (num_logits step)) 42) of
                Inl e \<Rightarrow> Inl e
              | Inr s2 \<Rightarrow> paged_loop ops clk (Suc k) fuel ((paged_sample ops s1 step st)\<lparr>pg_sched := s2\<rparr>)))"

definition run_paged ::
  "('f, 'd) float_ops \<Rightarrow> (nat \<Rightarrow> time_point) \<Rightarrow> nat \<Rightarrow> workload \<Rightarrow> (nat \<Rightarrow> nat \<Rightarrow> token) \<Rightarrow> int \<Rightarrow> int \<Rightarrow> sched_config \<Rightarrow> bool \<Rightarrow>
   ('d bench_result \<times> run_end) result" where
  "run_paged ops clk fuel w draw num_blocks block_size cfg prefix_caching =
    and_then (paged_start w draw num_blocks block_size cfg prefix_caching (clk 0)) (\<lambda>s0.
    and_then (paged_loop ops clk 1 fuel
      \<lparr>pg_sched = s0, pg_util_sum = d_of_rat ops 0, pg_resident_sum = 0, pg_active_sum = 0, pg_peak = 0, pg_steps = 0, pg_idle = 0\<rparr>) (\<lambda>(st, e).
    Inr (\<lparr>slot_utilization = per_step ops (pg_util_sum st) (pg_steps st),
          mean_resident = per_step ops (d_of_rat ops (of_int (pg_resident_sum st))) (pg_steps st),
          mean_active = per_step ops (d_of_rat ops (of_int (pg_active_sum st))) (pg_steps st),
          peak_resident = pg_peak st, bench_steps = pg_steps st,
          bench_preemptions = preemptions (sc_stats (pg_sched st)), bench_recomputed = recomputed_tokens (sc_stats (pg_sched st)),
          useful_tokens = sum_list (prompt_lens w) + sum_list (output_lens w)\<rparr>, e)))"

text \<open>Applying a step's tokens never adds a request.\<close>

lemma find_erase_length: "find_erase P xs = Some (y, ys) \<Longrightarrow> length ys \<le> length xs"
  by (induction P xs arbitrary: y ys rule: find_erase.induct) (fastforce split: if_splits option.splits)+

lemma on_slice_load: "on_slice now sampled s k dn sl = Inr (s', k', dn') \<Longrightarrow> load s' \<le> load s"
  by (auto simp: on_slice_def advance_def Let_def load_def upd_seq_def set_kv_table_def fire_def dest!: find_erase_length
      split: if_splits option.splits prod.splits)

lemma on_slices_load: "on_slices now sampled s k dn sls = Inr (s', k', dn') \<Longrightarrow> load s' \<le> load s"
proof (induction sls arbitrary: s k dn)
  case (Cons sl sls)
  then show ?case by (auto split: sum.splits dest!: on_slice_load) (meson order_trans)
qed simp

lemma retire_done_load: "load (retire_done now s rs) = load s"
  by (induction rs arbitrary: s) (simp_all add: retire_def Let_def load_def upd_seq_def free_seq_def set_kv_table_def fire_def upd_stats_def split: prod.split)

lemma on_step_done_load: "on_step_done now s st sampled = Inr s' \<Longrightarrow> load s' \<le> load s"
proof -
  have "waiting (free_members t rs) = waiting t" for t rs
    by (induction rs arbitrary: t) (simp_all add: upd_stats_def free_seq_def set_kv_table_def upd_seq_def Let_def split: prod.split)
  then have "load (drain_static t) \<le> load t" for t by (simp add: drain_static_def load_def)
  then show "on_step_done now s st sampled = Inr s' \<Longrightarrow> load s' \<le> load s"
    by (auto simp: on_step_done_def split: sum.splits dest!: on_slices_load) (metis order_trans retire_done_load)
qed

lemma add_requests:
  fixes draw :: "nat \<Rightarrow> nat \<Rightarrow> token" and now :: time_point
  assumes "sane_cfg cfg" "kv_init nb bs pc = Inr kv" "n \<le> length (prompt_lens w)" "list_all (\<lambda>p. 1 \<le> p) (prompt_lens w)"
  defines "s \<equiv> foldl (add_request w draw now) (sched_init cfg kv (\<lambda>_. default_seq)) [0..<n]"
  shows "reachable (sched_start cfg) sched_step s \<and> waiting s = [0..<n] \<and> running s = [] \<and> events s = []"
  unfolding s_def using assms(3)
proof (induction n)
  case 0
  have "sched_start cfg (sched_init cfg kv (\<lambda>_. default_seq))" using assms(1,2) unfolding sched_start_def by blast
  then show ?case by (simp add: reachable.reach_init sched_init_def)
next
  case (Suc n)
  define s where "s = foldl (add_request w draw now) (sched_init cfg kv (\<lambda>_. default_seq)) [0..<n]"
  have ih: "reachable (sched_start cfg) sched_step s" "waiting s = [0..<n]" "running s = []" "events s = []" using Suc by (auto simp: s_def)
  have "1 \<le> prompt_lens w ! n" using assms(4) Suc.prems by (simp add: list_all_length)
  then have "fresh_seq (bench_seq w draw n)" by (simp add: fresh_seq_def bench_seq_def default_seq_def Let_def)
  then have "sched_step s (add_request w draw now s n)"
    unfolding add_request_def by (intro sched_step.step_add) (use ih in \<open>simp_all add: terminals_def\<close>)
  then have "reachable (sched_start cfg) sched_step (add_request w draw now s n)" by (rule reachable.reach_step[OF ih(1)])
  moreover have "waiting (add_request w draw now s n) = [0..<Suc n]" "running (add_request w draw now s n) = []" "events (add_request w draw now s n) = []"
    using ih by (simp_all add: add_request_def sched_add_def upd_seq_def Let_def)
  ultimately show ?case by (simp add: s_def)
qed

text \<open>An idle iteration releases a request, so the count of idle iterations stays below the requests.\<close>

definition paged_ok :: "sched_config \<Rightarrow> 'd paged \<Rightarrow> bool" where
  "paged_ok cfg st \<longleftrightarrow> reachable (sched_start cfg) sched_step (pg_sched st) \<and> pg_idle st + load (pg_sched st) \<le> 1000"

lemma paged_turn:
  assumes ok: "paged_ok cfg st" and cfg: "continuous cfg" "1 \<le> max_num_batched_tokens cfg" and work: "has_work (pg_sched st)"
  obtains st2 where "\<And>fuel. paged_loop ops clk k (Suc fuel) st = paged_loop ops clk (Suc k) fuel st2" "paged_ok cfg st2"
    "(pg_sched st2, pg_sched st) \<in> closer" "\<And>s0. serving_cfg cfg \<Longrightarrow> carried s0 (pg_sched st) \<Longrightarrow> carried s0 (pg_sched st2)"
proof -
  let ?s = "pg_sched st"
  have reach: "reachable (sched_start cfg) sched_step ?s" using ok by (simp add: paged_ok_def)
  note inv = reachable_inv(1)[OF reach] and sc = reachable_inv(2,3)[OF reach]
  obtain s1 step where s1: "schedule (clk k) ?s = Inr (s1, step)" "load s1 \<le> load ?s" "\<not> step_empty step \<or> load s1 < load ?s" "step_ok s1 step"
    using schedule_spec[OF inv, of "clk k"] sc cfg work by auto
  note c = iteration_closer[OF inv _ _ _ work s1(1)]
  have v1: "carried s0 s1" if "serving_cfg cfg" "carried s0 ?s" for s0
    by (rule carried_steps[OF that(2) schedule_carries[OF inv _ _ s1(1)]]) (use that sc in simp_all)
  show ?thesis
  proof (cases "step_empty step")
    case True
    then show ?thesis
      using that[of "st\<lparr>pg_sched := s1, pg_idle := pg_idle st + 1\<rparr>"] s1 ok work c(1) sc cfg v1
        reachable.reach_step[OF reach sched_step.step_idle[OF s1(1) True]] by (simp add: paged_ok_def)
  next
    case False
    let ?toks = "replicate (nat (num_logits step)) (42 :: int)"
    have n: "int (length ?toks) = num_logits step" using s1(4) by (simp add: step_ok_def counters_ok_def)
    obtain s2 where s2: "on_step_done (clk k) s1 step ?toks = Inr s2" "reachable (sched_start cfg) sched_step s2"
      using iterate_reachable[OF reach s1(1) False n] by auto
    have v2: "carried s0 s2" if c: "serving_cfg cfg" "carried s0 ?s" for s0
      by (rule carried_steps[OF v1[OF c] on_step_done_carries[OF _ s1(4) _ _ _ s2(1)]])
        (use n sc cfg schedule_spec[OF inv, of "clk k"] s1(1) in simp_all)
    have "load s2 \<le> 1000" using on_step_done_load[OF s2(1)] s1(2) ok by (simp add: paged_ok_def)
    then show ?thesis
      using that[of "(paged_sample ops s1 step st)\<lparr>pg_sched := s2\<rparr>"] s1(1) False s2 work c(2)[OF _ _ _ False _ s2(1)] n sc cfg v2
      by (simp add: paged_ok_def paged_sample_def Let_def)
  qed
qed

lemma paged_loop_ends:
  assumes "paged_ok cfg st" "continuous cfg" "1 \<le> max_num_batched_tokens cfg"
  shows "\<exists>enough st'. \<not> has_work (pg_sched st') \<and> (\<forall>fuel. enough \<le> fuel \<longrightarrow> paged_loop ops clk k fuel st = Inr (st', Completed)) \<and>
    (serving_cfg cfg \<and> carried s0 (pg_sched st) \<longrightarrow> carried s0 (pg_sched st'))"
  using wf_inv_image[OF wf_closer, of pg_sched] assms(1)
proof (induction st arbitrary: k rule: wf_induct_rule)
  case (less st)
  show ?case
  proof (cases "has_work (pg_sched st)")
    case False
    then have "1 \<le> fuel \<longrightarrow> paged_loop ops clk k fuel st = Inr (st, Completed)" for fuel by (cases fuel) simp_all
    then show ?thesis using False by blast
  next
    case True
    obtain st2 where st2: "\<And>fuel. paged_loop ops clk k (Suc fuel) st = paged_loop ops clk (Suc k) fuel st2" "paged_ok cfg st2"
      "(pg_sched st2, pg_sched st) \<in> closer" "serving_cfg cfg \<Longrightarrow> carried s0 (pg_sched st) \<Longrightarrow> carried s0 (pg_sched st2)"
      using paged_turn[OF less.prems assms(2,3) True] by metis
    from less.IH[of st2 "Suc k"] st2(2,3) obtain enough st' where e: "\<not> has_work (pg_sched st')"
      "\<forall>fuel. enough \<le> fuel \<longrightarrow> paged_loop ops clk (Suc k) fuel st2 = Inr (st', Completed)"
      "serving_cfg cfg \<and> carried s0 (pg_sched st2) \<longrightarrow> carried s0 (pg_sched st')" by auto
    have "Suc enough \<le> fuel \<longrightarrow> paged_loop ops clk k fuel st = Inr (st', Completed)" for fuel using e(2) st2(1) by (cases fuel) auto
    then show ?thesis using e(1,3) st2(4) by blast
  qed
qed

text \<open>The benchmark drives the real scheduler to the end: for continuous batching, a positive token
  budget and at most a thousand non-empty requests, the loop returns with no work left, whatever the
  pool, the output lengths and the clock: no iteration fails an assertion and the stall report never
  fires. A thousand is the loop's own limit on idle iterations, each of which rejects one request.\<close>

theorem paged_run_sound:
  assumes "paged_start w draw nb bs cfg pc (clk 0) = Inr s0" "sane_cfg cfg" "continuous cfg" "1 \<le> max_num_batched_tokens cfg"
    "list_all (\<lambda>p. 1 \<le> p) (prompt_lens w)" "length (prompt_lens w) \<le> 1000" "pg_sched st = s0" "pg_idle st = 0"
  shows "\<exists>enough st'. \<not> has_work (pg_sched st') \<and> (\<forall>fuel. enough \<le> fuel \<longrightarrow> paged_loop ops clk 1 fuel st = Inr (st', Completed))"
proof -
  obtain kv where kv: "kv_init nb bs pc = Inr kv"
    "s0 = foldl (add_request w draw (clk 0)) (sched_init cfg kv (\<lambda>_. default_seq)) [0..<length (prompt_lens w)]"
    using assms(1) by (auto simp: paged_start_def split: sum.splits)
  note r = add_requests[OF assms(2) kv(1) order_refl assms(5), of draw "clk 0", folded kv(2)]
  have "paged_ok cfg st" using r assms(6-8) by (simp add: paged_ok_def load_def)
  then show ?thesis using paged_loop_ends[OF _ assms(3,4)] by blast
qed

definition demo_paged :: "rat paged" where
  "demo_paged = \<lparr>pg_sched = projr (paged_start demo_workload (\<lambda>i j. int j) 8 4 default_sched_config False 0), pg_util_sum = 0,
     pg_resident_sum = 0, pg_active_sum = 0, pg_peak = 0, pg_steps = 0, pg_idle = 0\<rparr>"

theorem paged_run_sound_witness:
  "\<exists>fuel st'. paged_loop rat_ops (\<lambda>_. 0) 1 fuel demo_paged = Inr (st', Completed) \<and> \<not> has_work (pg_sched st')"
proof -
  have start: "paged_start demo_workload (\<lambda>i j. int j) 8 4 default_sched_config False 0 = Inr (pg_sched demo_paged)"
    by (simp add: demo_paged_def paged_start_def kv_init_def)
  have cfg: "sane_cfg default_sched_config" "continuous default_sched_config" "1 \<le> max_num_batched_tokens default_sched_config"
    "list_all (\<lambda>p. 1 \<le> p) (prompt_lens demo_workload)" "length (prompt_lens demo_workload) \<le> 1000" by code_simp+
  have idle: "pg_idle demo_paged = 0" by (simp add: demo_paged_def)
  show ?thesis using paged_run_sound[where clk = "\<lambda>_. 0", OF start cfg refl idle, of rat_ops] by blast
qed

subsection \<open>Summaries\<close>

text \<open>The work thrown away by preemption, and one point of the memory sweep: its warnings, whether both
  runs made progress, and the preemptions and the waste without and with the watermark.\<close>

definition wasted_fraction :: "('f, 'd) float_ops \<Rightarrow> 'd bench_result \<Rightarrow> 'd" where
  "wasted_fraction ops r =
    (if bench_steps r = 0 then d_of_rat ops 0
     else d_div ops (d_of_rat ops (of_int (bench_recomputed r))) (d_of_rat ops (of_int (bench_recomputed r + useful_tokens r))))"

definition sweep_point ::
  "('f, 'd) float_ops \<Rightarrow> (sched_config \<Rightarrow> ('d bench_result \<times> run_end) result) \<Rightarrow> sched_config \<Rightarrow>
   (string \<times> bool \<times> (nat \<times> 'd) \<times> (nat \<times> 'd)) result" where
  "sweep_point ops run cfg =
    and_then (run (cfg\<lparr>watermark_blocks := 0\<rparr>)) (\<lambda>(off, e1).
    and_then (run (cfg\<lparr>watermark_blocks := -1\<rparr>)) (\<lambda>(on, e2).
    Inr (stall_note e1 @ stall_note e2, bench_steps off \<noteq> 0 \<and> bench_steps on \<noteq> 0, (bench_preemptions off, wasted_fraction ops off), (bench_preemptions on, wasted_fraction ops on))))"

text \<open>The waits of the requests with one prompt length, and the 95th percentile of the sorted list.\<close>

definition bucket_waits :: "workload \<Rightarrow> (nat \<Rightarrow> seq) \<Rightarrow> int \<Rightarrow> int list" where
  "bucket_waits w seqs bucket = sort (map (\<lambda>i. wait_steps (seqs i)) (filter (\<lambda>i. prompt_lens w ! i = bucket) [0..<length (prompt_lens w)]))"

definition p95_wait :: "int list \<Rightarrow> int" where
  "p95_wait waits = waits ! min (length waits - 1) (95 * length waits div 100)"

text \<open>The percentile is one of the waits, no larger than the longest.\<close>

lemma p95_in_range:
  assumes "waits \<noteq> []" "sorted waits"
  shows "p95_wait waits \<in> set waits \<and> p95_wait waits \<le> last waits"
proof -
  have "min (length waits - 1) (95 * length waits div 100) < length waits" using assms(1) by (intro le_less_trans[OF min.cobounded1]) simp
  then show ?thesis
    unfolding p95_wait_def last_conv_nth[OF assms(1)] using assms by (intro conjI nth_mem sorted_nth_mono) simp_all
qed

end
