(* ===== verification/Printing.thy ===== *)
theory Printing
  imports Decimal
begin

text \<open>
  What the tools share when they print: padding to a column, quoted strings, lines, and lists whose
  items are separated by commas at the end of the line; and the flags of the two command line tools
  of the repository, \<open>src/bench/kv_waste.cpp\<close> and \<open>src/src/golden_dump.cpp\<close>. The text of a floating-point number is an
  argument \<open>fix\<close> of the definitions that use it, by the number of decimals.
\<close>

definition eol :: string where
  "eol = [CHR 0x0A]"

definition quoted :: "string \<Rightarrow> string" where
  "quoted s = [CHR 0x22] @ s @ [CHR 0x22]"

text \<open>\<open>%9s\<close> and \<open>%-9s\<close>\<close>

definition pad_left :: "nat \<Rightarrow> string \<Rightarrow> string" where
  "pad_left n s = replicate (n - length s) CHR 0x20 @ s"

definition pad_right :: "nat \<Rightarrow> string \<Rightarrow> string" where
  "pad_right n s = s @ replicate (n - length s) CHR 0x20"

text \<open>A row of a table between bars, and the rule under a heading.\<close>

fun cells :: "string list \<Rightarrow> string" where
  "cells [] = ''|'' @ eol"
| "cells (c # cs) = ''| '' @ c @ '' '' @ cells cs"

fun rule_line :: "nat list \<Rightarrow> string" where
  "rule_line [] = ''|'' @ eol"
| "rule_line (n # ns) = ''|'' @ replicate n CHR ''-'' @ rule_line ns"

text \<open>\<open>i + 1 < n ? "," : ""\<close> at the end of each line.\<close>

fun comma_lines :: "string list \<Rightarrow> string" where
  "comma_lines [] = []"
| "comma_lines [x] = x @ eol"
| "comma_lines (x # y # ys) = x @ '','' @ eol @ comma_lines (y # ys)"

text \<open>\<open>"%s%d", i ? ", " : ""\<close>\<close>

fun spaced_ints :: "int list \<Rightarrow> string" where
  "spaced_ints [] = []"
| "spaced_ints [i] = dec_int i"
| "spaced_ints (i # j # js) = dec_int i @ '', '' @ spaced_ints (j # js)"

definition json_field :: "string \<Rightarrow> string \<Rightarrow> string" where
  "json_field name v = quoted name @ '': '' @ v"

fun json_fields :: "(string \<times> string) list \<Rightarrow> string" where
  "json_fields [] = []"
| "json_fields [(k, v)] = json_field k v"
| "json_fields ((k, v) # f # fs) = json_field k v @ '', '' @ json_fields (f # fs)"

definition yes_no :: "bool \<Rightarrow> string" where
  "yes_no b = (if b then ''true'' else ''false'')"

text \<open>The flags of a tool: switches, and flags that take the next argument. The unknown flag is on the
  left, the settings on the right. A value missing at the end is the null pointer behind the
  arguments in the code, and an error here.\<close>

fun parse_flags ::
  "(string \<Rightarrow> ('a \<Rightarrow> 'a) option) \<Rightarrow> (string \<Rightarrow> (string \<Rightarrow> 'a \<Rightarrow> 'a) option) \<Rightarrow> string list \<Rightarrow> 'a \<Rightarrow> (string + 'a) result" where
  "parse_flags switch valued [] a = Inr (Inr a)"
| "parse_flags switch valued (k # ks) a =
    (case switch k of
       Some put \<Rightarrow> parse_flags switch valued ks (put a)
     | None \<Rightarrow>
         (case valued k of
            None \<Rightarrow> Inr (Inl k)
          | Some put \<Rightarrow>
              (case ks of
                 [] \<Rightarrow> Inl (Out_Of_Range ''argv'')
               | v # ks' \<Rightarrow> parse_flags switch valued ks' (put v a))))"

lemma pad_length: "n \<le> length (pad_left n s)" "n \<le> length (pad_right n s)"
  by (simp_all add: pad_left_def pad_right_def)

text \<open>Padded columns keep the rows of a table aligned as long as the texts fit.\<close>

lemma cells_length: "length (cells cs) = sum_list (map (\<lambda>c. length c + 3) cs) + 2"
  by (induction cs) (simp_all add: eol_def)

lemma rule_length: "length (rule_line ns) = sum_list (map Suc ns) + 2"
  by (induction ns) (simp_all add: eol_def)

end
