(* ===== verification/Kv_Waste_Tool.thy ===== *)
theory Kv_Waste_Tool
  imports Kv_Waste Printing Scheduler_Served "HOL-Library.Signed_Division"
begin

text \<open>
  The rest of \<open>src/bench/kv_waste.cpp\<close> around the simulations of \<open>Kv_Waste\<close>: the flags, the queueing
  experiment with its check that every request ran to its length, the sweep over memory budgets, the
  tables and the JSON file. \<open>fix\<close> gives the text of a double with a number of decimals; whether
  the file can be opened is an argument. Counts are exact integers where the code has \<open>int\<close> and
  \<open>long long\<close>.
\<close>

subsection \<open>Flags\<close>

record bench_args =
  ba_requests :: int
  ba_blocks :: int
  ba_block_size :: int
  ba_output_len :: int
  ba_max_num_seqs :: int
  ba_fixed :: bool
  ba_sweep :: bool
  ba_queueing :: bool
  ba_hol :: bool
  ba_watermark :: int
  ba_json :: string

definition default_bench_args :: bench_args where
  "default_bench_args =
    \<lparr>ba_requests = 512, ba_blocks = 4096, ba_block_size = 16, ba_output_len = 128, ba_max_num_seqs = 64, ba_fixed = False,
     ba_sweep = False, ba_queueing = False, ba_hol = False, ba_watermark = -1, ba_json = ''bench/results/kv-waste.json''\<rparr>"

definition bench_switch :: "string \<Rightarrow> (bench_args \<Rightarrow> bench_args) option" where
  "bench_switch k =
    map_of
      [(''--fixed-output'', \<lambda>a. a\<lparr>ba_fixed := True\<rparr>), (''--sweep'', \<lambda>a. a\<lparr>ba_sweep := True\<rparr>),
       (''--queueing'', \<lambda>a. a\<lparr>ba_queueing := True\<rparr>), (''--hol'', \<lambda>a. a\<lparr>ba_hol := True, ba_queueing := True\<rparr>)] k"

definition bench_value :: "string \<Rightarrow> (string \<Rightarrow> bench_args \<Rightarrow> bench_args) option" where
  "bench_value k =
    map_of
      [(''--requests'', \<lambda>v a. a\<lparr>ba_requests := atoi v\<rparr>), (''--blocks'', \<lambda>v a. a\<lparr>ba_blocks := atoi v\<rparr>),
       (''--block-size'', \<lambda>v a. a\<lparr>ba_block_size := atoi v\<rparr>), (''--output-len'', \<lambda>v a. a\<lparr>ba_output_len := atoi v\<rparr>),
       (''--max-num-seqs'', \<lambda>v a. a\<lparr>ba_max_num_seqs := atoi v\<rparr>), (''--watermark'', \<lambda>v a. a\<lparr>ba_watermark := atoi v\<rparr>),
       (''--json'', \<lambda>v a. a\<lparr>ba_json := v\<rparr>)] k"

definition parse_bench :: "string list \<Rightarrow> bench_args \<Rightarrow> (string + bench_args) result" where
  "parse_bench = parse_flags bench_switch bench_value"

subsection \<open>Queueing delay\<close>

text \<open>The experiment's own run: the loop of \<open>run_paged\<close> without its sums.\<close>

definition queueing_run ::
  "('f, 'd) float_ops \<Rightarrow> (nat \<Rightarrow> time_point) \<Rightarrow> nat \<Rightarrow> workload \<Rightarrow> (nat \<Rightarrow> nat \<Rightarrow> token) \<Rightarrow> int \<Rightarrow> int \<Rightarrow> sched_config \<Rightarrow> sched result" where
  "queueing_run ops clk fuel w draw num_blocks block_size cfg =
    and_then (paged_start w draw num_blocks block_size cfg False (clk 0)) (\<lambda>s0.
    and_then (paged_loop ops clk 1 fuel
      \<lparr>pg_sched = s0, pg_util_sum = d_of_rat ops 0, pg_resident_sum = 0, pg_active_sum = 0, pg_peak = 0, pg_steps = 0, pg_idle = 0\<rparr>)
      (\<lambda>(st, e). Inr (pg_sched st)))"

text \<open>The first request that did not end at its length stops the program with exit code 1.\<close>

definition unfinished_report :: "workload \<Rightarrow> sched \<Rightarrow> string option" where
  "unfinished_report w s =
    map_option (\<lambda>i. ''queueing experiment: request '' @ digits_of (seq_id (heap s i)) @ '' ended as '' @
        finish_reason_str (finish (heap s i)) @ '', not length'' @ eol)
      (List.find (\<lambda>i. finish (heap s i) \<noteq> Length) [0..<length (prompt_lens w)])"

definition useful_work :: "workload \<Rightarrow> int" where
  "useful_work w = sum_list (map (\<lambda>(p, out). p + out) (zip (prompt_lens w) (output_lens w)))"

text \<open>\<open>std::accumulate(..., 0.0)\<close> over a count.\<close>

definition mean_of :: "('f, 'd) float_ops \<Rightarrow> int list \<Rightarrow> int \<Rightarrow> 'd" where
  "mean_of ops xs n =
    d_div ops (foldl (\<lambda>x k. d_add ops x (d_of_rat ops (of_int k))) (d_of_rat ops 0) xs) (d_of_rat ops (of_int n))"

definition queueing_row ::
  "('f, 'd) float_ops \<Rightarrow> (nat \<Rightarrow> 'd \<Rightarrow> string) \<Rightarrow> workload \<Rightarrow> sched \<Rightarrow> int \<Rightarrow> int \<Rightarrow> string" where
  "queueing_row ops fix w s lookahead bucket =
    (let waits = bucket_waits w (heap s) bucket; rec = recomputed_tokens (sc_stats s);
         wasted = d_div ops (d_of_rat ops (of_int rec)) (d_of_rat ops (of_int (rec + useful_work w))) in
     if waits = [] then []
     else cells [pad_left 9 (dec_int lookahead), pad_left 8 (dec_int bucket), pad_left 10 (fix 1 (mean_of ops waits (int (length waits)))),
            pad_left 10 (dec_int (p95_wait waits)), pad_left 9 (dec_int (last waits)),
            pad_left 8 (digits_of (preemptions (sc_stats s))), pad_left 10 (fix 1 (d_mul ops (d_of_rat ops 100) wasted)) @ ''%''])"

definition queueing_heading :: "int \<Rightarrow> int \<Rightarrow> sched_config \<Rightarrow> string" where
  "queueing_heading nb block_size cfg =
    eol @ ''queueing delay by prompt size ('' @ dec_int nb @ '' blocks = '' @ dec_int (nb * block_size) @
    '' slots, max_num_seqs '' @ dec_int (max_num_seqs cfg) @ '')'' @ eol @
    cells [pad_left 9 ''lookahead'', pad_left 8 ''prompt'', pad_left 10 ''mean wait'', pad_left 10 ''p95 wait'', pad_left 9 ''max wait'',
      pad_left 8 ''preempt'', pad_left 11 ''wasted work''] @
    rule_line [11, 10, 12, 12, 11, 10, 13]"

text \<open>The runs of the three lookaheads: what was printed, and the message of the exit if there was one.\<close>

fun queueing_rows ::
  "('f, 'd) float_ops \<Rightarrow> (nat \<Rightarrow> 'd \<Rightarrow> string) \<Rightarrow> (sched_config \<Rightarrow> sched result) \<Rightarrow> workload \<Rightarrow> sched_config \<Rightarrow> int list \<Rightarrow>
   (string \<times> string option) result" where
  "queueing_rows ops fix run w cfg [] = Inr ([], None)"
| "queueing_rows ops fix run w cfg (l # ls) =
    and_then (run (cfg\<lparr>admission_lookahead := l\<rparr>)) (\<lambda>s.
      case unfinished_report w s of
        Some msg \<Rightarrow> Inr ([], Some msg)
      | None \<Rightarrow>
          and_then (queueing_rows ops fix run w cfg ls) (\<lambda>(out, e).
            Inr (concat (map (queueing_row ops fix w s l) [64, 96, 128, 512, 1024, 2048]) @ out, e)))"

definition queueing_experiment ::
  "('f, 'd) float_ops \<Rightarrow> (nat \<Rightarrow> 'd \<Rightarrow> string) \<Rightarrow> (nat \<Rightarrow> time_point) \<Rightarrow> nat \<Rightarrow> workload \<Rightarrow> (nat \<Rightarrow> nat \<Rightarrow> token) \<Rightarrow> int \<Rightarrow> int \<Rightarrow>
   sched_config \<Rightarrow> (string \<times> string option) result" where
  "queueing_experiment ops fix clk fuel w draw nb block_size cfg =
    and_then (queueing_rows ops fix (queueing_run ops clk fuel w draw nb block_size) w cfg [1, 4, 16]) (\<lambda>(out, e).
      Inr (queueing_heading nb block_size cfg @ out, e))"

subsection \<open>Tables\<close>

definition percent :: "('f, 'd) float_ops \<Rightarrow> (nat \<Rightarrow> 'd \<Rightarrow> string) \<Rightarrow> 'd \<Rightarrow> string" where
  "percent ops fix x = fix 1 (d_mul ops (d_of_rat ops 100) x)"

definition waste_of :: "('f, 'd) float_ops \<Rightarrow> 'd bench_result \<Rightarrow> 'd" where
  "waste_of ops r = d_sub ops (d_of_rat ops 1) (slot_utilization r)"

definition print_row :: "('f, 'd) float_ops \<Rightarrow> (nat \<Rightarrow> 'd \<Rightarrow> string) \<Rightarrow> string \<times> 'd bench_result \<Rightarrow> string" where
  "print_row ops fix x =
    (case x of (strategy, r) \<Rightarrow>
     cells [pad_right 42 strategy, pad_left 9 (percent ops fix (slot_utilization r)) @ ''%'',
       pad_left 9 (percent ops fix (waste_of ops r)) @ ''%'', pad_left 8 (fix 1 (mean_resident r)), pad_left 10 (fix 1 (mean_active r)),
       pad_left 6 (dec_int (peak_resident r)), pad_left 7 (digits_of (bench_preemptions r))])"

text \<open>The rows of the sweep: the point, and its line, which differs when the pool is too small.\<close>

type_synonym 'd sweep_row = "int \<times> bool \<times> (nat \<times> 'd) \<times> (nat \<times> 'd)"

definition sweep_heading :: string where
  "sweep_heading =
    eol @ ''recompute cost against memory pressure (paged, continuous batching)'' @ eol @
    cells [pad_left 8 ''blocks'', pad_left 9 ''slots'', pad_left 18 ''no watermark'', pad_left 18 ''with watermark''] @
    cells [pad_left 8 [], pad_left 9 [], pad_left 8 ''preempt'' @ '' '' @ pad_left 9 ''wasted'',
      pad_left 8 ''preempt'' @ '' '' @ pad_left 9 ''wasted''] @
    rule_line [10, 11, 20, 20]"

definition sweep_line :: "('f, 'd) float_ops \<Rightarrow> (nat \<Rightarrow> 'd \<Rightarrow> string) \<Rightarrow> int \<Rightarrow> 'd sweep_row \<Rightarrow> string" where
  "sweep_line ops fix block_size p =
    (case p of (nb, fits, (n0, w0), (n1, w1)) \<Rightarrow>
     cells ([pad_left 8 (dec_int nb), pad_left 9 (dec_int (nb * block_size))] @
       (if fits
        then [pad_left 8 (digits_of n0) @ '' '' @ pad_left 8 (percent ops fix w0) @ ''%'',
              pad_left 8 (digits_of n1) @ '' '' @ pad_left 8 (percent ops fix w1) @ ''%'']
        else [pad_left 18 ''does not fit'', pad_left 18 ''does not fit''])))"

fun sweep_rows ::
  "('f, 'd) float_ops \<Rightarrow> (int \<Rightarrow> sched_config \<Rightarrow> ('d bench_result \<times> run_end) result) \<Rightarrow> sched_config \<Rightarrow> int list \<Rightarrow>
   (string \<times> 'd sweep_row list) result" where
  "sweep_rows ops run cfg [] = Inr ([], [])"
| "sweep_rows ops run cfg (b # bs) =
    and_then (sweep_point ops (run b) cfg) (\<lambda>(err, p).
    and_then (sweep_rows ops run cfg bs) (\<lambda>(errs, ps). Inr (err @ errs, (b, p) # ps)))"

definition sweep_pressure ::
  "('f, 'd) float_ops \<Rightarrow> (nat \<Rightarrow> 'd \<Rightarrow> string) \<Rightarrow> (int \<Rightarrow> sched_config \<Rightarrow> ('d bench_result \<times> run_end) result) \<Rightarrow> int \<Rightarrow> sched_config \<Rightarrow>
   (string \<times> string \<times> 'd sweep_row list) result" where
  "sweep_pressure ops fix run block_size cfg =
    and_then (sweep_rows ops run cfg [256, 384, 512, 768, 1024, 2048, 4096]) (\<lambda>(errs, ps).
      Inr (errs, sweep_heading @ concat (map (sweep_line ops fix block_size) ps), ps))"

subsection \<open>The JSON file\<close>

definition result_json :: "('f, 'd) float_ops \<Rightarrow> (nat \<Rightarrow> 'd \<Rightarrow> string) \<Rightarrow> string \<times> 'd bench_result \<Rightarrow> string" where
  "result_json ops fix x =
    (case x of (strategy, r) \<Rightarrow>
     ''    {'' @ json_fields
       [(''strategy'', quoted strategy), (''slot_utilization'', fix 4 (slot_utilization r)), (''kv_waste_fraction'', fix 4 (waste_of ops r)),
        (''mean_resident_seqs'', fix 2 (mean_resident r)), (''mean_active_seqs'', fix 2 (mean_active r)),
        (''peak_resident_seqs'', dec_int (peak_resident r)), (''steps'', digits_of (bench_steps r)),
        (''preemptions'', digits_of (bench_preemptions r)), (''recomputed_tokens'', dec_int (bench_recomputed r))] @ ''}'')"

definition sweep_json :: "(nat \<Rightarrow> 'd \<Rightarrow> string) \<Rightarrow> int \<Rightarrow> 'd sweep_row \<Rightarrow> string" where
  "sweep_json fix block_size p =
    (case p of (nb, fits, (n0, w0), (n1, w1)) \<Rightarrow>
     ''    {'' @ json_fields
       [(''blocks'', dec_int nb), (''kv_slots'', dec_int (nb * block_size)), (''fits'', yes_no fits),
        (''preemptions_no_watermark'', digits_of n0), (''wasted_no_watermark'', fix 4 w0),
        (''preemptions_watermark'', digits_of n1), (''wasted_watermark'', fix 4 w1)] @ ''}'')"

definition emit_json ::
  "('f, 'd) float_ops \<Rightarrow> (nat \<Rightarrow> 'd \<Rightarrow> string) \<Rightarrow> (string \<times> 'd bench_result) list \<Rightarrow> workload \<Rightarrow> int \<Rightarrow> int \<Rightarrow> 'd sweep_row list \<Rightarrow> string" where
  "emit_json ops fix rs w slots block_size sweep =
    ''{'' @ eol @ ''  '' @ quoted ''workload'' @ '': {'' @ json_fields
      [(''requests'', digits_of (length (prompt_lens w))), (''mean_output_len'', dec_int (mean_output w)),
       (''max_output_len'', dec_int (max_output w)), (''prompt_mix'', quoted ''128/512/1024 at 50/30/20''),
       (''kv_slots'', dec_int slots), (''block_size'', dec_int block_size), (''max_model_len'', dec_int (max_model_len w))] @ ''},'' @ eol @
    ''  '' @ quoted ''results'' @ '': ['' @ eol @ comma_lines (map (result_json ops fix) rs) @ ''  ]'' @
    (if sweep = [] then []
     else '','' @ eol @ ''  '' @ quoted ''pressure_sweep'' @ '': ['' @ eol @ comma_lines (map (sweep_json fix block_size) sweep) @ ''  ]'') @
    eol @ ''}'' @ eol"

subsection \<open>The tool\<close>

definition bench_config :: "bench_args \<Rightarrow> sched_config" where
  "bench_config a =
    default_sched_config\<lparr>watermark_blocks := ba_watermark a, max_num_seqs := ba_max_num_seqs a, max_num_batched_tokens := 4096,
      prefill_chunk_size := 512\<rparr>"

text \<open>The five strategies in the order of the table. \<open>run_paged\<close> names none; its caller does.\<close>

definition bench_results ::
  "('f, 'd) float_ops \<Rightarrow> (int \<Rightarrow> sched_config \<Rightarrow> ('d bench_result \<times> run_end) result) \<Rightarrow> workload \<Rightarrow> bench_args \<Rightarrow>
   (string \<times> (string \<times> 'd bench_result) list) result" where
  "bench_results ops run w a =
    (let slots = ba_blocks a * ba_block_size a; cap = ba_max_num_seqs a; cfg = bench_config a in
     and_then (run (ba_blocks a) (cfg\<lparr>continuous := False\<rparr>)) (\<lambda>(r3, e3).
     and_then (run (ba_blocks a) cfg) (\<lambda>(r4, e4).
     Inr (stall_note e3 @ stall_note e4,
         [(''contiguous (reserve max_model_len)'', run_contiguous ops w slots True cap True),
          (''contiguous (reserve prompt + max_tokens)'', run_contiguous ops w slots False cap True),
          (''contiguous (reserve prompt + max_tokens)'', run_contiguous ops w slots False cap False),
          (''paged, static batching'', r3), (''paged, continuous batching'', r4)]))))"

text \<open>\<open>std::max\<close>\<close>

definition d_max :: "('f, 'd) float_ops \<Rightarrow> 'd \<Rightarrow> 'd \<Rightarrow> 'd" where
  "d_max ops x y = (if d_ge ops y x \<and> \<not> d_ge ops x y then y else x)"

definition bench_heading :: "('f, 'd) float_ops \<Rightarrow> (nat \<Rightarrow> 'd \<Rightarrow> string) \<Rightarrow> workload \<Rightarrow> bench_args \<Rightarrow> string" where
  "bench_heading ops fix w a =
    ''workload: '' @ dec_int (ba_requests a) @ '' requests, prompts 128/512/1024 at 50/30/20 (mean '' @
    fix 0 (mean_of ops (prompt_lens w) (ba_requests a)) @ ''), outputs '' @ (if ba_fixed a then ''fixed'' else ''geometric'') @ '' (mean '' @
    fix 0 (mean_of ops (output_lens w) (ba_requests a)) @ '', max '' @ dec_int (max_output w) @ '')'' @ eol @
    ''budget:   '' @ dec_int (ba_blocks a * ba_block_size a) @ '' KV token slots ('' @ dec_int (ba_blocks a) @ '' blocks x '' @
    dec_int (ba_block_size a) @ ''), max_num_seqs '' @ dec_int (ba_max_num_seqs a) @ '', max_model_len '' @ dec_int (max_model_len w) @ eol @ eol"

definition table_heading :: string where
  "table_heading =
    cells [pad_right 42 ''strategy'', pad_left 10 ''slot util'', pad_left 10 ''KV waste'', pad_left 8 ''resident'', pad_left 10 ''decoding'',
      pad_left 6 ''peak'', pad_left 7 ''preempt''] @
    rule_line [44, 12, 12, 10, 12, 8, 9]"

text \<open>\<open>rs\<close> has the five results in their order.\<close>

definition bench_summary :: "('f, 'd) float_ops \<Rightarrow> (nat \<Rightarrow> 'd \<Rightarrow> string) \<Rightarrow> workload \<Rightarrow> int \<Rightarrow> 'd bench_result list \<Rightarrow> string" where
  "bench_summary ops fix w slots rs =
    (let naive = rs ! 0; fair = rs ! 2; static = rs ! 3; best = rs ! 4; tiny = d_of_rat ops (1 / 10 ^ 9) in
     eol @ ''slot utilization: '' @ percent ops fix (slot_utilization best) @ ''% paged vs '' @ percent ops fix (slot_utilization fair) @
     ''% contiguous with a declared cap ('' @ fix 1 (d_div ops (slot_utilization best) (d_max ops (slot_utilization fair) tiny)) @ ''x)'' @ eol @
     (if bench_steps naive = 0
      then ''reserving the full '' @ dec_int (max_model_len w) @ ''-token context does not fit a single request in '' @ dec_int slots @ '' slots'' @ eol
      else ''reserving the full '' @ dec_int (max_model_len w) @ ''-token context reaches only '' @ percent ops fix (slot_utilization naive) @
           ''% ('' @ fix 0 (d_div ops (slot_utilization best) (slot_utilization naive)) @ ''x worse)'' @ eol) @
     ''sequences decoding per step: '' @ fix 1 (mean_active best) @ '' paged+continuous vs '' @ fix 1 (mean_active static) @ '' paged+static ('' @
     fix 1 (d_div ops (mean_active best) (d_max ops (mean_active static) tiny)) @ ''x), '' @ fix 1 (mean_active fair) @ '' contiguous+continuous'' @ eol)"

text \<open>What a run leaves: the exit code, the two streams, and the file if one was written.\<close>

record bench_outcome =
  bo_exit :: int
  bo_out :: string
  bo_err :: string
  bo_file :: "(string \<times> string) option"

definition bench_main ::
  "('f, 'd) float_ops \<Rightarrow> (nat \<Rightarrow> 'd \<Rightarrow> string) \<Rightarrow> (string \<Rightarrow> bool) \<Rightarrow> (nat \<Rightarrow> time_point) \<Rightarrow> nat \<Rightarrow> (nat \<Rightarrow> nat) \<Rightarrow> (nat \<Rightarrow> int) \<Rightarrow>
   (nat \<Rightarrow> nat \<Rightarrow> token) \<Rightarrow> (nat \<Rightarrow> nat \<Rightarrow> token) \<Rightarrow> string list \<Rightarrow> bench_outcome result" where
  "bench_main ops fix opens clk fuel pick drawn draw draw2 argv =
    and_then (parse_bench argv default_bench_args) (\<lambda>x.
    case x of
      Inl k \<Rightarrow> Inr \<lparr>bo_exit = 2, bo_out = [], bo_err = ''unknown flag '' @ k @ eol, bo_file = None\<rparr>
    | Inr a \<Rightarrow>
        and_then (make_workload pick drawn (ba_requests a) (ba_output_len a) (ba_fixed a) (ba_hol a)) (\<lambda>w.
        let slots = ba_blocks a * ba_block_size a; bs = ba_block_size a; cfg = bench_config a;
            run = (\<lambda>nb c. run_paged ops clk fuel w draw nb bs c False) in
        and_then (bench_results ops run w a) (\<lambda>(errs, rs).
        and_then (if ba_sweep a then sweep_pressure ops fix run bs cfg else Inr ([], [], [])) (\<lambda>(errs', swept, points).
        and_then (if ba_queueing a
                  then queueing_experiment ops fix clk fuel w draw2 (ba_blocks a sdiv (if ba_hol a then 4 else 8)) bs cfg
                  else Inr ([], None)) (\<lambda>(queued, failed).
        let out = bench_heading ops fix w a @ table_heading @ concat (map (print_row ops fix) rs) @
                  bench_summary ops fix w slots (map snd rs) @ swept @ queued in
        case failed of
          Some msg \<Rightarrow> Inr \<lparr>bo_exit = 1, bo_out = out, bo_err = errs @ errs' @ msg, bo_file = None\<rparr>
        | None \<Rightarrow>
            if opens (ba_json a)
            then Inr \<lparr>bo_exit = 0, bo_out = out @ eol @ ''wrote '' @ ba_json a @ eol, bo_err = errs @ errs',
                      bo_file = Some (ba_json a, emit_json ops fix rs w slots bs points)\<rparr>
            else Inr \<lparr>bo_exit = 0, bo_out = out, bo_err = errs @ errs' @ ''cannot write '' @ ba_json a @ eol, bo_file = None\<rparr>)))))"

subsection \<open>The experiment runs to the end\<close>

lemma add_requests_seqs:
  "sc_kv (foldl (add_request w draw now) s0 [0..<n]) = sc_kv s0 \<and>
   (\<forall>i<n. let q = heap (foldl (add_request w draw now) s0 [0..<n]) i in
      prompt_len q = int (nat (prompt_lens w ! i)) \<and> params q = default_params\<lparr>max_tokens := output_lens w ! i, ignore_eos := True\<rparr>)"
proof (induction n)
  case (Suc n)
  then show ?case
    by (auto simp: add_request_def sched_add_def upd_seq_def bench_seq_def Let_def less_Suc_eq)
qed simp

lemma unfinished_none:
  assumes "\<And>i. i < length (prompt_lens w) \<Longrightarrow> finish (heap s i) = Length"
  shows "unfinished_report w s = None"
  using assms by (simp add: unfinished_report_def find_None_iff)

text \<open>The runs of the experiment: every request ends at its length.\<close>

lemma queueing_run_full:
  fixes ops :: "('f, 'd) float_ops"
  assumes cfg: "serving_cfg cfg" and pool: "1 \<le> nb" "1 \<le> bs" and w: "list_all (\<lambda>p. 1 \<le> p) (prompt_lens w)"
    "length (prompt_lens w) \<le> 1000" "length (output_lens w) = length (prompt_lens w)"
    and fits: "list_all (\<lambda>(p, out). p + max 1 out \<le> nb * bs) (zip (prompt_lens w) (output_lens w))"
  shows "\<exists>enough s. unfinished_report w s = None \<and> (\<forall>fuel. enough \<le> fuel \<longrightarrow> queueing_run ops clk fuel w draw nb bs cfg = Inr s)"
proof -
  obtain kv where kv: "kv_init nb bs False = Inr kv" "int (capacity_tokens kv) = nb * bs"
    using pool by (simp add: kv_init_def capacity_tokens_def)
  define n where "n = length (prompt_lens w)"
  define s0 where "s0 = foldl (add_request w draw (clk 0)) (sched_init cfg kv (\<lambda>_. default_seq)) [0..<n]"
  have start: "paged_start w draw nb bs cfg False (clk 0) = Inr s0" by (simp add: paged_start_def kv(1) s0_def n_def)
  have sane: "sane_cfg cfg" "continuous cfg" "1 \<le> max_num_batched_tokens cfg" using cfg by (simp_all add: serving_cfg_def)
  have r: "reachable (sched_start cfg) sched_step s0" "waiting s0 = [0..<n]" "running s0 = []" "load s0 = n"
    using add_requests[OF sane(1) kv(1) _ w(1), of n draw "clk 0", folded s0_def] by (simp_all add: load_def n_def)
  have q: "sc_kv s0 = kv" "\<And>i. i < n \<Longrightarrow> prompt_len (heap s0 i) = prompt_lens w ! i"
    "\<And>i. i < n \<Longrightarrow> params (heap s0 i) = default_params\<lparr>max_tokens := output_lens w ! i, ignore_eos := True\<rparr>"
    using add_requests_seqs[of w draw "clk 0" "sched_init cfg kv (\<lambda>_. default_seq)" n, folded s0_def] w(1)
    by (auto simp: Let_def n_def list_all_length sched_init_def)
  have fit0: "all_fit s0"
    unfolding all_fit_def
  proof
    fix i assume "i \<in> set (members s0)"
    then have i: "i < n" using r by (simp add: members_def)
    then have "prompt_lens w ! i + max 1 (output_lens w ! i) \<le> nb * bs"
      using fits w(3) by (simp add: list_all_length n_def)
    then show "prompt_len (heap s0 i) + gen_cap (heap s0 i) \<le> int (capacity_tokens (sc_kv s0))"
      using q i kv(2) by (simp add: gen_cap_def)
  qed
  define st :: "'d paged" where "st = \<lparr>pg_sched = s0, pg_util_sum = d_of_rat ops 0, pg_resident_sum = 0, pg_active_sum = 0,
    pg_peak = 0, pg_steps = 0, pg_idle = 0\<rparr>"
  have ok: "paged_ok cfg st" using r w(2) by (simp add: paged_ok_def st_def n_def)
  obtain enough st' where e: "\<not> has_work (pg_sched st')" "carried s0 (pg_sched st')"
    "\<And>fuel. enough \<le> fuel \<Longrightarrow> paged_loop ops clk 1 fuel st = Inr (st', Completed)"
    using paged_loop_ends[OF ok sane(2,3), of ops clk 1 s0] cfg carried_refl[OF fit0] by (auto simp: st_def)
  have "finish (heap (pg_sched st') i) = Length" if "i < n" for i
  proof -
    have "i \<in> set (members s0) - set (members (pg_sched st'))"
      using that r(2,3) e(1) by (simp add: members_def has_work_def)
    then have "due (heap (pg_sched st') i) (finish (heap (pg_sched st') i))" using e(2) by (simp add: carried_def left_due_def)
    moreover have "params (heap (pg_sched st') i) = params (heap s0 i)" using e(2) by (simp add: carried_def serves_def grown_def)
    ultimately show ?thesis using q(3)[OF that] by (auto simp: due_def stop_hit_def)
  qed
  then have "unfinished_report w (pg_sched st') = None" by (intro unfinished_none) (simp add: n_def)
  moreover have "queueing_run ops clk fuel w draw nb bs cfg = Inr (pg_sched st')" if "enough \<le> fuel" for fuel
    using e(3)[OF that] start by (simp add: queueing_run_def st_def)
  ultimately show ?thesis by blast
qed



end
