(* ===== verification/Profilers.thy ===== *)
theory Profilers
  imports Engine_Prelude
begin

text \<open>
  The two profilers: \<open>HostProfile\<close> of \<open>src/include/engine/host_profile.h\<close>, which adds up the time of
  named regions, and \<open>StepProfile\<close> of \<open>src/src/model/cuda/cuda_model.cu\<close>, which brackets the regions
  of a step with device events. Times are exact; whether an event can be created and the time
  between two events are arguments. The reports here are the numbers; \<open>Profile_Reports\<close> has the texts.
\<close>

subsection \<open>Host regions\<close>

record host_profile =
  hp_on :: bool
  hp_steps :: nat
  hp_names :: "string list"
  hp_total_ns :: "int list"

definition host_profile_new :: "string option \<Rightarrow> host_profile" where
  "host_profile_new env =
    \<lparr>hp_on = (case env of None \<Rightarrow> False | Some e \<Rightarrow> e \<noteq> [] \<and> e ! 0 \<noteq> CHR ''0''), hp_steps = 0, hp_names = [], hp_total_ns = []\<rparr>"

definition region :: "host_profile \<Rightarrow> string \<Rightarrow> host_profile \<times> nat" where
  "region p name =
    (case List.find (\<lambda>i. hp_names p ! i = name) [0..<length (hp_names p)] of
       Some i \<Rightarrow> (p, i)
     | None \<Rightarrow> (p\<lparr>hp_names := hp_names p @ [name], hp_total_ns := hp_total_ns p @ [0]\<rparr>, length (hp_names p)))"

definition add_ns :: "host_profile \<Rightarrow> int \<Rightarrow> int \<Rightarrow> host_profile" where
  "add_ns p i ns =
    (if 0 \<le> i \<and> i < int (length (hp_total_ns p)) then p\<lparr>hp_total_ns := (hp_total_ns p)[nat i := hp_total_ns p ! nat i + ns]\<rparr> else p)"

definition count_step :: "host_profile \<Rightarrow> host_profile" where
  "count_step p = p\<lparr>hp_steps := hp_steps p + 1\<rparr>"

text \<open>A scope that was entered at \<open>t0\<close> and left at \<open>t1\<close>.\<close>

definition host_scope :: "host_profile \<Rightarrow> int \<Rightarrow> int \<Rightarrow> int \<Rightarrow> host_profile" where
  "host_scope p i t0 t1 = (if hp_on p then add_ns p i (t1 - t0) else p)"

definition ms_per_step :: "host_profile \<Rightarrow> nat \<Rightarrow> rat" where
  "ms_per_step p i = of_int (hp_total_ns p ! i) / 1000000 / of_nat (hp_steps p)"

definition wall_ms_per_step :: "host_profile \<Rightarrow> rat" where
  "wall_ms_per_step p =
    (case List.find (\<lambda>i. hp_names p ! i = ''step_wall'') [0..<length (hp_names p)] of Some i \<Rightarrow> ms_per_step p i | None \<Rightarrow> 0)"

definition host_report :: "host_profile \<Rightarrow> (string \<times> rat \<times> rat) list option" where
  "host_report p =
    (if hp_steps p = 0 then None
     else
       let wall = wall_ms_per_step p in
       Some (map (\<lambda>i. (hp_names p ! i, ms_per_step p i, if 0 < wall then 100 * ms_per_step p i / wall else 0)) [0..<length (hp_names p)]))"

definition hp_inv :: "host_profile \<Rightarrow> bool" where
  "hp_inv p \<longleftrightarrow> distinct (hp_names p) \<and> length (hp_total_ns p) = length (hp_names p)"

lemma hp_inv_ops:
  "hp_inv (host_profile_new env)" "hp_inv p \<Longrightarrow> hp_inv (fst (region p name))" "hp_inv p \<Longrightarrow> hp_inv (add_ns p i ns)"
  "hp_inv p \<Longrightarrow> hp_inv (count_step p)" "hp_inv p \<Longrightarrow> hp_inv (host_scope p i t0 t1)"
  by (auto simp: hp_inv_def host_profile_new_def region_def add_ns_def count_step_def host_scope_def find_None_iff in_set_conv_nth split: option.split)

text \<open>The id of a region names it, asking again gives the same id and changes nothing, and the ids
  handed out before keep their names and times. Adding to one region leaves the others alone.\<close>

lemma region_stable:
  assumes "hp_inv p" "region p name = (p', i)"
  shows "i < length (hp_names p')" "hp_names p' ! i = name" "region p' name = (p', i)"
    "j < length (hp_names p) \<Longrightarrow> hp_names p' ! j = hp_names p ! j \<and> hp_total_ns p' ! j = hp_total_ns p ! j"
proof -
  have i: "i < length (hp_names p')" "hp_names p' ! i = name" "\<forall>k<i. hp_names p' ! k \<noteq> name"
    using assms by (auto simp: region_def find_Some_iff find_None_iff nth_append split: option.splits)
  then have "List.find (\<lambda>k. hp_names p' ! k = name) [0..<length (hp_names p')] = Some i"
    unfolding find_Some_iff by (intro exI[of _ i]) simp
  then show "i < length (hp_names p')" "hp_names p' ! i = name" "region p' name = (p', i)"
    using i by (simp_all add: region_def)
  show "j < length (hp_names p) \<Longrightarrow> hp_names p' ! j = hp_names p ! j \<and> hp_total_ns p' ! j = hp_total_ns p ! j"
    using assms by (auto simp: region_def hp_inv_def nth_append split: option.splits)
qed

lemma add_ns_exact:
  assumes "hp_inv p" "i < length (hp_names p)" "j < length (hp_names p)"
  shows "hp_total_ns (add_ns p (int i) ns) ! j = hp_total_ns p ! j + (if i = j then ns else 0)"
  using assms by (simp add: add_ns_def hp_inv_def nth_list_update)

subsection \<open>Device events\<close>

text \<open>The events are numbered; \<open>sp_pool\<close> is how many exist.\<close>

record step_profile =
  sp_on :: bool
  sp_open :: nat
  sp_start :: nat
  sp_next :: nat
  sp_steps :: nat
  sp_pool :: nat
  sp_spans :: "(nat \<times> nat \<times> nat) list"
  sp_total_ms :: "rat list"

definition step_profile_new :: "string option \<Rightarrow> step_profile" where
  "step_profile_new env =
    \<lparr>sp_on = (case env of None \<Rightarrow> False | Some e \<Rightarrow> e \<noteq> [] \<and> e ! 0 \<noteq> CHR ''0''), sp_open = 0, sp_start = 0, sp_next = 0,
     sp_steps = 0, sp_pool = 0, sp_spans = [], sp_total_ms = replicate 8 0\<rparr>"

text \<open>\<open>created\<close> is whether the device gives another event when it is asked.\<close>

definition mark :: "bool \<Rightarrow> step_profile \<Rightarrow> step_profile \<times> nat" where
  "mark created p =
    (if sp_next p = sp_pool p \<and> \<not> created then (p, sp_next p)
     else (p\<lparr>sp_pool := (if sp_next p = sp_pool p then sp_pool p + 1 else sp_pool p), sp_next := sp_next p + 1\<rparr>, sp_next p))"

definition begin_region :: "bool \<Rightarrow> step_profile \<Rightarrow> nat \<Rightarrow> step_profile" where
  "begin_region created p r =
    (if sp_on p then (case mark created (p\<lparr>sp_open := r\<rparr>) of (p', a) \<Rightarrow> p'\<lparr>sp_start := a\<rparr>) else p)"

definition end_region :: "bool \<Rightarrow> step_profile \<Rightarrow> step_profile" where
  "end_region created p =
    (if sp_on p then (case mark created p of (p', b) \<Rightarrow> p'\<lparr>sp_spans := sp_spans p' @ [(sp_open p', sp_start p', b)]\<rparr>) else p)"

text \<open>\<open>elapsed a b\<close> is the time between two events, if the device can tell.\<close>

definition add_span :: "(nat \<Rightarrow> nat \<Rightarrow> rat option) \<Rightarrow> nat \<Rightarrow> rat list \<Rightarrow> nat \<times> nat \<times> nat \<Rightarrow> rat list" where
  "add_span elapsed pool totals sp =
    (case sp of (r, a, b) \<Rightarrow>
     if pool \<le> a \<or> pool \<le> b then totals
     else case elapsed a b of None \<Rightarrow> totals | Some ms \<Rightarrow> totals[r := totals ! r + ms])"

definition flush :: "(nat \<Rightarrow> nat \<Rightarrow> rat option) \<Rightarrow> step_profile \<Rightarrow> step_profile" where
  "flush elapsed p =
    (if sp_on p
     then p\<lparr>sp_total_ms := foldl (add_span elapsed (sp_pool p)) (sp_total_ms p) (sp_spans p), sp_spans := [], sp_next := 0, sp_steps := sp_steps p + 1\<rparr>
     else p)"

definition device_report :: "step_profile \<Rightarrow> (rat \<times> rat) list option" where
  "device_report p =
    (let s = sum_list (sp_total_ms p) in
     if sp_steps p = 0 \<or> s \<le> 0 then None
     else Some (map (\<lambda>t. (t / of_nat (sp_steps p), 100 * t / s)) (sp_total_ms p)))"

text \<open>The event that is recorded always exists, every span names a region, and the totals keep one
  entry per region.\<close>

definition sp_inv :: "step_profile \<Rightarrow> bool" where
  "sp_inv p \<longleftrightarrow> sp_next p \<le> sp_pool p \<and> length (sp_total_ms p) = 8 \<and> sp_open p < 8 \<and> (\<forall>(r, a, b) \<in> set (sp_spans p). r < 8)"

lemma add_span_length: "length (foldl (add_span elapsed pool) totals sps) = length totals"
  by (induction sps arbitrary: totals) (auto simp: add_span_def split: prod.split option.split)

lemma sp_inv_ops:
  "sp_inv (step_profile_new env)" "sp_inv p \<Longrightarrow> r < 8 \<Longrightarrow> sp_inv (begin_region created p r)" "sp_inv p \<Longrightarrow> sp_inv (end_region created p)"
  "sp_inv p \<Longrightarrow> sp_inv (flush elapsed p)"
  by (auto simp: sp_inv_def step_profile_new_def begin_region_def end_region_def mark_def flush_def add_span_length split: if_splits)

lemma mark_in_pool: "sp_inv p \<Longrightarrow> mark created p = (p', a) \<Longrightarrow> sp_next p' \<noteq> sp_next p \<Longrightarrow> a < sp_pool p'"
  by (auto simp: sp_inv_def mark_def split: if_splits)

text \<open>The shares of the report add up to one hundred.\<close>

lemma device_report_shares:
  assumes "device_report p = Some rows"
  shows "sum_list (map snd rows) = 100"
proof -
  let ?s = "sum_list (sp_total_ms p)"
  have s: "0 < ?s" "rows = map (\<lambda>t. (t / of_nat (sp_steps p), 100 * t / ?s)) (sp_total_ms p)"
    using assms by (auto simp: device_report_def Let_def split: if_splits)
  have "sum_list (map (\<lambda>t. 100 * t / ?s) ts) = 100 * sum_list ts / ?s" for ts by (induction ts) (simp_all add: add_divide_distrib distrib_left)
  then show ?thesis using s by (simp add: comp_def)
qed

end
