(* ===== verification/Profile_Reports.thy ===== *)
theory Profile_Reports
  imports Profilers Printing
begin

text \<open>
  The texts the two profilers leave when they are destroyed: the table on the standard output and the
  JSON file of \<open>HostProfile::report\<close> (\<open>src/include/engine/host_profile.h\<close>) and of
  \<open>StepProfile::report\<close> (\<open>src/src/model/cuda/cuda_model.cu\<close>), from the figures of \<open>Profilers\<close>. \<open>fix\<close>
  is the text of a number by its decimals; the environment variable and whether a path can be
  opened are arguments.
\<close>

text \<open>What a report leaves: the standard output, and the file with its path.\<close>

type_synonym report_text = "string \<times> (string \<times> string) option"

definition report_path :: "string \<Rightarrow> string option \<Rightarrow> string" where
  "report_path fallback env = (case env of None \<Rightarrow> fallback | Some p \<Rightarrow> if p = [] then fallback else p)"

subsection \<open>Host regions\<close>

definition host_row :: "(nat \<Rightarrow> rat \<Rightarrow> string) \<Rightarrow> rat \<Rightarrow> string \<times> rat \<times> rat \<Rightarrow> string" where
  "host_row fix wall x =
    (case x of (name, ms, share) \<Rightarrow>
     pad_right 20 name @ '' '' @ pad_left 10 (fix 3 ms) @ '' '' @
     (if 0 < wall then pad_left 7 (fix 1 share) @ ''%'' else pad_left 8 ''-'') @ eol)"

definition host_table :: "(nat \<Rightarrow> rat \<Rightarrow> string) \<Rightarrow> host_profile \<Rightarrow> (string \<times> rat \<times> rat) list \<Rightarrow> string" where
  "host_table fix p rows =
    eol @ ''per-step host cost over '' @ digits_of (hp_steps p) @ '' steps (steady_clock, step thread)'' @ eol @
    pad_right 20 ''region'' @ '' '' @ pad_left 10 ''ms/step'' @ '' '' @ pad_left 8 ''of step'' @ eol @
    concat (map (host_row fix (wall_ms_per_step p)) rows) @
    (if 0 < wall_ms_per_step p
     then eol @ ''step_wall is the whole step: scheduling, forward, sampling and bookkeeping.'' @ eol @
          ''Subtract the device total in kernel-time.json from it to see what is left.'' @ eol
     else [])"

definition host_json :: "(nat \<Rightarrow> rat \<Rightarrow> string) \<Rightarrow> host_profile \<Rightarrow> (string \<times> rat \<times> rat) list \<Rightarrow> string" where
  "host_json fix p rows =
    ''{'' @ eol @ ''  '' @ json_field ''steps'' (digits_of (hp_steps p)) @ '','' @ eol @
    ''  '' @ json_field ''regions'' ''['' @ eol @
    comma_lines (map (\<lambda>(name, ms, share). ''    {'' @
      json_fields [(''region'', quoted name), (''ms_per_step'', fix 6 ms), (''share_of_step_pct'', fix 3 share)] @ ''}'') rows) @
    ''  ],'' @ eol @ ''  '' @ json_field ''wall_ms_per_step'' (fix 6 (wall_ms_per_step p)) @ eol @ ''}'' @ eol"

text \<open>The destructor reports when profiling is on; without a step it prints nothing.\<close>

definition host_goodbye :: "(nat \<Rightarrow> rat \<Rightarrow> string) \<Rightarrow> string option \<Rightarrow> (string \<Rightarrow> bool) \<Rightarrow> host_profile \<Rightarrow> report_text" where
  "host_goodbye fix env opens p =
    (let path = report_path ''bench/results/host-time.json'' env in
     case (if hp_on p then host_report p else None) of
       None \<Rightarrow> ([], None)
     | Some rows \<Rightarrow> (host_table fix p rows, if opens path then Some (path, host_json fix p rows) else None))"

subsection \<open>Device regions\<close>

definition region_names :: "string list" where
  "region_names =
    [''embedding'', ''rmsnorm'', ''qkv_proj'', ''rope+store_kv'', ''attention'', ''o_proj+residual'', ''mlp'', ''head'']"

definition device_total :: "step_profile \<Rightarrow> rat" where
  "device_total p = sum_list (sp_total_ms p) / of_nat (sp_steps p)"

definition device_table :: "(nat \<Rightarrow> rat \<Rightarrow> string) \<Rightarrow> step_profile \<Rightarrow> (rat \<times> rat) list \<Rightarrow> string" where
  "device_table fix p rows =
    eol @ ''per-step cost over '' @ digits_of (sp_steps p) @ '' steps (CUDA events, default stream)'' @ eol @
    pad_right 18 ''region'' @ '' '' @ pad_left 10 ''ms/step'' @ '' '' @ pad_left 8 ''share'' @ eol @
    concat (map (\<lambda>(name, ms, share).
      pad_right 18 name @ '' '' @ pad_left 10 (fix 3 ms) @ '' '' @ pad_left 7 (fix 1 share) @ ''%'' @ eol) (zip region_names rows)) @
    pad_right 18 ''total on device'' @ '' '' @ pad_left 10 (fix 3 (device_total p)) @ eol"

definition device_json :: "(nat \<Rightarrow> rat \<Rightarrow> string) \<Rightarrow> step_profile \<Rightarrow> (rat \<times> rat) list \<Rightarrow> string" where
  "device_json fix p rows =
    ''{'' @ eol @ ''  '' @ json_field ''steps'' (digits_of (sp_steps p)) @ '','' @ eol @
    ''  '' @ json_field ''regions'' ''['' @ eol @
    comma_lines (map (\<lambda>(name, ms, share). ''    {'' @
      json_fields [(''region'', quoted name), (''ms_per_step'', fix 6 ms), (''share_pct'', fix 3 share)] @ ''}'') (zip region_names rows)) @
    ''  ],'' @ eol @ ''  '' @ json_field ''device_ms_per_step'' (fix 6 (device_total p)) @ eol @ ''}'' @ eol"

definition device_goodbye :: "(nat \<Rightarrow> rat \<Rightarrow> string) \<Rightarrow> string option \<Rightarrow> (string \<Rightarrow> bool) \<Rightarrow> step_profile \<Rightarrow> report_text" where
  "device_goodbye fix env opens p =
    (let path = report_path ''bench/results/kernel-time.json'' env in
     case (if sp_on p then device_report p else None) of
       None \<Rightarrow> ([], None)
     | Some rows \<Rightarrow> (device_table fix p rows, if opens path then Some (path, device_json fix p rows) else None))"

text \<open>A region of the pass: the constructor and the destructor of \<open>ProfScope\<close> around its calls.\<close>

definition prof_scope :: "bool \<Rightarrow> bool \<Rightarrow> nat \<Rightarrow> (step_profile \<Rightarrow> step_profile) \<Rightarrow> step_profile \<Rightarrow> step_profile" where
  "prof_scope created created' r body p = end_region created' (body (begin_region created p r))"

text \<open>Off, a profiler leaves nothing and a scope changes nothing.\<close>

lemma profile_off_silent:
  "\<not> hp_on p \<Longrightarrow> host_goodbye fix env opens p = ([], None)"
  "\<not> sp_on d \<Longrightarrow> device_goodbye fix env opens d = ([], None)"
  "\<not> sp_on d \<Longrightarrow> prof_scope c c' r (\<lambda>p. p) d = d"
  by (simp_all add: host_goodbye_def device_goodbye_def prof_scope_def begin_region_def end_region_def)

text \<open>The table has one row per region: with the invariant of the profiler, no name and no total is cut
  off by the other.\<close>

lemma device_rows_complete:
  assumes "sp_inv p" "device_report p = Some rows"
  shows "map fst (zip region_names rows) = region_names" "map snd (zip region_names rows) = rows"
  using assms by (auto simp: device_report_def Let_def sp_inv_def region_names_def split: if_splits)

text \<open>A scope that opens its region and closes it adds exactly one span of that region.\<close>

lemma prof_scope_span:
  assumes "sp_on p"
  shows "\<exists>a b. sp_spans (prof_scope c c' r (\<lambda>p. p) p) = sp_spans p @ [(r, a, b)]"
  using assms by (auto simp: prof_scope_def begin_region_def end_region_def mark_def)

end
