(* ===== verification/Golden_Dump.thy ===== *)
theory Golden_Dump
  imports Cpu_Model Printing
begin

text \<open>
  The tensors a forward pass hands to the test hook (\<open>Tap\<close> and \<open>TapData\<close> of
  \<open>src/include/engine/model.h\<close>, the calls in \<open>src/src/model/cpu/cpu_model.cpp\<close>) and the tool that
  writes them to files, \<open>src/src/golden_dump.cpp\<close>. A file is its list of bytes; whether a path can
  be opened is an argument, and \<open>bits\<close> gives the bit pattern of a float.
\<close>

subsection \<open>Taps\<close>

datatype tap = Embedding | Input_Norm | Qkv_Proj | Rope | Attn_Out | Attn_Residual | Post_Norm | Silu_Mul | Layer_Out | Logits

fun tap_name :: "tap \<Rightarrow> string" where
  "tap_name Embedding = ''embedding''"
| "tap_name Input_Norm = ''input_norm''"
| "tap_name Qkv_Proj = ''qkv_proj''"
| "tap_name Rope = ''rope''"
| "tap_name Attn_Out = ''attn_out''"
| "tap_name Attn_Residual = ''attn_residual''"
| "tap_name Post_Norm = ''post_norm''"
| "tap_name Silu_Mul = ''silu_mul''"
| "tap_name Layer_Out = ''layer_out''"
| "tap_name Logits = ''logits''"

record 'f tap_data =
  td_tap :: tap
  td_layer :: int
  td_rows :: nat
  td_cols :: nat
  td_data :: "'f list"
  td_second :: "'f list option"
  td_third :: "'f list option"
  td_second_cols :: nat
  td_third_cols :: nat

definition single_tap :: "tap \<Rightarrow> int \<Rightarrow> nat \<Rightarrow> nat \<Rightarrow> 'f list \<Rightarrow> 'f tap_data" where
  "single_tap t l rows cols xs =
    \<lparr>td_tap = t, td_layer = l, td_rows = rows, td_cols = cols, td_data = xs, td_second = None, td_third = None,
     td_second_cols = 0, td_third_cols = 0\<rparr>"

text \<open>The taps of one layer, in the order of the calls.\<close>

definition layer_taps :: "('f, 'd) float_ops \<Rightarrow> (seq_ref \<Rightarrow> seq) \<Rightarrow> nat \<Rightarrow> packed_token list \<Rightarrow> nat \<Rightarrow> 'f cpu_model \<times> 'f list \<Rightarrow> 'f tap_data list" where
  "layer_taps ops hp bs ts l st =
    (case st of (m, x) \<Rightarrow>
     let cfg = cm_cfg m; L = w_layers (cm_weights m) ! l; n = length ts; H = nat (hidden_size cfg); I = nat (intermediate_size cfg);
         kvd = cm_kv_dim m; h = layer_h ops m n l x;
         (kc, vc) = layer_caches ops hp bs m ts l x;
         attn = attention_rows ops m hp bs (layer_q ops m ts l x) kc vc ts;
         x1 = add_into ops x (linear ops attn n H (wo L) H None);
         h1 = rmsnorm ops x1 (post_norm L) n H (rms_norm_eps cfg);
         gate = silu_mul ops (linear ops h1 n H (wgate L) I None) (linear ops h1 n H (wup L) I None) in
     [single_tap Input_Norm (int l) n H h,
      \<lparr>td_tap = Qkv_Proj, td_layer = int l, td_rows = n, td_cols = H, td_data = linear ops h n H (wq L) H (bias_of (bq L)),
       td_second = Some (linear ops h n H (wk L) kvd (bias_of (bk L))), td_third = Some (linear ops h n H (wv L) kvd (bias_of (bv L))),
       td_second_cols = kvd, td_third_cols = kvd\<rparr>,
      \<lparr>td_tap = Rope, td_layer = int l, td_rows = n, td_cols = H, td_data = layer_q ops m ts l x, td_second = Some (layer_k ops m ts l x),
       td_third = None, td_second_cols = kvd, td_third_cols = 0\<rparr>,
      single_tap Attn_Out (int l) n H attn, single_tap Attn_Residual (int l) n H x1, single_tap Post_Norm (int l) n H h1,
      single_tap Silu_Mul (int l) n I gate, single_tap Layer_Out (int l) n H (layer_out ops m n l x attn)])"

fun layers_taps :: "('f, 'd) float_ops \<Rightarrow> (seq_ref \<Rightarrow> seq) \<Rightarrow> nat \<Rightarrow> packed_token list \<Rightarrow> nat list \<Rightarrow> 'f cpu_model \<times> 'f list \<Rightarrow> 'f tap_data list" where
  "layers_taps ops hp bs ts [] st = []"
| "layers_taps ops hp bs ts (l # ls) st = layer_taps ops hp bs ts l st @ layers_taps ops hp bs ts ls (forward_layer ops hp bs ts l st)"

text \<open>All taps of a forward pass; the ones outside a layer have layer \<open>-1\<close>.\<close>

definition forward_taps :: "('f, 'd) float_ops \<Rightarrow> (seq_ref \<Rightarrow> seq) \<Rightarrow> nat \<Rightarrow> step_input \<Rightarrow> 'f cpu_model \<Rightarrow> 'f tap_data list" where
  "forward_taps ops hp bs st m =
    (if slices st = [] then []
     else case pack hp (slices st) ([], []) of (ts, rows) \<Rightarrow>
       let H = nat (hidden_size (cm_cfg m)) in
       single_tap Embedding (-1) (length ts) H (embed m H ts) #
       layers_taps ops hp bs ts [0..<nat (num_hidden_layers (cm_cfg m))] (m, embed m H ts) @
       (if rows = [] then []
        else [single_tap Logits (-1) (length rows) (nat (vocab (cm_cfg m))) (snd (forward ops hp bs st m))]))"

text \<open>The last tap of a layer is the residual stream the next layer starts from.\<close>

lemma layer_taps_last: "last (layer_taps ops hp bs ts l st) = single_tap Layer_Out (int l) (length ts) (nat (hidden_size (cm_cfg (fst st)))) (snd (forward_layer ops hp bs ts l st))"
  by (cases st) (simp add: layer_taps_def forward_layer_parts Let_def split: prod.split)

text \<open>The hook \<open>on_layer\<close> sees the embedding and every layer's output, in order; those are the taps of
  these names.\<close>

fun layers_seen :: "('f, 'd) float_ops \<Rightarrow> (seq_ref \<Rightarrow> seq) \<Rightarrow> nat \<Rightarrow> packed_token list \<Rightarrow> nat list \<Rightarrow> 'f cpu_model \<times> 'f list \<Rightarrow> (int \<times> 'f list) list" where
  "layers_seen ops hp bs ts [] st = []"
| "layers_seen ops hp bs ts (l # ls) st =
    (let st' = forward_layer ops hp bs ts l st in (int l, snd st') # layers_seen ops hp bs ts ls st')"

definition forward_seen :: "('f, 'd) float_ops \<Rightarrow> (seq_ref \<Rightarrow> seq) \<Rightarrow> nat \<Rightarrow> step_input \<Rightarrow> 'f cpu_model \<Rightarrow> (int \<times> 'f list) list" where
  "forward_seen ops hp bs st m =
    (if slices st = [] then []
     else case pack hp (slices st) ([], []) of (ts, rows) \<Rightarrow>
       let x = embed m (nat (hidden_size (cm_cfg m))) ts in
       (-1, x) # layers_seen ops hp bs ts [0..<nat (num_hidden_layers (cm_cfg m))] (m, x))"

definition residual :: "'f tap_data \<Rightarrow> bool" where
  "residual d \<longleftrightarrow> td_tap d = Embedding \<or> td_tap d = Layer_Out"

lemma layer_taps_residual:
  "map (\<lambda>d. (td_layer d, td_data d)) (filter residual (layer_taps ops hp bs ts l st)) = [(int l, snd (forward_layer ops hp bs ts l st))]"
  by (cases st) (simp add: layer_taps_def forward_layer_parts Let_def residual_def single_tap_def split: prod.split)

lemma layers_taps_residual:
  "map (\<lambda>d. (td_layer d, td_data d)) (filter residual (layers_taps ops hp bs ts ls st)) = layers_seen ops hp bs ts ls st"
  by (induction ls arbitrary: st) (simp_all add: layer_taps_residual Let_def)

lemma forward_seen_taps:
  "forward_seen ops hp bs st m = map (\<lambda>d. (td_layer d, td_data d)) (filter residual (forward_taps ops hp bs st m))"
  by (simp add: forward_seen_def forward_taps_def Let_def layers_taps_residual residual_def single_tap_def split: prod.split)

subsection \<open>The files\<close>

text \<open>A 32-bit word as the machine stores it.\<close>

definition put_u32 :: "u32 \<Rightarrow> byte list" where
  "put_u32 w = [ucast w, ucast (drop_bit 8 w), ucast (drop_bit 16 w), ucast (drop_bit 24 w)]"

definition tap_words :: "('f \<Rightarrow> u32) \<Rightarrow> 'f tap_data \<Rightarrow> u32 list" where
  "tap_words bits d =
    [of_nat (td_rows d), of_nat (td_cols d),
     (case td_second d of None \<Rightarrow> 0 | Some _ \<Rightarrow> of_nat (td_second_cols d)), (case td_third d of None \<Rightarrow> 0 | Some _ \<Rightarrow> of_nat (td_third_cols d))] @
    map bits (take (td_rows d * td_cols d) (td_data d)) @
    (case td_second d of None \<Rightarrow> [] | Some xs \<Rightarrow> map bits (take (td_rows d * td_second_cols d) xs)) @
    (case td_third d of None \<Rightarrow> [] | Some xs \<Rightarrow> map bits (take (td_rows d * td_third_cols d) xs))"

definition tap_bytes :: "('f \<Rightarrow> u32) \<Rightarrow> 'f tap_data \<Rightarrow> byte list" where
  "tap_bytes bits d = concat (map put_u32 (tap_words bits d))"

text \<open>The path and the entry of the manifest go through buffers of 512 and 256 characters.\<close>

definition tap_path :: "string \<Rightarrow> 'f tap_data \<Rightarrow> string" where
  "tap_path dir d = take 511 (dir @ ''/'' @ tap_name (td_tap d) @ ''.L'' @ dec_int (td_layer d) @ ''.bin'')"

definition tap_entry :: "'f tap_data \<Rightarrow> string" where
  "tap_entry d = take 255
    (''{'' @ quote @ ''tap'' @ quote @ '': '' @ quote @ tap_name (td_tap d) @ quote @
     '', '' @ quote @ ''layer'' @ quote @ '': '' @ dec_int (td_layer d) @
     '', '' @ quote @ ''rows'' @ quote @ '': '' @ digits_of (td_rows d) @
     '', '' @ quote @ ''cols'' @ quote @ '': '' @ digits_of (td_cols d) @
     '', '' @ quote @ ''second_cols'' @ quote @ '': '' @ digits_of (case td_second d of None \<Rightarrow> 0 | Some _ \<Rightarrow> td_second_cols d) @
     '', '' @ quote @ ''third_cols'' @ quote @ '': '' @ digits_of (case td_third d of None \<Rightarrow> 0 | Some _ \<Rightarrow> td_third_cols d) @ ''}'')"

record writer =
  wr_dir :: string
  wr_max_layer :: int
  wr_files :: "string \<rightharpoonup> byte list"
  wr_written :: "string list"
  wr_err :: string

definition write_tap :: "('f \<Rightarrow> u32) \<Rightarrow> (string \<Rightarrow> bool) \<Rightarrow> writer \<Rightarrow> 'f tap_data \<Rightarrow> writer" where
  "write_tap bits opens w d =
    (if wr_max_layer w < td_layer d then w
     else if \<not> opens (tap_path (wr_dir w) d) then w\<lparr>wr_err := wr_err w @ ''cannot write '' @ tap_path (wr_dir w) d @ eol\<rparr>
     else w\<lparr>wr_files := (wr_files w)(tap_path (wr_dir w) d \<mapsto> tap_bytes bits d), wr_written := wr_written w @ [tap_entry d]\<rparr>)"

text \<open>The tool: a fixed prompt in a pool of its own, one step, and the taps of its forward pass.\<close>

definition golden_seq :: "nat \<Rightarrow> seq" where
  "golden_seq n = default_seq\<lparr>tokens := map (\<lambda>i. int (1000 + 7 * i)) [0..<n], prompt_len := int n\<rparr>"

definition golden_step :: "nat \<Rightarrow> step_input" where
  "golden_step n =
    empty_step\<lparr>slices := [\<lparr>sl_seq = 0, sl_start = 0, sl_len = int n, needs_logits = True, is_prefill = True\<rparr>],
      num_prefill_tokens := int n, num_logits := 1\<rparr>"

subsection \<open>The tool\<close>

record golden_args =
  ga_model :: string
  ga_out :: string
  ga_prompt_len :: int
  ga_max_layer :: int

definition default_golden_args :: golden_args where
  "default_golden_args =
    \<lparr>ga_model = ''models/Qwen2.5-0.5B-Instruct'', ga_out = ''tests/data/golden'', ga_prompt_len = 40, ga_max_layer = 1\<rparr>"

definition golden_value :: "string \<Rightarrow> (string \<Rightarrow> golden_args \<Rightarrow> golden_args) option" where
  "golden_value k =
    map_of
      [(''--model'', \<lambda>v a. a\<lparr>ga_model := v\<rparr>), (''--out'', \<lambda>v a. a\<lparr>ga_out := v\<rparr>),
       (''--prompt-len'', \<lambda>v a. a\<lparr>ga_prompt_len := atoi v\<rparr>), (''--max-layer'', \<lambda>v a. a\<lparr>ga_max_layer := atoi v\<rparr>)] k"

definition parse_golden :: "string list \<Rightarrow> golden_args \<Rightarrow> (string + golden_args) result" where
  "parse_golden = parse_flags (\<lambda>_. None) golden_value"

text \<open>The manifest; \<open>shown\<close> is the text of a float under \<open>%g\<close>.\<close>

definition golden_config :: "(rat \<Rightarrow> string) \<Rightarrow> model_config \<Rightarrow> int \<Rightarrow> string" where
  "golden_config shown cfg bs =
    ''{'' @ json_fields
      [(''hidden'', dec_int (hidden_size cfg)), (''layers'', dec_int (num_hidden_layers cfg)), (''q_heads'', dec_int (num_attention_heads cfg)),
       (''kv_heads'', dec_int (num_key_value_heads cfg)), (''head_dim'', dec_int (head_dim cfg)),
       (''intermediate'', dec_int (intermediate_size cfg)), (''vocab'', dec_int (vocab cfg)), (''rms_eps'', shown (rms_norm_eps cfg)),
       (''rope_theta'', shown (rope_theta cfg)), (''block_size'', dec_int bs)] @ ''}''"

definition golden_manifest :: "(rat \<Rightarrow> string) \<Rightarrow> golden_args \<Rightarrow> model_config \<Rightarrow> int \<Rightarrow> seq \<Rightarrow> string list \<Rightarrow> string" where
  "golden_manifest shown a cfg bs q entries =
    ''{'' @ eol @ ''  '' @ json_field ''model'' (quoted (ga_model a)) @ '','' @ eol @
    ''  '' @ json_field ''prompt_len'' (dec_int (ga_prompt_len a)) @ '','' @ eol @
    ''  '' @ json_field ''max_layer'' (dec_int (ga_max_layer a)) @ '','' @ eol @
    ''  '' @ json_field ''config'' (golden_config shown cfg bs) @ '','' @ eol @
    ''  '' @ json_field ''prompt_ids'' (''['' @ spaced_ints (tokens q) @ '']'') @ '','' @ eol @
    ''  '' @ json_field ''block_table'' (''['' @ spaced_ints (map int (blocks (block_tab q))) @ '']'') @ '','' @ eol @
    ''  '' @ json_field ''tensors'' ''['' @ eol @ comma_lines (map (\<lambda>e. ''    '' @ e) entries) @ ''  ]'' @ eol @ ''}'' @ eol"

definition put_text :: "string \<Rightarrow> byte list" where
  "put_text s = map of_char s"

text \<open>The exit code, the two streams and what the writer has left on the disk.\<close>

type_synonym golden_outcome = "int \<times> string \<times> string \<times> writer"

definition golden_run ::
  "('f, 'd) float_ops \<Rightarrow> ('f \<Rightarrow> u32) \<Rightarrow> (rat \<Rightarrow> string) \<Rightarrow> (string \<Rightarrow> bool) \<Rightarrow> (string \<Rightarrow> kv_cache \<Rightarrow> 'f cpu_model result) \<Rightarrow>
   golden_args \<Rightarrow> golden_outcome result" where
  "golden_run ops bits shown opens make_model a =
    and_then (kv_init 64 16 False) (\<lambda>kv.
    and_then (make_model (ga_model a) kv) (\<lambda>m.
    let n = nat (ga_prompt_len a); q = golden_seq n; path = take 511 (ga_out a @ ''/manifest.json'');
        w = \<lparr>wr_dir = ga_out a, wr_max_layer = ga_max_layer a, wr_files = Map.empty, wr_written = [], wr_err = []\<rparr> in
    if ga_prompt_len a < 0 then Inl Length_Error
    else case allocate_prompt kv (block_tab q) (tokens q) of
      None \<Rightarrow> Inl Assertion_Failed
    | Some (None, kv', bt) \<Rightarrow> Inr (1, [], ''prompt does not fit the test pool'' @ eol, w)
    | Some (Some cached, kv', bt) \<Rightarrow>
        let q' = q\<lparr>block_tab := bt\<rparr>;
            w' = foldl (write_tap bits opens) w (forward_taps ops (\<lambda>_. q') 16 (golden_step n) m) in
        if \<not> opens path then Inr (1, [], wr_err w' @ ''cannot write '' @ path @ eol, w')
        else Inr (0, ''wrote '' @ digits_of (length (wr_written w')) @ '' tensors to '' @ ga_out a @ eol, wr_err w',
               w'\<lparr>wr_files := (wr_files w')(path \<mapsto> put_text (golden_manifest shown a (cm_cfg m) 16 q' (wr_written w')))\<rparr>)))"

definition golden_main ::
  "('f, 'd) float_ops \<Rightarrow> ('f \<Rightarrow> u32) \<Rightarrow> (rat \<Rightarrow> string) \<Rightarrow> (string \<Rightarrow> bool) \<Rightarrow> (string \<Rightarrow> kv_cache \<Rightarrow> 'f cpu_model result) \<Rightarrow>
   string list \<Rightarrow> (int \<times> string \<times> string \<times> writer option) result" where
  "golden_main ops bits shown opens make_model argv =
    and_then (parse_golden argv default_golden_args) (\<lambda>x.
    case x of
      Inl k \<Rightarrow> Inr (2, [], ''unknown flag '' @ k @ eol, None)
    | Inr a \<Rightarrow> and_then (golden_run ops bits shown opens make_model a) (\<lambda>(code, out, err, w). Inr (code, out, err, Some w)))"

text \<open>The default prompt takes three blocks of the pool: it crosses two block boundaries, and it fits.\<close>

lemma golden_prompt_fits:
  "map_option (\<lambda>(c, kv, bt). (c, blocks bt)) (allocate_prompt (projr (kv_init 64 16 False)) (block_tab (golden_seq 40)) (tokens (golden_seq 40))) =
   Some (Some 0, [0, 1, 2])"
  by code_simp

subsection \<open>Reading a file back\<close>

lemma unat_byte: "unat (ucast (drop_bit k w) :: byte) = unat w div 2 ^ k mod 256" for w :: u32
  by (simp only: unsigned_ucast_eq unsigned_drop_bit_eq) (use unsigned_less[of w, where ?'a = nat] in \<open>simp add: take_bit_eq_mod drop_bit_eq_div\<close>)

lemma read_u16_unat: "unat (read_u16 bs i) = unat (bs ! i) + 256 * unat (bs ! (i + 1))"
proof -
  have "unat (bs ! i) < 256" "unat (bs ! (i + 1)) < 256" using unsigned_less[of "bs ! i", where ?'a = nat] unsigned_less[of "bs ! (i + 1)", where ?'a = nat] by simp_all
  then show ?thesis by (simp add: read_u16_def unat_word_ariths unsigned_ucast_eq take_bit_nat_eq_self)
qed

lemma read_u32_unat: "unat (read_u32 bs i) = unat (read_u16 bs i) + 65536 * unat (read_u16 bs (i + 2))"
proof -
  have "unat (read_u16 bs i) < 65536" "unat (read_u16 bs (i + 2)) < 65536"
    using unsigned_less[of "read_u16 bs i", where ?'a = nat] unsigned_less[of "read_u16 bs (i + 2)", where ?'a = nat] by simp_all
  then show ?thesis by (simp add: read_u32_def unat_word_ariths unsigned_ucast_eq take_bit_nat_eq_self)
qed

lemma split_bytes: "n mod 256 + 256 * (n div 256 mod 256) + 65536 * (n div 65536 mod 256 + 256 * (n div 16777216 mod 256)) = n" if "n < 4294967296" for n :: nat
proof -
  have "n = n mod 256 + 256 * (n div 256)" "n div 256 = n div 256 mod 256 + 256 * (n div 65536)"
    "n div 65536 = n div 65536 mod 256 + 256 * (n div 16777216)" "n div 16777216 mod 256 = n div 16777216"
    using that mod_mult_div_eq[of "n div 256" 256] mod_mult_div_eq[of "n div 65536" 256] by (simp_all add: div_mult2_eq[symmetric])
  moreover have "n = a + 256 * q1 \<Longrightarrow> q1 = b + 256 * q2 \<Longrightarrow> q2 = c + 256 * q3 \<Longrightarrow> d = q3 \<Longrightarrow> a + 256 * b + 65536 * (c + 256 * d) = n" for a b c d q1 q2 q3 by simp
  ultimately show ?thesis by blast
qed

lemma read_put_u32:
  assumes "\<And>k. k < 4 \<Longrightarrow> bs ! (i + k) = put_u32 w ! k"
  shows "read_u32 bs i = w"
proof (rule word_unat_eq_iff[THEN iffD2])
  have b: "bs ! i = put_u32 w ! 0" "bs ! (i + 1) = put_u32 w ! 1" "bs ! (i + 2) = put_u32 w ! 2" "bs ! (i + 2 + 1) = put_u32 w ! 3"
    using assms[of 0] assms[of 1] assms[of 2] assms[of 3] by (simp_all add: numeral_3_eq_3)
  have "unat w < 4294967296" using unsigned_less[of w, where ?'a = nat] by simp
  then show "unat (read_u32 bs i) = unat w"
    unfolding read_u32_unat read_u16_unat b using unat_byte[of 0 w] unat_byte[of 8 w] unat_byte[of 16 w] unat_byte[of 24 w] split_bytes[of "unat w"]
    by (simp add: put_u32_def)
qed

lemma tap_bytes_words:
  assumes "k < length (tap_words bits d)"
  shows "read_u32 (tap_bytes bits d) (4 * k) = tap_words bits d ! k"
proof (rule read_put_u32)
  let ?ws = "tap_words bits d"
  have b: "tap_bytes bits d = concat (map (\<lambda>k. put_u32 (?ws ! k)) [0..<length ?ws])"
    unfolding tap_bytes_def by (intro arg_cong[of _ _ concat] nth_equalityI) simp_all
  fix j :: nat assume "j < 4"
  then show "tap_bytes bits d ! (4 * k + j) = put_u32 (?ws ! k) ! j"
    unfolding b using concat_rows_nth[of "length ?ws" "\<lambda>k. put_u32 (?ws ! k)" 4 k j] assms by (simp add: put_u32_def mult.commute)
qed


definition demo_tap :: "u32 tap_data" where
  "demo_tap = \<lparr>td_tap = Rope, td_layer = 0, td_rows = 1, td_cols = 2, td_data = [5, 600], td_second = Some [70000], td_third = None,
     td_second_cols = 1, td_third_cols = 0\<rparr>"


end
