(* ===== verification/Client_Log.thy ===== *)
theory Client_Log
  imports Engine_Props
begin

text \<open>
  What the clients of the engine hear: the callbacks of \<open>src/src/api/engine.cpp\<close> that reach the
  function a client passed to \<open>submit\<close>, followed from the inbox through the wrapper of the loop and
  every scheduler call to the log of that client. Continuous batching.
\<close>

subsection \<open>The log against the scheduler's events\<close>

definition client_terminals :: "engine \<Rightarrow> seq_ref list" where
  "client_terminals en = map cb_ref (filter (\<lambda>e. cb_token e < 0) (client_log en))"

text \<open>Whether the submission of a request came with a callback.\<close>

definition wants :: "engine \<Rightarrow> seq_ref \<Rightarrow> bool" where
  "wants en r = (if r \<in> set (inbox en) then on_token (heap (en_sched en) r) else user_cb en r)"

definition held :: "engine \<Rightarrow> seq_ref \<Rightarrow> bool" where
  "held en r \<longleftrightarrow> r \<in> set (inbox en @ members (en_sched en))"

definition log_inv :: "engine \<Rightarrow> bool" where
  "log_inv en \<longleftrightarrow>
     0 < next_id en \<and> client_terminals en = filter (user_cb en) (terminals (en_sched en)) \<and>
     (\<forall>r. 0 < r \<and> r < next_id en \<longrightarrow> held en r \<or> r \<in> set (terminals (en_sched en)))"

text \<open>One engine state after another: the invariants hold there, no request is forgotten.\<close>

definition follows :: "engine \<Rightarrow> engine \<Rightarrow> bool" where
  "follows en en' \<longleftrightarrow> engine_inv en' \<and> log_inv en' \<and> next_id en \<le> next_id en' \<and>
     (\<forall>r<next_id en. wants en' r = wants en r)"

lemma follows_refl: "engine_inv en \<Longrightarrow> log_inv en \<Longrightarrow> follows en en"
  by (simp add: follows_def)

lemma follows_trans: "follows en en1 \<Longrightarrow> follows en1 en2 \<Longrightarrow> follows en en2"
  unfolding follows_def by (meson le_trans order_less_le_trans)

lemma followsD: "follows en en' \<Longrightarrow> engine_inv en'" "follows en en' \<Longrightarrow> log_inv en'"
  by (simp_all add: follows_def)

lemma follows_frame:
  assumes "follows a en" "engine_inv en'" "en_sched en' = en_sched en" "inbox en' = inbox en"
    "next_id en' = next_id en" "client_log en' = client_log en" "user_cb en' = user_cb en"
  shows "follows a en'"
proof -
  have "wants en' r = wants en r" "held en' r = held en r" for r using assms(3,4,7) by (simp_all add: wants_def held_def)
  moreover have "client_terminals en' = client_terminals en" using assms(6) by (simp add: client_terminals_def)
  ultimately show ?thesis using assms by (simp add: follows_def log_inv_def)
qed

lemma callbacks_log:
  "client_log (foldl (wrapped_callback now) en es) = client_log en @ filter (\<lambda>e. user_cb en (cb_ref e)) es \<and>
   user_cb (foldl (wrapped_callback now) en es) = user_cb en"
proof (induction es arbitrary: en)
  case (Cons e es)
  have "client_log (wrapped_callback now en e) = client_log en @ (if user_cb en (cb_ref e) then [e] else [])"
    "user_cb (wrapped_callback now en e) = user_cb en"
    by (simp_all add: wrapped_callback_def Let_def)
  then show ?case using Cons by simp
qed simp

lemma terminals_filter: "map cb_ref (filter (\<lambda>e. p (cb_ref e) \<and> cb_token e < 0) es) =
    filter p (map cb_ref (filter (\<lambda>e. cb_token e < 0) es))"
  by (induction es) auto

lemma with_sched_log:
  assumes "log_ext (en_sched en) s" "client_terminals en = filter (user_cb en) (terminals (en_sched en))"
  shows "client_terminals (with_sched now en s) = filter (user_cb en) (terminals s)"
    "user_cb (with_sched now en s) = user_cb en"
proof -
  let ?es = "drop (length (events (en_sched en))) (events s)"
  have ev: "events s = events (en_sched en) @ ?es" using assms(1) by (auto simp: log_ext_def)
  have "terminals s = terminals (en_sched en) @ map cb_ref (filter (\<lambda>e. cb_token e < 0) ?es)"
    unfolding terminals_def by (subst ev) simp
  then show "client_terminals (with_sched now en s) = filter (user_cb en) (terminals s)"
    using assms(2) callbacks_log[of now "en\<lparr>en_sched := s\<rparr>" ?es]
    by (simp add: client_terminals_def with_sched_def terminals_filter)
  show "user_cb (with_sched now en s) = user_cb en"
    using callbacks_log[of now "en\<lparr>en_sched := s\<rparr>" ?es] by (simp add: with_sched_def)
qed

subsection \<open>Each operation\<close>

text \<open>A scheduler call of the loop.\<close>

lemma follows_call:
  assumes inv: "engine_inv en" "log_inv en" and h: "hands (en_sched en) (members (en_sched en)) s (members s)"
    and inv': "engine_inv (with_sched now en s)"
  shows "follows en (with_sched now en s)"
proof -
  have ext: "log_ext (en_sched en) s" using h by (simp add: hands_def)
  note f = with_sched_simps[OF ext, of now]
  note l = with_sched_log[OF ext, of now]
  have ct: "client_terminals en = filter (user_cb en) (terminals (en_sched en))" using inv(2) by (simp add: log_inv_def)
  have t: "set (terminals (en_sched en)) \<subseteq> set (terminals s)"
    "\<forall>r \<in> set (members (en_sched en)) - set (members s). r \<in> set (terminals s)"
    using h engine_invD(7)[OF inv(1)] by (auto simp: hands_def)
  have "held (with_sched now en s) r \<or> r \<in> set (terminals s)" if "0 < r" "r < next_id en" for r
    using inv(2) that t f by (auto simp: log_inv_def held_def)
  moreover have "wants (with_sched now en s) r = wants en r" for r
    using h f l(2)[OF ct] by (simp add: wants_def hands_def)
  moreover have "0 < next_id en" using inv(2) by (simp add: log_inv_def)
  ultimately show ?thesis using l[OF ct] f inv' by (simp add: follows_def log_inv_def)
qed

lemma follows_enqueue:
  assumes "engine_inv en" "log_inv en" "prompt \<noteq> []"
  shows "follows en (fst (enqueue ids prompt ps cb en))"
proof -
  let ?en = "fst (enqueue ids prompt ps cb en)"
  have q: "next_id ?en = Suc (next_id en)" "inbox ?en = inbox en @ [next_id en]" "client_log ?en = client_log en"
    "user_cb ?en = user_cb en" "members (en_sched ?en) = members (en_sched en)"
    "terminals (en_sched ?en) = terminals (en_sched en)"
    by (simp_all add: enqueue_def Let_def)
  have h: "heap (en_sched ?en) r = heap (en_sched en) r" if "r \<noteq> next_id en" for r
    using that by (simp add: enqueue_def Let_def)
  have "held ?en r" if "held en r \<or> r = next_id en" for r using that q by (auto simp: held_def)
  then have "log_inv ?en"
    using assms(2) q by (auto simp: log_inv_def client_terminals_def less_Suc_eq)
  moreover have "wants ?en r = wants en r" if "r < next_id en" for r
    using that q h by (simp add: wants_def)
  ultimately show ?thesis using q enqueue_inv[OF assms(1,3), of ids ps cb] by (simp add: follows_def)
qed

lemma follows_submit:
  assumes "engine_inv en" "log_inv en" "prompt \<noteq> []"
  shows "follows en (fst (submit ids prompt ps cb en))"
proof (cases "submit_refusal en")
  case (Some r)
  then have e: "fst (submit ids prompt ps cb en) = count_refusal en r" by (simp add: submit_def)
  have "engine_inv (count_refusal en r)" using submit_inv[OF assms(1,3), of ids ps cb] e by simp
  then show ?thesis unfolding e
    by (rule follows_frame[OF follows_refl[OF assms(1,2)]]) (simp_all add: count_refusal_def)
next
  case None
  then have e: "submit ids prompt ps cb en = enqueue ids prompt ps cb en" by (simp add: submit_def)
  then show ?thesis using follows_enqueue[OF assms] by simp
qed

lemma submit_accepted:
  assumes "submit ids prompt ps cb en = (en1, res)" "submit_ok res"
  shows "sub_seq res = Some (next_id en)" "next_id en1 = Suc (next_id en)" "wants en1 (next_id en) = cb"
    "held en1 (next_id en)"
proof -
  have "submit_refusal en = None"
  proof (rule ccontr)
    assume "submit_refusal en \<noteq> None"
    then obtain r where "submit_refusal en = Some r" by blast
    then have "\<not> submit_ok r" "res = r"
      using assms(1) by (auto simp: submit_refusal_def submit_ok_def submit_def split: if_splits)
    then show False using assms(2) by simp
  qed
  then have e: "en1 = fst (enqueue ids prompt ps cb en)" "res = snd (enqueue ids prompt ps cb en)"
    using assms(1) by (simp_all add: submit_def)
  show "sub_seq res = Some (next_id en)" "next_id en1 = Suc (next_id en)" "wants en1 (next_id en) = cb"
    "held en1 (next_id en)"
    unfolding e by (simp_all add: enqueue_def Let_def wants_def held_def)
qed

lemma follows_adopt:
  assumes inv: "engine_inv en" "log_inv en" and b: "inbox en = r # rs"
  shows "follows en ((adopt now en r)\<lparr>inbox := rs\<rparr>)"
proof -
  let ?s = "en_sched en"
  let ?en = "en\<lparr>user_cb := (user_cb en)(r := on_token (heap ?s r))\<rparr>"
  let ?s2 = "sched_add now (upd_seq ?s r (on_token_update (\<lambda>_. True))) r"
  have ad: "adopt now en r = with_sched now ?en ?s2" by (simp add: adopt_def Let_def)
  have ev: "events ?s2 = events ?s" by (simp add: sched_add_def upd_seq_def Let_def)
  have ext: "log_ext (en_sched ?en) ?s2" using ev by (simp add: log_ext_def)
  have tm: "terminals ?s2 = terminals ?s" using ev by (simp add: terminals_def)
  have mem: "set (members ?s2) = insert r (set (members ?s))"
    by (simp add: members_def sched_add_def Let_def insert_commute)
  have new: "r \<notin> set (terminals ?s)" "r \<notin> set rs" using engine_invD(3,5)[OF inv(1)] b by auto
  have "client_terminals ?en = filter (user_cb en) (terminals ?s)"
    using inv(2) by (simp add: log_inv_def client_terminals_def)
  also have "\<dots> = filter (user_cb ?en) (terminals (en_sched ?en))"
    using new(1) by (intro filter_cong) auto
  finally have ct: "client_terminals ?en = filter (user_cb ?en) (terminals (en_sched ?en))" .
  note f = with_sched_simps[OF ext, of now] and l = with_sched_log[OF ext ct, of now]
  have "held ((adopt now en r)\<lparr>inbox := rs\<rparr>) p \<or> p \<in> set (terminals ?s2)" if "0 < p" "p < next_id en" for p
    using inv(2) that f mem tm b by (auto simp: log_inv_def held_def ad)
  moreover have "client_terminals ((adopt now en r)\<lparr>inbox := rs\<rparr>) = filter (user_cb ?en) (terminals ?s2)"
    using l(1) by (simp add: ad client_terminals_def)
  moreover have "wants ((adopt now en r)\<lparr>inbox := rs\<rparr>) p = wants en p" for p
  proof -
    have "on_token (heap ?s2 p) = on_token (heap ?s p)" if "p \<noteq> r" using that by (simp add: sched_add_def upd_seq_def Let_def)
    then show ?thesis using b new(2) f l(2) by (auto simp: wants_def ad)
  qed
  moreover have "0 < next_id en" using inv(2) by (simp add: log_inv_def)
  ultimately show ?thesis using adopt_inv(1)[OF inv(1) b, of now] f l(2) ad by (simp add: follows_def log_inv_def)
qed

lemma follows_adopt_all:
  "engine_inv (en\<lparr>inbox := rs\<rparr>) \<Longrightarrow> log_inv (en\<lparr>inbox := rs\<rparr>) \<Longrightarrow>
   follows (en\<lparr>inbox := rs\<rparr>) ((foldl (adopt now) en rs)\<lparr>inbox := []\<rparr>)"
proof (induction rs arbitrary: en)
  case (Cons r rs)
  let ?en = "en\<lparr>inbox := r # rs\<rparr>"
  have "(adopt now en r)\<lparr>inbox := rs\<rparr> = (adopt now ?en r)\<lparr>inbox := rs\<rparr>" by (simp add: adopt_inbox)
  then have f: "follows ?en ((adopt now en r)\<lparr>inbox := rs\<rparr>)" using follows_adopt[OF Cons.prems, of r rs now] by simp
  show ?case using follows_trans[OF f] Cons.IH[OF followsD[OF f]] by simp
qed (simp add: follows_refl)

lemma follows_abort:
  assumes "engine_inv en" "log_inv en"
  shows "follows en (with_sched now en (sched_abort now (en_sched en) i))"
proof (rule follows_call[OF assms _ abort_call_inv[OF assms(1)]])
  have "distinct (members (en_sched en))" using engine_invD(3)[OF assms(1)] by simp
  then show "hands (en_sched en) (members (en_sched en)) (sched_abort now (en_sched en) i) (members (sched_abort now (en_sched en) i))"
    by (rule sched_abort_hands)
qed

lemma follows_aborts:
  "engine_inv en \<Longrightarrow> log_inv en \<Longrightarrow>
   follows en (foldl (\<lambda>e x. with_sched now e (sched_abort now (en_sched e) (f e x))) en xs)"
proof (induction xs arbitrary: en)
  case (Cons x xs)
  note f = follows_abort[OF Cons.prems, of now "f en x"]
  show ?case using follows_trans[OF f Cons.IH[OF followsD[OF f]]] by simp
qed (simp add: follows_refl)

lemma follows_inbox:
  assumes "engine_inv en" "log_inv en"
  shows "follows en (take_inbox now en)"
proof -
  let ?en1 = "(foldl (adopt now) en (inbox en))\<lparr>inbox := []\<rparr>"
  have f1: "follows en ?en1" using follows_adopt_all[of "inbox en" en now] assms by simp
  have f2: "follows en (foldl (\<lambda>e i. with_sched now e (sched_abort now (en_sched e) i)) ?en1 (abort_inbox ?en1))"
    using follows_trans[OF f1] follows_aborts[OF followsD[OF f1], where f = "\<lambda>e i. i"] by simp
  show ?thesis using follows_frame[OF f2 take_inbox_inv[OF assms(1), of now]] by (simp add: take_inbox_def Let_def)
qed

lemma follows_gauges: "follows a en \<Longrightarrow> follows a (refresh_gauges en)"
  by (rule follows_frame, assumption, rule refresh_gauges_inv, erule followsD)
    (simp_all add: refresh_gauges_def Let_def)

lemma follows_progress: "follows a en \<Longrightarrow> follows a (mark_progress now en)"
  by (rule follows_frame, assumption, rule mark_progress_inv, erule followsD) (simp_all add: mark_progress_def)

lemma follows_schedule:
  assumes "engine_inv en" "log_inv en" "schedule now (en_sched en) = Inr (s, st)"
  shows "follows en (with_sched now en s)"
proof (rule follows_call[OF assms(1,2) _ schedule_call_inv(1)[OF assms(1,3)]])
  note g = sched_goodD[OF engine_invD(1,2)[OF assms(1)]]
  show "hands (en_sched en) (members (en_sched en)) s (members s)" by (rule schedule_hands[OF g(1,2,3) assms(3)])
qed

text \<open>A turn of the loop.\<close>

lemma follows_done:
  assumes "engine_inv en" "log_inv en" "step_ok (en_sched en) st" "int (length sampled) = num_logits st"
    "\<forall>t\<in>set sampled. 0 \<le> t"
  shows "\<exists>s. on_step_done now (en_sched en) st sampled = Inr s \<and> follows en (with_sched now en s)"
proof -
  note g = sched_goodD[OF engine_invD(1,2)[OF assms(1)]]
  obtain s where s: "on_step_done now (en_sched en) st sampled = Inr s" "engine_inv (with_sched now en s)"
    using done_call_inv[OF assms(1,3,4,5)] by blast
  have "hands (en_sched en) (members (en_sched en)) s (members s)"
    by (rule on_step_done_hands[OF g(1) assms(3) _ g(3) s(1) assms(5)]) (use assms(4) in simp)
  then show ?thesis using follows_call[OF assms(1,2) _ s(2)] s(1) by blast
qed

lemma follows_compute:
  assumes inv: "engine_inv en" "log_inv en" and c: "compute_ok compute"
  shows "follows en (result_engine (compute_step compute t0 t1 en))"
proof -
  note g = sched_goodD[OF engine_invD(1,2)[OF inv(1)]]
  obtain s st where sch: "schedule t0 (en_sched en) = Inr (s, st)" using schedule_spec[OF g(1,2), of t0] by blast
  let ?en1 = "with_sched t0 en s"
  have f1: "follows en ?en1" by (rule follows_schedule[OF inv sch])
  show ?thesis
  proof (cases "step_empty st")
    case True
    then show ?thesis using sch follows_gauges[OF f1] follows_progress[OF follows_gauges[OF f1]]
      by (simp add: compute_step_def result_engine_def Let_def)
  next
    case ne: False
    show ?thesis
    proof (cases "compute s st")
      case (Inl msg)
      then show ?thesis using sch ne f1 by (auto simp: compute_step_def result_engine_def Let_def)
    next
      case (Inr sampled)
      have ok: "step_ok s st" by (rule schedule_call_inv(2)[OF inv(1) sch])
      then have n: "int (length sampled) = num_logits st" "\<forall>t\<in>set sampled. 0 \<le> t"
        using c Inr unfolding compute_ok_def step_ok_def by blast+
      obtain s2 where s2: "on_step_done t1 s st sampled = Inr s2" "follows ?en1 (with_sched t1 ?en1 s2)"
        using follows_done[OF followsD[OF f1], of st sampled t1] ok n by auto
      define en2 where "en2 = mark_progress t1 (with_sched t1 ?en1 s2)"
      have f2: "follows en en2" unfolding en2_def by (rule follows_progress[OF follows_trans[OF f1 s2(2)]])
      have up: "follows en (en2\<lparr>en_metrics := m, window_tokens := w, window_start := v\<rparr>)"
        "follows en (en2\<lparr>en_metrics := m, window_tokens := w\<rparr>)" for m w v
        by (rule follows_frame[OF f2], rule engine_inv_frame[OF followsD(1)[OF f2]],
            simp_all add: engine_invD(9)[OF followsD(1)[OF f2]])+
      show ?thesis
        using sch ne Inr s2(1) follows_gauges[OF up(1)] follows_gauges[OF up(2)]
        by (simp add: compute_step_def result_engine_def Let_def en2_def[symmetric])
    qed
  qed
qed

lemma follows_body:
  assumes inv: "engine_inv en" "log_inv en" and c: "compute_ok compute"
  shows "follows en (result_engine (loop_body compute t0 t1 en))"
proof -
  have f: "follows en (take_inbox t0 en)" by (rule follows_inbox[OF inv])
  show ?thesis
    using follows_gauges[OF follows_progress[OF f]] follows_trans[OF f follows_compute[OF followsD[OF f] c]]
    by (simp add: loop_body_def result_engine_def Let_def)
qed

lemma follows_step:
  assumes inv: "engine_inv en" "log_inv en" and c: "compute_ok compute" and st: "engine_step compute en en'"
  shows "follows en en'"
proof -
  have r: "follows en en" by (rule follows_refl[OF inv])
  note fl = flags_inv[OF inv(1)]
  have p: "follows en (mark_progress now en)" for now by (rule follows_progress[OF r])
  show ?thesis using st
  proof cases
    case (client_submit prompt ids ps cb)
    then show ?thesis using follows_submit[OF inv] by simp
  next
    case (loop_turn t0 t1 r')
    then show ?thesis using follows_body[OF inv c] r
      by (auto simp: loop_enter_def result_engine_def[of "Loop_Break en"] split: if_splits)
  next
    case (loop_sleep t0 t1)
    then show ?thesis using p by (auto simp: loop_enter_def split: if_splits)
  next
    case (loop_woken t0 t1)
    then show ?thesis using follows_body[OF inv c] r follows_gauges[OF p]
      by (auto simp: loop_wake_def result_engine_def[of "Loop_Break en"] result_engine_def[of "Loop_Continue e" for e])
  qed (use fl follows_frame[OF r] in \<open>simp_all add: start_def stop_request_def drain_request_def engine_abort_def
      drain_finished_def loop_begin_def mark_progress_def\<close>)
qed

text \<open>The exit path of the loop.\<close>

lemma follows_release:
  "engine_inv en \<Longrightarrow> log_inv en \<Longrightarrow> release_waiting n now en = Some en' \<Longrightarrow> follows en en'"
proof (induction n arbitrary: en)
  case 0
  then show ?case by (simp add: release_waiting.simps follows_refl split: if_splits)
next
  case (Suc n)
  show ?case
  proof (cases "waiting (en_sched en) = []")
    case True
    then show ?thesis using Suc.prems follows_refl by (simp add: release_waiting.simps)
  next
    case False
    then obtain s st where sch: "schedule now (en_sched en) = Inr (s, st)"
      using Suc.prems(3) by (subst (asm) release_waiting.simps) (auto split: sum.splits)
    have f1: "follows en (with_sched now en s)" by (rule follows_schedule[OF Suc.prems(1,2) sch])
    define en2 where "en2 = foldl (\<lambda>e sl. with_sched now e (sched_abort now (en_sched e) (seq_id (heap (en_sched e) (sl_seq sl)))))
        (with_sched now en s) (slices st)"
    have f2: "follows en en2" unfolding en2_def
      by (rule follows_trans[OF f1 follows_aborts[OF followsD[OF f1], where f = "\<lambda>e sl. seq_id (heap (en_sched e) (sl_seq sl))"]])
    have "release_waiting (Suc n) now en = (if step_empty st then Some en2 else release_waiting n now en2)"
      by (subst release_waiting.simps) (simp add: False sch en2_def Let_def)
    then show ?thesis using Suc.prems(3) f2 follows_trans[OF f2 Suc.IH[OF followsD[OF f2]]] by (simp split: if_splits)
  qed
qed

lemma follows_exit:
  assumes "engine_inv en" "log_inv en" "loop_exit n now en = Some en'"
  shows "follows en en'"
proof -
  have f1: "follows en (abort_running now en)" unfolding abort_running_def
    by (rule follows_aborts[OF assms(1,2), where f = "\<lambda>e r. seq_id (heap (en_sched e) r)"])
  obtain e1 where e1: "release_waiting n now (abort_running now en) = Some e1" "en' = refresh_gauges e1"
    using assms(3) by (auto simp: loop_exit_def)
  show ?thesis unfolding e1(2) by (rule follows_gauges[OF follows_trans[OF f1 follows_release[OF followsD[OF f1] e1(1)]]])
qed

subsection \<open>Every client is answered once\<close>

lemma follows_steps:
  assumes "compute_ok compute" "(engine_step compute)\<^sup>*\<^sup>* en en'" "engine_inv en" "log_inv en"
  shows "follows en en'"
  using assms(2)
proof induction
  case (step y z)
  then show ?case using follows_trans[OF step.IH follows_step[OF followsD[OF step.IH] assms(1)]] by simp
qed (rule follows_refl[OF assms(3,4)])

lemma engine_start_log:
  assumes "engine_start en"
  shows "log_inv en"
proof -
  from assms obtain cuda cfg where "engine_new cuda cfg = Inr en" by (auto simp: engine_start_def)
  then show ?thesis
    by (auto simp: engine_new_def log_inv_def client_terminals_def terminals_def sched_init_def split: sum.splits)
qed

lemma reachable_log:
  assumes "compute_ok compute" "reachable engine_start (engine_step compute) en"
  shows "engine_inv en \<and> log_inv en"
  using assms(2)
proof induction
  case (reach_init en)
  then show ?case using engine_new_inv engine_start_log by blast
next
  case (reach_step en en')
  then show ?case using follows_step[of en compute en'] assms(1) followsD by blast
qed

lemma told_or_held:
  assumes "engine_inv en" "log_inv en" "0 < r" "r < next_id en" "wants en r"
  shows "held en r \<and> count_list (client_terminals en) r = 0 \<or> \<not> held en r \<and> count_list (client_terminals en) r = 1"
proof -
  have ct: "client_terminals en = filter (user_cb en) (terminals (en_sched en))" using assms(2) by (simp add: log_inv_def)
  have d: "distinct (terminals (en_sched en))" "set (terminals (en_sched en)) \<inter> set (members (en_sched en)) = {}"
    using sched_goodD(4)[OF engine_invD(1,2)[OF assms(1)]] by (simp_all add: told_once_def)
  show ?thesis
  proof (cases "held en r")
    case True
    then have "r \<notin> set (terminals (en_sched en))" using d(2) engine_invD(5)[OF assms(1)] by (auto simp: held_def)
    then show ?thesis using True ct by (simp add: count_list_0_iff)
  next
    case False
    then have "r \<in> set (terminals (en_sched en))" "user_cb en r"
      using assms(2-5) by (auto simp: log_inv_def wants_def held_def)
    then show ?thesis using False ct d(1) by (simp add: count_list_distinct)
  qed
qed


definition demo_params :: sampling_params where
  "demo_params = default_params\<lparr>max_tokens := 1\<rparr>"

definition demo_accepted :: engine where
  "demo_accepted = fst (submit [0] [7] demo_params True (start demo_engine))"

definition demo_told :: engine where
  "demo_told = result_engine (loop_wake echo 5 6 demo_accepted)"


end
