(* ===== verification/Command_Line.thy ===== *)
theory Command_Line
  imports Engine Json_Fields Printing Model_Config
begin

text \<open>
  The command line of \<open>src/src/main.cpp\<close>: \<open>parse\<close> and the list of token ids of \<open>generate --ids\<close>.
  The integer conversions of the standard library are those of \<open>Decimal\<close>; the one to floating
  point is an argument. A parse that prints the usage text is \<open>None\<close>.
\<close>

subsection \<open>Options\<close>

record args =
  a_cmd :: string
  a_model :: string
  a_prompt :: string
  a_chat :: string
  a_ids :: string
  a_host :: string
  a_port :: int
  a_max_tokens :: int
  a_copies :: int
  a_temperature :: rat
  a_top_p :: rat
  a_ecfg :: engine_config

definition default_args :: args where
  "default_args =
    \<lparr>a_cmd = '''', a_model = '''', a_prompt = '''', a_chat = '''', a_ids = '''', a_host = ''0.0.0.0'', a_port = 8000, a_max_tokens = 64,
     a_copies = 1, a_temperature = 0, a_top_p = 1, a_ecfg = default_engine_config\<rparr>"

definition upd_ecfg :: "(engine_config \<Rightarrow> engine_config) \<Rightarrow> args \<Rightarrow> args" where
  "upd_ecfg f a = a\<lparr>a_ecfg := f (a_ecfg a)\<rparr>"

definition upd_sched_cfg :: "(sched_config \<Rightarrow> sched_config) \<Rightarrow> args \<Rightarrow> args" where
  "upd_sched_cfg f a = upd_ecfg (\<lambda>e. e\<lparr>cfg_sched := f (cfg_sched e)\<rparr>) a"

text \<open>What an option does with its value; \<open>None\<close> is an option that does not exist.\<close>

definition set_option :: "(string \<Rightarrow> rat result) \<Rightarrow> string \<Rightarrow> (string \<Rightarrow> args \<Rightarrow> args result) option" where
  "set_option num k =
    map_of
      [(''--model'', \<lambda>v a. Inr (a\<lparr>a_model := v\<rparr>)),
       (''--port'', \<lambda>v a. and_then (stoi v) (\<lambda>n. Inr (a\<lparr>a_port := n\<rparr>))),
       (''--host'', \<lambda>v a. Inr (a\<lparr>a_host := v\<rparr>)),
       (''--prompt'', \<lambda>v a. Inr (a\<lparr>a_prompt := v\<rparr>)),
       (''--chat'', \<lambda>v a. Inr (a\<lparr>a_chat := v\<rparr>)),
       (''--ids'', \<lambda>v a. Inr (a\<lparr>a_ids := v\<rparr>)),
       (''--max-tokens'', \<lambda>v a. and_then (stoi v) (\<lambda>n. Inr (a\<lparr>a_max_tokens := n\<rparr>))),
       (''--temperature'', \<lambda>v a. and_then (num v) (\<lambda>x. Inr (a\<lparr>a_temperature := x\<rparr>))),
       (''--top-p'', \<lambda>v a. and_then (num v) (\<lambda>x. Inr (a\<lparr>a_top_p := x\<rparr>))),
       (''--copies'', \<lambda>v a. and_then (stoi v) (\<lambda>n. Inr (a\<lparr>a_copies := n\<rparr>))),
       (''--backend'', \<lambda>v a. Inr (upd_ecfg (\<lambda>e. e\<lparr>backend := v\<rparr>) a)),
       (''--mode'', \<lambda>v a. Inr (upd_sched_cfg (\<lambda>c. c\<lparr>continuous := (v \<noteq> ''static'')\<rparr>) a)),
       (''--num-blocks'', \<lambda>v a. and_then (stoi v) (\<lambda>n. Inr (upd_ecfg (\<lambda>e. e\<lparr>cfg_num_blocks := n\<rparr>) a))),
       (''--block-size'', \<lambda>v a. and_then (stoi v) (\<lambda>n. Inr (upd_ecfg (\<lambda>e. e\<lparr>cfg_block_size := n\<rparr>) a))),
       (''--max-num-seqs'', \<lambda>v a. and_then (stoi v) (\<lambda>n. Inr (upd_sched_cfg (\<lambda>c. c\<lparr>max_num_seqs := n\<rparr>) a))),
       (''--max-batched-tokens'', \<lambda>v a. and_then (stoi v) (\<lambda>n. Inr (upd_sched_cfg (\<lambda>c. c\<lparr>max_num_batched_tokens := n\<rparr>) a))),
       (''--chunk'', \<lambda>v a. and_then (stoi v) (\<lambda>n. Inr (upd_sched_cfg (\<lambda>c. c\<lparr>prefill_chunk_size := n\<rparr>) a))),
       (''--seed'', \<lambda>v a. and_then (stoull v) (\<lambda>n. Inr (upd_ecfg (\<lambda>e. e\<lparr>cfg_seed := n\<rparr>) a))),
       (''--max-queue-depth'', \<lambda>v a. and_then (stoi v) (\<lambda>n. Inr (upd_ecfg (\<lambda>e. e\<lparr>max_queue_depth := n\<rparr>) a))),
       (''--max-queue-wait'', \<lambda>v a. and_then (num v) (\<lambda>x. Inr (upd_sched_cfg (\<lambda>c. c\<lparr>max_queue_wait_seconds := x\<rparr>) a))),
       (''--stall-timeout'', \<lambda>v a. and_then (num v) (\<lambda>x. Inr (upd_ecfg (\<lambda>e. e\<lparr>stall_timeout_seconds := x\<rparr>) a)))] k"

fun parse_options :: "(string \<Rightarrow> rat result) \<Rightarrow> string list \<Rightarrow> args \<Rightarrow> args option result" where
  "parse_options num [] a = Inr (Some a)"
| "parse_options num (k # rest) a =
    (if k = ''--no-prefix-cache'' then parse_options num rest (upd_ecfg (\<lambda>e. e\<lparr>cfg_prefix_caching := False\<rparr>) a)
     else case set_option num k of
       None \<Rightarrow> Inr None
     | Some put \<Rightarrow>
         (case rest of
            [] \<Rightarrow> Inl (Runtime_Error (''missing value for '' @ k))
          | v # rest' \<Rightarrow> and_then (put v a) (parse_options num rest')))"

definition parse_args :: "(string \<Rightarrow> rat result) \<Rightarrow> string list \<Rightarrow> args option result" where
  "parse_args num argv =
    (case argv of
       [] \<Rightarrow> Inr None
     | cmd # rest \<Rightarrow>
         and_then (parse_options num rest (default_args\<lparr>a_cmd := cmd\<rparr>)) (\<lambda>r.
         case r of
           None \<Rightarrow> Inr None
         | Some a \<Rightarrow> if a_model a = [] then Inr None else Inr (Some (upd_ecfg (\<lambda>e. e\<lparr>model_dir := a_model a\<rparr>) a))))"

definition usage :: string where
  "usage = concat (map (\<lambda>line. line @ eol)
    [''usage:'',
     ''  engine serve    --model DIR [--port 8000] [--host 0.0.0.0] [engine options]'',
     ''  engine generate --model DIR (--prompt TEXT | --chat TEXT | --ids 1,2,3) [--max-tokens N]'',
     ''                  [--temperature T] [--top-p P] [--copies N] [engine options]'',
     ''engine options:'',
     ''  --backend cpu|cuda        (default cpu)'',
     ''  --mode continuous|static  scheduler (default continuous)'',
     ''  --num-blocks N            KV cache blocks (default 512)'',
     ''  --block-size N            tokens per block (default 16)'',
     ''  --no-prefix-cache         disable prefix sharing'',
     ''  --max-num-seqs N          running sequences per step (default 32)'',
     ''  --max-batched-tokens N    prefill+decode tokens per step (default 2048)'',
     ''  --chunk N                 prefill chunk size (default 512)'',
     ''  --seed N'',
     ''overload protection and failure detection:'',
     ''  --max-queue-depth N       reject with 429 past this many queued requests (default 256, 0 = off)'',
     ''  --max-queue-wait SECONDS  abandon a request that waits this long unadmitted (default off)'',
     ''  --stall-timeout SECONDS   liveness fails if no step completes in this long (default 120)''])"

text \<open>The exit code of \<open>main\<close> before a command runs: 2 for the usage text, 1 for an exception.\<close>

definition main_dispatch :: "(string \<Rightarrow> rat result) \<Rightarrow> string list \<Rightarrow> int + args" where
  "main_dispatch num argv =
    (case parse_args num argv of
       Inl e \<Rightarrow> Inl 1
     | Inr None \<Rightarrow> Inl 2
     | Inr (Some a) \<Rightarrow> if a_cmd a = ''generate'' \<or> a_cmd a = ''serve'' then Inr a else Inl 2)"

subsection \<open>Token ids\<close>

function parse_ids :: "string \<Rightarrow> int list result" where
  "parse_ids s =
    (if s = [] then Inr []
     else
       let w = takeWhile (\<lambda>c. c \<noteq> CHR '','') s in
       and_then (stoi w) (\<lambda>i. and_then (parse_ids (drop (length w + 1) s)) (\<lambda>rest. Inr (i # rest))))"
  by pat_completeness auto
termination by (relation "measure length") (auto simp: Let_def)

declare parse_ids.simps [simp del]

text \<open>The ids as a user writes them, with commas in between.\<close>

fun join_ids :: "int list \<Rightarrow> string" where
  "join_ids [] = []"
| "join_ids [i] = dec_int i"
| "join_ids (i # j # js) = dec_int i @ '','' @ join_ids (j # js)"

text \<open>A list of token ids on the command line is read as written: for ids that fit an \<open>int\<close>, the
  parser of \<open>--ids\<close> returns exactly the numbers that were joined with commas.\<close>

theorem ids_roundtrip:
  assumes "list_all (\<lambda>i. - (2 ^ 31) \<le> i \<and> i < 2 ^ 31) ids"
  shows "parse_ids (join_ids ids) = Inr ids"
  using assms
proof (induction ids rule: join_ids.induct)
  case (2 i)
  have "takeWhile (\<lambda>c. c \<noteq> CHR '','') (dec_int i) = dec_int i"
    using dec_int_no_comma(1)[of i] by (subst takeWhile_eq_all_conv) auto
  note tw = this
  show ?case using 2 dec_int_no_comma(2)[of i] by (subst parse_ids.simps) (simp add: tw stoi_dec_int Let_def parse_ids.simps[of "[]"])
next
  case (3 i j ids)
  have "takeWhile (\<lambda>c. c \<noteq> CHR '','') (dec_int i @ CHR '','' # rest) = dec_int i" for rest
    using dec_int_no_comma(1)[of i] by (subst takeWhile_append2) auto
  then show ?case using 3 dec_int_no_comma(2)[of i] by (subst parse_ids.simps) (simp add: stoi_dec_int Let_def)
qed (simp add: parse_ids.simps)

theorem ids_roundtrip_witness: "parse_ids ''15,-2,7'' = Inr [15, -2, 7]"
proof -
  have "join_ids [15, -2, 7] = ''15,-2,7''" by code_simp
  then show ?thesis using ids_roundtrip[of "[15, -2, 7]"] by simp
qed

text \<open>Without a model, or without a command, no command runs; a run starts with the model's directory in
  the engine's configuration.\<close>

lemma main_dispatch_model:
  assumes "main_dispatch num argv = Inr a"
  shows "a_model a \<noteq> [] \<and> model_dir (a_ecfg a) = a_model a \<and> (a_cmd a = ''generate'' \<or> a_cmd a = ''serve'')"
  using assms
  by (auto simp: main_dispatch_def parse_args_def upd_ecfg_def and_then_Inr split: sum.splits option.splits list.splits if_splits)

subsection \<open>What is printed at the start\<close>

text \<open>\<open>summary\<close> of \<open>src/src/config/config.cpp\<close> and the lines of \<open>cmd_serve\<close>; a stream writes a truth value
  as a digit, \<open>shown\<close> is its text of a float.\<close>

definition bit_text :: "bool \<Rightarrow> string" where
  "bit_text b = (if b then ''1'' else ''0'')"

definition config_summary :: "(rat \<Rightarrow> string) \<Rightarrow> model_config \<Rightarrow> string" where
  "config_summary shown c =
    model_type c @ '': hidden='' @ dec_int (hidden_size c) @ '' layers='' @ dec_int (num_hidden_layers c) @
    '' heads='' @ dec_int (num_attention_heads c) @ ''/'' @ dec_int (num_key_value_heads c) @ '' head_dim='' @ dec_int (head_dim c) @
    '' inter='' @ dec_int (intermediate_size c) @ '' vocab='' @ dec_int (vocab c) @ '' rope_theta='' @ shown (rope_theta c) @
    '' tied='' @ bit_text (tie_word_embeddings c) @ '' qkv_bias='' @ bit_text (attention_bias c)"

definition serve_banner :: "(rat \<Rightarrow> string) \<Rightarrow> model_config \<Rightarrow> args \<Rightarrow> string" where
  "serve_banner shown c a =
    (let e = a_ecfg a in
     ''model: '' @ config_summary shown c @ eol @
     ''backend='' @ backend e @ '' mode='' @ (if continuous (cfg_sched e) then ''continuous'' else ''static'') @
     '' blocks='' @ dec_int (cfg_num_blocks e) @ ''x'' @ dec_int (cfg_block_size e) @
     '' prefix_cache='' @ bit_text (cfg_prefix_caching e) @ eol)"

definition listen_line :: "args \<Rightarrow> string" where
  "listen_line a = ''listening on http://'' @ a_host a @ '':'' @ dec_int (a_port a) @ eol"

end
