(* ===== verification/Generate_Command.thy ===== *)
theory Generate_Command
  imports Client_Log Command_Line Tokenizer
begin

text \<open>
  The command \<open>generate\<close> of \<open>src/src/main.cpp\<close>: the prompt, the submission of the copies, the
  callback that collects their tokens and pieces on the engine thread, the wait for the last copy,
  and the lines printed. The closures are the function \<open>gen_callback\<close> of the copy's number; which
  copy a callback belongs to is the position of its request among the accepted ones. The program
  prints to one stream, so its output is a byte list; elapsed seconds are an argument.
\<close>

subsection \<open>The prompt\<close>

definition generate_prompt :: "tokenizer \<Rightarrow> args \<Rightarrow> int list result option" where
  "generate_prompt tk a =
    (if a_ids a \<noteq> [] then Some (parse_ids (a_ids a))
     else if a_chat a \<noteq> [] then
       (case apply_chat_template tk [\<lparr>role = ascii ''user'', content = ascii (a_chat a)\<rparr>] of
          Inl e \<Rightarrow> Some (Inl e)
        | Inr s \<Rightarrow> encode_for_generation tk s)
     else encode_for_generation tk (ascii (a_prompt a)))"

subsection \<open>Collecting\<close>

record generation =
  g_out_ids :: "token list list"
  g_outputs :: "bytes list"
  g_done :: int
  g_printed :: bytes

definition generation_new :: "int \<Rightarrow> generation result" where
  "generation_new copies =
    (if copies < 0 then Inl Length_Error
     else Inr \<lparr>g_out_ids = replicate (nat copies) [], g_outputs = replicate (nat copies) [], g_done = 0, g_printed = []\<rparr>)"

definition gen_callback ::
  "tokenizer \<Rightarrow> int \<Rightarrow> nat \<Rightarrow> token \<Rightarrow> finish_reason \<Rightarrow> generation \<Rightarrow> generation result" where
  "gen_callback tk copies c t r g =
    (if 0 \<le> t then
       and_then (decode_token tk t) (\<lambda>piece.
         Inr (g\<lparr>g_out_ids := (g_out_ids g)[c := g_out_ids g ! c @ [t]],
                g_outputs := (g_outputs g)[c := g_outputs g ! c @ piece],
                g_printed := g_printed g @ (if copies = 1 then piece else [])\<rparr>))
     else Inr (g\<lparr>g_done := g_done g + 1\<rparr>))"

definition copy_of :: "seq_ref list \<Rightarrow> seq_ref \<Rightarrow> nat" where
  "copy_of rs r = length (takeWhile (\<lambda>x. x \<noteq> r) rs)"

fun gen_run ::
  "tokenizer \<Rightarrow> int \<Rightarrow> seq_ref list \<Rightarrow> callback list \<Rightarrow> generation \<Rightarrow> generation result" where
  "gen_run tk copies rs [] g = Inr g"
| "gen_run tk copies rs (e # es) g =
    (if cb_ref e \<in> set rs
     then and_then (gen_callback tk copies (copy_of rs (cb_ref e)) (cb_token e) (cb_reason e) g) (gen_run tk copies rs es)
     else gen_run tk copies rs es g)"

subsection \<open>Submitting\<close>

text \<open>The seed of a copy is a \<open>uint64_t\<close>. A refused copy throws, and the ones before it stay submitted.\<close>

definition generate_params :: "args \<Rightarrow> nat \<Rightarrow> sampling_params" where
  "generate_params a c =
    default_params\<lparr>max_tokens := a_max_tokens a, temperature := a_temperature a, top_p := a_top_p a,
      seed := nat ((int (cfg_seed (a_ecfg a)) + int c) mod 2 ^ 64)\<rparr>"

fun submit_copies ::
  "token list \<Rightarrow> args \<Rightarrow> token list \<Rightarrow> nat \<Rightarrow> nat \<Rightarrow> engine \<Rightarrow> engine \<times> seq_ref list \<times> engine_error option" where
  "submit_copies ids a prompt c 0 en = (en, [], None)"
| "submit_copies ids a prompt c (Suc k) en =
    (case submit ids prompt (generate_params a c) True en of
       (en1, sub) \<Rightarrow>
         if \<not> submit_ok sub then (en1, [], Some (Runtime_Error (''submit rejected: '' @ sub_reason sub)))
         else
           case submit_copies ids a prompt (Suc c) k en1 of
             (en2, rs, err) \<Rightarrow> (en2, (case sub_seq sub of None \<Rightarrow> rs | Some r \<Rightarrow> r # rs), err))"

definition generate_waits :: "args \<Rightarrow> generation \<Rightarrow> bool" where
  "generate_waits a g \<longleftrightarrow> g_done g \<noteq> a_copies a"

subsection \<open>Printing\<close>

definition generate_stdout :: "args \<Rightarrow> generation \<Rightarrow> bytes" where
  "generate_stdout a g =
    (if a_copies a = 1 then g_printed g @ [10]
     else concat (map (\<lambda>c. ascii (''['' @ digits_of c @ ''] '') @ g_outputs g ! c @ [10]) [0..<nat (a_copies a)]))"

text \<open>The ids of the first copy; with no copy the code reads past the end of an empty vector.\<close>

definition generate_ids :: "generation \<Rightarrow> string option" where
  "generate_ids g =
    (case g_out_ids g of
       [] \<Rightarrow> None
     | ts # _ \<Rightarrow> Some (''ids:'' @ concat (map (\<lambda>t. '' '' @ dec_int t) ts) @ [CHR 0x0A]))"

definition generate_total :: "generation \<Rightarrow> nat" where
  "generate_total g = sum_list (map length (g_out_ids g))"

definition generate_summary :: "(rat \<Rightarrow> string) \<Rightarrow> nat \<Rightarrow> rat \<Rightarrow> generation \<Rightarrow> string" where
  "generate_summary fmt prompt_tokens elapsed g =
    ''prompt_tokens='' @ digits_of prompt_tokens @ '' generated='' @ digits_of (generate_total g) @ '' time='' @ fmt elapsed @
    ''s tok/s='' @ fmt (of_nat (generate_total g) / elapsed) @ [CHR 0x0A]"

subsection \<open>The copies are collected\<close>

lemma copy_of_nth: "distinct rs \<Longrightarrow> c < length rs \<Longrightarrow> copy_of rs (rs ! c) = c"
proof (induction rs arbitrary: c)
  case (Cons r rs)
  then show ?case by (cases c) (auto simp: copy_of_def)
qed simp

lemma copy_of_in: "r \<in> set rs \<Longrightarrow> copy_of rs r < length rs \<and> rs ! copy_of rs r = r"
  by (induction rs) (auto simp: copy_of_def)

lemma decode_all_snoc:
  "decode_all tk ts = Inr b \<Longrightarrow> decode_token tk t = Inr p \<Longrightarrow> decode_all tk (ts @ [t]) = Inr (b @ p)"
  by (induction ts arbitrary: b) (auto split: sum.splits)

definition tokens_for :: "seq_ref \<Rightarrow> callback list \<Rightarrow> token list" where
  "tokens_for r es = map cb_token (filter (\<lambda>e. cb_ref e = r \<and> 0 \<le> cb_token e) es)"

definition decoded :: "tokenizer \<Rightarrow> nat \<Rightarrow> generation \<Rightarrow> bool" where
  "decoded tk n g \<longleftrightarrow> (\<forall>c<n. decode_all tk (g_out_ids g ! c) = Inr (g_outputs g ! c))"

lemma gen_run_spec:
  assumes "distinct rs"
  shows "gen_run tk copies rs es g = Inr g' \<Longrightarrow> length (g_out_ids g) = length rs \<Longrightarrow> length (g_outputs g) = length rs \<Longrightarrow>
    g_done g' = g_done g + int (length (filter (\<lambda>r. r \<in> set rs) (map cb_ref (filter (\<lambda>e. cb_token e < 0) es)))) \<and>
    length (g_out_ids g') = length rs \<and> length (g_outputs g') = length rs \<and>
    (\<forall>c<length rs. g_out_ids g' ! c = g_out_ids g ! c @ tokens_for (rs ! c) es) \<and>
    (decoded tk (length rs) g \<longrightarrow> decoded tk (length rs) g')"
proof (induction es arbitrary: g)
  case (Cons e es)
  show ?case
  proof (cases "cb_ref e \<in> set rs")
    case False
    then have "tokens_for (rs ! c) (e # es) = tokens_for (rs ! c) es" if "c < length rs" for c
      using that by (auto simp: tokens_for_def)
    then show ?thesis using Cons.IH[of g] Cons.prems False by simp
  next
    case True
    let ?c = "copy_of rs (cb_ref e)"
    obtain g1 where g1: "gen_callback tk copies ?c (cb_token e) (cb_reason e) g = Inr g1" "gen_run tk copies rs es g1 = Inr g'"
      using Cons.prems(1) True by (auto simp: and_then_Inr)
    have c: "?c < length rs" "rs ! ?c = cb_ref e" using copy_of_in[OF True] by simp_all
    have neq: "rs ! d \<noteq> cb_ref e" if "d \<noteq> ?c" "d < length rs" for d
      using that c assms nth_eq_iff_index_eq by metis
    show ?thesis
    proof (cases "0 \<le> cb_token e")
      case neg: False
      then have e: "g1 = g\<lparr>g_done := g_done g + 1\<rparr>" using g1(1) by (simp add: gen_callback_def)
      have "tokens_for r (e # es) = tokens_for r es" for r using neg by (simp add: tokens_for_def)
      moreover have "decoded tk n g1 = decoded tk n g" for n by (simp add: e decoded_def)
      ultimately show ?thesis using Cons.IH[OF g1(2)] Cons.prems(2,3) True neg by (simp add: e)
    next
      case pos: True
      then obtain piece where p: "decode_token tk (cb_token e) = Inr piece"
        "g1 = g\<lparr>g_out_ids := (g_out_ids g)[?c := g_out_ids g ! ?c @ [cb_token e]],
                g_outputs := (g_outputs g)[?c := g_outputs g ! ?c @ piece],
                g_printed := g_printed g @ (if copies = 1 then piece else [])\<rparr>"
        using g1(1) by (auto simp: gen_callback_def and_then_Inr)
      have t: "tokens_for (rs ! d) (e # es) = (if d = ?c then [cb_token e] else []) @ tokens_for (rs ! d) es"
        if "d < length rs" for d
      proof (cases "d = ?c")
        case False
        then show ?thesis using neq[OF False that] by (auto simp: tokens_for_def)
      qed (simp add: tokens_for_def pos c(2))
      have "decode_all tk (g_out_ids g ! d) = Inr (g_outputs g ! d) \<Longrightarrow> decode_all tk (g_out_ids g1 ! d) = Inr (g_outputs g1 ! d)"
        if "d < length rs" for d
        using that c(1) Cons.prems(2,3) decode_all_snoc[OF _ p(1)] by (cases "d = ?c") (simp_all add: p(2))
      then have dec: "decoded tk (length rs) g \<longrightarrow> decoded tk (length rs) g1" by (simp add: decoded_def)
      have ids: "g_out_ids g1 ! d = g_out_ids g ! d @ (if d = ?c then [cb_token e] else [])" if "d < length rs" for d
        using that c(1) Cons.prems(2) by (cases "d = ?c") (simp_all add: p(2))
      have "length (g_out_ids g1) = length rs" "length (g_outputs g1) = length rs" "g_done g1 = g_done g"
        using Cons.prems(2,3) by (simp_all add: p(2))
      then show ?thesis using Cons.IH[OF g1(2)] pos t dec ids by simp
    qed
  qed
qed (simp add: tokens_for_def)

lemma submit_copies_spec:
  assumes "prompt \<noteq> []"
  shows "submit_copies ids a prompt c k en = (en', rs, None) \<Longrightarrow> engine_inv en \<Longrightarrow> log_inv en \<Longrightarrow>
    follows en en' \<and> rs = [next_id en..<next_id en + k] \<and> next_id en' = next_id en + k \<and> (\<forall>r\<in>set rs. wants en' r)"
proof (induction k arbitrary: c en rs)
  case 0
  then show ?case by (simp add: follows_refl)
next
  case (Suc k)
  obtain en1 sub where s: "submit ids prompt (generate_params a c) True en = (en1, sub)" by force
  then have ok: "submit_ok sub" using Suc.prems(1) by (auto split: if_splits)
  note acc = submit_accepted[OF s ok]
  have f: "follows en en1" using follows_submit[OF Suc.prems(2,3) assms, of ids "generate_params a c" True] s by simp
  obtain qs where q: "submit_copies ids a prompt (Suc c) k en1 = (en', qs, None)" "rs = next_id en # qs"
    using Suc.prems(1) s ok acc(1) by (auto split: prod.splits)
  have ih: "follows en1 en'" "qs = [next_id en1..<next_id en1 + k]" "next_id en' = next_id en1 + k" "\<forall>r\<in>set qs. wants en' r"
    using Suc.IH[OF q(1) followsD[OF f]] by blast+
  have "wants en' (next_id en)" using ih(1) acc(2,3) by (simp add: follows_def)
  then have "\<forall>r\<in>set rs. wants en' r" using q(2) ih(4) by simp
  moreover have "rs = [next_id en..<next_id en + Suc k]" using q(2) ih(2) acc(2) by (simp add: upt_rec)
  ultimately show ?case using follows_trans[OF f ih(1)] ih(3) acc(2) by simp
qed

lemma told_total:
  assumes "\<And>r. r \<in> set rs \<Longrightarrow> count_list xs r = (if h r then 0 else 1)" "distinct rs"
  shows "length (filter (\<lambda>r. r \<in> set rs) xs) = length (filter (\<lambda>r. \<not> h r) rs)"
proof -
  let ?ys = "filter (\<lambda>r. r \<in> set rs) xs"
  have "length ?ys = (\<Sum>r\<in>set rs. count_list ?ys r)"
    by (rule sum_count_set[symmetric]) auto
  also have "\<dots> = (\<Sum>r\<in>set rs. if h r then 0 else 1)"
  proof (rule sum.cong[OF refl])
    fix r assume "r \<in> set rs"
    then have "count_list ?ys r = count_list xs r" by (induction xs) auto
    then show "count_list ?ys r = (if h r then 0 else 1)" using assms(1) \<open>r \<in> set rs\<close> by simp
  qed
  also have "\<dots> = length (filter (\<lambda>r. \<not> h r) rs)" using assms(2) by (induction rs) simp_all
  finally show ?thesis .
qed


definition demo_args :: args where
  "demo_args = default_args\<lparr>a_copies := 2, a_max_tokens := 1\<rparr>"

definition demo_both :: engine where
  "demo_both = fst (submit_copies [0] demo_args [7] 0 2 (start demo_engine))"

definition demo_both_told :: engine where
  "demo_both_told = result_engine (loop_wake echo 7 8 (result_engine (loop_wake echo 5 6 demo_both)))"

definition demo_generation :: generation where
  "demo_generation = get (gen_run empty_tokenizer 2 [1, 2] (client_log demo_both_told) (get (generation_new 2)))"

lemma get_Inr: "\<not> isl x \<Longrightarrow> x = Inr (get x)"
  by (cases x) (simp_all add: get_def)


end
