(* ===== verification/Serving.thy ===== *)
theory Serving
  imports Client_Log Command_Line Api_Documents
begin

text \<open>
  The command \<open>serve\<close> of \<open>src/src/main.cpp\<close> around the engine and the server: the threads of HTTP
  clients, the step loop, the signal handler and the helper thread that drains, as a step relation
  in which every access sequence to shared state is a step. A client passes the checks of \<open>submit\<close>
  in one step and puts its request into the inbox in a later one, as the code takes the mutex only
  for the second. Continuous batching.
\<close>

subsection \<open>State\<close>

text \<open>Where the step loop is: at the top of \<open>while\<close>, waiting on the condition variable, left, or
  ended by an exception.\<close>

datatype loop_phase = Turning | Asleep | Left | Died

text \<open>The drainer: polling the flag, after \<open>stop_accepting\<close>, in the join of \<open>drain\<close>, after it, after
  \<open>server.stop\<close>.\<close>

datatype drainer = Polling | Announced | Joining | Drained | Closed

record serving =
  sv_engine :: engine
  sv_server :: api_server
  sv_shutdown :: bool
  sv_drainer :: drainer
  sv_loop :: loop_phase
  sv_checked :: nat

definition on_signal :: "serving \<Rightarrow> serving" where
  "on_signal sv = sv\<lparr>sv_shutdown := True\<rparr>"

text \<open>One statement of the drainer; \<open>None\<close> while it waits.\<close>

definition drainer_step :: "serving \<Rightarrow> serving option" where
  "drainer_step sv =
    (case sv_drainer sv of
       Polling \<Rightarrow> if sv_shutdown sv then Some (sv\<lparr>sv_server := stop_accepting (sv_server sv), sv_drainer := Announced\<rparr>) else None
     | Announced \<Rightarrow> Some (sv\<lparr>sv_engine := drain_request (sv_engine sv), sv_drainer := Joining\<rparr>)
     | Joining \<Rightarrow>
         if sv_loop sv = Left \<or> sv_loop sv = Died
         then Some (sv\<lparr>sv_engine := drain_finished (sv_engine sv), sv_drainer := Drained\<rparr>) else None
     | Drained \<Rightarrow> Some (sv\<lparr>sv_server := srv_stop (sv_server sv), sv_drainer := Closed\<rparr>)
     | Closed \<Rightarrow> None)"

text \<open>What the engine thread does with the result of a turn.\<close>

fun loop_outcome :: "nat \<Rightarrow> time_point \<Rightarrow> loop_result \<Rightarrow> (engine \<times> loop_phase) option" where
  "loop_outcome n now (Loop_Continue en) = Some (en, Turning)"
| "loop_outcome n now (Loop_Break en) = map_option (\<lambda>e. (e, Left)) (loop_exit n now en)"
| "loop_outcome n now (Loop_Threw msg en) = map_option (\<lambda>e. (e, Died)) (on_fatal n now msg en)"

definition loop_to :: "serving \<Rightarrow> engine \<times> loop_phase \<Rightarrow> serving" where
  "loop_to sv x = sv\<lparr>sv_engine := fst x, sv_loop := snd x\<rparr>"

inductive serve_step :: "(sched \<Rightarrow> step_input \<Rightarrow> (string + token list)) \<Rightarrow> serving \<Rightarrow> serving \<Rightarrow> bool" for compute where
  http_refused: "submit_refusal (sv_engine sv) = Some r \<Longrightarrow>
    serve_step compute sv (sv\<lparr>sv_engine := count_refusal (sv_engine sv) r\<rparr>)"
| http_checked: "submit_refusal (sv_engine sv) = None \<Longrightarrow> serve_step compute sv (sv\<lparr>sv_checked := Suc (sv_checked sv)\<rparr>)"
| http_pushed: "sv_checked sv = Suc k \<Longrightarrow> prompt \<noteq> [] \<Longrightarrow>
    serve_step compute sv (sv\<lparr>sv_engine := fst (enqueue ids prompt ps cb (sv_engine sv)), sv_checked := k\<rparr>)"
| http_gone: "serve_step compute sv (sv\<lparr>sv_engine := engine_abort i (sv_engine sv)\<rparr>)"
| signalled: "serve_step compute sv (on_signal sv)"
| drainer_moves: "drainer_step sv = Some sv' \<Longrightarrow> serve_step compute sv sv'"
| loop_turns: "sv_loop sv = Turning \<Longrightarrow> en_running (sv_engine sv) \<Longrightarrow> loop_enter compute t0 t1 (sv_engine sv) = Inl r \<Longrightarrow>
    loop_outcome n now r = Some x \<Longrightarrow> serve_step compute sv (loop_to sv x)"
| loop_sleeps: "sv_loop sv = Turning \<Longrightarrow> en_running (sv_engine sv) \<Longrightarrow> loop_enter compute t0 t1 (sv_engine sv) = Inr en' \<Longrightarrow>
    serve_step compute sv (loop_to sv (en', Asleep))"
| loop_wakes: "sv_loop sv = Asleep \<Longrightarrow> loop_outcome n now (loop_wake compute t0 t1 (sv_engine sv)) = Some x \<Longrightarrow>
    serve_step compute sv (loop_to sv x)"
| loop_stops: "sv_loop sv = Turning \<Longrightarrow> \<not> en_running (sv_engine sv) \<Longrightarrow>
    loop_outcome n now (Loop_Break (sv_engine sv)) = Some x \<Longrightarrow> serve_step compute sv (loop_to sv x)"

definition serve_start :: "serving \<Rightarrow> bool" where
  "serve_start sv \<longleftrightarrow> (\<exists>en now. engine_start en \<and>
     sv = \<lparr>sv_engine = loop_begin now (start en), sv_server = api_server_new, sv_shutdown = False, sv_drainer = Polling,
           sv_loop = Turning, sv_checked = 0\<rparr>)"

text \<open>How the command ends when the port cannot be bound: the exception of \<open>listen\<close> unwinds the frame
  that owns the drainer, whose thread is still joinable, and the destructor of a joinable
  \<open>std::thread\<close> terminates the process; the handler of \<open>main\<close> is not reached.\<close>

datatype process_end = Exit_Code int | Terminated

definition serve_end :: "bool \<Rightarrow> args \<Rightarrow> process_end" where
  "serve_end bound a =
    (case srv_listen bound (a_host a) (a_port a) of Inl e \<Rightarrow> Terminated | Inr _ \<Rightarrow> Exit_Code 0)"

subsection \<open>The loop keeps the flags\<close>

definition flags :: "engine \<Rightarrow> bool \<times> bool \<times> bool" where
  "flags en = (accepting en, draining en, en_running en)"

lemma flags_with [simp]: "flags (with_sched now en s) = flags en"
  using callbacks_frame[of "en\<lparr>en_sched := s\<rparr>" now "drop (length (events (en_sched en))) (events s)"]
  by (simp add: flags_def with_sched_def same_but_counters_def)

lemma flags_simps [simp]:
  "flags (refresh_gauges en) = flags en" "flags (mark_progress now en) = flags en"
  "flags (en\<lparr>inbox := b\<rparr>) = flags en" "flags (en\<lparr>abort_inbox := ab\<rparr>) = flags en"
  "flags (en\<lparr>user_cb := u\<rparr>) = flags en" "flags (en\<lparr>en_metrics := m, window_tokens := w, window_start := v\<rparr>) = flags en"
  "flags (en\<lparr>en_metrics := m, window_tokens := w\<rparr>) = flags en"
  by (simp_all add: flags_def refresh_gauges_def mark_progress_def Let_def)

lemma flags_fold: "(\<And>e x. flags (f e x) = flags e) \<Longrightarrow> flags (foldl f en xs) = flags en"
  by (induction xs arbitrary: en) simp_all

lemma flags_take [simp]: "flags (take_inbox now en) = flags en"
  by (simp add: take_inbox_def Let_def flags_fold adopt_def)

lemma flags_compute [simp]: "flags (result_engine (compute_step compute t0 t1 en)) = flags en"
  by (simp add: compute_step_def result_engine_def Let_def split: sum.split prod.split)

lemma flags_body [simp]: "flags (result_engine (loop_body compute t0 t1 en)) = flags en"
  using flags_compute[of compute t0 t1 "take_inbox t0 en"]
  by (simp add: loop_body_def result_engine_def Let_def)

lemma flags_enter:
  "loop_enter compute t0 t1 en = Inl r \<Longrightarrow> flags (result_engine r) = flags en"
  "loop_enter compute t0 t1 en = Inr en' \<Longrightarrow> flags en' = flags en"
  by (auto simp: loop_enter_def result_engine_def[of "Loop_Break en"] split: if_splits)

lemma flags_wake: "flags (result_engine (loop_wake compute t0 t1 en)) = flags en"
  by (auto simp: loop_wake_def result_engine_def[of "Loop_Break en"] result_engine_def[of "Loop_Continue e" for e])

lemma release_flags: "release_waiting n now en = Some en' \<Longrightarrow> flags en' = flags en"
proof (induction n arbitrary: en)
  case 0
  then show ?case by (simp add: release_waiting.simps split: if_splits)
next
  case (Suc n)
  show ?case
  proof (cases "waiting (en_sched en) = []")
    case True
    then show ?thesis using Suc.prems by (simp add: release_waiting.simps)
  next
    case False
    then show ?thesis using Suc
      by (subst (asm) (2) release_waiting.simps) (auto simp: Let_def flags_fold split: sum.splits prod.splits if_splits)
  qed
qed

lemma exit_flags: "loop_exit n now en = Some en' \<Longrightarrow> flags en' = flags en"
  by (auto simp: loop_exit_def abort_running_def flags_fold dest!: release_flags)

text \<open>The loop leaves by \<open>break\<close> only, with nothing pending when the drain flag is set.\<close>

lemma body_no_break: "loop_body compute t0 t1 en \<noteq> Loop_Break e"
  by (auto simp: loop_body_def compute_step_def Let_def split: sum.splits prod.splits if_splits)

lemma enter_break:
  "loop_enter compute t0 t1 en = Inl (Loop_Break e) \<Longrightarrow> e = en \<and> nothing_pending en \<and> draining en"
  using body_no_break by (auto simp: loop_enter_def split: if_splits)

lemma wake_break: "loop_wake compute t0 t1 en = Loop_Break e \<Longrightarrow> e = en \<and> \<not> en_running en"
  using body_no_break by (auto simp: loop_wake_def split: if_splits)

lemma exit_idle: "nothing_pending en \<Longrightarrow> loop_exit n now en = Some (refresh_gauges en)"
  by (simp add: nothing_pending_def has_work_def loop_exit_def abort_running_def release_waiting.simps)

subsection \<open>The invariant\<close>

definition serve_inv :: "serving \<Rightarrow> bool" where
  "serve_inv sv \<longleftrightarrow>
    (let en = sv_engine sv; d = sv_drainer sv; l = sv_loop sv in
     engine_inv en \<and> log_inv en \<and>
     (draining en \<longleftrightarrow> d \<noteq> Polling \<and> d \<noteq> Announced) \<and> (draining en \<longrightarrow> \<not> accepting en) \<and>
     (d \<noteq> Polling \<longrightarrow> \<not> srv_accepting (sv_server sv)) \<and>
     (l = Turning \<or> l = Asleep \<longrightarrow> en_running en \<and> d \<noteq> Drained \<and> d \<noteq> Closed) \<and>
     (l = Left \<longrightarrow> draining en \<and> members (en_sched en) = []))"

text \<open>From the moment the drain begins with no client between its checks and its inbox.\<close>

definition clean_inv :: "serving \<Rightarrow> bool" where
  "clean_inv sv \<longleftrightarrow>
     sv_checked sv = 0 \<and> draining (sv_engine sv) \<and> (sv_loop sv = Left \<longrightarrow> inbox (sv_engine sv) = [])"

lemma serve_invD:
  assumes "serve_inv sv"
  shows "engine_inv (sv_engine sv)" "log_inv (sv_engine sv)"
    "draining (sv_engine sv) \<longleftrightarrow> sv_drainer sv \<noteq> Polling \<and> sv_drainer sv \<noteq> Announced"
    "draining (sv_engine sv) \<Longrightarrow> \<not> accepting (sv_engine sv)"
    "sv_drainer sv \<noteq> Polling \<Longrightarrow> \<not> srv_accepting (sv_server sv)"
    "sv_loop sv = Turning \<or> sv_loop sv = Asleep \<Longrightarrow> en_running (sv_engine sv) \<and> sv_drainer sv \<noteq> Drained \<and> sv_drainer sv \<noteq> Closed"
    "sv_loop sv = Left \<Longrightarrow> draining (sv_engine sv) \<and> members (en_sched (sv_engine sv)) = []"
  using assms by (auto simp: serve_inv_def Let_def)

text \<open>A client that only touches the engine, with its flags and its members as they were.\<close>

lemma client_keeps:
  assumes "serve_inv sv" "follows (sv_engine sv) en" "flags en = flags (sv_engine sv)"
    "members (en_sched en) = members (en_sched (sv_engine sv))"
  shows "serve_inv (sv\<lparr>sv_engine := en\<rparr>)" "serve_inv (sv\<lparr>sv_engine := en, sv_checked := k\<rparr>)"
  using serve_invD[OF assms(1)] assms(2-4) by (auto simp: serve_inv_def Let_def flags_def follows_def)

lemma outcome_cases:
  assumes "loop_outcome n now r = Some x" "follows en (result_engine r)" "flags (result_engine r) = flags en"
  shows "follows en (fst x)" "draining (fst x) = draining en" "accepting (fst x) \<Longrightarrow> accepting en"
    "snd x = Turning \<and> flags (fst x) = flags en \<or> snd x = Died \<or>
     snd x = Left \<and> (\<exists>e. r = Loop_Break e \<and> loop_exit n now e = Some (fst x))"
proof -
  have ex: "follows en e'" "flags e' = flags e"
    if "follows en e" "loop_exit n now e = Some e'" for e e'
    using that follows_trans follows_exit followsD exit_flags by blast+
  have fatal: "follows en (e\<lparr>fatal_error := msg, accepting := False, ready := False, en_running := False\<rparr>)"
    if "follows en e" for e msg
  proof (rule follows_frame[OF that])
    show "engine_inv (e\<lparr>fatal_error := msg, accepting := False, ready := False, en_running := False\<rparr>)"
      by (rule engine_inv_frame[OF followsD(1)[OF that]]) (simp_all add: engine_invD(9)[OF followsD(1)[OF that]])
  qed simp_all
  have "follows en (fst x) \<and> draining (fst x) = draining en \<and> (accepting (fst x) \<longrightarrow> accepting en) \<and>
    (snd x = Turning \<and> flags (fst x) = flags en \<or> snd x = Died \<or>
     snd x = Left \<and> (\<exists>e. r = Loop_Break e \<and> loop_exit n now e = Some (fst x)))"
  proof (cases r)
    case (Loop_Continue e)
    then show ?thesis using assms by (auto simp: result_engine_def flags_def)
  next
    case (Loop_Break e)
    then obtain e' where e: "loop_exit n now e = Some e'" "x = (e', Left)" using assms(1) by auto
    have f: "follows en e" "flags e = flags en" using assms(2,3) Loop_Break by (simp_all add: result_engine_def)
    show ?thesis using ex[OF f(1) e(1)] e Loop_Break f(2) by (simp add: flags_def)
  next
    case (Loop_Threw msg e)
    let ?e = "e\<lparr>fatal_error := msg, accepting := False, ready := False, en_running := False\<rparr>"
    obtain e' where e: "loop_exit n now ?e = Some e'" "x = (e', Died)" using assms(1) Loop_Threw by (auto simp: on_fatal_def)
    have f: "follows en e" "flags e = flags en" using assms(2,3) Loop_Threw by (simp_all add: result_engine_def)
    show ?thesis using ex[OF fatal[OF f(1)] e(1)] e(2) f(2) by (simp add: flags_def)
  qed
  then show "follows en (fst x)" "draining (fst x) = draining en" "accepting (fst x) \<Longrightarrow> accepting en"
    "snd x = Turning \<and> flags (fst x) = flags en \<or> snd x = Died \<or>
     snd x = Left \<and> (\<exists>e. r = Loop_Break e \<and> loop_exit n now e = Some (fst x))"
    by blast+
qed

lemma loop_keeps:
  assumes inv: "serve_inv sv" and o: "loop_outcome n now r = Some x" "follows (sv_engine sv) (result_engine r)"
      "flags (result_engine r) = flags (sv_engine sv)"
    and l: "sv_loop sv = Turning \<or> sv_loop sv = Asleep"
    and b: "\<And>e. r = Loop_Break e \<Longrightarrow> e = sv_engine sv \<and> nothing_pending (sv_engine sv) \<and> draining (sv_engine sv)"
  shows "serve_inv (loop_to sv x) \<and> (clean_inv sv \<longrightarrow> clean_inv (loop_to sv x))"
proof -
  note i = serve_invD[OF inv] and c = outcome_cases[OF o]
  have left: "members (en_sched (fst x)) = [] \<and> inbox (fst x) = [] \<and> draining (sv_engine sv)" if lf: "snd x = Left"
  proof -
    obtain e where e: "r = Loop_Break e" "loop_exit n now e = Some (fst x)" using c(4) lf by auto
    then have p: "nothing_pending (sv_engine sv)" "fst x = refresh_gauges (sv_engine sv)" "draining (sv_engine sv)"
      using b[OF e(1)] exit_idle[of "sv_engine sv" n now] by auto
    then show ?thesis by (simp add: nothing_pending_def has_work_def members_def refresh_gauges_def Let_def)
  qed
  have run: "snd x = Turning \<or> snd x = Asleep \<longrightarrow> en_running (fst x)" using c(4) i(6)[OF l] by (auto simp: flags_def)
  have "serve_inv (loop_to sv x)"
    using i(3,4,5) i(6)[OF l] c(2,3) followsD[OF c(1)] left run by (auto simp: serve_inv_def Let_def loop_to_def)
  then show ?thesis using c(2) left by (auto simp: clean_inv_def loop_to_def)
qed

lemma serve_step_inv:
  assumes inv: "serve_inv sv" and c: "compute_ok compute" and st: "serve_step compute sv sv'"
  shows "serve_inv sv' \<and> (clean_inv sv \<longrightarrow> clean_inv sv')"
proof -
  note i = serve_invD[OF inv]
  note step = follows_step[OF i(1,2) c]
  show ?thesis using st
  proof cases
    case (http_refused r)
    have "engine_inv (count_refusal (sv_engine sv) r)" using i(1) by (simp add: count_refusal_def engine_inv_def)
    then have f: "follows (sv_engine sv) (count_refusal (sv_engine sv) r)"
      by (rule follows_frame[OF follows_refl[OF i(1,2)]]) (simp_all add: count_refusal_def)
    have "flags (count_refusal (sv_engine sv) r) = flags (sv_engine sv)"
      "en_sched (count_refusal (sv_engine sv) r) = en_sched (sv_engine sv)"
      "inbox (count_refusal (sv_engine sv) r) = inbox (sv_engine sv)"
      by (simp_all add: count_refusal_def flags_def)
    then show ?thesis using client_keeps(1)[OF inv f] http_refused by (auto simp: clean_inv_def flags_def)
  next
    case http_checked
    have "serve_inv sv'" using inv http_checked by (auto simp: serve_inv_def Let_def)
    moreover have "accepting (sv_engine sv)" using http_checked by (auto simp: submit_refusal_def split: if_splits)
    ultimately show ?thesis using i(4) by (auto simp: clean_inv_def)
  next
    case (http_pushed k prompt ids ps cb)
    have f: "follows (sv_engine sv) (fst (enqueue ids prompt ps cb (sv_engine sv)))"
      by (rule follows_enqueue[OF i(1,2) http_pushed(3)])
    have "flags (fst (enqueue ids prompt ps cb (sv_engine sv))) = flags (sv_engine sv)"
      "members (en_sched (fst (enqueue ids prompt ps cb (sv_engine sv)))) = members (en_sched (sv_engine sv))"
      by (simp_all add: enqueue_def flags_def Let_def)
    then show ?thesis using client_keeps(2)[OF inv f] http_pushed by (simp add: clean_inv_def)
  next
    case (http_gone j)
    have f: "follows (sv_engine sv) (engine_abort j (sv_engine sv))" by (rule step[OF engine_step.client_abort])
    have "flags (engine_abort j (sv_engine sv)) = flags (sv_engine sv)"
      "en_sched (engine_abort j (sv_engine sv)) = en_sched (sv_engine sv)"
      "inbox (engine_abort j (sv_engine sv)) = inbox (sv_engine sv)"
      by (simp_all add: engine_abort_def flags_def)
    then show ?thesis using client_keeps(1)[OF inv f] http_gone by (auto simp: clean_inv_def flags_def)
  next
    case signalled
    then show ?thesis using inv by (auto simp: serve_inv_def clean_inv_def on_signal_def Let_def)
  next
    case drainer_moves
    then show ?thesis
      using i followsD[OF step[OF engine_step.control_drain]] followsD[OF step[OF engine_step.control_drained]]
      by (auto simp: drainer_step_def serve_inv_def clean_inv_def Let_def stop_accepting_def srv_stop_def
          drain_request_def drain_finished_def split: drainer.splits if_splits)
  next
    case (loop_turns t0 t1 r n now x)
    have f: "follows (sv_engine sv) (result_engine r)" by (rule step[OF engine_step.loop_turn[OF loop_turns(3,4)]])
    show ?thesis unfolding loop_turns(1)
      by (rule loop_keeps[OF inv loop_turns(5) f flags_enter(1)[OF loop_turns(4)]])
        (use loop_turns(2,4) enter_break in auto)
  next
    case (loop_sleeps t0 t1 en')
    have f: "follows (sv_engine sv) en'" by (rule step[OF engine_step.loop_sleep[OF loop_sleeps(3,4)]])
    show ?thesis using i followsD[OF f] flags_enter(2)[OF loop_sleeps(4)] loop_sleeps(1,2)
      by (auto simp: serve_inv_def clean_inv_def Let_def loop_to_def flags_def)
  next
    case (loop_wakes n now t0 t1 x)
    have f: "follows (sv_engine sv) (result_engine (loop_wake compute t0 t1 (sv_engine sv)))"
      by (rule step[OF engine_step.loop_woken])
    show ?thesis unfolding loop_wakes(1)
      by (rule loop_keeps[OF inv loop_wakes(3) f flags_wake]) (use loop_wakes(2) i(6) wake_break in auto)
  next
    case (loop_stops n now x)
    then show ?thesis using i(6) by blast
  qed
qed

definition serve_good :: "(sched \<Rightarrow> step_input \<Rightarrow> (string + token list)) \<Rightarrow> serving \<Rightarrow> bool" where
  "serve_good compute sv \<longleftrightarrow> (compute_ok compute \<longrightarrow> serve_inv sv)"

lemma serve_start_inv:
  assumes "serve_start sv"
  shows "serve_inv sv"
proof -
  from assms obtain en now where e: "engine_start en"
    "sv = \<lparr>sv_engine = loop_begin now (start en), sv_server = api_server_new, sv_shutdown = False, sv_drainer = Polling,
           sv_loop = Turning, sv_checked = 0\<rparr>"
    by (auto simp: serve_start_def)
  note g = engine_new_inv[OF e(1)] engine_start_log[OF e(1)]
  have f: "follows en (start en)"
    by (rule follows_frame[OF follows_refl[OF g] flags_inv(1)[OF g(1)]]) (simp_all add: start_def)
  have f: "follows en (loop_begin now (start en))"
    by (rule follows_frame[OF f flags_inv(6)[OF followsD(1)[OF f]]]) (simp_all add: loop_begin_def mark_progress_def)
  obtain cuda cfg where "engine_new cuda cfg = Inr en" using e(1) by (auto simp: engine_start_def)
  then have "\<not> draining en" "\<not> en_running en" by (auto simp: engine_new_def split: sum.splits)
  then show ?thesis using followsD[OF f] e(2)
    by (simp add: serve_inv_def Let_def loop_begin_def mark_progress_def start_def)
qed

interpretation draining_server: safe_system serve_start "serve_step compute" "serve_good compute"
  by unfold_locales (auto simp: serve_good_def serve_start_inv serve_step_inv)


subsection \<open>Two runs\<close>

definition demo_serving :: serving where
  "demo_serving = \<lparr>sv_engine = loop_begin 3 (start demo_engine), sv_server = api_server_new, sv_shutdown = False,
     sv_drainer = Polling, sv_loop = Turning, sv_checked = 0\<rparr>"

definition demo_check :: "serving \<Rightarrow> serving" where
  "demo_check sv = sv\<lparr>sv_checked := Suc (sv_checked sv)\<rparr>"

definition demo_push :: "serving \<Rightarrow> serving" where
  "demo_push sv = sv\<lparr>sv_engine := fst (enqueue [0] [7] demo_params True (sv_engine sv)), sv_checked := sv_checked sv - 1\<rparr>"

definition demo_turn :: "serving \<Rightarrow> serving" where
  "demo_turn sv = loop_to sv (the (loop_outcome 9 7 (case loop_enter echo 5 6 (sv_engine sv) of Inl r \<Rightarrow> r)))"

definition demo_drain :: "serving \<Rightarrow> serving" where
  "demo_drain sv = the (drainer_step sv)"

lemma demo_steps:
  "Option.is_none (submit_refusal (sv_engine sv)) \<Longrightarrow> serve_step echo sv (demo_check sv)"
  "0 < sv_checked sv \<Longrightarrow> serve_step echo sv (demo_push sv)"
  "\<not> Option.is_none (drainer_step sv) \<Longrightarrow> serve_step echo sv (demo_drain sv)"
  "sv_loop sv = Turning \<Longrightarrow> en_running (sv_engine sv) \<Longrightarrow> isl (loop_enter echo 5 6 (sv_engine sv)) \<Longrightarrow>
    \<not> Option.is_none (loop_outcome 9 7 (case loop_enter echo 5 6 (sv_engine sv) of Inl r \<Rightarrow> r)) \<Longrightarrow>
    serve_step echo sv (demo_turn sv)"
proof -
  show "Option.is_none (submit_refusal (sv_engine sv)) \<Longrightarrow> serve_step echo sv (demo_check sv)"
    unfolding demo_check_def by (rule serve_step.http_checked) (simp add: Option.is_none_def)
  show "0 < sv_checked sv \<Longrightarrow> serve_step echo sv (demo_push sv)"
    unfolding demo_push_def by (cases "sv_checked sv") (auto intro: serve_step.http_pushed)
  show "\<not> Option.is_none (drainer_step sv) \<Longrightarrow> serve_step echo sv (demo_drain sv)"
    by (auto simp: demo_drain_def Option.is_none_def intro: serve_step.drainer_moves)
  show "sv_loop sv = Turning \<Longrightarrow> en_running (sv_engine sv) \<Longrightarrow> isl (loop_enter echo 5 6 (sv_engine sv)) \<Longrightarrow>
    \<not> Option.is_none (loop_outcome 9 7 (case loop_enter echo 5 6 (sv_engine sv) of Inl r \<Rightarrow> r)) \<Longrightarrow>
    serve_step echo sv (demo_turn sv)"
    by (auto simp: demo_turn_def Option.is_none_def isl_def intro: serve_step.loop_turns)
qed

lemma demo_serving_start: "reachable serve_start (serve_step echo) demo_serving"
  by (rule reachable.reach_init) (use demo_engine_start in \<open>auto simp: serve_start_def demo_serving_def\<close>)

text \<open>A request, a signal, the drain.\<close>

definition demo_announced :: serving where
  "demo_announced = demo_drain (on_signal (demo_push (demo_check demo_serving)))"

definition demo_closed :: serving where
  "demo_closed = demo_drain (demo_drain (demo_turn (demo_turn (demo_drain demo_announced))))"


text \<open>Without the condition on the moment the drain begins, a request can be lost: its client passed
  the checks before, the loop found nothing pending and left, and the inbox it is then put into is
  not looked at again.\<close>

definition demo_stranded :: serving where
  "demo_stranded = demo_push (demo_drain (demo_drain (demo_turn (demo_drain (demo_drain (on_signal (demo_check demo_serving)))))))"

theorem drain_can_strand:
  "reachable serve_start (serve_step echo) demo_stranded \<and> sv_drainer demo_stranded = Closed \<and>
   sv_loop demo_stranded = Left \<and> held (sv_engine demo_stranded) 1 \<and> client_terminals (sv_engine demo_stranded) = []"
proof -
  let ?a = "demo_check demo_serving"
  let ?b = "demo_drain (on_signal ?a)"
  let ?c = "demo_turn (demo_drain ?b)"
  have s: "serve_step echo demo_serving ?a" "serve_step echo (on_signal ?a) ?b" "serve_step echo ?b (demo_drain ?b)"
    "serve_step echo (demo_drain ?b) ?c" "serve_step echo ?c (demo_drain ?c)"
    "serve_step echo (demo_drain ?c) (demo_drain (demo_drain ?c))"
    "serve_step echo (demo_drain (demo_drain ?c)) demo_stranded"
    unfolding demo_stranded_def by (rule demo_steps; code_simp)+
  have "reachable serve_start (serve_step echo) ?b"
    by (rule reachable.reach_step, rule reachable.reach_step, rule reachable.reach_step,
        rule demo_serving_start, rule s(1), rule serve_step.signalled, rule s(2))
  then have "reachable serve_start (serve_step echo) (demo_drain ?c)"
    by (rule reachable.reach_step[THEN reachable.reach_step, THEN reachable.reach_step]) (rule s(3), rule s(4), rule s(5))
  then have "reachable serve_start (serve_step echo) demo_stranded"
    by (rule reachable.reach_step[THEN reachable.reach_step]) (rule s(6), rule s(7))
  moreover have "sv_drainer demo_stranded = Closed" "sv_loop demo_stranded = Left" "held (sv_engine demo_stranded) 1"
    "client_terminals (sv_engine demo_stranded) = []" by code_simp+
  ultimately show ?thesis by blast
qed

text \<open>A port that cannot be bound takes the whole process down.\<close>

lemma bind_failure_terminates: "serve_end False a = Terminated"
  by (simp add: serve_end_def srv_listen_def)

end
