(* ===== verification/Thread_Pool.thy ===== *)
theory Thread_Pool
  imports Engine_Prelude
begin

text \<open>
  \<open>ThreadPool\<close> of \<open>src/include/engine/parallel.h\<close>: a persistent pool whose workers wait for a new
  generation, run their part of the range and count down. The pool is a step relation: every
  critical section under \<open>m_\<close> is one step, running a part is another, and the steps of the
  caller and of the workers interleave freely. \<open>ran\<close> is a ghost list of the parts run in the
  current call. The \<open>uint64_t\<close> generation is a \<open>nat\<close>; it would take \<open>2^64\<close> calls to wrap.
\<close>

subsection \<open>The partition\<close>

definition part_range :: "nat \<Rightarrow> nat \<Rightarrow> nat \<Rightarrow> nat \<times> nat" where
  "part_range n cnt idx =
    (let per = (cnt + n - 1) div n; b = per * idx in (b, min cnt (b + per)))"

text \<open>The indices \<open>run_part(idx)\<close> passes to the body; an empty part does not call it.\<close>

definition run_part :: "nat \<Rightarrow> nat \<Rightarrow> nat \<Rightarrow> nat list" where
  "run_part n cnt idx = (case part_range n cnt idx of (b, e) \<Rightarrow> if b < e then [b..<e] else [])"

lemma parts_prefix:
  "concat (map (run_part n cnt) [0..<m]) = [0..<min cnt ((cnt + n - 1) div n * m)]"
proof (induction m)
  case (Suc m)
  define per where "per = (cnt + n - 1) div n"
  let ?a = "min cnt (per * m)" and ?b = "min cnt (per * Suc m)"
  have "run_part n cnt m = [?a..<?b]"
    unfolding run_part_def part_range_def Let_def per_def[symmetric] by (auto simp: min_def add.commute)
  moreover have "?a \<le> ?b" by (auto simp: min_def)
  then have "[0..<?a] @ [?a..<?b] = [0..<?b]" using upt_add_eq_append[of 0 ?a "?b - ?a"] by simp
  ultimately show ?case using Suc by (simp add: per_def)
qed simp

lemma parts_cover:
  assumes "0 < n"
  shows "concat (map (run_part n cnt) [0..<n]) = [0..<cnt]"
proof -
  have "cnt \<le> (cnt + n - 1) div n * n"
    using assms div_mult_mod_eq[of "cnt + n - 1" n] mod_less_divisor[OF assms, of "cnt + n - 1"] by linarith
  then show ?thesis by (simp add: parts_prefix min_absorb1)
qed

subsection \<open>The protocol\<close>

datatype worker = Sleeping | Working | Counting | Exited

datatype caller = Outside | Own_Part | Awaiting | Joined

record pool =
  p_n :: nat
  generation :: nat
  remaining :: nat
  p_stop :: bool
  p_count :: nat
  seen :: "nat \<Rightarrow> nat"
  workers :: "nat \<Rightarrow> worker"
  p_caller :: caller
  ran :: "nat list"

definition pool_new :: "int \<Rightarrow> pool" where
  "pool_new threads =
    \<lparr>p_n = (if 1 < threads then nat threads else 1), generation = 0, remaining = 0, p_stop = False, p_count = 0,
     seen = (\<lambda>_. 0), workers = (\<lambda>_. Sleeping), p_caller = Outside, ran = []\<rparr>"

text \<open>\<open>parallel_for\<close> without the pool: nothing to do, or one thread or one item.\<close>

definition serial_for :: "pool \<Rightarrow> nat \<Rightarrow> nat list option" where
  "serial_for p cnt = (if cnt = 0 then Some [] else if p_n p = 1 \<or> cnt = 1 then Some [0..<cnt] else None)"

definition post :: "nat \<Rightarrow> pool \<Rightarrow> pool" where
  "post cnt p = p\<lparr>p_count := cnt, remaining := p_n p - 1, generation := generation p + 1,
     p_caller := Own_Part, ran := []\<rparr>"

definition caller_part :: "pool \<Rightarrow> pool" where
  "caller_part p = p\<lparr>ran := ran p @ [0], p_caller := Awaiting\<rparr>"

definition caller_return :: "pool \<Rightarrow> pool" where
  "caller_return p = p\<lparr>p_caller := Outside\<rparr>"

definition worker_wake :: "nat \<Rightarrow> pool \<Rightarrow> pool" where
  "worker_wake i p = p\<lparr>seen := (seen p)(i := generation p),
     workers := (workers p)(i := if p_stop p then Exited else Working)\<rparr>"

definition worker_part :: "nat \<Rightarrow> pool \<Rightarrow> pool" where
  "worker_part i p = p\<lparr>ran := ran p @ [i], workers := (workers p)(i := Counting)\<rparr>"

definition worker_done :: "nat \<Rightarrow> pool \<Rightarrow> pool" where
  "worker_done i p = p\<lparr>remaining := remaining p - 1, workers := (workers p)(i := Sleeping)\<rparr>"

definition pool_shutdown :: "pool \<Rightarrow> pool" where
  "pool_shutdown p = p\<lparr>p_stop := True, generation := generation p + 1, p_caller := Joined\<rparr>"

inductive pool_step :: "pool \<Rightarrow> pool \<Rightarrow> bool" where
  post: "p_caller p = Outside \<Longrightarrow> 1 < p_n p \<Longrightarrow> 1 < cnt \<Longrightarrow> pool_step p (post cnt p)"
| own: "p_caller p = Own_Part \<Longrightarrow> pool_step p (caller_part p)"
| wake: "1 \<le> i \<Longrightarrow> i < p_n p \<Longrightarrow> workers p i = Sleeping \<Longrightarrow> seen p i \<noteq> generation p \<Longrightarrow> pool_step p (worker_wake i p)"
| part: "1 \<le> i \<Longrightarrow> i < p_n p \<Longrightarrow> workers p i = Working \<Longrightarrow> pool_step p (worker_part i p)"
| counted: "1 \<le> i \<Longrightarrow> i < p_n p \<Longrightarrow> workers p i = Counting \<Longrightarrow> pool_step p (worker_done i p)"
| return: "p_caller p = Awaiting \<Longrightarrow> remaining p = 0 \<Longrightarrow> pool_step p (caller_return p)"
| shutdown: "p_caller p = Outside \<Longrightarrow> 1 < p_n p \<Longrightarrow> pool_step p (pool_shutdown p)"

definition pool_reachable :: "pool \<Rightarrow> bool" where
  "pool_reachable p = (\<exists>threads. pool_step\<^sup>*\<^sup>* (pool_new threads) p)"

subsection \<open>The invariant\<close>

text \<open>A worker has still to count down in this call, or has still to run its part.\<close>

definition pending :: "pool \<Rightarrow> nat set" where
  "pending p = {i. 1 \<le> i \<and> i < p_n p \<and> (seen p i \<noteq> generation p \<or> workers p i \<noteq> Sleeping)}"

definition unrun :: "pool \<Rightarrow> nat set" where
  "unrun p = {i. 1 \<le> i \<and> i < p_n p \<and> (seen p i \<noteq> generation p \<or> workers p i = Working)}"

definition pool_inv :: "pool \<Rightarrow> bool" where
  "pool_inv p =
    (0 < p_n p \<and>
     (p_caller p \<noteq> Joined \<longrightarrow>
       \<not> p_stop p \<and>
       (\<forall>i \<in> {1..<p_n p}. workers p i \<noteq> Exited \<and> (seen p i \<noteq> generation p \<longrightarrow> workers p i = Sleeping)) \<and>
       remaining p = card (pending p) \<and>
       (p_caller p = Outside \<longrightarrow> pending p = {}) \<and>
       (p_caller p \<noteq> Outside \<longrightarrow> distinct (ran p) \<and>
          set (ran p) = ({1..<p_n p} - unrun p) \<union> (if p_caller p = Own_Part then {} else {0}))))"

lemma finite_pending [simp]: "finite (pending p)"
  by (rule finite_subset[of _ "{..<p_n p}"]) (auto simp: pending_def)

lemma pool_new_inv: "pool_inv (pool_new threads)"
  by (auto simp: pool_inv_def pool_new_def pending_def)

lemma worker_wake_inv:
  assumes "pool_inv p" "1 \<le> i" "i < p_n p" "workers p i = Sleeping" "seen p i \<noteq> generation p"
  shows "pool_inv (worker_wake i p)"
proof (cases "p_caller p = Joined")
  case False
  have "i \<in> pending p" using assms by (simp add: pending_def)
  then have "p_caller p \<noteq> Outside" using assms(1) False by (auto simp: pool_inv_def)
  moreover have "pending (worker_wake i p) = pending p" "unrun (worker_wake i p) = unrun p"
    using assms False by (auto simp: pending_def unrun_def worker_wake_def pool_inv_def)
  ultimately show ?thesis using assms(1) False by (simp add: pool_inv_def) (simp add: worker_wake_def)
qed (use assms in \<open>simp add: pool_inv_def worker_wake_def\<close>)

lemma worker_part_inv:
  assumes "pool_inv p" "1 \<le> i" "i < p_n p" "workers p i = Working"
  shows "pool_inv (worker_part i p)"
proof (cases "p_caller p = Joined")
  case False
  have s: "seen p i = generation p" using assms False by (auto simp: pool_inv_def)
  have "i \<in> pending p" "i \<in> unrun p" using assms by (simp_all add: pending_def unrun_def)
  then have "p_caller p \<noteq> Outside" using assms(1) False by (auto simp: pool_inv_def)
  moreover have "pending (worker_part i p) = pending p" "unrun (worker_part i p) = unrun p - {i}"
    using assms s by (auto simp: pending_def unrun_def worker_part_def)
  ultimately show ?thesis
    using assms False \<open>i \<in> unrun p\<close> s by (auto simp: pool_inv_def worker_part_def)
qed (use assms in \<open>simp add: pool_inv_def worker_part_def\<close>)

lemma worker_done_inv:
  assumes "pool_inv p" "1 \<le> i" "i < p_n p" "workers p i = Counting"
  shows "pool_inv (worker_done i p)"
proof (cases "p_caller p = Joined")
  case False
  have s: "seen p i = generation p" using assms False by (auto simp: pool_inv_def)
  have "i \<in> pending p" using assms by (simp add: pending_def)
  then have o: "p_caller p \<noteq> Outside" using assms(1) False by (auto simp: pool_inv_def)
  have "pending (worker_done i p) = pending p - {i}" "unrun (worker_done i p) = unrun p"
    using assms s by (auto simp: pending_def unrun_def worker_done_def)
  then show ?thesis
    using assms False \<open>i \<in> pending p\<close> s o by (auto simp: pool_inv_def worker_done_def)
qed (use assms in \<open>simp add: pool_inv_def worker_done_def\<close>)

lemma post_inv:
  assumes "pool_inv p" "p_caller p = Outside"
  shows "pool_inv (post cnt p)"
proof -
  have i: "\<forall>i \<in> {1..<p_n p}. seen p i = generation p \<and> workers p i = Sleeping" "0 < p_n p"
    using assms by (auto simp: pool_inv_def pending_def)
  then have "pending (post cnt p) = {1..<p_n p}" "unrun (post cnt p) = {1..<p_n p}"
    by (auto simp: pending_def unrun_def post_def)
  then show ?thesis using assms i by (simp add: pool_inv_def) (simp add: post_def)
qed

lemma caller_inv:
  assumes "pool_inv p"
  shows "p_caller p = Own_Part \<Longrightarrow> pool_inv (caller_part p)"
    "p_caller p = Awaiting \<Longrightarrow> remaining p = 0 \<Longrightarrow> pool_inv (caller_return p)"
    "pool_inv (pool_shutdown p)"
proof -
  have "pending (caller_part p) = pending p" "unrun (caller_part p) = unrun p"
    by (simp_all add: pending_def unrun_def caller_part_def)
  then show "p_caller p = Own_Part \<Longrightarrow> pool_inv (caller_part p)"
    using assms by (auto simp: pool_inv_def caller_part_def)
  have "pending (caller_return p) = pending p" by (simp add: pending_def caller_return_def)
  then show "p_caller p = Awaiting \<Longrightarrow> remaining p = 0 \<Longrightarrow> pool_inv (caller_return p)"
    using assms by (auto simp: pool_inv_def caller_return_def)
  show "pool_inv (pool_shutdown p)" using assms by (simp add: pool_inv_def pool_shutdown_def)
qed

lemma pool_step_inv: "pool_step p q \<Longrightarrow> pool_inv p \<Longrightarrow> pool_inv q"
  by (induction rule: pool_step.induct)
     (auto intro: post_inv caller_inv worker_wake_inv worker_part_inv worker_done_inv)

lemma pool_reachable_inv: "pool_reachable p \<Longrightarrow> pool_inv p"
proof -
  have "pool_step\<^sup>*\<^sup>* p q \<Longrightarrow> pool_inv p \<Longrightarrow> pool_inv q" for p q
    by (induction rule: rtranclp_induct) (auto intro: pool_step_inv)
  then show "pool_reachable p \<Longrightarrow> pool_inv p" using pool_new_inv by (auto simp: pool_reachable_def)
qed

lemma pool_all_ran:
  assumes "pool_inv p" "p_caller p = Awaiting" "remaining p = 0"
  shows "mset (ran p) = mset [0..<p_n p]"
proof -
  have "pending p = {}" using assms by (auto simp: pool_inv_def)
  then have "unrun p = {}" by (auto simp: pending_def unrun_def)
  then have "set (ran p) = {0..<p_n p}" "distinct (ran p)" using assms by (auto simp: pool_inv_def)
  then show ?thesis by (metis distinct_upt set_eq_iff_mset_eq_distinct set_upt)
qed

lemma parts_multiset:
  "mset ids = mset [0..<n] \<Longrightarrow> 0 < n \<Longrightarrow> mset (concat (map (run_part n cnt) ids)) = mset [0..<cnt]"
proof -
  assume m: "mset ids = mset [0..<n]" "0 < n"
  have "mset (concat (map f xs)) = (\<Sum>x \<in># mset xs. mset (f x))" for f :: "nat \<Rightarrow> nat list" and xs
    by (induction xs) auto
  then show ?thesis using m parts_cover[OF m(2), of cnt] by metis
qed

subsection \<open>Returning\<close>

text \<open>The steps a call has still to take: three for each worker, two for the caller.\<close>

definition worker_steps :: "pool \<Rightarrow> nat \<Rightarrow> nat" where
  "worker_steps p i =
    (if seen p i \<noteq> generation p then 3 else case workers p i of Working \<Rightarrow> 2 | Counting \<Rightarrow> 1 | _ \<Rightarrow> 0)"

definition steps_left :: "pool \<Rightarrow> nat" where
  "steps_left p = (\<Sum>i \<in> {1..<p_n p}. worker_steps p i) + (case p_caller p of Own_Part \<Rightarrow> 2 | Awaiting \<Rightarrow> 1 | _ \<Rightarrow> 0)"

lemma worker_moves:
  assumes "p_n q = p_n p" "p_caller q = p_caller p" "1 \<le> i" "i < p_n p" "worker_steps q i < worker_steps p i"
    "\<And>k. k \<noteq> i \<Longrightarrow> worker_steps q k = worker_steps p k"
  shows "steps_left q < steps_left p"
proof -
  have "worker_steps q k \<le> worker_steps p k" for k using assms(5,6) by (cases "k = i") auto
  then have "(\<Sum>k \<in> {1..<p_n p}. worker_steps q k) < (\<Sum>k \<in> {1..<p_n p}. worker_steps p k)"
    by (intro sum_strict_mono_ex1) (use assms(3-5) in auto)
  then show ?thesis by (simp add: steps_left_def assms(1,2))
qed

lemma caller_worker_steps [simp]:
  "worker_steps (caller_part p) i = worker_steps p i" "worker_steps (caller_return p) i = worker_steps p i"
  by (simp_all add: worker_steps_def caller_part_def caller_return_def)

lemma pool_step_shrinks:
  assumes "pool_inv p" "p_caller p = Own_Part \<or> p_caller p = Awaiting" "pool_step p q"
  shows "steps_left q < steps_left p"
  using assms(3)
proof cases
  case own
  moreover have "p_n (caller_part p) = p_n p" "p_caller (caller_part p) = Awaiting" by (simp_all add: caller_part_def)
  ultimately show ?thesis by (simp add: steps_left_def)
next
  case (wake i)
  have "\<not> p_stop p" using assms(1,2) by (auto simp: pool_inv_def)
  then show ?thesis unfolding wake(1) by (intro worker_moves[of _ p i]) (use wake in \<open>auto simp: worker_wake_def worker_steps_def\<close>)
next
  case (part i)
  then have "seen p i = generation p" using assms(1,2) by (auto simp: pool_inv_def)
  then show ?thesis unfolding part(1) by (intro worker_moves[of _ p i]) (use part in \<open>auto simp: worker_part_def worker_steps_def\<close>)
next
  case (counted i)
  then have "seen p i = generation p" using assms(1,2) by (auto simp: pool_inv_def)
  then show ?thesis unfolding counted(1) by (intro worker_moves[of _ p i]) (use counted in \<open>auto simp: worker_done_def worker_steps_def\<close>)
next
  case return
  moreover have "p_n (caller_return p) = p_n p" "p_caller (caller_return p) = Outside" by (simp_all add: caller_return_def)
  ultimately show ?thesis by (simp add: steps_left_def)
qed (use assms(2) in auto)

lemma pool_step_enabled:
  assumes inv: "pool_inv p" and c: "p_caller p = Own_Part \<or> p_caller p = Awaiting"
  shows "\<exists>q. pool_step p q"
proof (cases "p_caller p = Own_Part \<or> remaining p = 0")
  case True
  then show ?thesis using c pool_step.own pool_step.return by blast
next
  case False
  have r: "remaining p = card (pending p)" using inv c by (auto simp: pool_inv_def)
  then obtain i where i: "i \<in> pending p" using False by (metis card.empty equals0I)
  then have ix: "1 \<le> i" "i < p_n p" by (simp_all add: pending_def)
  have w: "workers p i \<noteq> Exited" "seen p i \<noteq> generation p \<longrightarrow> workers p i = Sleeping"
    using inv c ix by (auto simp: pool_inv_def)
  consider "workers p i = Sleeping" "seen p i \<noteq> generation p" | "workers p i = Working" | "workers p i = Counting"
    using i w by (cases "workers p i") (auto simp: pending_def)
  then show ?thesis using pool_step.wake pool_step.part pool_step.counted ix by cases blast+
qed

text \<open>C32: A parallel loop does all its work exactly once and returns. In the middle of a call, over any
  number of earlier calls, some thread can always take a step, and each step of whichever thread
  brings the call closer to its end, so no interleaving deadlocks or runs for ever; and when
  \<open>parallel_for\<close> may return, the parts that were run in this call visit every index once.\<close>

theorem parallel_for_complete:
  assumes "pool_reachable p" "p_caller p = Own_Part \<or> p_caller p = Awaiting"
  shows "(\<exists>q. pool_step p q) \<and> (\<forall>q. pool_step p q \<longrightarrow> steps_left q < steps_left p) \<and>
    (p_caller p = Awaiting \<and> remaining p = 0 \<longrightarrow>
      mset (concat (map (run_part (p_n p) (p_count p)) (ran p))) = mset [0..<p_count p])"
proof -
  have inv: "pool_inv p" "0 < p_n p" using pool_reachable_inv[OF assms(1)] by (simp_all add: pool_inv_def)
  show ?thesis
    using pool_step_enabled[OF inv(1) assms(2)] pool_step_shrinks[OF inv(1) assms(2)]
      parts_multiset[OF pool_all_ran[OF inv(1)] inv(2)] by blast
qed

definition demo_run :: pool where
  "demo_run = worker_done 1 (caller_part (worker_part 1 (worker_wake 1 (post 5 (pool_new 2)))))"

lemma demo_run_reachable: "pool_reachable demo_run"
proof -
  let ?p1 = "post 5 (pool_new 2)"
  let ?p2 = "worker_wake 1 ?p1"
  let ?p3 = "worker_part 1 ?p2"
  let ?p4 = "caller_part ?p3"
  have "pool_step (pool_new 2) ?p1" by (rule pool_step.post) (simp_all add: pool_new_def)
  moreover have "pool_step ?p1 ?p2" by (rule pool_step.wake) (simp_all add: pool_new_def post_def)
  moreover have "pool_step ?p2 ?p3" by (rule pool_step.part) (simp_all add: pool_new_def post_def worker_wake_def)
  moreover have "pool_step ?p3 ?p4"
    by (rule pool_step.own) (simp add: pool_new_def post_def worker_wake_def worker_part_def)
  moreover have "pool_step ?p4 (worker_done 1 ?p4)"
    by (rule pool_step.counted) (simp_all add: pool_new_def post_def worker_wake_def worker_part_def caller_part_def)
  ultimately have "pool_step\<^sup>*\<^sup>* (pool_new 2) demo_run" unfolding demo_run_def
    by (intro rtranclp.rtrancl_into_rtrancl[OF rtranclp.rtrancl_into_rtrancl[OF rtranclp.rtrancl_into_rtrancl[OF
          rtranclp.rtrancl_into_rtrancl[OF r_into_rtranclp[of pool_step]]]]])
  then show ?thesis by (auto simp: pool_reachable_def)
qed

theorem parallel_for_complete_witness:
  "mset (concat (map (run_part (p_n demo_run) (p_count demo_run)) (ran demo_run))) = mset [0..<p_count demo_run] \<and>
   (\<exists>q. pool_step demo_run q)"
proof -
  have "p_caller demo_run = Awaiting" "remaining demo_run = 0"
    by (simp_all add: demo_run_def pool_new_def post_def worker_wake_def worker_part_def caller_part_def worker_done_def)
  then show ?thesis using parallel_for_complete[OF demo_run_reachable] by blast
qed

end
