(* ===== verification/Parallel_Attention.thy ===== *)
theory Parallel_Attention
  imports Cpu_Model Thread_Pool Decimal
begin

text \<open>
  The attention loop of \<open>src/src/model/cpu/cpu_model.cpp\<close> on the pool of
  \<open>src/include/engine/parallel.h\<close>: one item per token and head, written into its own slice of the
  output buffer, serially or by the parts of a parallel call, and the number of threads. The items
  of different parts may be written in any order; an order is a list of items.
\<close>

subsection \<open>The items\<close>

text \<open>What the item \<open>w\<close> computes, and where it writes it.\<close>

definition attention_item ::
  "('f, 'd) float_ops \<Rightarrow> 'f cpu_model \<Rightarrow> (seq_ref \<Rightarrow> seq) \<Rightarrow> nat \<Rightarrow> 'f list \<Rightarrow> 'f list \<Rightarrow> 'f list \<Rightarrow>
   packed_token list \<Rightarrow> nat \<Rightarrow> 'f list" where
  "attention_item ops m hp bs q kc vc ts w =
    (let cfg = cm_cfg m; H = nat (hidden_size cfg); hd = nat (head_dim cfg); nh = nat (num_attention_heads cfg);
         i = w div nh; h = w mod nh; t = ts ! i in
     paged_attention_head ops (drop (h * hd) (row q H i)) kc vc (block_tab (hp (tok_seq t))) bs (tok_pos t)
       (h div nat (gqa_group cfg)) (nat (num_key_value_heads cfg)) hd
       (f_div ops (f_of_rat ops 1) (f_sqrt ops (f_of_rat ops (of_nat hd)))))"

definition item_offset :: "model_config \<Rightarrow> nat \<Rightarrow> nat" where
  "item_offset cfg w =
    (let nh = nat (num_attention_heads cfg) in
     (w div nh) * nat (hidden_size cfg) + (w mod nh) * nat (head_dim cfg))"

definition write_at :: "'f list \<Rightarrow> nat \<Rightarrow> 'f list \<Rightarrow> 'f list" where
  "write_at buf off vec = take off buf @ vec @ drop (off + length vec) buf"

definition attention_body ::
  "('f, 'd) float_ops \<Rightarrow> 'f cpu_model \<Rightarrow> (seq_ref \<Rightarrow> seq) \<Rightarrow> nat \<Rightarrow> 'f list \<Rightarrow> 'f list \<Rightarrow> 'f list \<Rightarrow>
   packed_token list \<Rightarrow> nat list \<Rightarrow> 'f list \<Rightarrow> 'f list" where
  "attention_body ops m hp bs q kc vc ts items buf =
    foldl (\<lambda>b w. write_at b (item_offset (cm_cfg m) w) (attention_item ops m hp bs q kc vc ts w)) buf items"

subsection \<open>When the pool is used\<close>

definition attention_threshold :: nat where
  "attention_threshold = 2 ^ 20"

definition attention_work :: "model_config \<Rightarrow> packed_token list \<Rightarrow> nat" where
  "attention_work cfg ts =
    sum_list (map (\<lambda>t. tok_pos t + 1) ts) * (nat (num_attention_heads cfg) * nat (head_dim cfg))"

text \<open>The items one by one below the threshold, in the order of the parallel call above it.\<close>

definition attention_stage ::
  "('f, 'd) float_ops \<Rightarrow> 'f cpu_model \<Rightarrow> (seq_ref \<Rightarrow> seq) \<Rightarrow> nat \<Rightarrow> 'f list \<Rightarrow> 'f list \<Rightarrow> 'f list \<Rightarrow>
   packed_token list \<Rightarrow> nat list \<Rightarrow> 'f list \<Rightarrow> 'f list" where
  "attention_stage ops m hp bs q kc vc ts order buf =
    (let total = length ts * nat (num_attention_heads (cm_cfg m)) in
     attention_body ops m hp bs q kc vc ts
       (if attention_threshold \<le> attention_work (cm_cfg m) ts then order else [0..<total]) buf)"

text \<open>The number of threads: the environment if it has a positive number, else what the hardware
  reports, which may be unknown (0).\<close>

definition default_thread_count :: "string option \<Rightarrow> nat \<Rightarrow> int" where
  "default_thread_count env hw =
    (case env of
       Some e \<Rightarrow> if 0 < atoi e then atoi e else if hw = 0 then 1 else int hw
     | None \<Rightarrow> if hw = 0 then 1 else int hw)"

text \<open>The orders in which a call of \<open>parallel_for\<close> may visit its items: without the pool the serial
  one, else any interleaving of the parts that were run when the call may return.\<close>

definition call_order :: "pool \<Rightarrow> nat \<Rightarrow> nat list \<Rightarrow> bool" where
  "call_order p cnt order \<longleftrightarrow>
    (case serial_for p cnt of
       Some is \<Rightarrow> order = is
     | None \<Rightarrow> p_count p = cnt \<and> p_caller p = Awaiting \<and> remaining p = 0 \<and>
         mset order = mset (concat (map (run_part (p_n p) cnt) (ran p))))"

lemma default_thread_count_pos: "1 \<le> default_thread_count env hw"
  by (auto simp: default_thread_count_def split: option.splits)

subsection \<open>Rows written in any order\<close>

lemma put_rows:
  assumes "\<And>w. w < n \<Longrightarrow> length (f w) = c"
  shows "distinct is \<Longrightarrow> set is \<subseteq> {..<n} \<Longrightarrow> length buf = n * c \<Longrightarrow>
    length (foldl (\<lambda>b w. put_row b c w (f w)) buf is) = n * c \<and>
    (\<forall>w<n. row (foldl (\<lambda>b w. put_row b c w (f w)) buf is) c w = (if w \<in> set is then f w else row buf c w))"
proof (induction "is" arbitrary: buf)
  case (Cons i "is")
  have i: "i < n" "length (f i) = c" using Cons.prems(2) assms by auto
  have fit: "Suc i * c \<le> length buf" using i(1) Cons.prems(3) by (metis Suc_leI mult_le_mono1)
  let ?b = "put_row buf c i (f i)"
  have "length ?b = n * c" using put_row_length[OF i(2) fit] Cons.prems(3) by simp
  then show ?case
    using Cons.IH[of ?b] Cons.prems(1,2) row_put_row_same[OF i(2) fit] row_put_row_other[OF i(2) fit] by auto
qed simp

lemma rows_concat:
  assumes "length xs = n * c" "\<And>w. w < n \<Longrightarrow> row xs c w = f w"
  shows "xs = concat (map f [0..<n])"
proof (rule nth_equalityI)
  have len: "length (f w) = c" if "w < n" for w
  proof -
    have "w * c + c \<le> n * c" using that by (metis Suc_leI add.commute mult_Suc mult_le_mono1)
    then have "length (row xs c w) = c" using assms(1) by (simp add: row_def)
    then show ?thesis using assms(2)[OF that] by simp
  qed
  then show l: "length xs = length (concat (map f [0..<n]))" using assms(1) concat_rows_length[of n f c] by simp
  fix k assume k: "k < length xs"
  then have c: "0 < c" using assms(1) by (cases c) auto
  then have w: "k div c < n" using k assms(1) by (simp add: less_mult_imp_div_less)
  have "concat (map f [0..<n]) ! (k div c * c + k mod c) = f (k div c) ! (k mod c)"
    using concat_rows_nth[of n f c "k div c" "k mod c"] len w c by simp
  moreover have "row xs c (k div c) ! (k mod c) = xs ! k"
  proof -
    have "k div c * c \<le> length xs" using k div_mult_mod_eq[of k c] by linarith
    then show ?thesis using c by (simp add: row_def)
  qed
  ultimately show "xs ! k = concat (map f [0..<n]) ! k" using assms(2)[OF w] by simp
qed

lemma attention_item_length: "length (attention_item ops m hp bs q kc vc ts w) = nat (head_dim (cm_cfg m))"
  by (simp add: attention_item_def paged_attention_head_def attend_def Let_def)

lemma attention_rows_items:
  "attention_rows ops m hp bs q kc vc ts =
    concat (map (attention_item ops m hp bs q kc vc ts) [0..<length ts * nat (num_attention_heads (cm_cfg m))])"
  by (simp add: attention_rows_def attention_item_def[abs_def] Let_def)

text \<open>Any order of the items gives the buffer of the serial loop.\<close>

lemma attention_any_order:
  fixes m :: "'f cpu_model" and ts :: "packed_token list"
  defines "n \<equiv> length ts * nat (num_attention_heads (cm_cfg m))" and "d \<equiv> nat (head_dim (cm_cfg m))"
  assumes "nat (hidden_size (cm_cfg m)) = nat (num_attention_heads (cm_cfg m)) * d"
    "mset order = mset [0..<n]" "length buf = n * d"
  shows "attention_body ops m hp bs q kc vc ts order buf = attention_rows ops m hp bs q kc vc ts"
proof -
  let ?f = "attention_item ops m hp bs q kc vc ts"
  let ?out = "foldl (\<lambda>b w. put_row b d w (?f w)) buf order"
  have off: "item_offset (cm_cfg m) w = w * d" for w
  proof -
    let ?nh = "nat (num_attention_heads (cm_cfg m))"
    have "w div ?nh * (?nh * d) + w mod ?nh * d = (w div ?nh * ?nh + w mod ?nh) * d"
      by (simp only: add_mult_distrib mult.assoc)
    also have "\<dots> = w * d" by (simp only: div_mult_mod_eq)
    finally show ?thesis using assms(3) by (simp add: item_offset_def Let_def d_def)
  qed
  have "write_at b (item_offset (cm_cfg m) w) (?f w) = put_row b d w (?f w)" for b w
    using attention_item_length[of ops m] by (simp add: write_at_def put_row_def off d_def)
  then have body: "attention_body ops m hp bs q kc vc ts order buf = ?out" by (simp add: attention_body_def)
  have o: "distinct order" "set order = {..<n}"
    using mset_eq_imp_distinct_iff[OF assms(4)] mset_eq_setD[OF assms(4)] by (simp_all add: lessThan_atLeast0)
  have len: "length (?f w) = d" for w by (simp add: attention_item_length d_def)
  have "length ?out = n * d \<and> (\<forall>w<n. row ?out d w = (if w \<in> set order then ?f w else row buf d w))"
    by (rule put_rows) (use o assms(5) len in simp_all)
  then have "?out = concat (map ?f [0..<n])" by (intro rows_concat) (use o(2) in auto)
  then show ?thesis unfolding body attention_rows_items n_def .
qed

text \<open>C31: Threading does not change the result: on both sides of the work threshold, for every number of
  threads, every interleaving of the pool's parts and whatever the buffer held before, the
  attention output is that of the serial loop over tokens and heads, bit for bit in any arithmetic.
  The hidden size is the number of heads times the head dimension.\<close>

theorem attention_threads_agree:
  assumes "pool_reachable p" "call_order p (length ts * nat (num_attention_heads (cm_cfg m))) order"
    "nat (hidden_size (cm_cfg m)) = nat (num_attention_heads (cm_cfg m)) * nat (head_dim (cm_cfg m))"
    "length buf = length ts * nat (hidden_size (cm_cfg m))"
  shows "attention_stage ops m hp bs q kc vc ts order buf = attention_rows ops m hp bs q kc vc ts"
proof -
  let ?n = "length ts * nat (num_attention_heads (cm_cfg m))"
  have inv: "pool_inv p" "0 < p_n p" using pool_reachable_inv[OF assms(1)] by (simp_all add: pool_inv_def)
  have "mset order = mset [0..<?n]"
  proof (cases "serial_for p ?n")
    case None
    then have c: "p_count p = ?n" "p_caller p = Awaiting" "remaining p = 0"
      "mset order = mset (concat (map (run_part (p_n p) ?n) (ran p)))" using assms(2) by (simp_all add: call_order_def)
    show ?thesis unfolding c(4) by (rule parts_multiset[OF pool_all_ran[OF inv(1) c(2,3)] inv(2)])
  next
    case (Some "is")
    then have "order = [0..<?n]" using assms(2) by (auto simp: call_order_def serial_for_def split: if_splits)
    then show ?thesis by simp
  qed
  then show ?thesis
    unfolding attention_stage_def Let_def
    by (intro attention_any_order) (use assms(3,4) in \<open>simp_all add: mult.assoc\<close>)
qed

definition demo_pool :: pool where
  "demo_pool = worker_done 1 (caller_part (worker_part 1 (worker_wake 1 (post 4 (pool_new (default_thread_count (Some ''2'') 8))))))"

lemma demo_pool_reachable: "pool_reachable demo_pool"
proof -
  have n: "default_thread_count (Some ''2'') 8 = 2" by code_simp
  let ?p1 = "post 4 (pool_new 2)"
  let ?p2 = "worker_wake 1 ?p1"
  let ?p3 = "worker_part 1 ?p2"
  let ?p4 = "caller_part ?p3"
  have "pool_step (pool_new 2) ?p1" by (rule pool_step.post) (simp_all add: pool_new_def)
  moreover have "pool_step ?p1 ?p2" by (rule pool_step.wake) (simp_all add: pool_new_def post_def)
  moreover have "pool_step ?p2 ?p3" by (rule pool_step.part) (simp_all add: pool_new_def post_def worker_wake_def)
  moreover have "pool_step ?p3 ?p4"
    by (rule pool_step.own) (simp add: pool_new_def post_def worker_wake_def worker_part_def)
  moreover have "pool_step ?p4 demo_pool" unfolding demo_pool_def n
    by (rule pool_step.counted) (simp_all add: pool_new_def post_def worker_wake_def worker_part_def caller_part_def)
  ultimately have "pool_step\<^sup>*\<^sup>* (pool_new 2) demo_pool"
    by - (rule converse_rtranclp_into_rtranclp, assumption, rule converse_rtranclp_into_rtranclp, assumption,
        rule converse_rtranclp_into_rtranclp, assumption, rule converse_rtranclp_into_rtranclp, assumption,
        rule r_into_rtranclp, assumption)
  then show ?thesis by (auto simp: pool_reachable_def)
qed

definition demo_shape :: model_config where
  "demo_shape =
    \<lparr>model_type = '''', hidden_size = 4, intermediate_size = 1, num_hidden_layers = 1, num_attention_heads = 2,
     num_key_value_heads = 1, head_dim = 2, vocab = 1, max_position_embeddings = 1, rms_norm_eps = 0, rope_theta = 1,
     tie_word_embeddings = True, attention_bias = False, bos_token_id = 0, eos_token_id = 0\<rparr>"

definition demo_cpu :: "rat cpu_model" where
  "demo_cpu = \<lparr>cm_cfg = demo_shape, cm_weights = \<lparr>w_embed = [], w_final_norm = [], w_lm_head = [], w_layers = []\<rparr>,
     cm_rope = \<lparr>rt_cos = [], rt_sin = [], rt_half = 1\<rparr>, cm_kv_dim = 2, k_cache = [], v_cache = []\<rparr>"

definition demo_batch :: "packed_token list" where
  "demo_batch = [\<lparr>tok_seq = 0, tok_pos = 300000, tok_id = 0\<rparr>, \<lparr>tok_seq = 1, tok_pos = 0, tok_id = 0\<rparr>]"

theorem attention_threads_agree_witness:
  "attention_threshold \<le> attention_work demo_shape demo_batch \<and>
   attention_stage rat_ops demo_cpu (\<lambda>_. default_seq) 1 [1, 2, 3, 4, 5, 6, 7, 8] [1, 2] [3, 4] demo_batch [2, 0, 1, 3] (replicate 8 9) =
   attention_rows rat_ops demo_cpu (\<lambda>_. default_seq) 1 [1, 2, 3, 4, 5, 6, 7, 8] [1, 2] [3, 4] demo_batch"
proof -
  have o: "call_order demo_pool 4 [2, 0, 1, 3]"
  proof -
    have n: "default_thread_count (Some ''2'') 8 = 2" by code_simp
    have r: "run_part 2 4 0 = [0, 1]" "run_part 2 4 1 = [2, 3]" by (simp_all add: run_part_def part_range_def upt_rec)
    have "p_n demo_pool = 2" "ran demo_pool = [1, 0]" "p_count demo_pool = 4" "p_caller demo_pool = Awaiting" "remaining demo_pool = 0"
      by (simp_all add: demo_pool_def n pool_new_def post_def worker_wake_def worker_part_def caller_part_def worker_done_def)
    then show ?thesis by (simp add: call_order_def serial_for_def r[unfolded One_nat_def])
  qed
  have "attention_threshold \<le> attention_work demo_shape demo_batch"
    by (simp add: attention_threshold_def attention_work_def demo_batch_def demo_shape_def)
  moreover have "call_order demo_pool (length demo_batch * nat (num_attention_heads (cm_cfg demo_cpu))) [2, 0, 1, 3]"
    using o by (simp add: demo_batch_def demo_cpu_def demo_shape_def)
  then have "attention_stage rat_ops demo_cpu (\<lambda>_. default_seq) 1 [1, 2, 3, 4, 5, 6, 7, 8] [1, 2] [3, 4] demo_batch [2, 0, 1, 3] (replicate 8 9) =
    attention_rows rat_ops demo_cpu (\<lambda>_. default_seq) 1 [1, 2, 3, 4, 5, 6, 7, 8] [1, 2] [3, 4] demo_batch"
    by (rule attention_threads_agree[OF demo_pool_reachable]) (simp_all add: demo_batch_def demo_cpu_def demo_shape_def)
  ultimately show ?thesis by blast
qed

subsection \<open>The projections through BLAS\<close>

text \<open>The branch of \<open>linear\<close> that calls \<open>cblas_sgemm\<close> and adds the bias afterwards.\<close>

definition linear_blas ::
  "('f list \<Rightarrow> nat \<Rightarrow> nat \<Rightarrow> 'f list \<Rightarrow> nat \<Rightarrow> 'f list) \<Rightarrow> ('f, 'd) float_ops \<Rightarrow> 'f list \<Rightarrow> nat \<Rightarrow> nat \<Rightarrow> 'f list \<Rightarrow>
   nat \<Rightarrow> 'f list option \<Rightarrow> 'f list" where
  "linear_blas sgemm ops A m k B n bias =
    (let C = sgemm A m k B n in
     case bias of
       None \<Rightarrow> C
     | Some b \<Rightarrow> concat (map (\<lambda>i. map (\<lambda>j. f_add ops (C ! (i * n + j)) (b ! j)) [0..<n]) [0..<m]))"

text \<open>A library that computes the products of the portable loop makes both branches equal.\<close>

lemma linear_blas_portable:
  assumes "sgemm A m k B n = linear ops A m k B n None"
  shows "linear_blas sgemm ops A m k B n bias = linear ops A m k B n bias"
proof -
  have "linear ops A m k B n None ! (i * n + j) = dot ops (row A k i) (row B k j) k" if "i < m" "j < n" for i j
    unfolding linear_def using concat_rows_nth[of m "\<lambda>i. map (\<lambda>j. dot ops (row A k i) (row B k j) k) [0..<n]" n i j] that
    by (simp add: Let_def)
  then show ?thesis
    by (auto simp: linear_blas_def assms linear_def Let_def intro!: arg_cong[where f = concat] split: option.split)
qed

end
