(* ===== verification/Device_Memory.thy ===== *)
theory Device_Memory
  imports Model_Config Decimal
begin

text \<open>
  Who owns which device allocation in \<open>src/src/model/cuda/cuda_model.cu\<close>: \<open>device_alloc\<close> and the
  uploads, the allocations of the constructor in their order, the scratch buffers of a forward pass,
  and the destructor. \<open>Cuda_Model\<close> has the contents of the arrays; here a device array is its address.

  \<open>cudaMalloc\<close> and the copies are arguments: the allocator sees the addresses in use and the size,
  and gives an address or fails; 0 is the null pointer, which it may give for an empty array. A
  second \<open>cudaFree\<close> of an address is an error that the destructors of the code ignore, so here it is
  counted. Sizes are not bounded by 64 bits.
\<close>

subsection \<open>The device\<close>

record device =
  dv_live :: "nat list"
  weights_bytes :: nat
  bad_frees :: nat

text \<open>The environment variable \<open>ENGINE_ATTN\<close> chooses the attention kernel of a model.\<close>

definition gqa_selected :: "string option \<Rightarrow> bool" where
  "gqa_selected env \<longleftrightarrow> env = Some ''gqa''"

record cuda_api =
  api_malloc :: "nat list \<Rightarrow> nat \<Rightarrow> nat option"
  api_copied :: "nat \<Rightarrow> bool"
  api_error :: string
  api_mem_info :: "(nat \<times> nat) option"
  api_file :: string

text \<open>The macro that every other call of the runtime goes through names the file as it was compiled, the
  line and the error.\<close>

definition cuda_check :: "cuda_api \<Rightarrow> nat \<Rightarrow> engine_error" where
  "cuda_check api line = Runtime_Error (api_file api @ '':'' @ digits_of line @ '' '' @ api_error api)"

definition mib :: "nat \<Rightarrow> string" where
  "mib bytes = digits_of (nat (int bytes div 2 ^ 20))"

text \<open>What the runtime documents: an address it gives is not in use.\<close>

definition malloc_fresh :: "cuda_api \<Rightarrow> bool" where
  "malloc_fresh api \<longleftrightarrow> (\<forall>live bytes p. api_malloc api live bytes = Some p \<longrightarrow> p \<noteq> 0 \<longrightarrow> p \<notin> set live)"

type_synonym 'a dev = "device \<Rightarrow> device \<times> 'a result"

definition dev_return :: "'a \<Rightarrow> 'a dev" where
  "dev_return x = (\<lambda>d. (d, Inr x))"

definition dev_throw :: "engine_error \<Rightarrow> 'a dev" where
  "dev_throw e = (\<lambda>d. (d, Inl e))"

definition dev_bind :: "'a dev \<Rightarrow> ('a \<Rightarrow> 'b dev) \<Rightarrow> 'b dev" where
  "dev_bind m k = (\<lambda>d. case m d of (d', Inl e) \<Rightarrow> (d', Inl e) | (d', Inr x) \<Rightarrow> k x d')"

definition device_alloc :: "cuda_api \<Rightarrow> nat \<Rightarrow> bool \<Rightarrow> nat \<Rightarrow> nat dev" where
  "device_alloc api sz acct elems =
    (\<lambda>d. case api_malloc api (dv_live d) (elems * sz) of
       None \<Rightarrow>
         (d, Inl (Runtime_Error
           (''cudaMalloc of '' @ mib (elems * sz) @ '' MiB failed: '' @ api_error api @ ''. Device has '' @
            (case api_mem_info api of
               None \<Rightarrow> mib 0 @ '' MiB free of '' @ mib 0
             | Some (free_b, total_b) \<Rightarrow> mib free_b @ '' MiB free of '' @ mib total_b) @ '' MiB.'')))
     | Some p \<Rightarrow>
         (d\<lparr>dv_live := (if p = 0 then dv_live d else p # dv_live d),
            weights_bytes := (if acct then weights_bytes d + elems * sz else weights_bytes d)\<rparr>, Inr p))"

definition cuda_free :: "nat \<Rightarrow> device \<Rightarrow> device" where
  "cuda_free p d =
    (if p \<in> set (dv_live d) then d\<lparr>dv_live := remove1 p (dv_live d)\<rparr> else d\<lparr>bad_frees := Suc (bad_frees d)\<rparr>)"

text \<open>\<open>if (p) cudaFree(p)\<close>\<close>

definition free_ptr :: "nat \<Rightarrow> device \<Rightarrow> device" where
  "free_ptr p d = (if p = 0 then d else cuda_free p d)"

text \<open>The tensor's elements are read and converted first (\<open>elems\<close>, which may throw), then allocated and
  copied; a failed copy leaves the allocation behind.\<close>

definition upload :: "cuda_api \<Rightarrow> nat \<Rightarrow> (string \<Rightarrow> nat result) \<Rightarrow> string \<Rightarrow> nat dev" where
  "upload api sz elems name =
    (case elems name of
       Inl e \<Rightarrow> dev_throw e
     | Inr n \<Rightarrow> dev_bind (device_alloc api sz True n) (\<lambda>p.
         if api_copied api p then dev_return p else dev_throw (cuda_check api (if sz = 2 then 79 else 86))))"

subsection \<open>The constructor\<close>

record layer_ptrs =
  lp_in_norm :: nat
  lp_post_norm :: nat
  lp_wq :: nat
  lp_wk :: nat
  lp_wv :: nat
  lp_wo :: nat
  lp_bq :: nat
  lp_bk :: nat
  lp_bv :: nat
  lp_wgate :: nat
  lp_wup :: nat
  lp_wdown :: nat

text \<open>A scratch buffer: its address and its capacity.\<close>

record scratch =
  s_ptr :: nat
  s_cap :: nat

definition no_scratch :: scratch where
  "no_scratch = \<lparr>s_ptr = 0, s_cap = 0\<rparr>"

record model_ptrs =
  mp_embed :: nat
  mp_lm_head :: nat
  mp_final_norm :: nat
  mp_cos :: nat
  mp_sin :: nat
  mp_layers :: "layer_ptrs list"
  mp_k_cache :: "nat list"
  mp_v_cache :: "nat list"
  mp_scratch :: "scratch list"

text \<open>The biases of a layer, null when it has none.\<close>

definition load_bias_ptrs :: "cuda_api \<Rightarrow> (string \<Rightarrow> bool) \<Rightarrow> (string \<Rightarrow> nat result) \<Rightarrow> string \<Rightarrow> (nat \<times> nat \<times> nat) dev" where
  "load_bias_ptrs api has elems p =
    (if has (p @ ''self_attn.q_proj.bias'') then
       dev_bind (upload api 4 elems (p @ ''self_attn.q_proj.bias'')) (\<lambda>q.
       dev_bind (upload api 4 elems (p @ ''self_attn.k_proj.bias'')) (\<lambda>k.
       dev_bind (upload api 4 elems (p @ ''self_attn.v_proj.bias'')) (\<lambda>v. dev_return (q, k, v))))
     else dev_return (0, 0, 0))"

definition load_layer_ptrs :: "cuda_api \<Rightarrow> (string \<Rightarrow> bool) \<Rightarrow> (string \<Rightarrow> nat result) \<Rightarrow> nat \<Rightarrow> layer_ptrs dev" where
  "load_layer_ptrs api has elems l =
    (let p = ''model.layers.'' @ digits_of l @ ''.'' in
     dev_bind (upload api 4 elems (p @ ''input_layernorm.weight'')) (\<lambda>inn.
     dev_bind (upload api 4 elems (p @ ''post_attention_layernorm.weight'')) (\<lambda>pon.
     dev_bind (upload api 2 elems (p @ ''self_attn.q_proj.weight'')) (\<lambda>q.
     dev_bind (upload api 2 elems (p @ ''self_attn.k_proj.weight'')) (\<lambda>k.
     dev_bind (upload api 2 elems (p @ ''self_attn.v_proj.weight'')) (\<lambda>v.
     dev_bind (upload api 2 elems (p @ ''self_attn.o_proj.weight'')) (\<lambda>out.
     dev_bind (load_bias_ptrs api has elems p) (\<lambda>(b1, b2, b3).
     dev_bind (upload api 2 elems (p @ ''mlp.gate_proj.weight'')) (\<lambda>g.
     dev_bind (upload api 2 elems (p @ ''mlp.up_proj.weight'')) (\<lambda>u.
     dev_bind (upload api 2 elems (p @ ''mlp.down_proj.weight'')) (\<lambda>dn.
       dev_return \<lparr>lp_in_norm = inn, lp_post_norm = pon, lp_wq = q, lp_wk = k, lp_wv = v, lp_wo = out,
         lp_bq = b1, lp_bk = b2, lp_bv = b3, lp_wgate = g, lp_wup = u, lp_wdown = dn\<rparr>)))))))))))"

text \<open>A loop that collects what each turn returns.\<close>

fun dev_list :: "('i \<Rightarrow> 'a dev) \<Rightarrow> 'i list \<Rightarrow> 'a list dev" where
  "dev_list f [] = dev_return []"
| "dev_list f (i # is) = dev_bind (f i) (\<lambda>x. dev_bind (dev_list f is) (\<lambda>xs. dev_return (x # xs)))"

text \<open>The caches of one layer: both allocations, then both are cleared.\<close>

definition alloc_caches :: "cuda_api \<Rightarrow> nat \<Rightarrow> (nat \<times> nat) dev" where
  "alloc_caches api n =
    dev_bind (device_alloc api 2 True n) (\<lambda>k.
    dev_bind (device_alloc api 2 True n) (\<lambda>v.
      if \<not> api_copied api k then dev_throw (cuda_check api 283)
      else if \<not> api_copied api v then dev_throw (cuda_check api 284)
      else dev_return (k, v)))"

definition scratch_count :: nat where
  "scratch_count = 16"

text \<open>The line printed at the end of the constructor.\<close>

definition report_memory :: "cuda_api \<Rightarrow> model_config \<Rightarrow> string dev" where
  "report_memory api cfg =
    (\<lambda>d. case api_mem_info api of
       None \<Rightarrow> (d, Inl (cuda_check api 523))
     | Some (free_b, total_b) \<Rightarrow>
         (d, Inr (''cuda: '' @ model_type cfg @ '', weights and cache '' @ mib (weights_bytes d) @ '' MiB, device '' @
           mib free_b @ '' MiB free of '' @ mib total_b @ '' MiB'' @ [CHR 0x0A])))"

text \<open>The constructor after its checks and the creation of the library's handle, to the last statement.\<close>

definition construct ::
  "cuda_api \<Rightarrow> model_config \<Rightarrow> (string \<Rightarrow> bool) \<Rightarrow> (string \<Rightarrow> nat result) \<Rightarrow> nat \<Rightarrow> nat \<Rightarrow> model_ptrs dev" where
  "construct api cfg has elems rope_size slots =
    dev_bind (upload api 2 elems ''model.embed_tokens.weight'') (\<lambda>em.
    dev_bind (upload api 4 elems ''model.norm.weight'') (\<lambda>fn.
    dev_bind (if tie_word_embeddings cfg then dev_return em else upload api 2 elems ''lm_head.weight'') (\<lambda>lm.
    dev_bind (if num_hidden_layers cfg < 0 then dev_throw Length_Error
              else dev_list (load_layer_ptrs api has elems) [0..<nat (num_hidden_layers cfg)]) (\<lambda>Ls.
    dev_bind (device_alloc api 4 True rope_size) (\<lambda>c.
    dev_bind (device_alloc api 4 True rope_size) (\<lambda>s.
    dev_bind (if \<not> api_copied api c then dev_throw (cuda_check api 271) else dev_return ()) (\<lambda>_.
    dev_bind (if \<not> api_copied api s then dev_throw (cuda_check api 273) else dev_return ()) (\<lambda>_.
    dev_bind (dev_list (\<lambda>_. alloc_caches api (slots * nat (num_key_value_heads cfg * head_dim cfg)))
                [0..<nat (num_hidden_layers cfg)]) (\<lambda>kvs.
    dev_bind (report_memory api cfg) (\<lambda>_.
      dev_return \<lparr>mp_embed = em, mp_lm_head = lm, mp_final_norm = fn, mp_cos = c, mp_sin = s, mp_layers = Ls,
        mp_k_cache = map fst kvs, mp_v_cache = map snd kvs, mp_scratch = replicate scratch_count no_scratch\<rparr>))))))))))"

subsection \<open>Scratch buffers\<close>

text \<open>\<open>Scratch::get\<close>. The members keep their values when the allocation throws.\<close>

definition scratch_grow :: "cuda_api \<Rightarrow> nat \<Rightarrow> nat \<Rightarrow> scratch \<Rightarrow> device \<Rightarrow> (device \<times> scratch) \<times> nat result" where
  "scratch_grow api sz need sc d =
    (if s_cap sc < need then
       (case device_alloc api sz False need (free_ptr (s_ptr sc) d) of
          (d', Inl e) \<Rightarrow> ((d', sc), Inl e)
        | (d', Inr p) \<Rightarrow> ((d', \<lparr>s_ptr = p, s_cap = need\<rparr>), Inr p))
     else ((d, sc), Inr (s_ptr sc)))"

text \<open>The requests of one forward pass, by buffer: the index arrays, where an empty one still has one
  element, the activations, and the logits when some row wants them.\<close>

definition pass_requests :: "model_config \<Rightarrow> nat \<Rightarrow> nat \<Rightarrow> nat \<Rightarrow> nat \<Rightarrow> (nat \<times> nat \<times> nat) list" where
  "pass_requests cfg n tables seqs rows =
    (let H = nat (hidden_size cfg); kvd = nat (num_key_value_heads cfg * head_dim cfg); I = nat (intermediate_size cfg) in
     [(10, 4, max 1 n), (11, 4, max 1 n), (12, 4, max 1 tables), (13, 4, max 1 seqs), (14, 4, max 1 n), (15, 4, n),
      (0, 2, n * H), (1, 2, n * H), (2, 2, n * H), (3, 2, n * kvd), (4, 2, n * kvd), (5, 2, n * H), (6, 2, n * H),
      (7, 2, n * I), (8, 2, n * I)] @
     (if rows = 0 then [] else [(9, 2, rows * nat (vocab cfg))]))"

fun run_requests ::
  "cuda_api \<Rightarrow> (nat \<times> nat \<times> nat) list \<Rightarrow> device \<Rightarrow> scratch list \<Rightarrow> (device \<times> scratch list) \<times> unit result" where
  "run_requests api [] d scs = ((d, scs), Inr ())"
| "run_requests api ((i, sz, need) # rs) d scs =
    (case scratch_grow api sz need (scs ! i) d of
       ((d', sc), Inl e) \<Rightarrow> ((d', scs[i := sc]), Inl e)
     | ((d', sc), Inr _) \<Rightarrow> run_requests api rs d' (scs[i := sc]))"

fun run_passes ::
  "cuda_api \<Rightarrow> model_config \<Rightarrow> (nat \<times> nat \<times> nat \<times> nat) list \<Rightarrow> device \<Rightarrow> scratch list \<Rightarrow> (device \<times> scratch list) \<times> unit result" where
  "run_passes api cfg [] d scs = ((d, scs), Inr ())"
| "run_passes api cfg ((n, tables, seqs, rows) # ps) d scs =
    (case run_requests api (pass_requests cfg n tables seqs rows) d scs of
       ((d', scs'), Inl e) \<Rightarrow> ((d', scs'), Inl e)
     | ((d', scs'), Inr _) \<Rightarrow> run_passes api cfg ps d' scs')"

subsection \<open>The destructor\<close>

definition layer_order :: "layer_ptrs \<Rightarrow> nat list" where
  "layer_order L =
    [lp_in_norm L, lp_post_norm L, lp_wq L, lp_wk L, lp_wv L, lp_wo L, lp_bq L, lp_bk L, lp_bv L,
     lp_wgate L, lp_wup L, lp_wdown L]"

text \<open>The body of \<open>~CudaModel\<close>, then the members, last declared first: the index buffers, then the
  activations.\<close>

definition free_order :: "model_ptrs \<Rightarrow> nat list" where
  "free_order m =
    mp_k_cache m @ mp_v_cache m @ concat (map layer_order (mp_layers m)) @ [mp_cos m, mp_sin m, mp_final_norm m] @
    (if mp_lm_head m \<noteq> mp_embed m then [mp_lm_head m] else []) @ [mp_embed m] @ rev (map s_ptr (mp_scratch m))"

definition destroy :: "model_ptrs \<Rightarrow> device \<Rightarrow> device" where
  "destroy m d = foldl (\<lambda>d p. free_ptr p d) d (free_order m)"

subsection \<open>Triples\<close>

text \<open>A computation that returns takes states with \<open>P\<close> to states with \<open>Q\<close>.\<close>

definition triple :: "(device \<Rightarrow> bool) \<Rightarrow> 'a dev \<Rightarrow> ('a \<Rightarrow> device \<Rightarrow> bool) \<Rightarrow> bool" where
  "triple P c Q \<longleftrightarrow> (\<forall>d d' x. P d \<longrightarrow> c d = (d', Inr x) \<longrightarrow> Q x d')"

lemma triple_return: "(\<And>d. P d \<Longrightarrow> Q x d) \<Longrightarrow> triple P (dev_return x) Q"
  by (simp add: triple_def dev_return_def)

lemma triple_throw [simp, intro]: "triple P (dev_throw e) Q"
  by (simp add: triple_def dev_throw_def)

lemma triple_bind: "triple P m R \<Longrightarrow> (\<And>x. triple (R x) (k x) Q) \<Longrightarrow> triple P (dev_bind m k) Q"
  unfolding triple_def dev_bind_def by (fastforce split: prod.splits sum.splits)

text \<open>The addresses that are not null, and what a model owns beside the allocations of others.\<close>

definition addr :: "nat \<Rightarrow> nat multiset" where
  "addr p = (if p = 0 then {#} else {#p#})"

definition owned :: "nat multiset \<Rightarrow> device \<Rightarrow> device \<Rightarrow> bool" where
  "owned A base d \<longleftrightarrow> distinct (dv_live d) \<and> 0 \<notin> set (dv_live d) \<and> mset (dv_live d) = A + mset (dv_live base) \<and>
     bad_frees d = bad_frees base"

lemma alloc_triple:
  assumes "malloc_fresh api"
  shows "triple (owned A base) (device_alloc api sz acct n) (\<lambda>p. owned (addr p + A) base)"
  unfolding triple_def
proof (intro allI impI)
  fix d d' p assume o: "owned A base d" and r: "device_alloc api sz acct n d = (d', Inr p)"
  then have "api_malloc api (dv_live d) (n * sz) = Some p" "dv_live d' = (if p = 0 then dv_live d else p # dv_live d)"
    "bad_frees d' = bad_frees d"
    by (auto simp: device_alloc_def split: option.splits)
  then show "owned (addr p + A) base d'" using o assms by (auto simp: owned_def addr_def malloc_fresh_def)
qed

lemma upload_triple:
  assumes "malloc_fresh api"
  shows "triple (owned A base) (upload api sz elems name) (\<lambda>p. owned (addr p + A) base)"
  by (auto simp: upload_def intro!: triple_bind[OF alloc_triple[OF assms]] triple_return split: sum.split)

lemma list_triple:
  assumes "\<And>A i. triple (owned A base) (f i) (\<lambda>x. owned (g x + A) base)"
  shows "triple (owned A base) (dev_list f is) (\<lambda>xs. owned (\<Sum>\<^sub># (mset (map g xs)) + A) base)"
proof (induction "is" arbitrary: A)
  case (Cons i "is")
  show ?case unfolding dev_list.simps
    by (rule triple_bind[OF assms], rule triple_bind[OF Cons.IH], rule triple_return) (simp add: ac_simps)
qed (simp add: triple_return)

definition layer_addrs :: "layer_ptrs \<Rightarrow> nat multiset" where
  "layer_addrs L = \<Sum>\<^sub># (mset (map addr (layer_order L)))"

lemma biases_triple:
  assumes "malloc_fresh api"
  shows "triple (owned A base) (load_bias_ptrs api has elems p) (\<lambda>(q, k, v). owned (addr q + addr k + addr v + A) base)"
proof (cases "has (p @ ''self_attn.q_proj.bias'')")
  case True
  show ?thesis unfolding load_bias_ptrs_def if_P[OF True]
    by (rule triple_bind[OF upload_triple[OF assms]])+ (rule triple_return, simp add: ac_simps)
next
  case False
  show ?thesis unfolding load_bias_ptrs_def if_not_P[OF False] by (rule triple_return) (simp add: addr_def)
qed

lemma layer_triple:
  assumes "malloc_fresh api"
  shows "triple (owned A base) (load_layer_ptrs api has elems l) (\<lambda>L. owned (layer_addrs L + A) base)"
proof -
  have b: "triple (owned A base) (load_bias_ptrs api has elems p)
      (\<lambda>x. owned (addr (fst x) + addr (fst (snd x)) + addr (snd (snd x)) + A) base)" for A p
    using biases_triple[OF assms] by (simp add: case_prod_beta')
  show ?thesis unfolding load_layer_ptrs_def Let_def case_prod_beta
    by ((rule triple_bind[OF upload_triple[OF assms]] triple_bind[OF b])+, rule triple_return)
       (simp add: layer_addrs_def layer_order_def ac_simps)
qed

lemma caches_triple:
  assumes "malloc_fresh api"
  shows "triple (owned A base) (alloc_caches api n) (\<lambda>x. owned (addr (fst x) + addr (snd x) + A) base)"
  unfolding alloc_caches_def
  by (rule triple_bind[OF alloc_triple[OF assms]], rule triple_bind[OF alloc_triple[OF assms]])
     (auto intro!: triple_return simp: ac_simps)

lemma report_triple: "triple P (report_memory api cfg) (\<lambda>_. P)"
  by (auto simp: triple_def report_memory_def split: option.splits)

subsection \<open>What a model owns\<close>

definition head_addr :: "model_ptrs \<Rightarrow> nat multiset" where
  "head_addr m = (if mp_lm_head m \<noteq> mp_embed m then addr (mp_lm_head m) else {#})"

definition model_addrs :: "model_ptrs \<Rightarrow> nat multiset" where
  "model_addrs m = \<Sum>\<^sub># (mset (map addr (free_order m)))"

definition fixed_addrs :: "model_ptrs \<Rightarrow> nat multiset" where
  "fixed_addrs m =
    \<Sum>\<^sub># (mset (map addr (mp_k_cache m))) + \<Sum>\<^sub># (mset (map addr (mp_v_cache m))) + \<Sum>\<^sub># (mset (map layer_addrs (mp_layers m))) +
    addr (mp_cos m) + addr (mp_sin m) + addr (mp_final_norm m) + head_addr m + addr (mp_embed m)"

definition scratch_addrs :: "scratch list \<Rightarrow> nat multiset" where
  "scratch_addrs scs = \<Sum>\<^sub># (mset (map (\<lambda>s. addr (s_ptr s)) scs))"

lemma layers_addrs: "\<Sum>\<^sub># (mset (map addr (concat (map layer_order Ls)))) = \<Sum>\<^sub># (mset (map layer_addrs Ls))"
  by (induction Ls) (simp_all add: layer_addrs_def)

lemma scratch_rev: "\<Sum>\<^sub># (mset (map addr (rev (map s_ptr scs)))) = scratch_addrs scs"
  by (simp add: scratch_addrs_def rev_map[symmetric] comp_def)

lemma model_addrs_split: "model_addrs m = fixed_addrs m + scratch_addrs (mp_scratch m)"
  using layers_addrs[of "mp_layers m"] scratch_rev[of "mp_scratch m"]
  by (simp add: model_addrs_def free_order_def fixed_addrs_def head_addr_def ac_simps)

lemma pair_addrs:
  "(\<Sum>x\<in>#M. addr (fst x) + addr (snd x)) = \<Sum>\<^sub># (image_mset (addr \<circ> fst) M) + \<Sum>\<^sub># (image_mset (addr \<circ> snd) M)"
  by (induction M) (simp_all add: ac_simps)

text \<open>A head of its own that shared the address of the embedding would have to be null.\<close>

lemma head_apart:
  "owned (addr lm + (addr fn + (addr em + {#}))) base d \<Longrightarrow> lm = em \<Longrightarrow> addr lm = {#}"
proof -
  assume o: "owned (addr lm + (addr fn + (addr em + {#}))) base d" "lm = em"
  have "count (mset (dv_live d)) em \<le> 1" using o(1) by (metis distinct_count_atmost_1 owned_def count_inI le_numeral_extra(4) not_in_iff zero_le_one)
  then show ?thesis using o by (auto simp: owned_def addr_def split: if_splits)
qed

lemma head_triple:
  assumes "malloc_fresh api"
  shows "triple (owned (addr fn + (addr em + {#})) base) (if tied then dev_return em else upload api 2 elems name)
    (\<lambda>lm. owned ((if lm \<noteq> em then addr lm else {#}) + (addr fn + (addr em + {#}))) base)"
proof (cases tied)
  case True
  then show ?thesis by (simp add: triple_return)
next
  case False
  have "triple (owned (addr fn + (addr em + {#})) base) (upload api 2 elems name)
      (\<lambda>lm. owned (addr lm + (addr fn + (addr em + {#}))) base)" by (rule upload_triple[OF assms])
  then show ?thesis using False head_apart[of _ fn em base] unfolding triple_def by fastforce
qed

lemma check_triple: "triple (owned A base) (if c then dev_throw e else dev_return ()) (\<lambda>_. owned A base)"
  by (auto intro: triple_return)

lemma construct_triple:
  assumes "malloc_fresh api"
  shows "triple (owned {#} base) (construct api cfg has elems rope_size slots) (\<lambda>m. owned (model_addrs m) base)"
proof -
  have ls: "triple (owned A base) (if neg then dev_throw e else dev_list (load_layer_ptrs api has elems) is)
      (\<lambda>Ls. owned (\<Sum>\<^sub># (mset (map layer_addrs Ls)) + A) base)" for A neg e "is"
    using list_triple[of base "load_layer_ptrs api has elems" layer_addrs, OF layer_triple[OF assms]] by simp
  have kvs: "triple (owned A base) (dev_list (\<lambda>_. alloc_caches api n) is)
      (\<lambda>kvs. owned (\<Sum>\<^sub># (mset (map (\<lambda>x. addr (fst x) + addr (snd x)) kvs)) + A) base)" for A n and "is" :: "nat list"
    by (rule list_triple) (rule caches_triple[OF assms])
  have z: "scratch_addrs (replicate k no_scratch) = {#}" for k
    by (induction k) (simp_all add: scratch_addrs_def no_scratch_def addr_def)
  show ?thesis
    unfolding construct_def
    by (rule triple_bind[OF upload_triple[OF assms]], rule triple_bind[OF upload_triple[OF assms]],
        rule triple_bind[OF head_triple[OF assms]], rule triple_bind[OF ls], rule triple_bind[OF alloc_triple[OF assms]],
        rule triple_bind[OF alloc_triple[OF assms]], rule triple_bind[OF check_triple], rule triple_bind[OF check_triple],
        rule triple_bind[OF kvs], rule triple_bind[OF report_triple], rule triple_return)
       (auto simp: model_addrs_split fixed_addrs_def head_addr_def z pair_addrs ac_simps)
qed

subsection \<open>Freeing and growing\<close>

lemma free_owned: "owned (addr p + A) base d \<Longrightarrow> owned A base (free_ptr p d)"
proof (cases "p = 0")
  case False
  assume o: "owned (addr p + A) base d"
  then have m: "mset (dv_live d) = {#p#} + A + mset (dv_live base)" using False by (simp add: owned_def addr_def)
  then have "p \<in> set (dv_live d)" by (metis set_mset_mset union_iff union_single_eq_member)
  then show ?thesis using o m False by (auto simp: owned_def free_ptr_def cuda_free_def dest: in_set_remove1)
qed (simp add: free_ptr_def addr_def)

lemma free_all_owned: "owned (\<Sum>\<^sub># (mset (map addr ps)) + A) base d \<Longrightarrow> owned A base (foldl (\<lambda>d p. free_ptr p d) d ps)"
proof (induction ps arbitrary: d)
  case (Cons p ps)
  then show ?case using free_owned[of p "\<Sum>\<^sub># (mset (map addr ps)) + A" base d] by (simp add: ac_simps)
qed simp

lemma grow_owned:
  assumes "malloc_fresh api" "scratch_grow api sz need sc d = ((d', sc'), Inr p)" "owned (addr (s_ptr sc) + A) base d"
  shows "owned (addr (s_ptr sc') + A) base d'"
proof (cases "s_cap sc < need")
  case True
  then have "device_alloc api sz False need (free_ptr (s_ptr sc) d) = (d', Inr (s_ptr sc'))"
    using assms(2) by (auto simp: scratch_grow_def split: prod.splits sum.splits)
  then show ?thesis
    using alloc_triple[OF assms(1), of A base sz False need] free_owned[OF assms(3)] unfolding triple_def by blast
qed (use assms in \<open>simp add: scratch_grow_def\<close>)

lemma scratch_update:
  "i < length scs \<Longrightarrow> scratch_addrs (scs[i := sc]) = addr (s_ptr sc) + scratch_addrs (scs[i := no_scratch])"
proof (induction scs arbitrary: i)
  case (Cons s scs)
  then show ?case by (cases i) (simp_all add: scratch_addrs_def no_scratch_def addr_def ac_simps)
qed simp

lemma requests_owned:
  assumes "malloc_fresh api"
  shows "run_requests api rs d scs = ((d', scs'), Inr ()) \<Longrightarrow> \<forall>r \<in> set rs. fst r < length scs \<Longrightarrow>
    owned (scratch_addrs scs + A) base d \<Longrightarrow> owned (scratch_addrs scs' + A) base d' \<and> length scs' = length scs"
proof (induction rs arbitrary: d scs)
  case (Cons r rs)
  obtain i sz need where r: "r = (i, sz, need)" by (cases r)
  obtain d1 sc p where g: "scratch_grow api sz need (scs ! i) d = ((d1, sc), Inr p)"
    "run_requests api rs d1 (scs[i := sc]) = ((d', scs'), Inr ())"
    using Cons.prems(1) unfolding r by (auto split: prod.splits sum.splits)
  have i: "i < length scs" using Cons.prems(2) r by simp
  have "scratch_addrs scs = addr (s_ptr (scs ! i)) + scratch_addrs (scs[i := no_scratch])"
    using scratch_update[OF i, of "scs ! i"] by simp
  then have "owned (addr (s_ptr (scs ! i)) + (scratch_addrs (scs[i := no_scratch]) + A)) base d"
    using Cons.prems(3) by (simp add: ac_simps)
  from grow_owned[OF assms g(1) this] have "owned (scratch_addrs (scs[i := sc]) + A) base d1"
    using scratch_update[OF i, of sc] by (simp add: ac_simps)
  then show ?case using Cons.IH[OF g(2)] Cons.prems(2) by simp
qed simp

lemma passes_owned:
  assumes "malloc_fresh api"
  shows "run_passes api cfg ps d scs = ((d', scs'), Inr ()) \<Longrightarrow> length scs = scratch_count \<Longrightarrow>
    owned (scratch_addrs scs + A) base d \<Longrightarrow> owned (scratch_addrs scs' + A) base d' \<and> length scs' = scratch_count"
proof (induction ps arbitrary: d scs)
  case (Cons q ps)
  obtain n tables seqs rows where q: "q = (n, tables, seqs, rows)" by (cases q)
  obtain d1 scs1 where p: "run_requests api (pass_requests cfg n tables seqs rows) d scs = ((d1, scs1), Inr ())"
    "run_passes api cfg ps d1 scs1 = ((d', scs'), Inr ())"
    using Cons.prems(1) unfolding q by (auto split: prod.splits sum.splits)
  have "\<forall>r \<in> set (pass_requests cfg n tables seqs rows). fst r < length scs"
    using Cons.prems(2) by (auto simp: pass_requests_def scratch_count_def Let_def)
  from requests_owned[OF assms p(1) this Cons.prems(3)] show ?case using Cons.IH[OF p(2)] Cons.prems(2) by simp
qed simp

text \<open>C36: The CUDA backend gives its memory back: when the constructor has succeeded and any number of
  forward passes of any sizes have grown the scratch buffers, the destructor leaves exactly the
  device allocations that were alive before the model was built, and no address is freed twice:
  not the head that is the embedding read a second time, not a missing bias, not a buffer that was
  replaced by a larger one. The runtime is only required to give addresses that are not in use.\<close>

theorem device_memory_returned:
  assumes "malloc_fresh api" "distinct (dv_live d0)" "0 \<notin> set (dv_live d0)"
    "construct api cfg has elems rope_size slots d0 = (d1, Inr m)"
    "run_passes api cfg passes d1 (mp_scratch m) = ((d2, scs), Inr ())"
  shows "mset (dv_live (destroy (m\<lparr>mp_scratch := scs\<rparr>) d2)) = mset (dv_live d0) \<and>
    bad_frees (destroy (m\<lparr>mp_scratch := scs\<rparr>) d2) = bad_frees d0"
proof -
  have "owned {#} d0 d0" using assms(2,3) by (simp add: owned_def)
  then have o1: "owned (model_addrs m) d0 d1"
    using construct_triple[OF assms(1), of d0 cfg has elems rope_size slots] assms(4) unfolding triple_def by blast
  have l: "length (mp_scratch m) = scratch_count"
    using assms(4) by (auto simp: construct_def dev_bind_def dev_return_def split: prod.splits sum.splits)
  have "owned (scratch_addrs (mp_scratch m) + fixed_addrs m) d0 d1" using o1 by (simp add: model_addrs_split ac_simps)
  then have "owned (scratch_addrs scs + fixed_addrs m) d0 d2" using passes_owned[OF assms(1,5) l] by blast
  moreover have "fixed_addrs (m\<lparr>mp_scratch := scs\<rparr>) = fixed_addrs m" by (simp add: fixed_addrs_def head_addr_def)
  ultimately have "owned (model_addrs (m\<lparr>mp_scratch := scs\<rparr>)) d0 d2" by (simp add: model_addrs_split ac_simps)
  then have "owned {#} d0 (destroy (m\<lparr>mp_scratch := scs\<rparr>) d2)"
    using free_all_owned[of "free_order (m\<lparr>mp_scratch := scs\<rparr>)" "{#}" d0 d2] by (simp add: destroy_def model_addrs_def)
  then show ?thesis by (simp add: owned_def)
qed

definition demo_api :: cuda_api where
  "demo_api = \<lparr>api_malloc = (\<lambda>live bytes. if bytes = 0 then Some 0 else Some (Suc (foldr max live 0))), api_copied = (\<lambda>_. True),
     api_error = ''out of memory'', api_mem_info = Some (0, 0), api_file = ''cuda_model.cu''\<rparr>"

lemma demo_api_fresh: "malloc_fresh demo_api"
proof -
  have "x \<le> foldr max live 0" if "x \<in> set live" for x and live :: "nat list"
    using that by (induction live) auto
  then show ?thesis by (fastforce simp: malloc_fresh_def demo_api_def split: if_splits)
qed

definition demo_tied :: model_config where
  "demo_tied =
    \<lparr>model_type = '''', hidden_size = 4, intermediate_size = 1, num_hidden_layers = 1, num_attention_heads = 2,
     num_key_value_heads = 1, head_dim = 2, vocab = 3, max_position_embeddings = 1, rms_norm_eps = 0, rope_theta = 1,
     tie_word_embeddings = True, attention_bias = False, bos_token_id = 0, eos_token_id = 0\<rparr>"

definition demo_built :: "device \<times> model_ptrs result" where
  "demo_built = construct demo_api demo_tied (\<lambda>_. False) (\<lambda>_. Inr 3) 2 8 \<lparr>dv_live = [7], weights_bytes = 0, bad_frees = 0\<rparr>"

definition demo_model :: model_ptrs where
  "demo_model = (case snd demo_built of Inr m \<Rightarrow> m)"

definition demo_used :: "(device \<times> scratch list) \<times> unit result" where
  "demo_used = run_passes demo_api demo_tied [(2, 1, 1, 1), (5, 2, 1, 0)] (fst demo_built) (mp_scratch demo_model)"

text \<open>The computations on a device, for evaluation.\<close>

lemma dev_apply:
  "dev_bind m k d = (case m d of (d', Inl e) \<Rightarrow> (d', Inl e) | (d', Inr x) \<Rightarrow> k x d')"
  "dev_return x d = (d, Inr x)" "dev_throw e d = (d, Inl e)"
  "upload api sz elems name d =
    (case elems name of
       Inl e \<Rightarrow> (d, Inl e)
     | Inr n \<Rightarrow>
         (case device_alloc api sz True n d of
            (d', Inl e) \<Rightarrow> (d', Inl e)
          | (d', Inr p) \<Rightarrow> if api_copied api p then (d', Inr p) else (d', Inl (cuda_check api (if sz = 2 then 79 else 86)))))"
  "alloc_caches api n d =
    dev_bind (device_alloc api 2 True n) (\<lambda>k.
    dev_bind (device_alloc api 2 True n) (\<lambda>v.
      if \<not> api_copied api k then dev_throw (cuda_check api 283)
      else if \<not> api_copied api v then dev_throw (cuda_check api 284)
      else dev_return (k, v))) d"
  by (auto simp: dev_bind_def dev_return_def dev_throw_def upload_def alloc_caches_def split: sum.split prod.split)

lemma demo_alloc:
  "device_alloc demo_api sz acct n d =
    (let p = (if n * sz = 0 then 0 else Suc (foldr max (dv_live d) 0)) in
     (d\<lparr>dv_live := (if p = 0 then dv_live d else p # dv_live d),
        weights_bytes := (if acct then weights_bytes d + n * sz else weights_bytes d)\<rparr>, Inr p))"
  by (simp add: device_alloc_def demo_api_def Let_def)

lemma demo_api_copied: "api_copied demo_api p" "api_mem_info demo_api = Some (0, 0)"
  by (simp_all add: demo_api_def)

lemma demo_runs: "\<not> isl (snd demo_built)" "\<not> isl (snd demo_used)" "length (dv_live (fst (fst demo_used))) = 32"
  by (simp_all add: demo_used_def demo_model_def demo_built_def construct_def dev_apply demo_alloc demo_api_copied report_memory_def demo_tied_def
      load_layer_ptrs_def load_bias_ptrs_def scratch_count_def pass_requests_def scratch_grow_def no_scratch_def
      free_ptr_def cuda_free_def numeral_eq_Suc)

theorem device_memory_returned_witness:
  "length (dv_live (fst (fst demo_used))) = 32 \<and>
   mset (dv_live (destroy (demo_model\<lparr>mp_scratch := snd (fst demo_used)\<rparr>) (fst (fst demo_used)))) = {#7#} \<and>
   bad_frees (destroy (demo_model\<lparr>mp_scratch := snd (fst demo_used)\<rparr>) (fst (fst demo_used))) = 0"
proof -
  let ?d0 = "\<lparr>dv_live = [7], weights_bytes = 0, bad_frees = 0\<rparr>"
  have "snd demo_built = Inr demo_model" using demo_runs(1) unfolding demo_model_def by (cases "snd demo_built") auto
  then have b: "construct demo_api demo_tied (\<lambda>_. False) (\<lambda>_. Inr 3) 2 8 ?d0 = (fst demo_built, Inr demo_model)"
    unfolding demo_built_def by (metis prod.collapse)
  have "snd demo_used = Inr ()" using demo_runs(2) by (cases "snd demo_used") auto
  then have u: "run_passes demo_api demo_tied [(2, 1, 1, 1), (5, 2, 1, 0)] (fst demo_built) (mp_scratch demo_model) =
      ((fst (fst demo_used), snd (fst demo_used)), Inr ())"
    unfolding demo_used_def by (metis prod.collapse)
  show ?thesis using device_memory_returned[OF demo_api_fresh _ _ b u] demo_runs(3) by simp
qed

subsection \<open>What an error leaves behind\<close>

text \<open>A constructor that throws has no destructor: what it allocated before stays allocated.\<close>

lemma failed_constructor_leaks:
  "map_prod dv_live isl (construct demo_api demo_tied (\<lambda>_. False)
      (\<lambda>name. if name = ''model.norm.weight'' then Inl (Out_Of_Range name) else Inr 3) 2 8
      \<lparr>dv_live = [], weights_bytes = 0, bad_frees = 0\<rparr>) = ([1], True)"
  by (simp add: construct_def dev_apply demo_alloc demo_api_copied)

text \<open>A scratch buffer whose replacement cannot be allocated keeps the address it has just freed: a later
  request within the old capacity gets that address, and the destructor frees it again.\<close>

definition full_api :: cuda_api where
  "full_api = \<lparr>api_malloc = (\<lambda>live bytes. None), api_copied = (\<lambda>_. True), api_error = ''out of memory'',
     api_mem_info = Some (0, 0), api_file = ''cuda_model.cu''\<rparr>"

lemma failed_growth_dangles:
  "(case scratch_grow full_api 2 9 \<lparr>s_ptr = 5, s_cap = 8\<rparr> \<lparr>dv_live = [5], weights_bytes = 0, bad_frees = 0\<rparr> of
      ((d, sc), r) \<Rightarrow> (dv_live d, isl r, map_sum (\<lambda>e. ()) id (snd (scratch_grow full_api 2 8 sc d)), bad_frees (free_ptr (s_ptr sc) d))) =
   ([], True, Inr 5, 1)"
  by code_simp

end
