(* ===== verification/Spec2Isabelle.thy ===== *)
theory Spec2Isabelle
  imports Engine_Props Tokenizer_Props Sampler_Props Api_Documents Safetensors Forward_Props
    Cuda_Props Kv_Waste_Tool Profile_Reports Golden_Dump Generate_Command Serving Parallel_Attention Device_Memory
begin

text \<open>
  A verification library for the LLM inference engine under \<open>src/\<close>.

  \<^bold>\<open>The program.\<close> Client threads submit tokenized prompts to an engine (\<open>api/engine.cpp\<close>), most of
  them through the HTTP front end (\<open>api/server.cpp\<close>). One engine thread runs a loop: it takes over new
  requests and aborts, asks the scheduler (\<open>scheduler/scheduler.cpp\<close>) for a step, runs the model on it
  (\<open>model/cpu/cpu_model.cpp\<close> or \<open>model/cuda/cuda_model.cu\<close> with \<open>kernels/\<close>), samples one token per
  row of logits (\<open>model/sampler.cpp\<close>) and reports the tokens back to the scheduler, which calls the
  clients' callbacks. Keys and values live in a pool of fixed-size blocks with reference counts and a
  prefix cache (\<open>kv_cache/block_allocator.cpp\<close>). Weights, configuration and tokenizer come from the
  model's files. The benchmark \<open>bench/kv_waste.cpp\<close> and \<open>golden_dump.cpp\<close> drive the same parts.

  \<^bold>\<open>Theories and sources.\<close>
  \<^item> \<open>Engine_Prelude\<close>, \<open>Decimal\<close>, \<open>Printing\<close>, \<open>Float_Ops\<close>, \<open>Json_Fields\<close>: types, errors, fact collections
    and lemmas that the components share; numbers in decimal as the standard library writes and
    reads them; padded columns, JSON lines and flags of the tools;
    floating-point arithmetic as a record of operations; members of JSON objects.
  \<^item> \<open>KV_Cache\<close> (the manager, every operation), \<open>KV_Invariant\<close> (the pool against the multiset of live
    block tables), \<open>Pool_Interface\<close> (locale \<open>paged_pool\<close>, what the scheduler relies on, interpreted on
    the manager), \<open>KV_Props\<close>.
  \<^item> \<open>Seq_State\<close> (\<open>include/engine/sequence.h\<close>), \<open>Scheduler\<close> (every member function), \<open>Scheduler_Inv\<close>,
    \<open>Scheduler_Step\<close>, \<open>Scheduler_Done\<close> (the invariant through each operation), \<open>Scheduler_System\<close>
    (locale \<open>safe_system\<close> and its interpretation on the scheduler's calls in any order),
    \<open>Scheduler_Callbacks\<close>, \<open>Scheduler_Props\<close>, \<open>Scheduler_Drain\<close> (the measure of the iterations),
    \<open>Scheduler_Served\<close> (what a request that fits is promised).
  \<^item> \<open>Metrics\<close>; \<open>Engine\<close> (submission, validation, the loop section by section), \<open>Engine_Inv\<close> (the second
    interpretation of \<open>safe_system\<close>), \<open>Engine_Props\<close>, \<open>Client_Log\<close> (what each client is told).
  \<^item> \<open>Unicode_Tables\<close>, \<open>Unicode_Classes\<close>, \<open>Unicode_Text\<close>, \<open>Pre_Tokenize\<close>, \<open>Tokenizer\<close>,
    \<open>Byte_Alphabet\<close> (locale \<open>byte_alphabet\<close>, interpreted on the constructor's tables),
    \<open>Tokenizer_Codec\<close>, \<open>Tokenizer_Load\<close>, \<open>Tokenizer_Props\<close>: \<open>tokenizer/\<close>.
  \<^item> \<open>Sampler\<close>, \<open>Sampler_Props\<close>; \<open>Api_Server\<close> (the handler), \<open>Api_Documents\<close> (documents, event stream,
    routes), \<open>Api_Props\<close>; \<open>Thread_Pool\<close> (\<open>parallel.h\<close> as a step relation); \<open>Tensor_Bits\<close> (\<open>tensor.h\<close>),
    \<open>Safetensors\<close>, \<open>Model_Config\<close>.
  \<^item> \<open>Cpu_Ops\<close> (\<open>ops.h\<close>), \<open>Cpu_Model\<close>, \<open>Parallel_Attention\<close> (its use of the pool), \<open>Forward_Props\<close>
    (locale \<open>step_provider\<close>: what the forward pass needs of a step, interpreted on the scheduler).
  \<^item> \<open>Gpu_Grid\<close> (threads, strided loops, warp shuffles), \<open>Gpu_Attention\<close> (both attention kernels),
    \<open>Gpu_Kernels\<close>, \<open>Gpu_Rows\<close> (the other kernels), \<open>Cuda_Model\<close> (the host driver), \<open>Cuda_Equiv\<close> (locale
    \<open>exact_device\<close>: what the backend relies on of the libraries it calls), \<open>Cuda_Props\<close>,
    \<open>Device_Memory\<close> (who owns which allocation, from the constructor to the destructor).
  \<^item> \<open>Kv_Waste\<close> (the simulations), \<open>Kv_Waste_Tool\<close> (flags, queueing experiment, sweep, tables and JSON of
    \<open>bench/kv_waste.cpp\<close>), \<open>Golden_Dump\<close> (the whole tool), \<open>Profilers\<close> (\<open>host_profile.h\<close> and the profiler of
    the CUDA model), \<open>Profile_Reports\<close> (their texts).
  \<^item> \<open>main.cpp\<close>: \<open>Command_Line\<close> (the options), \<open>Generate_Command\<close>, \<open>Serving\<close> (engine thread, clients,
    signal and drainer as a step relation, the third interpretation of \<open>safe_system\<close>).

  A class is a record, an operation a function from the record to the updated one, an exception the
  left value of a \<open>result\<close>; sequences are shared, so they live in an explicit heap. Threads are
  interleavings of operations, one per critical section.

  \<^bold>\<open>What is shown.\<close>
  \<^item> Memory (C1, C12 to C16): in every reachable state the reference counts are the owners, nothing
    leaks, writes of a step never collide, and freeing gives everything back.
  \<^item> Scheduling (C2, C4 to C7, C10, C11): steps are well formed and consumed without a failed
    assertion, every call makes progress, the loop ends through any amount of preemption, no request
    runs past its limit, each gets one end, and when the requests fit the pool each is served in full:
    none is given up, and a request that ends by length has exactly the tokens it asked for.
    \<open>Scheduler_Props\<close> also shows where static batching departs from this (\<open>static_batch_stalls\<close>).
  \<^item> Engine and commands (C8, C9, C19 to C22): every accepted request is answered exactly once,
    a graceful drain answers everybody, the load-shedding counter is exact, only the backend can
    make the loop throw, the exit path returns, and \<open>generate\<close> waits for exactly its copies. What
    is lost otherwise is shown by \<open>exit_strands_request\<close> and \<open>drain_can_strand\<close>.
  \<^item> Text (C23 to C28, C40): codec, splitter against its regular expression, merging, termination of
    encoding, round trips from files to decoded text and through the bytes of an event stream, and
    distinct ids.
  \<^item> Numbers (C3, C29 to C31, C34, C35): attention through block tables reads the sequence; the
    device computes what the reference computes, with both kernels and any order of threads; the
    reference computes the same with any number of threads; the partial sort samples as a full
    sort; a loaded model has the shapes the kernels assume.
  \<^item> Resources and tools (C17, C18, C32, C33, C36 to C39): histograms and quantiles, the thread pool
    returns and visits every index once, accepted weight views stay in the file, the device's
    memory is returned, the benchmark's simulations end and serve every request, and a dumped tensor
    can be read back.

  \<^bold>\<open>Bounds and fuel.\<close> Loops are structural or have a termination proof, with these exceptions:
  \<open>f16_normalise\<close> has fuel ten, enough for a ten-bit mantissa; \<open>encode_loop\<close> is a partial function
  (it diverges on an empty added token, \<open>empty_added_token_diverges\<close>, and returns otherwise, C26); \<open>release_waiting\<close> takes
  fuel, and one more than the number of requests is enough (C21); \<open>paged_loop\<close> and \<open>run_turns\<close> take
  fuel, and some amount is enough for every clock (C38, \<open>paged_run_sound\<close>, C4), by the lexicographic measure of
  \<open>Scheduler_Drain\<close>, which no fixed number of steps bounds uniformly.
  Statements about device arithmetic are over the reals, where half precision loses nothing; the
  constant for the lowest float is a real \<open>lo\<close>, and the statements hold for all sufficiently low
  ones (\<open>eventually\<close> at \<open>at_bot\<close>), as no score lies below it. The definitions themselves take any
  arithmetic.

  \<^bold>\<open>Outside the repository, as arguments.\<close> The JSON and HTTP libraries, cuBLAS, the device's
  allocator and the order of its threads, clocks, random engines, \<open>std::nth_element\<close>, the file
  system. What a theorem needs of one of them is a hypothesis or a locale assumption with an
  instance.

  \<^bold>\<open>Not modelled.\<close> The text of a floating-point number is an argument wherever one is printed, and the
  counts of the benchmark are exact integers. The calls of the profiler inside the CUDA forward
  pass change no other state and are left out of it. The prefill attention and sampling kernels are empty files. The threads
  of \<open>Serving\<close> see each other's writes in the order of the steps: every shared flag of the engine
  is atomic in the code, the flag of the server is not. Rounding is kept wherever the definitions
  apply floating-point operations, but no error bound between the two backends is stated.
\<close>

end
